(* ===== verification/Prelude.thy ===== *)
theory Prelude
  imports Main "HOL-Library.Word"
begin

text \<open>
  The vocabulary every component shares.

  A Rust method is a state transformer whose result is one of four outcomes: it returns
  (\<open>Done\<close>), it panics and unwinds with the state it leaves behind (\<open>Panicked\<close>), it reads or
  writes memory that is not there (\<open>UB\<close>: undefined behaviour, nothing is said after it), or
  the model's fuel for a loop runs out (\<open>Timeout\<close>). The build that is modelled is the debug
  build: every \<open>debug_assert!\<close> is a check that panics and integer arithmetic panics on
  overflow. A theorem that an operation is \<open>Done\<close> says in particular that no assertion fires
  and no addition overflows, so that the release build computes the same.
\<close>

subsection \<open>Outcomes and programs\<close>

datatype panic = DebugAssert | ArithOverflow | PanicMsg string

datatype ('a, 's) outcome = Done 'a 's | Panicked panic 's | UB | Timeout

type_synonym ('s, 'a) prog = "'s \<Rightarrow> ('a, 's) outcome"

type_synonym u16 = "16 word"
type_synonym usize = "64 word"

definition ret :: "'a \<Rightarrow> ('s, 'a) prog" where
  "ret a = (\<lambda>s. Done a s)"

definition panicM :: "panic \<Rightarrow> ('s, 'a) prog" where
  "panicM e = (\<lambda>s. Panicked e s)"

definition bindM :: "('s, 'a) prog \<Rightarrow> ('a \<Rightarrow> ('s, 'b) prog) \<Rightarrow> ('s, 'b) prog" where
  "bindM m f = (\<lambda>s. case m s of Done a t \<Rightarrow> f a t | Panicked e t \<Rightarrow> Panicked e t
                               | UB \<Rightarrow> UB | Timeout \<Rightarrow> Timeout)"

definition thenM :: "('s, 'a) prog \<Rightarrow> ('s, 'b) prog \<Rightarrow> ('s, 'b) prog" where
  "thenM m n = bindM m (\<lambda>_. n)"

definition getM :: "('s \<Rightarrow> 'a) \<Rightarrow> ('s, 'a) prog" where
  "getM f = (\<lambda>s. Done (f s) s)"

definition modifyM :: "('s \<Rightarrow> 's) \<Rightarrow> ('s, unit) prog" where
  "modifyM f = (\<lambda>s. Done () (f s))"

definition debug_assert :: "bool \<Rightarrow> ('s, unit) prog" where
  "debug_assert b = (\<lambda>s. if b then Done () s else Panicked DebugAssert s)"

text \<open>A method of a component run on the place of a larger state that holds the component.\<close>

definition zoom :: "('s \<Rightarrow> 't) \<Rightarrow> ('t \<Rightarrow> 's \<Rightarrow> 's) \<Rightarrow> ('t, 'a) prog \<Rightarrow> ('s, 'a) prog" where
  "zoom get put m = (\<lambda>s. case m (get s) of Done a t \<Rightarrow> Done a (put t s)
       | Panicked e t \<Rightarrow> Panicked e (put t s) | UB \<Rightarrow> UB | Timeout \<Rightarrow> Timeout)"

text \<open>
  A drop guard: \<open>cleanup\<close> runs when \<open>m\<close> panics, during unwinding, and the panic goes on.
  (A guard that is forgotten with \<open>mem::forget\<close> on the normal path does nothing there.)
\<close>

definition on_unwind :: "('s, 'a) prog \<Rightarrow> ('s, unit) prog \<Rightarrow> ('s, 'a) prog" where
  "on_unwind m cleanup = (\<lambda>s. case m s of
       Panicked e t \<Rightarrow> (case cleanup t of Done _ u \<Rightarrow> Panicked e u | Panicked e' u \<Rightarrow> Panicked e' u
                        | UB \<Rightarrow> UB | Timeout \<Rightarrow> Timeout)
     | r \<Rightarrow> r)"

text \<open>A local variable whose destructor is \<open>d\<close>: it runs at the end of the scope, or during unwinding.\<close>

definition with_local :: "('s, unit) prog \<Rightarrow> ('s, 'a) prog \<Rightarrow> ('s, 'a) prog" where
  "with_local d m = bindM (on_unwind m d) (\<lambda>a. thenM d (ret a))"

text \<open>
  The loop \<open>while let Some(x) = m() { body(x) }\<close>, with fuel: each round spends one unit.
\<close>

fun while_let :: "nat \<Rightarrow> ('s, 'a option) prog \<Rightarrow> ('a \<Rightarrow> ('s, unit) prog) \<Rightarrow> ('s, unit) prog" where
  "while_let 0 m body = (\<lambda>s. Timeout)"
| "while_let (Suc n) m body = bindM m (\<lambda>r. case r of None \<Rightarrow> ret ()
      | Some x \<Rightarrow> thenM (body x) (while_let n m body))"

fun forM :: "'a list \<Rightarrow> ('a \<Rightarrow> ('s, unit) prog) \<Rightarrow> ('s, unit) prog" where
  "forM [] body = ret ()"
| "forM (x # xs) body = thenM (body x) (forM xs body)"

fun repeatM :: "nat \<Rightarrow> ('s, 'a) prog \<Rightarrow> ('s, unit) prog" where
  "repeatM 0 m = ret ()"
| "repeatM (Suc n) m = thenM m (repeatM n m)"

subsection \<open>Machine arithmetic of the debug build\<close>

definition checked_add :: "'a::len word \<Rightarrow> 'a word \<Rightarrow> ('s, 'a word) prog" where
  "checked_add x y = (if unat x + unat y < 2 ^ LENGTH('a) then ret (x + y) else panicM ArithOverflow)"

definition checked_sub :: "'a::len word \<Rightarrow> 'a word \<Rightarrow> ('s, 'a word) prog" where
  "checked_sub x y = (if unat y \<le> unat x then ret (x - y) else panicM ArithOverflow)"

subsection \<open>Evaluation\<close>

named_theorems prog_eval \<open>definitions of the program combinators\<close>

lemmas [prog_eval] = ret_def panicM_def bindM_def thenM_def getM_def modifyM_def debug_assert_def
  zoom_def on_unwind_def

lemma ret_apply [simp]: "ret a s = Done a s"
  by (simp add: ret_def)

lemma getM_apply [simp]: "getM f s = Done (f s) s"
  by (simp add: getM_def)

lemma modifyM_apply [simp]: "modifyM f s = Done () (f s)"
  by (simp add: modifyM_def)

lemma panicM_apply [simp]: "panicM e s = Panicked e s"
  by (simp add: panicM_def)

lemma debug_assert_True [simp]: "debug_assert True s = Done () s"
  by (simp add: debug_assert_def)

lemma debug_assert_False [simp]: "debug_assert False s = Panicked DebugAssert s"
  by (simp add: debug_assert_def)

lemma bindM_Done [simp]: "m s = Done a t \<Longrightarrow> bindM m f s = f a t"
  by (simp add: bindM_def)

lemma bindM_Panicked [simp]: "m s = Panicked e t \<Longrightarrow> bindM m f s = Panicked e t"
  by (simp add: bindM_def)

lemma bindM_UB [simp]: "m s = UB \<Longrightarrow> bindM m f s = UB"
  by (simp add: bindM_def)

lemma bindM_Timeout [simp]: "m s = Timeout \<Longrightarrow> bindM m f s = Timeout"
  by (simp add: bindM_def)

lemma thenM_Done [simp]: "m s = Done a t \<Longrightarrow> thenM m n s = n t"
  by (simp add: thenM_def)

lemma thenM_Panicked [simp]: "m s = Panicked e t \<Longrightarrow> thenM m n s = Panicked e t"
  by (simp add: thenM_def)

lemma thenM_UB [simp]: "m s = UB \<Longrightarrow> thenM m n s = UB"
  by (simp add: thenM_def)

lemma zoom_Done: "m (get s) = Done a t \<Longrightarrow> zoom get put m s = Done a (put t s)"
  by (simp add: zoom_def)

lemma zoom_Panicked: "m (get s) = Panicked e t \<Longrightarrow> zoom get put m s = Panicked e (put t s)"
  by (simp add: zoom_def)

lemma on_unwind_Done [simp]: "m s = Done a t \<Longrightarrow> on_unwind m c s = Done a t"
  by (simp add: on_unwind_def)

lemma on_unwind_Panicked: "m s = Panicked e t \<Longrightarrow> c t = Done () u \<Longrightarrow> on_unwind m c s = Panicked e u"
  by (simp add: on_unwind_def)

lemma bindM_eq_Done: "bindM m f s = Done b u \<longleftrightarrow> (\<exists>a t. m s = Done a t \<and> f a t = Done b u)"
  by (cases "m s") auto

lemma thenM_eq_Done: "thenM m n s = Done b u \<longleftrightarrow> (\<exists>a t. m s = Done a t \<and> n t = Done b u)"
  by (simp add: thenM_def bindM_eq_Done)

lemma checked_add_Done [simp]:
  fixes x y :: "'a::len word"
  shows "unat x + unat y < 2 ^ LENGTH('a) \<Longrightarrow> checked_add x y s = Done (x + y) s"
  by (simp add: checked_add_def)

lemma checked_sub_Done [simp]: "unat y \<le> unat x \<Longrightarrow> checked_sub x y s = Done (x - y) s"
  by (simp add: checked_sub_def)

subsection \<open>Total correctness with panics\<close>

text \<open>
  \<open>wp m Q E s\<close>: run from \<open>s\<close>, the program either returns and satisfies \<open>Q\<close>, or panics and
  satisfies \<open>E\<close>. It neither runs into undefined behaviour nor out of fuel.
\<close>

definition wp :: "('s, 'a) prog \<Rightarrow> ('a \<Rightarrow> 's \<Rightarrow> bool) \<Rightarrow> (panic \<Rightarrow> 's \<Rightarrow> bool) \<Rightarrow> 's \<Rightarrow> bool" where
  "wp m Q E s \<longleftrightarrow> (case m s of Done a t \<Rightarrow> Q a t | Panicked e t \<Rightarrow> E e t | UB \<Rightarrow> False | Timeout \<Rightarrow> False)"

lemma wp_Done: "m s = Done a t \<Longrightarrow> wp m Q E s \<longleftrightarrow> Q a t"
  by (simp add: wp_def)

lemma wp_cong: "m s = n s \<Longrightarrow> wp m Q E s \<longleftrightarrow> wp n Q E s"
  by (simp add: wp_def)

lemma wp_ret [simp]: "wp (ret a) Q E s \<longleftrightarrow> Q a s"
  by (simp add: wp_Done)

lemma wp_panicM [simp]: "wp (panicM e) Q E s \<longleftrightarrow> E e s"
  by (simp add: wp_def)

lemma wp_bindM: "wp (bindM m f) Q E s \<longleftrightarrow> wp m (\<lambda>a t. wp (f a) Q E t) E s"
  by (cases "m s") (simp_all add: wp_def)

lemma wp_thenM: "wp (thenM m n) Q E s \<longleftrightarrow> wp m (\<lambda>_ t. wp n Q E t) E s"
  by (simp add: thenM_def wp_bindM)

lemma wp_debug_assert: "b \<Longrightarrow> wp (debug_assert b) Q E s \<longleftrightarrow> Q () s"
  by (simp add: wp_def)

lemma wp_zoom:
  "wp (zoom get put m) Q E s \<longleftrightarrow> wp m (\<lambda>a t. Q a (put t s)) (\<lambda>e t. E e (put t s)) (get s)"
  by (cases "m (get s)") (simp_all add: wp_def zoom_def)

lemma wp_on_unwind:
  "wp (on_unwind m c) Q E s \<longleftrightarrow> wp m Q (\<lambda>e t. wp c (\<lambda>_ u. E e u) E t) s"
proof (cases "m s")
  case (Panicked e t)
  then show ?thesis by (cases "c t") (simp_all add: wp_def on_unwind_def)
qed (simp_all add: wp_def on_unwind_def)

lemma with_local_Done: "m s = Done a t \<Longrightarrow> d t = Done () u \<Longrightarrow> with_local d m s = Done a u"
  by (simp add: with_local_def)

lemma with_local_Panicked: "m s = Panicked e t \<Longrightarrow> d t = Done () u \<Longrightarrow> with_local d m s = Panicked e u"
  by (simp add: with_local_def on_unwind_def)

lemma wp_with_local:
  "wp (with_local d m) Q E s \<longleftrightarrow> wp m (\<lambda>a t. wp d (\<lambda>_ u. Q a u) E t) (\<lambda>e t. wp d (\<lambda>_ u. E e u) E t) s"
  by (simp add: with_local_def wp_bindM wp_thenM wp_on_unwind)

lemma wp_conseq:
  "wp m Q E s \<Longrightarrow> (\<And>a t. Q a t \<Longrightarrow> Q' a t) \<Longrightarrow> (\<And>e t. E e t \<Longrightarrow> E' e t) \<Longrightarrow> wp m Q' E' s"
  by (cases "m s") (auto simp: wp_def)

lemma wp_DoneI: "\<exists>t. m s = Done a t \<and> Q a t \<Longrightarrow> wp m Q E s"
  by (auto simp: wp_def)

lemma wp_no_panic: "wp m Q (\<lambda>_ _. False) s \<longleftrightarrow> (\<exists>a t. m s = Done a t \<and> Q a t)"
  by (cases "m s") (simp_all add: wp_def)

text \<open>
  The loop rule: an invariant over a ghost value that every round decreases in a measure. Any
  fuel above the measure is enough.
\<close>

lemma wp_while_let:
  assumes "I g s" "\<mu> g < n"
    and step: "\<And>g s. I g s \<Longrightarrow> wp m (\<lambda>r t. case r of None \<Rightarrow> Q () t
        | Some x \<Rightarrow> wp (body x) (\<lambda>_ u. \<exists>g'. I g' u \<and> \<mu> g' < \<mu> g) E t) E s"
  shows "wp (while_let n m body) Q E s"
  using assms(1,2)
proof (induction n arbitrary: g s)
  case 0
  then show ?case by simp
next
  case (Suc n)
  have "wp m (\<lambda>r t. wp (case r of None \<Rightarrow> ret () | Some x \<Rightarrow> thenM (body x) (while_let n m body)) Q E t) E s"
    using step [OF Suc.prems(1)]
  proof (rule wp_conseq)
    fix r t
    assume r: "case r of None \<Rightarrow> Q () t | Some x \<Rightarrow> wp (body x) (\<lambda>_ u. \<exists>g'. I g' u \<and> \<mu> g' < \<mu> g) E t"
    show "wp (case r of None \<Rightarrow> ret () | Some x \<Rightarrow> thenM (body x) (while_let n m body)) Q E t"
    proof (cases r)
      case None
      with r show ?thesis by simp
    next
      case (Some x)
      with r have "wp (body x) (\<lambda>_ u. \<exists>g'. I g' u \<and> \<mu> g' < \<mu> g) E t" by simp
      then have "wp (body x) (\<lambda>_. wp (while_let n m body) Q E) E t"
        by (rule wp_conseq) (use Suc.IH Suc.prems(2) in fastforce, assumption)
      with Some show ?thesis by (simp add: wp_thenM)
    qed
  qed
  then show ?case by (simp add: wp_bindM)
qed

lemma wp_forM_Cons: "wp (forM (x # xs) body) Q E s \<longleftrightarrow> wp (body x) (\<lambda>_. wp (forM xs body) Q E) E s"
  by (simp add: wp_thenM)

lemma while_let_None: "m s = Done None t \<Longrightarrow> while_let (Suc n) m body s = Done () t"
  by simp

lemma while_let_Some:
  "m s = Done (Some x) t \<Longrightarrow> body x t = Done () u \<Longrightarrow> while_let (Suc n) m body s = while_let n m body u"
  by simp

lemma while_let_more_fuel:
  "while_let n m body s = Done () t \<Longrightarrow> while_let (Suc n) m body s = Done () t"
proof (induction n arbitrary: s)
  case 0
  then show ?case by simp
next
  case (Suc n)
  from Suc.prems obtain r u where r: "m s = Done r u"
    by (auto simp: bindM_eq_Done)
  show ?case
  proof (cases r)
    case None
    with Suc.prems r show ?thesis by simp
  next
    case (Some x)
    with Suc.prems r obtain v where v: "body x u = Done () v" "while_let n m body v = Done () t"
      by (auto simp: thenM_eq_Done)
    with Suc.IH have "while_let (Suc n) m body v = Done () t" by blast
    with r Some v(1) show ?thesis by (simp del: while_let.simps add: while_let.simps(2) [of "Suc n"])
  qed
qed

subsection \<open>Lists and sums\<close>

lemma remove1_append_middle [simp]:
  "x \<notin> set xs \<Longrightarrow> remove1 x (xs @ x # ys) = xs @ ys"
  by (induction xs) auto

lemma sum_list_map_eq_sum_set: "distinct xs \<Longrightarrow> sum_list (map f xs) = sum f (set xs)"
  by (rule sum_list_distinct_conv_sum_set)

end
