(* ===== verification/Bounded_Counter.thy ===== *)
theory Bounded_Counter
  imports Prelude
begin

text \<open>
  The interface the reference, tracing and weak counters share: a counter packed beside other
  fields, which counts up to a maximum, reports an overflow instead of leaving its range in
  either direction, and never touches the fields beside it.
\<close>

locale bounded_counter =
  fixes get :: "'s \<Rightarrow> nat"
    and rest :: "'s \<Rightarrow> 'r"
    and inc :: "('s, 'e + unit) prog"
    and dec :: "('s, 'e + unit) prog"
    and overflow :: 'e
    and max_value :: nat
    and valid :: "'s \<Rightarrow> bool"
  assumes get_le: "valid s \<Longrightarrow> get s \<le> max_value"
    and inc_ok: "valid s \<Longrightarrow> get s < max_value \<Longrightarrow>
      \<exists>t. inc s = Done (Inr ()) t \<and> valid t \<and> get t = get s + 1 \<and> rest t = rest s"
    and inc_full: "valid s \<Longrightarrow> get s = max_value \<Longrightarrow> inc s = Done (Inl overflow) s"
    and dec_ok: "valid s \<Longrightarrow> 0 < get s \<Longrightarrow>
      \<exists>t. dec s = Done (Inr ()) t \<and> valid t \<and> get t = get s - 1 \<and> rest t = rest s"
    and dec_zero: "valid s \<Longrightarrow> get s = 0 \<Longrightarrow> dec s = Done (Inl overflow) s"
    and determined: "get s = get t \<Longrightarrow> rest s = rest t \<Longrightarrow> s = t"
begin

lemma inc_total:
  assumes "valid s"
  shows "\<exists>r t. inc s = Done r t \<and> valid t \<and> rest t = rest s \<and> get t = min max_value (get s + 1)
           \<and> (r = Inl overflow \<longleftrightarrow> get s = max_value)"
proof (cases "get s = max_value")
  case True
  with inc_full [OF assms] assms show ?thesis by auto
next
  case False
  with get_le [OF assms] have "get s < max_value" by simp
  with inc_ok [OF assms] show ?thesis by force
qed

lemma inc_then_dec:
  assumes "valid s" "get s < max_value"
  shows "\<exists>t. inc s = Done (Inr ()) t \<and> dec t = Done (Inr ()) s"
proof -
  from inc_ok [OF assms] obtain t where t: "inc s = Done (Inr ()) t" "valid t"
    "get t = get s + 1" "rest t = rest s" by blast
  with dec_ok [of t] obtain u where "dec t = Done (Inr ()) u" "get u = get s" "rest u = rest s"
    by auto
  with determined [of u s] t(1) show ?thesis by auto
qed

lemma dec_then_inc:
  assumes "valid s" "0 < get s"
  shows "\<exists>t. dec s = Done (Inr ()) t \<and> inc t = Done (Inr ()) s"
proof -
  from dec_ok [OF assms] obtain t where t: "dec s = Done (Inr ()) t" "valid t"
    "get t = get s - 1" "rest t = rest s" by blast
  from assms get_le [OF assms(1)] t(3) have "get t < max_value" by simp
  with inc_ok [OF t(2)] obtain u where "inc t = Done (Inr ()) u" "get u = get s" "rest u = rest s"
    using t assms(2) by auto
  with determined [of u s] t(1) show ?thesis by auto
qed

text \<open>Any number of increments saturates at the maximum: the counter never wraps around.\<close>

lemma repeat_inc:
  "valid s \<Longrightarrow> \<exists>t. repeatM n inc s = Done () t \<and> valid t \<and> rest t = rest s
     \<and> get t = min max_value (get s + n)"
proof (induction n arbitrary: s)
  case 0
  with get_le show ?case by simp
next
  case (Suc n)
  from inc_total [OF Suc.prems] obtain r t where t: "inc s = Done r t" "valid t" "rest t = rest s"
    "get t = min max_value (get s + 1)" by blast
  with Suc.IH [OF t(2)] show ?case by auto
qed

lemma repeat_dec:
  "valid s \<Longrightarrow> \<exists>t. repeatM n dec s = Done () t \<and> valid t \<and> rest t = rest s \<and> get t = get s - n"
proof (induction n arbitrary: s)
  case 0
  then show ?case by simp
next
  case (Suc n)
  have "\<exists>r t. dec s = Done r t \<and> valid t \<and> rest t = rest s \<and> get t = get s - 1"
    using Suc.prems dec_ok [of s] dec_zero [of s] by (cases "get s = 0") force+
  then obtain r t where t: "dec s = Done r t" "valid t" "rest t = rest s" "get t = get s - 1"
    by blast
  with Suc.IH [OF t(2)] show ?case by auto
qed

end

end
