(* ===== verification/Counter_Marker.thy ===== *)
theory Counter_Marker
  imports Bounded_Counter
begin

unbundle bit_operations_syntax

text \<open>
  The packed counters of a \<open>CcBox\<close>: \<open>src/src/counter_marker.rs\<close>.

  Two 16-bit cells hold the mark (2 bits) and the tracing counter (14 bits), and the metadata
  flag, the finalized flag and the reference counter (14 bits). Every method is translated on
  the raw words with the masks of the source, its debug assertions included. The second half of
  the theory reads the two words as a record of separate fields (\<open>cm_view\<close>) and shows that each
  method acts on its own field and leaves the others as they are.
\<close>

subsection \<open>Constants\<close>

definition NON_MARKED :: u16 where "NON_MARKED = 0"
definition IN_POSSIBLE_CYCLES :: u16 where "IN_POSSIBLE_CYCLES = push_bit 14 1"
definition IN_LIST :: u16 where "IN_LIST = push_bit 14 2"
definition IN_QUEUE :: u16 where "IN_QUEUE = push_bit 14 3"

definition COUNTER_MASK :: u16 where "COUNTER_MASK = 0b11111111111111"
definition FIRST_BIT_MASK :: u16 where "FIRST_BIT_MASK = push_bit 15 1"
definition FINALIZED_MASK :: u16 where "FINALIZED_MASK = push_bit 14 1"
definition BITS_MASK :: u16 where "BITS_MASK = NOT COUNTER_MASK"

definition INITIAL_VALUE :: u16 where "INITIAL_VALUE = 1"
definition INITIAL_VALUE_TRACING_COUNTER :: u16 where
  "INITIAL_VALUE_TRACING_COUNTER = INITIAL_VALUE OR NON_MARKED"
definition INITIAL_VALUE_FINALIZED :: u16 where
  "INITIAL_VALUE_FINALIZED = INITIAL_VALUE OR FINALIZED_MASK"

definition MAX_COUNT :: u16 where "MAX_COUNT = COUNTER_MASK - 1"

named_theorems cm_consts \<open>the constants of counter_marker.rs as numerals\<close>

lemma NON_MARKED_num [cm_consts]: "NON_MARKED = 0" by (simp add: NON_MARKED_def)
lemma IN_POSSIBLE_CYCLES_num [cm_consts]: "IN_POSSIBLE_CYCLES = 16384"
  by (simp add: IN_POSSIBLE_CYCLES_def)
lemma IN_LIST_num [cm_consts]: "IN_LIST = 32768" by (simp add: IN_LIST_def)
lemma IN_QUEUE_num [cm_consts]: "IN_QUEUE = 49152" by (simp add: IN_QUEUE_def)
lemma COUNTER_MASK_num [cm_consts]: "COUNTER_MASK = 16383" by (simp add: COUNTER_MASK_def)
lemma FIRST_BIT_MASK_num [cm_consts]: "FIRST_BIT_MASK = 32768" by (simp add: FIRST_BIT_MASK_def)
lemma FINALIZED_MASK_num [cm_consts]: "FINALIZED_MASK = 16384" by (simp add: FINALIZED_MASK_def)
lemma BITS_MASK_num [cm_consts]: "BITS_MASK = 49152" by (simp add: BITS_MASK_def COUNTER_MASK_def)
lemma MAX_COUNT_num [cm_consts]: "MAX_COUNT = 16382" by (simp add: MAX_COUNT_def COUNTER_MASK_def)
lemma INITIAL_num [cm_consts]: "INITIAL_VALUE = 1" "INITIAL_VALUE_TRACING_COUNTER = 1"
  "INITIAL_VALUE_FINALIZED = 16385"
  by (simp_all add: INITIAL_VALUE_def INITIAL_VALUE_TRACING_COUNTER_def INITIAL_VALUE_FINALIZED_def
      NON_MARKED_def FINALIZED_MASK_def)

subsection \<open>Data\<close>

datatype mark = NonMarked | PossibleCycles | InList | InQueue

fun mark_as_u16 :: "mark \<Rightarrow> u16" where
  "mark_as_u16 NonMarked = NON_MARKED"
| "mark_as_u16 PossibleCycles = IN_POSSIBLE_CYCLES"
| "mark_as_u16 InList = IN_LIST"
| "mark_as_u16 InQueue = IN_QUEUE"

record counter_marker =
  tracing_counter_cell :: u16
  counter_cell :: u16

datatype overflow_error = OverflowError

subsection \<open>Methods\<close>

definition new_with_counter_to_one :: "bool \<Rightarrow> counter_marker" where
  "new_with_counter_to_one already_finalized =
     \<lparr>tracing_counter_cell = INITIAL_VALUE_TRACING_COUNTER,
      counter_cell = (if \<not> already_finalized then INITIAL_VALUE else INITIAL_VALUE_FINALIZED)\<rparr>"

definition counter :: "(counter_marker, u16) prog" where
  "counter = bindM (getM (\<lambda>cm. counter_cell cm AND COUNTER_MASK)) (\<lambda>rc.
     thenM (debug_assert (rc \<noteq> COUNTER_MASK)) (ret rc))"

definition tracing_counter :: "(counter_marker, u16) prog" where
  "tracing_counter = bindM (getM (\<lambda>cm. tracing_counter_cell cm AND COUNTER_MASK)) (\<lambda>tc.
     thenM (debug_assert (tc \<noteq> COUNTER_MASK)) (ret tc))"

definition set_counter_cell :: "u16 \<Rightarrow> (counter_marker, unit) prog" where
  "set_counter_cell v = modifyM (\<lambda>cm. cm\<lparr>counter_cell := v\<rparr>)"

definition set_tracing_counter_cell :: "u16 \<Rightarrow> (counter_marker, unit) prog" where
  "set_tracing_counter_cell v = modifyM (\<lambda>cm. cm\<lparr>tracing_counter_cell := v\<rparr>)"

definition increment_counter :: "(counter_marker, overflow_error + unit) prog" where
  "increment_counter =
     bindM counter (\<lambda>a. thenM (debug_assert (a \<noteq> COUNTER_MASK))
     (bindM counter (\<lambda>c. if c = MAX_COUNT then ret (Inl OverflowError)
       else bindM (getM counter_cell) (\<lambda>v. bindM (checked_add v 1) (\<lambda>v'.
            thenM (set_counter_cell v') (ret (Inr ())))))))"

definition decrement_counter :: "(counter_marker, overflow_error + unit) prog" where
  "decrement_counter =
     bindM counter (\<lambda>a. thenM (debug_assert (a \<noteq> COUNTER_MASK))
     (bindM counter (\<lambda>c. if c = 0 then ret (Inl OverflowError)
       else bindM (getM counter_cell) (\<lambda>v. bindM (checked_sub v 1) (\<lambda>v'.
            thenM (set_counter_cell v') (ret (Inr ())))))))"

definition increment_tracing_counter :: "(counter_marker, overflow_error + unit) prog" where
  "increment_tracing_counter =
     bindM tracing_counter (\<lambda>a. thenM (debug_assert (a \<noteq> COUNTER_MASK))
     (bindM tracing_counter (\<lambda>c. if c = MAX_COUNT then ret (Inl OverflowError)
       else bindM (getM tracing_counter_cell) (\<lambda>v. bindM (checked_add v 1) (\<lambda>v'.
            thenM (set_tracing_counter_cell v') (ret (Inr ())))))))"

definition decrement_tracing_counter :: "(counter_marker, overflow_error + unit) prog" where
  "decrement_tracing_counter =
     bindM tracing_counter (\<lambda>a. thenM (debug_assert (a \<noteq> COUNTER_MASK))
     (bindM tracing_counter (\<lambda>c. if c = 0 then ret (Inl OverflowError)
       else bindM (getM tracing_counter_cell) (\<lambda>v. bindM (checked_sub v 1) (\<lambda>v'.
            thenM (set_tracing_counter_cell v') (ret (Inr ())))))))"

definition reset_tracing_counter :: "(counter_marker, unit) prog" where
  "reset_tracing_counter =
     bindM tracing_counter (\<lambda>a. thenM (debug_assert (a \<noteq> COUNTER_MASK))
       (modifyM (\<lambda>cm. cm\<lparr>tracing_counter_cell := tracing_counter_cell cm AND NOT COUNTER_MASK\<rparr>)))"

definition set_bits :: "u16 \<Rightarrow> bool \<Rightarrow> u16 \<Rightarrow> u16" where
  "set_bits cell value msk = (if value then cell OR msk else cell AND NOT msk)"

definition needs_finalization :: "counter_marker \<Rightarrow> bool" where
  "needs_finalization cm \<longleftrightarrow> counter_cell cm AND FINALIZED_MASK = 0"

definition set_finalized :: "bool \<Rightarrow> counter_marker \<Rightarrow> counter_marker" where
  "set_finalized finalized cm = cm\<lparr>counter_cell := set_bits (counter_cell cm) finalized FINALIZED_MASK\<rparr>"

definition has_allocated_for_metadata :: "counter_marker \<Rightarrow> bool" where
  "has_allocated_for_metadata cm \<longleftrightarrow> counter_cell cm AND FIRST_BIT_MASK = FIRST_BIT_MASK"

definition set_allocated_for_metadata :: "bool \<Rightarrow> counter_marker \<Rightarrow> counter_marker" where
  "set_allocated_for_metadata allocated_for_metadata cm =
     cm\<lparr>counter_cell := set_bits (counter_cell cm) allocated_for_metadata FIRST_BIT_MASK\<rparr>"

definition is_dropped :: "counter_marker \<Rightarrow> bool" where
  "is_dropped cm \<longleftrightarrow> tracing_counter_cell cm AND COUNTER_MASK = COUNTER_MASK"

definition set_dropped :: "bool \<Rightarrow> counter_marker \<Rightarrow> counter_marker" where
  "set_dropped dropped cm =
     cm\<lparr>tracing_counter_cell := set_bits (tracing_counter_cell cm) dropped COUNTER_MASK\<rparr>"

definition is_not_marked :: "counter_marker \<Rightarrow> bool" where
  "is_not_marked cm \<longleftrightarrow> tracing_counter_cell cm AND FIRST_BIT_MASK = 0"

definition is_in_possible_cycles :: "counter_marker \<Rightarrow> bool" where
  "is_in_possible_cycles cm \<longleftrightarrow> tracing_counter_cell cm AND BITS_MASK = IN_POSSIBLE_CYCLES"

definition is_in_list :: "counter_marker \<Rightarrow> bool" where
  "is_in_list cm \<longleftrightarrow> tracing_counter_cell cm AND BITS_MASK = IN_LIST"

definition is_in_queue :: "counter_marker \<Rightarrow> bool" where
  "is_in_queue cm \<longleftrightarrow> tracing_counter_cell cm AND BITS_MASK = IN_QUEUE"

definition is_in_list_or_queue :: "counter_marker \<Rightarrow> bool" where
  "is_in_list_or_queue cm \<longleftrightarrow> tracing_counter_cell cm AND FIRST_BIT_MASK = FIRST_BIT_MASK"

definition mark :: "mark \<Rightarrow> counter_marker \<Rightarrow> counter_marker" where
  "mark new_mark cm = cm\<lparr>tracing_counter_cell :=
     (tracing_counter_cell cm AND NOT BITS_MASK) OR mark_as_u16 new_mark\<rparr>"



subsection \<open>The fields of the two words\<close>

lemma low_lt: "unat (take_bit 14 x) < 16384" for x :: u16
  using take_bit_nat_less_exp [of 14 "unat x"] by (simp add: unsigned_take_bit_eq)

lemma low_unat: "unat (take_bit 14 x) = unat x mod 16384" for x :: u16
  by (simp add: unsigned_take_bit_eq) (simp add: take_bit_eq_mod)

lemma bit_high_unat:
  fixes x :: u16
  shows "bit x 14 \<longleftrightarrow> odd (unat x div 16384)" "bit x 15 \<longleftrightarrow> odd (unat x div 16384 div 2)"
proof -
  have "bit (unat x) 14 = bit x 14" "bit (unat x) 15 = bit x 15"
    by (simp_all add: bit_unsigned_iff)
  then show "bit x 14 \<longleftrightarrow> odd (unat x div 16384)" "bit x 15 \<longleftrightarrow> odd (unat x div 16384 div 2)"
    by (simp_all add: bit_iff_odd div_mult2_eq [symmetric])
qed

lemma unat_lt: "unat x < 65536" for x :: u16
  using unsigned_less [of x, where 'a=nat] by simp

lemma suc_div: "n mod 16384 \<noteq> 16383 \<Longrightarrow> (n + 1) div 16384 = n div 16384 \<and> (n + 1) mod 16384 = n mod 16384 + 1" for n :: nat
  by (simp add: div_Suc mod_Suc)
lemma pred_div: "n mod 16384 \<noteq> 0 \<Longrightarrow> (n - 1) div 16384 = n div 16384 \<and> (n - 1) mod 16384 = n mod 16384 - 1" for n :: nat
  using suc_div [of "n - 1"] by (cases n) (auto simp: mod_Suc split: if_splits)

lemma incr_low:
  fixes x :: u16
  assumes "unat (take_bit 14 x) \<noteq> 16383"
  shows "unat x + 1 < 65536" "unat (take_bit 14 (x + 1)) = unat (take_bit 14 x) + 1"
    "bit (x + 1) 14 = bit x 14" "bit (x + 1) 15 = bit x 15"
proof -
  from assms have m: "unat x mod 16384 \<noteq> 16383" by (simp add: low_unat)
  show lt: "unat x + 1 < 65536"
  proof (rule ccontr)
    assume "\<not> ?thesis"
    with unat_lt [of x] have "unat x = 65535" by linarith
    with m show False by simp
  qed
  then have "unat (x + 1) = unat x + 1" by (simp add: unat_word_ariths)
  with suc_div [OF m] show "unat (take_bit 14 (x + 1)) = unat (take_bit 14 x) + 1"
    "bit (x + 1) 14 = bit x 14" "bit (x + 1) 15 = bit x 15"
    by (simp_all add: low_unat bit_high_unat)
qed

lemma decr_low:
  fixes x :: u16
  assumes "unat (take_bit 14 x) \<noteq> 0"
  shows "1 \<le> unat x" "unat (take_bit 14 (x - 1)) = unat (take_bit 14 x) - 1"
    "bit (x - 1) 14 = bit x 14" "bit (x - 1) 15 = bit x 15"
proof -
  from assms have m: "unat x mod 16384 \<noteq> 0" by (simp add: low_unat)
  then show ge: "1 \<le> unat x" by (cases "unat x") auto
  then have "1 \<le> x" by (simp add: word_le_nat_alt)
  then have "unat (x - 1) = unat x - 1" by (simp add: unat_sub)
  with pred_div [OF m] show "unat (take_bit 14 (x - 1)) = unat (take_bit 14 x) - 1"
    "bit (x - 1) 14 = bit x 14" "bit (x - 1) 15 = bit x 15"
    by (simp_all add: low_unat bit_high_unat)
qed

lemma and_counter_mask: "x AND COUNTER_MASK = take_bit 14 x" for x :: u16
  by (simp add: take_bit_eq_mask COUNTER_MASK_num mask_eq_exp_minus_1)

lemma and_single: "x AND push_bit n 1 = (if bit x n then push_bit n 1 else 0)" for x :: u16
  by (rule bit_eqI) (auto simp: bit_simps)

lemma mask_14: "mask 14 = (16383 :: u16)"
  by (simp add: mask_eq_exp_minus_1)

lemma bit_masks:
  "bit COUNTER_MASK n \<longleftrightarrow> n < 14" "bit FIRST_BIT_MASK n \<longleftrightarrow> n = 15" "bit FINALIZED_MASK n \<longleftrightarrow> n = 14"
proof -
  have "bit (mask 14 :: u16) n \<longleftrightarrow> n < 14" by (auto simp only: bit_mask_iff) auto
  then show "bit COUNTER_MASK n \<longleftrightarrow> n < 14" by (simp only: COUNTER_MASK_num mask_14)
  show "bit FIRST_BIT_MASK n \<longleftrightarrow> n = 15"
    unfolding FIRST_BIT_MASK_def by (auto simp only: bit_push_bit_iff bit_1_iff) auto
  show "bit FINALIZED_MASK n \<longleftrightarrow> n = 14"
    unfolding FINALIZED_MASK_def by (auto simp only: bit_push_bit_iff bit_1_iff) auto
qed

lemma bit_set_bits:
  "bit (set_bits x b msk) n \<longleftrightarrow> (if b then bit x n \<or> bit msk n else bit x n \<and> \<not> bit msk n)" for x :: u16
proof (cases b)
  case False
  have "bit x n \<Longrightarrow> n < 16" using bit_imp_le_length [of x n] by simp
  with False show ?thesis by (auto simp: set_bits_def bit_and_iff bit_not_iff)
qed (simp add: set_bits_def bit_or_iff)

lemma take_bit_eqI:
  "(\<And>n. n < 14 \<Longrightarrow> bit x n = bit y n) \<Longrightarrow> take_bit 14 x = take_bit 14 y" for x y :: u16
  by (rule bit_eqI) (auto simp only: bit_take_bit_iff)

lemma and_first_bit:
  fixes x :: u16 shows "x AND FIRST_BIT_MASK = (if bit x 15 then FIRST_BIT_MASK else 0)"
  unfolding FIRST_BIT_MASK_def by (rule and_single)
lemma and_finalized:
  fixes x :: u16 shows "x AND FINALIZED_MASK = (if bit x 14 then FINALIZED_MASK else 0)"
  unfolding FINALIZED_MASK_def by (rule and_single)
lemma and_bits_mask:
  fixes x :: u16
  shows "x AND BITS_MASK = (if bit x 15 then 32768 else 0) OR (if bit x 14 then 16384 else 0)"
proof -
  have m: "BITS_MASK = FIRST_BIT_MASK OR FINALIZED_MASK"
    by (simp add: cm_consts)
  show ?thesis
    unfolding m bit.conj_disj_distrib and_first_bit and_finalized by (simp add: cm_consts)
qed
lemma view_set_finalized_bits:
  fixes x :: u16
  shows "bit (set_bits x b FINALIZED_MASK) 14 = b" "bit (set_bits x b FINALIZED_MASK) 15 = bit x 15"
    "take_bit 14 (set_bits x b FINALIZED_MASK) = take_bit 14 x"
  by (auto simp only: bit_set_bits bit_masks split: if_splits intro!: take_bit_eqI)

lemma view_set_meta_bits:
  fixes x :: u16
  shows "bit (set_bits x b FIRST_BIT_MASK) 15 = b" "bit (set_bits x b FIRST_BIT_MASK) 14 = bit x 14"
    "take_bit 14 (set_bits x b FIRST_BIT_MASK) = take_bit 14 x"
  by (auto simp only: bit_set_bits bit_masks split: if_splits intro!: take_bit_eqI)

lemma view_set_dropped_bits:
  fixes x :: u16
  shows "bit (set_bits x b COUNTER_MASK) 15 = bit x 15" "bit (set_bits x b COUNTER_MASK) 14 = bit x 14"
    "unat (take_bit 14 (set_bits x b COUNTER_MASK)) = (if b then 16383 else 0)"
proof -
  show "bit (set_bits x b COUNTER_MASK) 15 = bit x 15" "bit (set_bits x b COUNTER_MASK) 14 = bit x 14"
    by (auto simp only: bit_set_bits bit_masks split: if_splits)
  have "take_bit 14 (set_bits x b COUNTER_MASK) = take_bit 14 (if b then COUNTER_MASK else 0)"
    by (rule take_bit_eqI) (simp add: bit_set_bits bit_masks)
  then show "unat (take_bit 14 (set_bits x b COUNTER_MASK)) = (if b then 16383 else 0)"
    by (simp add: COUNTER_MASK_num)
qed

lemma view_mark_bits:
  fixes x :: u16
  shows "bit ((x AND NOT BITS_MASK) OR mark_as_u16 m) 15 = (m = InList \<or> m = InQueue)" 
   "bit ((x AND NOT BITS_MASK) OR mark_as_u16 m) 14 = (m = PossibleCycles \<or> m = InQueue)" 
   "take_bit 14 ((x AND NOT BITS_MASK) OR mark_as_u16 m) = take_bit 14 x"
proof -
  have nb: "x AND NOT BITS_MASK = take_bit 14 x" by (simp add: BITS_MASK_def and_counter_mask)
  show "bit ((x AND NOT BITS_MASK) OR mark_as_u16 m) 15 = (m = InList \<or> m = InQueue)" 
   "bit ((x AND NOT BITS_MASK) OR mark_as_u16 m) 14 = (m = PossibleCycles \<or> m = InQueue)" 
   "take_bit 14 ((x AND NOT BITS_MASK) OR mark_as_u16 m) = take_bit 14 x"
    unfolding nb by (cases m; simp add: cm_consts bit_take_bit_iff bit_or_iff)+
qed

subsection \<open>Reading the words as a record\<close>

record cm_view =
  v_mark :: mark
  v_tc :: nat
  v_meta :: bool
  v_fin :: bool
  v_rc :: nat

definition mark_of_bits :: "bool \<Rightarrow> bool \<Rightarrow> mark" where
  "mark_of_bits hi lo = (if hi then (if lo then InQueue else InList)
                         else (if lo then PossibleCycles else NonMarked))"

definition view :: "counter_marker \<Rightarrow> cm_view" where
  "view cm = \<lparr>v_mark = mark_of_bits (bit (tracing_counter_cell cm) 15) (bit (tracing_counter_cell cm) 14),
     v_tc = unat (take_bit 14 (tracing_counter_cell cm)),
     v_meta = bit (counter_cell cm) 15, v_fin = bit (counter_cell cm) 14,
     v_rc = unat (take_bit 14 (counter_cell cm))\<rparr>"

lemma view_sel:
  "v_mark (view cm) = mark_of_bits (bit (tracing_counter_cell cm) 15) (bit (tracing_counter_cell cm) 14)"
  "v_tc (view cm) = unat (take_bit 14 (tracing_counter_cell cm))"
  "v_meta (view cm) = bit (counter_cell cm) 15"
  "v_fin (view cm) = bit (counter_cell cm) 14"
  "v_rc (view cm) = unat (take_bit 14 (counter_cell cm))"
  by (simp_all add: view_def)

lemma view_bounds: "v_tc (view cm) \<le> 16383" "v_rc (view cm) \<le> 16383"
  using low_lt [of "tracing_counter_cell cm"] low_lt [of "counter_cell cm"] by (simp_all add: view_sel)

text \<open>The two words hold nothing else: a marker is determined by its fields.\<close>

lemma u16_fields_eqI:
  fixes x y :: u16
  assumes "take_bit 14 x = take_bit 14 y" "bit x 14 = bit y 14" "bit x 15 = bit y 15"
  shows "x = y"
proof (rule bit_word_eqI)
  fix n assume "n < LENGTH(16)"
  then have "n < 14 \<or> n = 14 \<or> n = 15" by auto
  with assms show "bit x n \<longleftrightarrow> bit y n"
    by (metis bit_take_bit_iff)
qed

lemma mark_of_bits_eq: "mark_of_bits a b = mark_of_bits c d \<longleftrightarrow> a = c \<and> b = d"
  by (auto simp: mark_of_bits_def)

lemma view_inject: "view a = view b \<longleftrightarrow> a = b"
proof
  assume eq: "view a = view b"
  have "take_bit 14 (tracing_counter_cell a) = take_bit 14 (tracing_counter_cell b)"
    "take_bit 14 (counter_cell a) = take_bit 14 (counter_cell b)"
    using arg_cong [OF eq, of v_tc] arg_cong [OF eq, of v_rc]
    by (simp_all only: view_sel word_unat_eq_iff)
  moreover have "bit (counter_cell a) 14 = bit (counter_cell b) 14"
    "bit (counter_cell a) 15 = bit (counter_cell b) 15"
    using arg_cong [OF eq, of v_fin] arg_cong [OF eq, of v_meta] by (simp_all only: view_sel)
  moreover have "bit (tracing_counter_cell a) 15 = bit (tracing_counter_cell b) 15"
    "bit (tracing_counter_cell a) 14 = bit (tracing_counter_cell b) 14"
    using arg_cong [OF eq, of v_mark] by (simp_all only: view_sel mark_of_bits_eq)
  ultimately have "tracing_counter_cell a = tracing_counter_cell b" "counter_cell a = counter_cell b"
    by (blast intro: u16_fields_eqI)+
  then show "a = b" by (cases a; cases b) simp
qed simp

subsection \<open>What each method does to the fields\<close>

named_theorems cm_tests \<open>the flag tests read the fields\<close>
named_theorems cm_upd \<open>the field-wise effect of the setters\<close>

lemma test_view [cm_tests]:
  "is_not_marked cm \<longleftrightarrow> v_mark (view cm) = NonMarked \<or> v_mark (view cm) = PossibleCycles"
  "is_in_possible_cycles cm \<longleftrightarrow> v_mark (view cm) = PossibleCycles"
  "is_in_list cm \<longleftrightarrow> v_mark (view cm) = InList"
  "is_in_queue cm \<longleftrightarrow> v_mark (view cm) = InQueue"
  "is_in_list_or_queue cm \<longleftrightarrow> v_mark (view cm) = InList \<or> v_mark (view cm) = InQueue"
  "needs_finalization cm \<longleftrightarrow> \<not> v_fin (view cm)"
  "has_allocated_for_metadata cm \<longleftrightarrow> v_meta (view cm)"
  by (simp_all add: is_not_marked_def is_in_possible_cycles_def is_in_list_def is_in_queue_def
      is_in_list_or_queue_def needs_finalization_def has_allocated_for_metadata_def
      and_first_bit and_finalized and_bits_mask view_sel mark_of_bits_def)
    (simp_all add: cm_consts)

lemma low_reserved: "take_bit 14 x = COUNTER_MASK \<longleftrightarrow> unat (take_bit 14 x) = 16383" for x :: u16
proof -
  have "y = COUNTER_MASK \<longleftrightarrow> unat y = 16383" for y :: u16
    by (simp add: word_unat_eq_iff COUNTER_MASK_num)
  then show ?thesis .
qed

lemma is_dropped_view [cm_tests]: "is_dropped cm \<longleftrightarrow> v_tc (view cm) = 16383"
  unfolding is_dropped_def and_counter_mask view_sel by (rule low_reserved)

lemma view_mark [cm_upd]: "view (mark m cm) = (view cm)\<lparr>v_mark := m\<rparr>"
  by (simp add: view_def mark_def view_mark_bits del: take_bit_or)
    (cases m; simp add: mark_of_bits_def)

lemma view_set_finalized [cm_upd]: "view (set_finalized b cm) = (view cm)\<lparr>v_fin := b\<rparr>"
  by (simp add: view_def set_finalized_def view_set_finalized_bits)

lemma view_set_allocated [cm_upd]: "view (set_allocated_for_metadata b cm) = (view cm)\<lparr>v_meta := b\<rparr>"
  by (simp add: view_def set_allocated_for_metadata_def view_set_meta_bits)

lemma view_set_dropped [cm_upd]:
  "view (set_dropped b cm) = (view cm)\<lparr>v_tc := (if b then 16383 else 0)\<rparr>"
  by (simp add: view_def set_dropped_def view_set_dropped_bits)

lemma view_new [cm_upd]:
  "view (new_with_counter_to_one f) = \<lparr>v_mark = NonMarked, v_tc = 1, v_meta = False, v_fin = f, v_rc = 1\<rparr>"
  by (simp add: view_def new_with_counter_to_one_def mark_of_bits_def cm_consts)

lemma set_finalized_again: "v_fin (view c) \<Longrightarrow> set_finalized True c = c"
  by (simp add: view_inject [symmetric] view_set_finalized)

text \<open>The counters: what is returned, when an overflow is reported, and what is written.\<close>

lemma counter_eval [simp]:
  "v_rc (view cm) < 16383 \<Longrightarrow> counter cm = Done (word_of_nat (v_rc (view cm))) cm"
  "v_rc (view cm) = 16383 \<Longrightarrow> counter cm = Panicked DebugAssert cm"
  unfolding counter_def and_counter_mask view_sel by (auto simp: prog_eval low_reserved)

lemma tracing_counter_eval [simp]:
  "v_tc (view cm) < 16383 \<Longrightarrow> tracing_counter cm = Done (word_of_nat (v_tc (view cm))) cm"
  "v_tc (view cm) = 16383 \<Longrightarrow> tracing_counter cm = Panicked DebugAssert cm"
  unfolding tracing_counter_def and_counter_mask view_sel by (auto simp: prog_eval low_reserved)

lemma word_of_nat_u16_eq:
  "m < 65536 \<Longrightarrow> n < 65536 \<Longrightarrow> (word_of_nat m :: u16) = word_of_nat n \<longleftrightarrow> m = n"
  by (simp add: word_unat_eq_iff unat_of_nat)

lemma word_of_nat_u16_numeral:
  "n < 65536 \<Longrightarrow> (word_of_nat n :: u16) = 16383 \<longleftrightarrow> n = 16383"
  "n < 65536 \<Longrightarrow> (word_of_nat n :: u16) = 16382 \<longleftrightarrow> n = 16382"
  "n < 65536 \<Longrightarrow> (word_of_nat n :: u16) = 0 \<longleftrightarrow> n = 0"
  by (simp_all add: word_unat_eq_iff unat_of_nat)

definition rc_plus_one :: "counter_marker \<Rightarrow> counter_marker" where
  "rc_plus_one cm = cm\<lparr>counter_cell := counter_cell cm + 1\<rparr>"

definition rc_minus_one :: "counter_marker \<Rightarrow> counter_marker" where
  "rc_minus_one cm = cm\<lparr>counter_cell := counter_cell cm - 1\<rparr>"

definition tc_plus_one :: "counter_marker \<Rightarrow> counter_marker" where
  "tc_plus_one cm = cm\<lparr>tracing_counter_cell := tracing_counter_cell cm + 1\<rparr>"

definition tc_minus_one :: "counter_marker \<Rightarrow> counter_marker" where
  "tc_minus_one cm = cm\<lparr>tracing_counter_cell := tracing_counter_cell cm - 1\<rparr>"

definition tc_zero :: "counter_marker \<Rightarrow> counter_marker" where
  "tc_zero cm = cm\<lparr>tracing_counter_cell := tracing_counter_cell cm AND NOT COUNTER_MASK\<rparr>"

lemma view_tc_zero [cm_upd]: "view (tc_zero cm) = (view cm)\<lparr>v_tc := 0\<rparr>"
proof -
  let ?x = "tracing_counter_cell cm"
  have x: "?x AND NOT COUNTER_MASK = set_bits ?x False COUNTER_MASK" by (simp add: set_bits_def)
  show ?thesis unfolding tc_zero_def x by (simp add: view_def view_set_dropped_bits)
qed

lemma view_rc_plus_one [cm_upd]:
  "v_rc (view cm) \<noteq> 16383 \<Longrightarrow> view (rc_plus_one cm) = (view cm)\<lparr>v_rc := v_rc (view cm) + 1\<rparr>"
  by (simp add: view_def rc_plus_one_def incr_low)

lemma view_rc_minus_one [cm_upd]:
  "v_rc (view cm) \<noteq> 0 \<Longrightarrow> view (rc_minus_one cm) = (view cm)\<lparr>v_rc := v_rc (view cm) - 1\<rparr>"
  by (simp add: view_def rc_minus_one_def decr_low)

lemma view_tc_plus_one [cm_upd]:
  "v_tc (view cm) \<noteq> 16383 \<Longrightarrow> view (tc_plus_one cm) = (view cm)\<lparr>v_tc := v_tc (view cm) + 1\<rparr>"
  by (simp add: view_def tc_plus_one_def incr_low)

lemma view_tc_minus_one [cm_upd]:
  "v_tc (view cm) \<noteq> 0 \<Longrightarrow> view (tc_minus_one cm) = (view cm)\<lparr>v_tc := v_tc (view cm) - 1\<rparr>"
  by (simp add: view_def tc_minus_one_def decr_low)

lemma increment_counter_eval:
  assumes "v_rc (view cm) < 16383"
  shows "increment_counter cm = (if v_rc (view cm) = 16382 then Done (Inl OverflowError) cm
                                 else Done (Inr ()) (rc_plus_one cm))"
proof -
  have "unat (counter_cell cm) + 1 < 65536"
    using assms incr_low(1) [of "counter_cell cm"] by (simp add: view_sel)
  with assms show ?thesis
    by (simp add: increment_counter_def set_counter_cell_def rc_plus_one_def COUNTER_MASK_num MAX_COUNT_num
        word_of_nat_u16_numeral)
qed

lemma decrement_counter_eval:
  assumes "v_rc (view cm) < 16383"
  shows "decrement_counter cm = (if v_rc (view cm) = 0 then Done (Inl OverflowError) cm
                                 else Done (Inr ()) (rc_minus_one cm))"
proof (cases "v_rc (view cm) = 0")
  case False
  then have "1 \<le> unat (counter_cell cm)"
    using decr_low(1) [of "counter_cell cm"] by (simp add: view_sel)
  with assms False show ?thesis
    by (simp add: decrement_counter_def set_counter_cell_def rc_minus_one_def COUNTER_MASK_num
        word_of_nat_u16_numeral)
qed (use assms in \<open>simp add: decrement_counter_def COUNTER_MASK_num\<close>)

lemma increment_tracing_counter_eval:
  assumes "v_tc (view cm) < 16383"
  shows "increment_tracing_counter cm = (if v_tc (view cm) = 16382 then Done (Inl OverflowError) cm
                                 else Done (Inr ()) (tc_plus_one cm))"
proof -
  have "unat (tracing_counter_cell cm) + 1 < 65536"
    using assms incr_low(1) [of "tracing_counter_cell cm"] by (simp add: view_sel)
  with assms show ?thesis
    by (simp add: increment_tracing_counter_def set_tracing_counter_cell_def tc_plus_one_def
        COUNTER_MASK_num MAX_COUNT_num word_of_nat_u16_numeral)
qed

lemma decrement_tracing_counter_eval:
  assumes "v_tc (view cm) < 16383"
  shows "decrement_tracing_counter cm = (if v_tc (view cm) = 0 then Done (Inl OverflowError) cm
                                 else Done (Inr ()) (tc_minus_one cm))"
proof (cases "v_tc (view cm) = 0")
  case False
  then have "1 \<le> unat (tracing_counter_cell cm)"
    using decr_low(1) [of "tracing_counter_cell cm"] by (simp add: view_sel)
  with assms False show ?thesis
    by (simp add: decrement_tracing_counter_def set_tracing_counter_cell_def tc_minus_one_def
        COUNTER_MASK_num word_of_nat_u16_numeral)
qed (use assms in \<open>simp add: decrement_tracing_counter_def COUNTER_MASK_num\<close>)

lemma reset_tracing_counter_eval:
  "v_tc (view cm) < 16383 \<Longrightarrow> reset_tracing_counter cm = Done () (tc_zero cm)"
  by (simp add: reset_tracing_counter_def tc_zero_def COUNTER_MASK_num word_of_nat_u16_numeral)

lemma counters_eq:
  "v_rc (view cm) < 16383 \<Longrightarrow> v_tc (view cm') < 16383 \<Longrightarrow>
   ((word_of_nat (v_rc (view cm)) :: u16) = word_of_nat (v_tc (view cm'))) \<longleftrightarrow>
   v_rc (view cm) = v_tc (view cm')"
  by (simp add: word_of_nat_u16_eq)

subsection \<open>The two counters behind the shared interface\<close>

lemma view_eqI:
  "v_mark (view s) = v_mark (view t) \<Longrightarrow> v_tc (view s) = v_tc (view t) \<Longrightarrow> v_meta (view s) = v_meta (view t)
   \<Longrightarrow> v_fin (view s) = v_fin (view t) \<Longrightarrow> v_rc (view s) = v_rc (view t) \<Longrightarrow> s = t"
  by (cases "view s"; cases "view t") (simp add: view_inject [symmetric])

interpretation rc: bounded_counter "\<lambda>cm. v_rc (view cm)"
  "\<lambda>cm. (v_mark (view cm), v_tc (view cm), v_meta (view cm), v_fin (view cm))"
  increment_counter decrement_counter OverflowError 16382 "\<lambda>cm. v_rc (view cm) < 16383"
  by unfold_locales
    (auto simp: increment_counter_eval decrement_counter_eval cm_upd intro: view_eqI)

interpretation tc: bounded_counter "\<lambda>cm. v_tc (view cm)"
  "\<lambda>cm. (v_mark (view cm), v_rc (view cm), v_meta (view cm), v_fin (view cm))"
  increment_tracing_counter decrement_tracing_counter OverflowError 16382 "\<lambda>cm. v_tc (view cm) < 16383"
  by unfold_locales
    (auto simp: increment_tracing_counter_eval decrement_tracing_counter_eval cm_upd intro: view_eqI)

end
