(* ===== verification/Weak_Counter_Marker.thy ===== *)
theory Weak_Counter_Marker
  imports Bounded_Counter
begin

unbundle bit_operations_syntax

text \<open>
  The packed counter of the metadata allocation: \<open>src/src/weak/weak_counter_marker.rs\<close>. One
  16-bit cell holds the accessible flag and the 15-bit weak counter.
\<close>

definition ACCESSIBLE_MASK :: u16 where "ACCESSIBLE_MASK = push_bit 15 1"
definition WEAK_COUNTER_MASK :: u16 where "WEAK_COUNTER_MASK = NOT ACCESSIBLE_MASK"
definition WEAK_INITIAL_VALUE :: u16 where "WEAK_INITIAL_VALUE = 0"
definition INITIAL_VALUE_ACCESSIBLE :: u16 where
  "INITIAL_VALUE_ACCESSIBLE = WEAK_INITIAL_VALUE OR ACCESSIBLE_MASK"
definition WEAK_MAX :: u16 where "WEAK_MAX = NOT ACCESSIBLE_MASK"

lemma wcm_consts: "ACCESSIBLE_MASK = 32768" "WEAK_COUNTER_MASK = 32767" "WEAK_MAX = 32767"
  "WEAK_INITIAL_VALUE = 0" "INITIAL_VALUE_ACCESSIBLE = 32768"
  by (simp_all add: ACCESSIBLE_MASK_def WEAK_COUNTER_MASK_def WEAK_MAX_def WEAK_INITIAL_VALUE_def
      INITIAL_VALUE_ACCESSIBLE_def)

record weak_counter_marker =
  weak_counter_cell :: u16

datatype weak_overflow_error = WeakOverflowError

definition weak_new :: "bool \<Rightarrow> weak_counter_marker" where
  "weak_new accessible =
     \<lparr>weak_counter_cell = (if accessible then INITIAL_VALUE_ACCESSIBLE else WEAK_INITIAL_VALUE)\<rparr>"

definition weak_counter :: "weak_counter_marker \<Rightarrow> u16" where
  "weak_counter w = weak_counter_cell w AND WEAK_COUNTER_MASK"

definition weak_increment_counter :: "(weak_counter_marker, weak_overflow_error + unit) prog" where
  "weak_increment_counter = bindM (getM weak_counter) (\<lambda>c.
     if c = WEAK_MAX then ret (Inl WeakOverflowError)
     else bindM (getM weak_counter_cell) (\<lambda>v. bindM (checked_add v 1) (\<lambda>v'.
          thenM (modifyM (\<lambda>w. w\<lparr>weak_counter_cell := v'\<rparr>)) (ret (Inr ())))))"

definition weak_decrement_counter :: "(weak_counter_marker, weak_overflow_error + unit) prog" where
  "weak_decrement_counter = bindM (getM weak_counter) (\<lambda>c.
     if c = 0 then ret (Inl WeakOverflowError)
     else bindM (getM weak_counter_cell) (\<lambda>v. bindM (checked_sub v 1) (\<lambda>v'.
          thenM (modifyM (\<lambda>w. w\<lparr>weak_counter_cell := v'\<rparr>)) (ret (Inr ())))))"

definition is_accessible :: "weak_counter_marker \<Rightarrow> bool" where
  "is_accessible w \<longleftrightarrow> weak_counter_cell w AND ACCESSIBLE_MASK \<noteq> 0"

definition set_accessible :: "bool \<Rightarrow> weak_counter_marker \<Rightarrow> weak_counter_marker" where
  "set_accessible accessible w = w\<lparr>weak_counter_cell :=
     (if accessible then weak_counter_cell w OR ACCESSIBLE_MASK
      else weak_counter_cell w AND NOT ACCESSIBLE_MASK)\<rparr>"

subsection \<open>The two fields\<close>

record wcm_view =
  w_acc :: bool
  w_count :: nat

definition wview :: "weak_counter_marker \<Rightarrow> wcm_view" where
  "wview w = \<lparr>w_acc = bit (weak_counter_cell w) 15, w_count = unat (take_bit 15 (weak_counter_cell w))\<rparr>"

lemma wview_sel: "w_acc (wview w) = bit (weak_counter_cell w) 15"
  "w_count (wview w) = unat (take_bit 15 (weak_counter_cell w))"
  by (simp_all add: wview_def)

lemma low15: "unat (take_bit 15 x) = unat x mod 32768" for x :: u16
  by (simp add: unsigned_take_bit_eq) (simp add: take_bit_eq_mod)

lemma bit15: "bit x 15 \<longleftrightarrow> odd (unat x div 32768)" for x :: u16
proof -
  have "bit (unat x) 15 = bit x 15" by (simp add: bit_unsigned_iff)
  then show ?thesis by (simp add: bit_iff_odd)
qed

lemma w_count_le: "w_count (wview w) \<le> 32767"
  by (simp add: wview_sel low15)

lemma weak_counter_view: "weak_counter w = word_of_nat (w_count (wview w))"
proof -
  have "x AND 32767 = take_bit 15 x" for x :: u16
    by (simp add: take_bit_eq_mask mask_eq_exp_minus_1)
  then show ?thesis by (simp only: weak_counter_def wview_sel wcm_consts) simp
qed

lemma weak_counter_eq:
  "weak_counter w = WEAK_MAX \<longleftrightarrow> w_count (wview w) = 32767" "weak_counter w = 0 \<longleftrightarrow> w_count (wview w) = 0"
  using w_count_le [of w] by (simp_all add: weak_counter_view wcm_consts word_unat_eq_iff unat_of_nat)

lemma is_accessible_view: "is_accessible w \<longleftrightarrow> w_acc (wview w)"
proof -
  have "x AND push_bit n 1 = (if bit x n then push_bit n 1 else 0)" for x :: u16 and n
    by (rule bit_eqI) (auto simp: bit_simps)
  then have "x AND ACCESSIBLE_MASK = (if bit x 15 then ACCESSIBLE_MASK else 0)" for x :: u16
    unfolding ACCESSIBLE_MASK_def by blast
  moreover have "ACCESSIBLE_MASK \<noteq> 0" by (simp add: wcm_consts)
  ultimately show ?thesis by (simp add: is_accessible_def wview_sel)
qed

lemma bit_ACCESSIBLE_MASK: "bit ACCESSIBLE_MASK n \<longleftrightarrow> n = 15"
  unfolding ACCESSIBLE_MASK_def by (auto simp only: bit_push_bit_iff bit_1_iff) auto

lemma wview_set_accessible: "wview (set_accessible b w) = (wview w)\<lparr>w_acc := b\<rparr>"
proof -
  let ?x = "weak_counter_cell w" and ?y = "weak_counter_cell (set_accessible b w)"
  have bits: "bit ?y n \<longleftrightarrow> (if n = 15 then b else bit ?x n)" for n
    using bit_imp_le_length [of ?x n]
    by (auto simp: set_accessible_def bit_or_iff bit_and_iff bit_not_iff bit_ACCESSIBLE_MASK)
  then have "take_bit 15 ?y = take_bit 15 ?x"
    by (intro bit_eqI) (auto simp only: bit_take_bit_iff split: if_splits)
  with bits [of 15] show ?thesis by (simp add: wview_def)
qed

lemma wview_new: "wview (weak_new b) = \<lparr>w_acc = b, w_count = 0\<rparr>"
  by (simp add: wview_def weak_new_def wcm_consts)

lemma wview_inject: "wview a = wview b \<longleftrightarrow> a = b"
proof
  assume eq: "wview a = wview b"
  let ?x = "weak_counter_cell a" and ?y = "weak_counter_cell b"
  have t: "take_bit 15 ?x = take_bit 15 ?y" and h: "bit ?x 15 = bit ?y 15"
    using arg_cong [OF eq, of w_count] arg_cong [OF eq, of w_acc]
    by (simp_all only: wview_sel word_unat_eq_iff)
  have "?x = ?y"
  proof (rule bit_word_eqI)
    fix n assume "n < LENGTH(16)"
    then have "n < 15 \<or> n = 15" by auto
    with t h show "bit ?x n \<longleftrightarrow> bit ?y n" by (metis bit_take_bit_iff)
  qed
  then show "a = b" by (cases a; cases b) simp
qed simp

lemma wview_plus:
  assumes "w_count (wview w) \<noteq> 32767"
  shows "unat (weak_counter_cell w) + 1 < 65536"
    "wview (w\<lparr>weak_counter_cell := weak_counter_cell w + 1\<rparr>) = (wview w)\<lparr>w_count := w_count (wview w) + 1\<rparr>"
proof -
  let ?x = "weak_counter_cell w"
  from assms have m: "unat ?x mod 32768 \<noteq> 32767" by (simp add: wview_sel low15)
  show lt: "unat ?x + 1 < 65536"
  proof (rule ccontr)
    assume "\<not> ?thesis"
    with unsigned_less [of ?x, where 'a=nat] have "unat ?x = 65535" by simp
    with m show False by simp
  qed
  then have "unat (?x + 1) = unat ?x + 1" by (simp add: unat_word_ariths)
  with m show "wview (w\<lparr>weak_counter_cell := ?x + 1\<rparr>) = (wview w)\<lparr>w_count := w_count (wview w) + 1\<rparr>"
    by (simp add: wview_def low15 bit15 div_Suc mod_Suc)
qed

lemma wview_minus:
  assumes "w_count (wview w) \<noteq> 0"
  shows "1 \<le> unat (weak_counter_cell w)"
    "wview (w\<lparr>weak_counter_cell := weak_counter_cell w - 1\<rparr>) = (wview w)\<lparr>w_count := w_count (wview w) - 1\<rparr>"
proof -
  let ?x = "weak_counter_cell w"
  from assms have m: "unat ?x mod 32768 \<noteq> 0" by (simp add: wview_sel low15)
  then obtain n where n: "unat ?x = Suc n" by (cases "unat ?x") auto
  then show "1 \<le> unat ?x" by simp
  with n have "unat (?x - 1) = n" by (simp add: unat_sub word_le_nat_alt)
  with n m show "wview (w\<lparr>weak_counter_cell := ?x - 1\<rparr>) = (wview w)\<lparr>w_count := w_count (wview w) - 1\<rparr>"
    by (auto simp add: wview_def low15 bit15 div_Suc mod_Suc split: if_splits)
qed

lemma weak_increment_eval:
  "weak_increment_counter w = (if w_count (wview w) = 32767 then Done (Inl WeakOverflowError) w
     else Done (Inr ()) (w\<lparr>weak_counter_cell := weak_counter_cell w + 1\<rparr>))"
  using wview_plus(1) [of w] by (simp add: weak_increment_counter_def weak_counter_eq)

lemma weak_decrement_eval:
  "weak_decrement_counter w = (if w_count (wview w) = 0 then Done (Inl WeakOverflowError) w
     else Done (Inr ()) (w\<lparr>weak_counter_cell := weak_counter_cell w - 1\<rparr>))"
proof (cases "w_count (wview w) = 0")
  case False
  with wview_minus(1) [of w] show ?thesis by (simp add: weak_decrement_counter_def weak_counter_eq)
qed (simp add: weak_decrement_counter_def weak_counter_eq)

interpretation wc: bounded_counter "\<lambda>w. w_count (wview w)" "\<lambda>w. w_acc (wview w)"
  weak_increment_counter weak_decrement_counter WeakOverflowError 32767 "\<lambda>_. True"
proof unfold_locales
  fix s t :: weak_counter_marker
  assume "w_count (wview s) = w_count (wview t)" "w_acc (wview s) = w_acc (wview t)"
  then have "wview s = wview t" by (cases "wview s"; cases "wview t") simp
  then show "s = t" by (simp add: wview_inject)
qed (simp_all add: w_count_le weak_increment_eval weak_decrement_eval wview_plus wview_minus)

end
