(* ===== verification/Trace_Impl.thy ===== *)
theory Trace_Impl
  imports Prelude "HOL-Library.Multiset"
begin

text \<open>
  The \<open>Trace\<close> and \<open>Finalize\<close> implementations of \<open>src/src/trace.rs\<close> and of the derive macros of
  \<open>src/derive/src/lib.rs\<close>.

  A \<open>Context\<close> is opaque outside the crate, so all a \<open>trace\<close> implementation can do with it is to
  reach \<open>CcBox::trace\<close> through the \<open>Cc\<close>s it visits: an implementation is the sequence of these
  calls, in the order it makes them, possibly cut by a panic. A generic implementation takes the
  implementation of its parameter, as the Rust one does; \<open>trace_val\<close> ties the knot over the
  values a \<open>CcBox\<close> can hold. Types that users implement \<open>Trace\<close> for by hand are the constructor
  \<open>ManualT\<close>, which carries the calls the user's code makes; \<open>DropT n v\<close> is a value \<open>v\<close> whose type
  has a hand-written \<open>Drop\<close> with the code number \<open>n\<close>. \<open>CleanerMapT\<close> is the \<open>CleanerMap\<close> of
  \<open>src/src/cleaners/mod.rs\<close>, a \<open>RefCell\<close> around a \<open>SlotMap\<close>. The memory of a \<open>SlotMap\<close>, a type of
  another crate, is opaque: only the operations of that crate, which are parameters, read it.
\<close>

type_synonym addr = nat
type_synonym maddr = nat
type_synonym slotmap = "nat list"

datatype trace_call = CallCc addr | CallPanic string

text \<open>The borrow flag of a \<open>RefCell\<close>: free, shared by some readers, or mutably borrowed.\<close>

datatype borrow_state = Unborrowed | SharedBorrow nat | MutBorrow

datatype deref_kind = BoxK | ManuallyDropK | AssertUnwindSafeK

datatype tval =
    PlainT
  | CcT addr
  | WeakT "maddr option" addr
  | DerefT deref_kind tval
  | RefCellT borrow_state tval
  | OptionT "tval option"
  | ResultT "tval + tval"
  | SeqT "tval list"
  | TupleT "tval list"
  | DeriveT bool "(bool \<times> tval) list" "nat option"
  | ManualT "trace_call list" "tval list" "nat option"
  | CleanerT "addr option"
  | CleanerMapT borrow_state slotmap
  | DropT nat tval

subsection \<open>Trace\<close>

definition trace_empty :: "trace_call list" where
  "trace_empty = []"

text \<open>\<open>Weak\<close> and the types of the cleaners trace nothing on purpose.\<close>

definition trace_weak :: "trace_call list" where [simp]:
  "trace_weak = []"

definition trace_cleaner :: "trace_call list" where [simp]:
  "trace_cleaner = []"

definition trace_cleaner_map :: "trace_call list" where [simp]:
  "trace_cleaner_map = []"

definition trace_cc :: "addr \<Rightarrow> trace_call list" where
  "trace_cc inner = [CallCc inner]"

definition trace_deref :: "('a \<Rightarrow> trace_call list) \<Rightarrow> 'a \<Rightarrow> trace_call list" where
  "trace_deref tr v = tr v"

definition trace_refcell :: "('a \<Rightarrow> trace_call list) \<Rightarrow> borrow_state \<Rightarrow> 'a \<Rightarrow> trace_call list" where
  "trace_refcell tr flag v = (if flag = Unborrowed then tr v else [])"

definition trace_option :: "('a \<Rightarrow> trace_call list) \<Rightarrow> 'a option \<Rightarrow> trace_call list" where
  "trace_option tr v = (case v of Some inner \<Rightarrow> tr inner | None \<Rightarrow> [])"

definition trace_result ::
  "('a \<Rightarrow> trace_call list) \<Rightarrow> ('b \<Rightarrow> trace_call list) \<Rightarrow> 'a + 'b \<Rightarrow> trace_call list" where
  "trace_result trr tre v = (case v of Inl ok \<Rightarrow> trr ok | Inr err \<Rightarrow> tre err)"

definition trace_seq :: "('a \<Rightarrow> trace_call list) \<Rightarrow> 'a list \<Rightarrow> trace_call list" where
  "trace_seq tr v = concat (map tr v)"

definition trace_tuple :: "('a \<Rightarrow> trace_call list) \<Rightarrow> 'a list \<Rightarrow> trace_call list" where
  "trace_tuple tr args = concat (map tr args)"

text \<open>
  The derived implementation: fields annotated \<open>#[rust_cc(ignore)]\<close> are filtered out, a variant
  annotated so loses its match arm, and the remaining fields are traced in order.
\<close>

definition derive_trace_trait ::
  "('a \<Rightarrow> trace_call list) \<Rightarrow> bool \<Rightarrow> (bool \<times> 'a) list \<Rightarrow> trace_call list" where
  "derive_trace_trait tr variant_ignored fields =
     (if variant_ignored then []
      else concat (map (\<lambda>f. tr (snd f)) (filter (\<lambda>f. \<not> fst f) fields)))"

lemma trace_cong [fundef_cong]:
  "v = w \<Longrightarrow> tr w = tr' w \<Longrightarrow> trace_deref tr v = trace_deref tr' w"
  "b = b' \<Longrightarrow> v = w \<Longrightarrow> tr w = tr' w \<Longrightarrow> trace_refcell tr b v = trace_refcell tr' b' w"
  "u = u' \<Longrightarrow> (\<And>x. x \<in> set_option u' \<Longrightarrow> tr x = tr' x) \<Longrightarrow> trace_option tr u = trace_option tr' u'"
  "xs = ys \<Longrightarrow> (\<And>x. x \<in> set ys \<Longrightarrow> tr x = tr' x) \<Longrightarrow> trace_seq tr xs = trace_seq tr' ys"
  "xs = ys \<Longrightarrow> (\<And>x. x \<in> set ys \<Longrightarrow> tr x = tr' x) \<Longrightarrow> trace_tuple tr xs = trace_tuple tr' ys"
  by (auto simp: trace_deref_def trace_refcell_def trace_option_def trace_seq_def trace_tuple_def
      intro!: arg_cong [of _ _ concat] split: option.splits)

lemma trace_result_cong [fundef_cong]:
  "v = w \<Longrightarrow> (\<And>x. w = Inl x \<Longrightarrow> f x = f' x) \<Longrightarrow> (\<And>y. w = Inr y \<Longrightarrow> g y = g' y) \<Longrightarrow>
   trace_result f g v = trace_result f' g' w"
  by (auto simp: trace_result_def split: sum.splits)

lemma derive_trace_cong [fundef_cong]:
  "i = i' \<Longrightarrow> fs = gs \<Longrightarrow> (\<And>b x. (b, x) \<in> set gs \<Longrightarrow> tr x = tr' x) \<Longrightarrow>
   derive_trace_trait tr i fs = derive_trace_trait tr' i' gs"
  by (auto simp: derive_trace_trait_def intro!: arg_cong [of _ _ concat] map_cong)

fun trace_val :: "tval \<Rightarrow> trace_call list" where
  "trace_val PlainT = trace_empty"
| "trace_val (CcT p) = trace_cc p"
| "trace_val (WeakT m p) = trace_weak"
| "trace_val (DerefT k v) = trace_deref trace_val v"
| "trace_val (RefCellT b v) = trace_refcell trace_val b v"
| "trace_val (OptionT u) = trace_option trace_val u"
| "trace_val (ResultT u) = trace_result trace_val trace_val u"
| "trace_val (SeqT vs) = trace_seq trace_val vs"
| "trace_val (TupleT vs) = trace_tuple trace_val vs"
| "trace_val (DeriveT i fs fin) = derive_trace_trait trace_val i fs"
| "trace_val (ManualT calls vs fin) = calls"
| "trace_val (CleanerT u) = trace_cleaner"
| "trace_val (CleanerMapT b m) = trace_cleaner_map"
| "trace_val (DropT n v) = trace_val v"

subsection \<open>Finalize\<close>

text \<open>
  An implementation of \<open>Finalize\<close> is the sequence of user finalizers it runs, named by numbers.
  The \<open>Finalize\<close> of \<open>Cc\<close>, of \<open>Weak\<close>, of the types of \<open>src/src/cleaners/mod.rs\<close> and of those of
  \<open>empty_trace!\<close> is the trait's empty default; the derived one is empty as well, and a hand-written one is \<open>Some\<close>.
\<close>

definition finalize_default :: "nat list" where
  "finalize_default = []"

definition finalize_deref :: "('a \<Rightarrow> nat list) \<Rightarrow> 'a \<Rightarrow> nat list" where
  "finalize_deref fi v = fi v"

definition finalize_refcell :: "('a \<Rightarrow> nat list) \<Rightarrow> borrow_state \<Rightarrow> 'a \<Rightarrow> nat list" where
  "finalize_refcell fi flag v = (if flag \<noteq> MutBorrow then fi v else [])"

definition finalize_option :: "('a \<Rightarrow> nat list) \<Rightarrow> 'a option \<Rightarrow> nat list" where
  "finalize_option fi v = (case v of Some value \<Rightarrow> fi value | None \<Rightarrow> [])"

definition finalize_result :: "('a \<Rightarrow> nat list) \<Rightarrow> ('b \<Rightarrow> nat list) \<Rightarrow> 'a + 'b \<Rightarrow> nat list" where
  "finalize_result fir fie v = (case v of Inl value \<Rightarrow> fir value | Inr err \<Rightarrow> fie err)"

definition finalize_seq :: "('a \<Rightarrow> nat list) \<Rightarrow> 'a list \<Rightarrow> nat list" where
  "finalize_seq fi v = concat (map fi v)"

definition finalize_tuple :: "('a \<Rightarrow> nat list) \<Rightarrow> 'a list \<Rightarrow> nat list" where
  "finalize_tuple fi args = concat (map fi args)"

definition finalize_user :: "nat option \<Rightarrow> nat list" where
  "finalize_user fin = (case fin of None \<Rightarrow> [] | Some n \<Rightarrow> [n])"

lemma finalize_cong [fundef_cong]:
  "v = w \<Longrightarrow> fi w = fi' w \<Longrightarrow> finalize_deref fi v = finalize_deref fi' w"
  "b = b' \<Longrightarrow> v = w \<Longrightarrow> fi w = fi' w \<Longrightarrow> finalize_refcell fi b v = finalize_refcell fi' b' w"
  "u = u' \<Longrightarrow> (\<And>x. x \<in> set_option u' \<Longrightarrow> fi x = fi' x) \<Longrightarrow> finalize_option fi u = finalize_option fi' u'"
  "xs = ys \<Longrightarrow> (\<And>x. x \<in> set ys \<Longrightarrow> fi x = fi' x) \<Longrightarrow> finalize_seq fi xs = finalize_seq fi' ys"
  "xs = ys \<Longrightarrow> (\<And>x. x \<in> set ys \<Longrightarrow> fi x = fi' x) \<Longrightarrow> finalize_tuple fi xs = finalize_tuple fi' ys"
  by (auto simp: finalize_deref_def finalize_refcell_def finalize_option_def finalize_seq_def
      finalize_tuple_def intro!: arg_cong [of _ _ concat] split: option.splits)

lemma finalize_result_cong [fundef_cong]:
  "v = w \<Longrightarrow> (\<And>x. w = Inl x \<Longrightarrow> f x = f' x) \<Longrightarrow> (\<And>y. w = Inr y \<Longrightarrow> g y = g' y) \<Longrightarrow>
   finalize_result f g v = finalize_result f' g' w"
  by (auto simp: finalize_result_def split: sum.splits)

fun finalize_val :: "tval \<Rightarrow> nat list" where
  "finalize_val PlainT = finalize_default"
| "finalize_val (CcT p) = finalize_default"
| "finalize_val (WeakT m p) = finalize_default"
| "finalize_val (DerefT k v) = finalize_deref finalize_val v"
| "finalize_val (RefCellT b v) = finalize_refcell finalize_val b v"
| "finalize_val (OptionT u) = finalize_option finalize_val u"
| "finalize_val (ResultT u) = finalize_result finalize_val finalize_val u"
| "finalize_val (SeqT vs) = finalize_seq finalize_val vs"
| "finalize_val (TupleT vs) = finalize_tuple finalize_val vs"
| "finalize_val (DeriveT i fs fin) = finalize_user fin"
| "finalize_val (ManualT calls vs fin) = finalize_user fin"
| "finalize_val (CleanerT u) = finalize_default"
| "finalize_val (CleanerMapT b m) = finalize_default"
| "finalize_val (DropT n v) = finalize_val v"

subsection \<open>The Ccs a value holds\<close>

text \<open>
  \<open>held\<close> lists every \<open>Cc\<close> stored in a value, traced or not; \<open>drop_glue\<close> what the value's drop glue
  does, in its order: it drops \<open>Cc\<close>s, \<open>Weak\<close>s and maps of cleaning actions and runs hand-written
  destructors, each before the fields of its value are dropped (a \<open>ManuallyDrop\<close> drops nothing).
\<close>

fun held :: "tval \<Rightarrow> addr list" where
  "held PlainT = []"
| "held (CcT p) = [p]"
| "held (WeakT m p) = []"
| "held (DerefT k v) = held v"
| "held (RefCellT b v) = held v"
| "held (OptionT u) = (case u of None \<Rightarrow> [] | Some v \<Rightarrow> held v)"
| "held (ResultT u) = (case u of Inl v \<Rightarrow> held v | Inr v \<Rightarrow> held v)"
| "held (SeqT vs) = concat (map held vs)"
| "held (TupleT vs) = concat (map held vs)"
| "held (DeriveT i fs fin) = concat (map (\<lambda>f. held (snd f)) fs)"
| "held (ManualT calls vs fin) = concat (map held vs)"
| "held (CleanerT u) = (case u of None \<Rightarrow> [] | Some p \<Rightarrow> [p])"
| "held (CleanerMapT b m) = []"
| "held (DropT n v) = held v"

datatype drop_call = DropCc addr | DropWeak "maddr option" addr | DropUser nat | DropMap slotmap

fun drop_glue :: "tval \<Rightarrow> drop_call list" where
  "drop_glue PlainT = []"
| "drop_glue (CcT p) = [DropCc p]"
| "drop_glue (WeakT m p) = [DropWeak m p]"
| "drop_glue (DerefT k v) = (if k = ManuallyDropK then [] else drop_glue v)"
| "drop_glue (RefCellT b v) = drop_glue v"
| "drop_glue (OptionT u) = (case u of None \<Rightarrow> [] | Some v \<Rightarrow> drop_glue v)"
| "drop_glue (ResultT u) = (case u of Inl v \<Rightarrow> drop_glue v | Inr v \<Rightarrow> drop_glue v)"
| "drop_glue (SeqT vs) = concat (map drop_glue vs)"
| "drop_glue (TupleT vs) = concat (map drop_glue vs)"
| "drop_glue (DeriveT i fs fin) = concat (map (\<lambda>f. drop_glue (snd f)) fs)"
| "drop_glue (ManualT calls vs fin) = concat (map drop_glue vs)"
| "drop_glue (CleanerT u) = (case u of None \<Rightarrow> [] | Some p \<Rightarrow> [DropCc p])"
| "drop_glue (CleanerMapT b m) = [DropMap m]"
| "drop_glue (DropT n v) = DropUser n # drop_glue v"

fun dropped_ccs :: "drop_call list \<Rightarrow> addr list" where
  "dropped_ccs [] = []"
| "dropped_ccs (DropCc p # ds) = p # dropped_ccs ds"
| "dropped_ccs (DropWeak m p # ds) = dropped_ccs ds"
| "dropped_ccs (DropUser n # ds) = dropped_ccs ds"
| "dropped_ccs (DropMap m # ds) = dropped_ccs ds"

text \<open>Drop glue that runs no code but the one of \<open>Cc\<close> and \<open>Weak\<close>.\<close>

definition plain_glue :: "drop_call list \<Rightarrow> bool" where
  "plain_glue ds \<longleftrightarrow> list_all (\<lambda>d. case d of DropUser n \<Rightarrow> False | DropMap m \<Rightarrow> False | _ \<Rightarrow> True) ds"

lemma plain_glue_simps [simp]:
  "plain_glue []" "plain_glue (DropCc p # ds) \<longleftrightarrow> plain_glue ds" "plain_glue (DropWeak m p # ds) \<longleftrightarrow> plain_glue ds"
  "\<not> plain_glue (DropUser n # ds)" "\<not> plain_glue (DropMap sm # ds)"
  "plain_glue (as @ bs) \<longleftrightarrow> plain_glue as \<and> plain_glue bs"
  by (simp_all add: plain_glue_def)

lemma dropped_ccs_append [simp]: "dropped_ccs (as @ bs) = dropped_ccs as @ dropped_ccs bs"
  by (induction as rule: dropped_ccs.induct) auto

lemma dropped_ccs_concat: "dropped_ccs (concat dss) = concat (map dropped_ccs dss)"
  by (induction dss) auto

subsection \<open>What is traced is held\<close>

fun called :: "trace_call list \<Rightarrow> addr list" where
  "called [] = []"
| "called (CallCc p # cs) = p # called cs"
| "called (CallPanic e # cs) = called cs"

definition panics :: "trace_call list \<Rightarrow> bool" where
  "panics cs \<longleftrightarrow> (\<exists>e. CallPanic e \<in> set cs)"

lemma called_append [simp]: "called (as @ bs) = called as @ called bs"
  by (induction as rule: called.induct) auto

lemma called_concat: "called (concat css) = concat (map called css)"
  by (induction css) auto

lemma panics_simps [simp]:
  "\<not> panics []" "\<not> panics (CallCc p # cs) \<longleftrightarrow> \<not> panics cs" "panics (CallPanic e # cs)"
  by (auto simp: panics_def)

text \<open>
  The safety contract of the \<open>Trace\<close> trait (first clause): a hand-written implementation traces
  only \<open>Cc\<close>s its value owns, each at most once. It is a requirement on the user's code, hence on
  the calls of \<open>ManualT\<close> only.
\<close>

fun trace_contract :: "tval \<Rightarrow> bool" where
  "trace_contract (ManualT calls vs fin) \<longleftrightarrow>
     mset (called calls) \<subseteq># mset (concat (map held vs)) \<and> list_all trace_contract vs"
| "trace_contract (DerefT k v) \<longleftrightarrow> trace_contract v"
| "trace_contract (RefCellT b v) \<longleftrightarrow> trace_contract v"
| "trace_contract (OptionT u) \<longleftrightarrow> (case u of None \<Rightarrow> True | Some v \<Rightarrow> trace_contract v)"
| "trace_contract (ResultT u) \<longleftrightarrow> (case u of Inl v \<Rightarrow> trace_contract v | Inr v \<Rightarrow> trace_contract v)"
| "trace_contract (SeqT vs) \<longleftrightarrow> list_all trace_contract vs"
| "trace_contract (TupleT vs) \<longleftrightarrow> list_all trace_contract vs"
| "trace_contract (DeriveT i fs fin) \<longleftrightarrow> list_all (\<lambda>f. trace_contract (snd f)) fs"
| "trace_contract (DropT n v) \<longleftrightarrow> trace_contract v"
| "trace_contract _ \<longleftrightarrow> True"

lemma mset_concat_mono:
  "(\<And>x. x \<in> set xs \<Longrightarrow> mset (f x) \<subseteq># mset (g x)) \<Longrightarrow> mset (concat (map f xs)) \<subseteq># mset (concat (map g xs))"
  by (induction xs) (auto intro: subset_mset.add_mono)

lemma mset_concat_filter:
  "mset (concat (map f (filter P xs))) \<subseteq># mset (concat (map f xs))"
  by (induction xs) (auto intro: subset_mset.add_increasing)

lemma traced_subset_held: "trace_contract v \<Longrightarrow> mset (called (trace_val v)) \<subseteq># mset (held v)"
proof (induction v rule: trace_val.induct)
  case (6 u)
  then show ?case by (auto simp: trace_option_def split: option.splits)
next
  case (7 u)
  then show ?case by (auto simp: trace_result_def split: sum.splits)
next
  case (8 vs)
  then show ?case
    by (auto simp: trace_seq_def called_concat comp_def list_all_iff intro!: mset_concat_mono)
next
  case (9 vs)
  then show ?case
    by (auto simp: trace_tuple_def called_concat comp_def list_all_iff intro!: mset_concat_mono)
next
  case (10 i fs fin)
  have "mset (concat (map (\<lambda>f. called (trace_val (snd f))) (filter (\<lambda>f. \<not> fst f) fs)))
    \<subseteq># mset (concat (map (\<lambda>f. held (snd f)) (filter (\<lambda>f. \<not> fst f) fs)))"
    using 10 by (intro mset_concat_mono) (auto simp: list_all_iff)
  also have "\<dots> \<subseteq># mset (concat (map (\<lambda>f. held (snd f)) fs))"
    by (rule mset_concat_filter)
  finally show ?case
    by (simp add: derive_trace_trait_def called_concat comp_def)
qed (auto simp: trace_empty_def trace_cc_def trace_deref_def trace_refcell_def)

lemma dropped_subset_held: "mset (dropped_ccs (drop_glue v)) \<subseteq># mset (held v)"
  by (induction v rule: drop_glue.induct)
    (auto simp: dropped_ccs_concat comp_def intro!: mset_concat_mono split: option.splits sum.splits)

end
