(* ===== verification/Cc_Box.thy ===== *)
theory Cc_Box
  imports Counter_Marker Weak_Counter_Marker Trace_Impl
begin

text \<open>
  The allocations: \<open>struct CcBox\<close> of \<open>src/src/cc.rs\<close> and the memory that holds them.

  The memory maps the address of a live allocation to its \<open>CcBox\<close>; an address that is not in it
  is unallocated or freed, and every access through a \<open>NonNull\<close> to it is undefined behaviour.
\<close>

subsection \<open>Data\<close>

record vtable =
  vt_size :: usize

text \<open>The union \<open>Metadata\<close>; which member is in use is told by the flag of the counter marker.\<close>

datatype metadata = MetaVTable vtable | MetaBoxed maddr

record boxed_metadata =
  bm_vtable :: vtable
  bm_weak :: weak_counter_marker

record ccbox =
  b_next :: "addr option"
  b_prev :: "addr option"
  b_metadata :: metadata
  b_cm :: counter_marker
  b_elem :: "tval option"

type_synonym boxes = "addr \<Rightarrow> ccbox option"

subsection \<open>Access through a pointer\<close>

definition deref :: "addr \<Rightarrow> (ccbox \<Rightarrow> 'a) \<Rightarrow> (boxes, 'a) prog" where
  "deref p f = (\<lambda>h. case h p of None \<Rightarrow> UB | Some b \<Rightarrow> Done (f b) h)"

definition upd :: "addr \<Rightarrow> (ccbox \<Rightarrow> ccbox) \<Rightarrow> boxes \<Rightarrow> boxes" where
  "upd p f h = (case h p of None \<Rightarrow> h | Some b \<Rightarrow> h(p := Some (f b)))"

definition store :: "addr \<Rightarrow> (ccbox \<Rightarrow> ccbox) \<Rightarrow> (boxes, unit) prog" where
  "store p f = (\<lambda>h. case h p of None \<Rightarrow> UB | Some b \<Rightarrow> Done () (upd p f h))"

definition get_next :: "addr \<Rightarrow> (boxes, addr option) prog" where
  "get_next p = deref p b_next"

definition get_prev :: "addr \<Rightarrow> (boxes, addr option) prog" where
  "get_prev p = deref p b_prev"

definition set_next :: "addr \<Rightarrow> addr option \<Rightarrow> (boxes, unit) prog" where
  "set_next p v = store p (\<lambda>b. b\<lparr>b_next := v\<rparr>)"

definition set_prev :: "addr \<Rightarrow> addr option \<Rightarrow> (boxes, unit) prog" where
  "set_prev p v = store p (\<lambda>b. b\<lparr>b_prev := v\<rparr>)"

text \<open>\<open>ptr.as_ref().counter_marker()\<close>, followed by one of the marker's methods.\<close>

definition on_cm :: "addr \<Rightarrow> (counter_marker, 'a) prog \<Rightarrow> (boxes, 'a) prog" where
  "on_cm p m = (\<lambda>h. case h p of None \<Rightarrow> UB
     | Some b \<Rightarrow> zoom (\<lambda>_. b_cm b) (\<lambda>c. upd p (\<lambda>b. b\<lparr>b_cm := c\<rparr>)) m h)"

definition cm_test :: "addr \<Rightarrow> (counter_marker \<Rightarrow> bool) \<Rightarrow> (boxes, bool) prog" where
  "cm_test p f = on_cm p (getM f)"

definition cm_mark :: "addr \<Rightarrow> mark \<Rightarrow> (boxes, unit) prog" where
  "cm_mark p m = on_cm p (modifyM (mark m))"

text \<open>
  \<open>CcBox::vtable\<close>: the flag tells which member of the union is in use, and reading the other one is
  undefined, as is reading a boxed metadata that is gone. \<open>M\<close> are the boxed metadata.
\<close>

definition read_vtable :: "(maddr \<Rightarrow> boxed_metadata option) \<Rightarrow> addr \<Rightarrow> (boxes, vtable) prog" where
  "read_vtable M p = bindM (cm_test p has_allocated_for_metadata) (\<lambda>b. bindM (deref p b_metadata) (\<lambda>m.
     if b then (case m of MetaBoxed k \<Rightarrow> (case M k of None \<Rightarrow> (\<lambda>h. UB) | Some bm \<Rightarrow> ret (bm_vtable bm)) | MetaVTable vt \<Rightarrow> (\<lambda>h. UB))
     else (case m of MetaVTable vt \<Rightarrow> ret vt | MetaBoxed k \<Rightarrow> (\<lambda>h. UB))))"

text \<open>When that is defined.\<close>

fun has_vtable :: "(maddr \<Rightarrow> boxed_metadata option) \<Rightarrow> metadata \<Rightarrow> bool \<Rightarrow> bool" where
  "has_vtable M (MetaBoxed k) b = (b \<and> M k \<noteq> None)"
| "has_vtable M (MetaVTable vt) b = (\<not> b)"

text \<open>
  \<open>debug_assert_nones\<close> of \<open>lists.rs\<close>; it reads the links of the box, so it is stated here.
\<close>

definition debug_assert_nones :: "addr \<Rightarrow> (boxes, unit) prog" where
  "debug_assert_nones p =
     thenM (bindM (get_next p) (\<lambda>n. debug_assert (n = None)))
           (bindM (get_prev p) (\<lambda>n. debug_assert (n = None)))"

subsection \<open>Pointwise reading of updates\<close>

lemma upd_apply: "upd p f h q = (if q = p then map_option f (h q) else h q)"
  by (auto simp: upd_def split: option.splits)

lemma upd_same [simp]: "upd p f h p = map_option f (h p)"
  by (simp add: upd_apply)

lemma upd_other [simp]: "q \<noteq> p \<Longrightarrow> upd p f h q = h q"
  by (simp add: upd_apply)

lemma upd_id: "h p = Some b \<Longrightarrow> f b = b \<Longrightarrow> upd p f h = h"
  by (rule ext) (simp add: upd_apply)

lemma upd_upd [simp]: "upd p f (upd p g h) = upd p (\<lambda>b. f (g b)) h"
  by (rule ext) (simp add: upd_apply option.map_comp comp_def)

lemma deref_Some [simp]: "h p = Some b \<Longrightarrow> deref p f h = Done (f b) h"
  by (simp add: deref_def)

lemma store_Some [simp]: "h p = Some b \<Longrightarrow> store p f h = Done () (upd p f h)"
  by (simp add: store_def)

lemma deref_None: "h p = None \<Longrightarrow> deref p f h = UB"
  by (simp add: deref_def)

lemma on_cm_Done:
  "h p = Some b \<Longrightarrow> m (b_cm b) = Done a c \<Longrightarrow> on_cm p m h = Done a (upd p (\<lambda>b. b\<lparr>b_cm := c\<rparr>) h)"
  by (simp add: on_cm_def zoom_Done)

lemma on_cm_read:
  "h p = Some b \<Longrightarrow> m (b_cm b) = Done a (b_cm b) \<Longrightarrow> on_cm p m h = Done a h"
  by (simp add: on_cm_Done upd_id)

lemma cm_test_Some [simp]: "h p = Some b \<Longrightarrow> cm_test p f h = Done (f (b_cm b)) h"
  by (simp add: cm_test_def on_cm_read)

lemma cm_mark_Some [simp]:
  "h p = Some b \<Longrightarrow> cm_mark p m h = Done () (upd p (\<lambda>b. b\<lparr>b_cm := mark m (b_cm b)\<rparr>) h)"
  by (simp add: cm_mark_def on_cm_Done) (rule ext, simp add: upd_apply)

lemma read_vtable_ok:
  assumes "h p = Some b" "has_vtable M (b_metadata b) (v_meta (view (b_cm b)))"
  shows "\<exists>vt. read_vtable M p h = Done vt h"
  using assms by (cases "b_metadata b") (auto simp: read_vtable_def bindM_def cm_tests)

subsection \<open>Links and payload\<close>

text \<open>
  A box is its two links, which only the lists write, and its payload. \<open>frame S h h'\<close>: the links
  changed inside \<open>S\<close> at most, and no payload changed.
\<close>

definition links :: "boxes \<Rightarrow> addr \<Rightarrow> (addr option \<times> addr option) option" where
  "links h p = map_option (\<lambda>b. (b_next b, b_prev b)) (h p)"

definition payload :: "ccbox \<Rightarrow> metadata \<times> counter_marker \<times> tval option" where
  "payload b = (b_metadata b, b_cm b, b_elem b)"

definition frame :: "addr set \<Rightarrow> boxes \<Rightarrow> boxes \<Rightarrow> bool" where
  "frame S h h' \<longleftrightarrow> (\<forall>q. q \<notin> S \<longrightarrow> h' q = h q) \<and>
     (\<forall>q. map_option payload (h' q) = map_option payload (h q))"

definition isolated :: "boxes \<Rightarrow> addr \<Rightarrow> bool" where
  "isolated h p \<longleftrightarrow> links h p = Some (None, None)"

lemma frame_refl [simp, intro]: "frame S h h"
  by (simp add: frame_def)

lemma frame_trans: "frame S h h' \<Longrightarrow> frame T h' h'' \<Longrightarrow> frame (S \<union> T) h h''"
  by (simp add: frame_def)

lemma frame_trans_same: "frame S h h' \<Longrightarrow> frame S h' h'' \<Longrightarrow> frame S h h''"
  by (drule (1) frame_trans) simp

lemma frame_mono: "frame S h h' \<Longrightarrow> S \<subseteq> T \<Longrightarrow> frame T h h'"
  by (auto simp: frame_def)

lemma frame_out: "frame S h h' \<Longrightarrow> q \<notin> S \<Longrightarrow> h' q = h q"
  by (simp add: frame_def)

lemma frame_links: "frame S h h' \<Longrightarrow> q \<notin> S \<Longrightarrow> links h' q = links h q"
  by (simp add: frame_def links_def)

lemma frame_payload: "frame S h h' \<Longrightarrow> map_option payload (h' q) = map_option payload (h q)"
  by (simp add: frame_def)

lemma frame_dom: "frame S h h' \<Longrightarrow> dom h' = dom h"
proof (rule set_eqI)
  fix q assume "frame S h h'"
  from frame_payload [OF this, of q] show "q \<in> dom h' \<longleftrightarrow> q \<in> dom h"
    by (cases "h q"; cases "h' q") auto
qed

lemma frame_cm: "frame S h h' \<Longrightarrow> map_option b_cm (h' q) = map_option b_cm (h q)"
  using frame_payload [of S h h' q] by (cases "h q"; cases "h' q") (auto simp: payload_def)

lemma frame_elem: "frame S h h' \<Longrightarrow> map_option b_elem (h' q) = map_option b_elem (h q)"
  using frame_payload [of S h h' q] by (cases "h q"; cases "h' q") (auto simp: payload_def)

lemma frame_upd_link:
  "p \<in> S \<Longrightarrow> (\<And>b. payload (f b) = payload b) \<Longrightarrow> frame S h (upd p f h)"
  by (auto simp: frame_def upd_apply option.map_comp comp_def)

lemma payload_simps [simp]:
  "payload (b\<lparr>b_next := v\<rparr>) = payload b" "payload (b\<lparr>b_prev := v\<rparr>) = payload b"
  by (simp_all add: payload_def)

lemma isolated_iff: "isolated h p \<longleftrightarrow> (\<exists>b. h p = Some b \<and> b_next b = None \<and> b_prev b = None)"
  by (auto simp: isolated_def links_def)

lemma debug_assert_nones_Done [simp]: "isolated h p \<Longrightarrow> debug_assert_nones p h = Done () h"
  by (auto simp: debug_assert_nones_def get_next_def get_prev_def isolated_iff)

text \<open>Marking a set of boxes, as a function of the memory.\<close>

definition set_marks :: "addr set \<Rightarrow> mark \<Rightarrow> boxes \<Rightarrow> boxes" where
  "set_marks S m h = (\<lambda>q. if q \<in> S then map_option (\<lambda>b. b\<lparr>b_cm := mark m (b_cm b)\<rparr>) (h q) else h q)"

lemma upd_mark: "upd p (\<lambda>b. b\<lparr>b_cm := mark m (b_cm b)\<rparr>) h = set_marks {p} m h"
  by (rule ext) (simp add: upd_apply set_marks_def)

lemma links_set_marks [simp]: "links (set_marks S m h) q = links h q"
  by (simp add: links_def set_marks_def option.map_comp comp_def)

lemma set_marks_empty [simp]: "set_marks {} m h = h"
  by (rule ext) (simp add: set_marks_def)

lemma set_marks_Un: "set_marks S m (set_marks T m h) = set_marks (S \<union> T) m h"
proof -
  have "mark m (mark m c) = mark m c" for c
    by (simp add: view_inject [symmetric] view_mark)
  then show ?thesis
    by (intro ext) (simp add: set_marks_def option.map_comp comp_def)
qed

lemma dom_set_marks [simp]: "dom (set_marks S m h) = dom h"
  by (auto simp: set_marks_def dom_def split: if_splits)

lemma frame_set_marks: "frame S h h' \<Longrightarrow> frame S (set_marks T m h) (set_marks T m h')"
proof -
  assume f: "frame S h h'"
  have "map_option payload (set_marks T m h' q) = map_option payload (set_marks T m h q)" for q
    using frame_payload [OF f, of q]
    by (cases "h q"; cases "h' q") (auto simp: set_marks_def payload_def)
  with f show ?thesis by (simp add: frame_def set_marks_def)
qed

lemma links_cong_isolated: "links h' p = links h p \<Longrightarrow> isolated h' p = isolated h p"
  by (simp add: isolated_def)

end
