(* ===== verification/List_Segments.thy ===== *)
theory List_Segments
  imports Cc_Box
begin

text \<open>
  Linked segments in the memory: \<open>dseg h pv f xs l n\<close> says that from the pointer \<open>f\<close> the boxes
  \<open>xs\<close> follow each other through \<open>next\<close>, each pointing back to the one before it through \<open>prev\<close>
  (the first one to \<open>pv\<close>), that \<open>l\<close> is the last box (\<open>pv\<close> if there is none), and that \<open>n\<close> is where
  the last \<open>next\<close> leads. \<open>sseg\<close> is the singly linked form the queue uses, whose \<open>prev\<close>s are None.
\<close>

fun dseg :: "boxes \<Rightarrow> addr option \<Rightarrow> addr option \<Rightarrow> addr list \<Rightarrow> addr option \<Rightarrow> addr option \<Rightarrow> bool" where
  "dseg h pv f [] l n \<longleftrightarrow> l = pv \<and> n = f"
| "dseg h pv f (x # xs) l n \<longleftrightarrow> f = Some x \<and>
     (\<exists>nx. links h x = Some (nx, pv) \<and> dseg h (Some x) nx xs l n)"

fun sseg :: "boxes \<Rightarrow> addr option \<Rightarrow> addr list \<Rightarrow> addr option \<Rightarrow> bool" where
  "sseg h f [] n \<longleftrightarrow> n = f"
| "sseg h f (x # xs) n \<longleftrightarrow> f = Some x \<and> (\<exists>nx. links h x = Some (nx, None) \<and> sseg h nx xs n)"

lemma dseg_cong:
  "(\<And>x. x \<in> set xs \<Longrightarrow> links h' x = links h x) \<Longrightarrow> dseg h' pv f xs l n = dseg h pv f xs l n"
  by (induction xs arbitrary: pv f) auto

lemma sseg_cong:
  "(\<And>x. x \<in> set xs \<Longrightarrow> links h' x = links h x) \<Longrightarrow> sseg h' f xs n = sseg h f xs n"
  by (induction xs arbitrary: f) auto

lemma dseg_append: "dseg h pv f (xs @ ys) l n \<longleftrightarrow> (\<exists>m k. dseg h pv f xs m k \<and> dseg h m k ys l n)"
  by (induction xs arbitrary: pv f) auto

lemma sseg_append: "sseg h f (xs @ ys) n \<longleftrightarrow> (\<exists>k. sseg h f xs k \<and> sseg h k ys n)"
  by (induction xs arbitrary: f) auto

lemma dseg_live: "dseg h pv f xs l n \<Longrightarrow> x \<in> set xs \<Longrightarrow> \<exists>b. h x = Some b"
  by (induction xs arbitrary: pv f) (auto simp: links_def)

lemma sseg_live: "sseg h f xs n \<Longrightarrow> x \<in> set xs \<Longrightarrow> \<exists>b. h x = Some b"
  by (induction xs arbitrary: f) (auto simp: links_def)

lemma dseg_last: "dseg h pv f xs l n \<Longrightarrow> l = (if xs = [] then pv else Some (last xs))"
  by (induction xs arbitrary: pv f) auto

lemma dseg_first: "dseg h pv f xs l n \<Longrightarrow> f = (if xs = [] then n else Some (hd xs))"
  by (cases xs) auto

lemma sseg_first: "sseg h f xs n \<Longrightarrow> f = (if xs = [] then n else Some (hd xs))"
  by (cases xs) auto

lemma links_Some: "links h x = Some (a, b) \<longleftrightarrow> (\<exists>c. h x = Some c \<and> b_next c = a \<and> b_prev c = b)"
  by (auto simp: links_def)

lemma links_upd_next [simp]:
  "links (upd p (\<lambda>b. b\<lparr>b_next := v\<rparr>) h) q
   = (if q = p then map_option (\<lambda>(a, b). (v, b)) (links h q) else links h q)"
  by (simp add: links_def upd_apply option.map_comp comp_def)

lemma links_upd_prev [simp]:
  "links (upd p (\<lambda>b. b\<lparr>b_prev := v\<rparr>) h) q
   = (if q = p then map_option (\<lambda>(a, b). (a, v)) (links h q) else links h q)"
  by (simp add: links_def upd_apply option.map_comp comp_def)

text \<open>Redirecting the ends of a segment.\<close>

lemma dseg_set_prev:
  assumes "dseg h pv (Some x) (x # xs) l n" "x \<notin> set xs"
  shows "dseg (upd x (\<lambda>b. b\<lparr>b_prev := v\<rparr>) h) v (Some x) (x # xs) l n"
proof -
  have "dseg (upd x (\<lambda>b. b\<lparr>b_prev := v\<rparr>) h) q k xs l n = dseg h q k xs l n" for q k
    using assms(2) by (intro dseg_cong) auto
  with assms show ?thesis by auto
qed

lemma dseg_set_next:
  assumes "dseg h pv f (xs @ [x]) l n" "x \<notin> set xs"
  shows "dseg (upd x (\<lambda>b. b\<lparr>b_next := v\<rparr>) h) pv f (xs @ [x]) l v"
proof -
  have "dseg (upd x (\<lambda>b. b\<lparr>b_next := v\<rparr>) h) pv f xs m k = dseg h pv f xs m k" for m k
    using assms(2) by (intro dseg_cong) auto
  with assms show ?thesis by (auto simp: dseg_append)
qed

lemma sseg_set_next:
  assumes "sseg h f (xs @ [x]) n" "x \<notin> set xs"
  shows "sseg (upd x (\<lambda>b. b\<lparr>b_next := v\<rparr>) h) f (xs @ [x]) v"
proof -
  have "sseg (upd x (\<lambda>b. b\<lparr>b_next := v\<rparr>) h) f xs k = sseg h f xs k" for k
    using assms(2) by (intro sseg_cong) auto
  with assms show ?thesis by (auto simp: sseg_append)
qed

text \<open>What the links of an element in the middle are.\<close>

lemma dseg_middle:
  assumes "dseg h None f (as @ x # bs) l None"
  shows "links h x = Some (if bs = [] then None else Some (hd bs), if as = [] then None else Some (last as))"
proof -
  from assms obtain m k nx where a: "dseg h None f as m k" and k: "k = Some x"
    and x: "links h x = Some (nx, m)" and b: "dseg h (Some x) nx bs l None"
    by (auto simp: dseg_append)
  from dseg_last [OF a] dseg_first [OF b] x show ?thesis by simp
qed

text \<open>A memory determines the list that starts at a pointer.\<close>

lemma dseg_unique: "dseg h pv f xs l None \<Longrightarrow> dseg h pv f ys k None \<Longrightarrow> xs = ys"
proof (induction xs arbitrary: pv f ys)
  case Nil
  then show ?case by (cases ys) auto
next
  case (Cons x xs)
  then show ?case by (cases ys) auto
qed

lemma sseg_unique: "sseg h f xs None \<Longrightarrow> sseg h f ys None \<Longrightarrow> xs = ys"
proof (induction xs arbitrary: f ys)
  case Nil
  then show ?case by (cases ys) auto
next
  case (Cons x xs)
  then show ?case by (cases ys) auto
qed

end
