(* ===== verification/Intrusive.thy ===== *)
theory Intrusive
  imports List_Segments
begin

text \<open>
  The contract of the intrusive collections, as their clients (the collector, \<open>Cc\<close>) rely on it:
  a collection represents a list of distinct live boxes, \<open>add\<close> links in a box that is in no
  collection, \<open>take\<close> unlinks the first box and resets its mark, and nothing but the links of the
  boxes involved changes. \<open>intrusive_removable\<close> adds the removal of an inner element.
\<close>

locale intrusive =
  fixes repr :: "'l \<Rightarrow> boxes \<Rightarrow> addr list \<Rightarrow> bool"
    and ins :: "addr \<Rightarrow> addr list \<Rightarrow> addr list"
    and room :: "nat \<Rightarrow> bool"
    and add :: "addr \<Rightarrow> ('l \<times> boxes, unit) prog"
    and take_first :: "('l \<times> boxes, addr option) prog"
  assumes repr_distinct: "repr l h xs \<Longrightarrow> distinct xs"
    and repr_live: "repr l h xs \<Longrightarrow> x \<in> set xs \<Longrightarrow> \<exists>b. h x = Some b"
    and repr_cong: "repr l h xs \<Longrightarrow> (\<And>x. x \<in> set xs \<Longrightarrow> links h' x = links h x) \<Longrightarrow> repr l h' xs"
    and set_ins: "set (ins p xs) = insert p (set xs)"
    and remove1_ins: "p \<notin> set xs \<Longrightarrow> remove1 p (ins p xs) = xs"
    and add_ok: "repr l h xs \<Longrightarrow> p \<notin> set xs \<Longrightarrow> isolated h p \<Longrightarrow> room (length xs) \<Longrightarrow>
      \<exists>l' h'. add p (l, h) = Done () (l', h') \<and> repr l' h' (ins p xs) \<and> frame (insert p (set xs)) h h'"
    and take_nil: "repr l h [] \<Longrightarrow> take_first (l, h) = Done None (l, h)"
    and take_cons: "repr l h (x # xs) \<Longrightarrow>
      \<exists>l' h'. take_first (l, h) = Done (Some x) (l', h') \<and> repr l' h' xs \<and> isolated h' x
        \<and> frame (set (x # xs)) (set_marks {x} NonMarked h) h'"
begin

text \<open>A collection whose boxes a change does not touch still represents the same list.\<close>

lemma repr_frame: "repr l h xs \<Longrightarrow> frame S h h' \<Longrightarrow> S \<inter> set xs = {} \<Longrightarrow> repr l h' xs"
  by (rule repr_cong, assumption) (rule frame_links, auto)

lemma repr_set_marks: "repr l h xs \<Longrightarrow> repr l (set_marks S m h) xs"
  by (rule repr_cong, assumption) simp

text \<open>
  The destructor: taking boxes until none is left empties the collection, unlinks all its boxes
  and resets all their marks, whatever the order.
\<close>

lemma drop_all:
  "repr l h xs \<Longrightarrow> length xs < fuel \<Longrightarrow>
   \<exists>l' h'. while_let fuel take_first (\<lambda>_. ret ()) (l, h) = Done () (l', h') \<and> repr l' h' []
     \<and> (\<forall>x\<in>set xs. isolated h' x) \<and> frame (set xs) (set_marks (set xs) NonMarked h) h'"
proof (induction xs arbitrary: l h fuel)
  case Nil
  then obtain n where "fuel = Suc n" by (cases fuel) auto
  with take_nil [OF Nil.prems(1)] Nil.prems(1) show ?case by force
next
  case (Cons x xs)
  then obtain n where n: "fuel = Suc n" "length xs < n" by (cases fuel) auto
  from take_cons [OF Cons.prems(1)] obtain l1 h1 where 1: "take_first (l, h) = Done (Some x) (l1, h1)"
    "repr l1 h1 xs" "isolated h1 x" "frame (set (x # xs)) (set_marks {x} NonMarked h) h1"
    by blast
  from Cons.IH [OF 1(2) n(2)] obtain l2 h2 where
    2: "while_let n take_first (\<lambda>_. ret ()) (l1, h1) = Done () (l2, h2)" "repr l2 h2 []"
    "\<forall>y\<in>set xs. isolated h2 y" "frame (set xs) (set_marks (set xs) NonMarked h1) h2"
    by blast
  from repr_distinct [OF Cons.prems(1)] have "x \<notin> set xs" by simp
  with 1(3) 2(4) have x: "isolated h2 x"
    using frame_links [OF 2(4)] by (simp add: isolated_def)
  have "frame (set (x # xs)) (set_marks (set xs) NonMarked (set_marks {x} NonMarked h))
          (set_marks (set xs) NonMarked h1)"
    by (rule frame_set_marks [OF 1(4)])
  from frame_trans [OF this 2(4)]
  have f: "frame (set (x # xs)) (set_marks (set (x # xs)) NonMarked h) h2"
    by (simp add: set_marks_Un Un_commute insert_absorb)
  have "while_let fuel take_first (\<lambda>_. ret ()) (l, h) = while_let n take_first (\<lambda>_. ret ()) (l1, h1)"
    unfolding n(1) by (rule while_let_Some) (rule 1(1), rule ret_apply)
  from this 2(1) have "while_let fuel take_first (\<lambda>_. ret ()) (l, h) = Done () (l2, h2)" by (rule trans)
  moreover have "\<forall>y\<in>set (x # xs). isolated h2 y" using x 2(3) by simp
  ultimately show ?case using 2(2) f by blast
qed

text \<open>Any list of fresh boxes can be added one after the other.\<close>

lemma add_many:
  "repr l h xs \<Longrightarrow> distinct ps \<Longrightarrow> set ps \<inter> set xs = {} \<Longrightarrow> (\<And>p. p \<in> set ps \<Longrightarrow> isolated h p)
   \<Longrightarrow> (\<And>n. n < length xs + length ps \<Longrightarrow> room n) \<Longrightarrow> (\<And>p ys. length (ins p ys) = Suc (length ys)) \<Longrightarrow>
   \<exists>l' h'. forM ps add (l, h) = Done () (l', h') \<and> repr l' h' (fold ins ps xs)
     \<and> frame (set ps \<union> set xs) h h'"
proof (induction ps arbitrary: l h xs)
  case Nil
  then show ?case by auto
next
  case (Cons p ps)
  have "p \<notin> set xs" "isolated h p" "room (length xs)" using Cons.prems by auto
  from add_ok [OF Cons.prems(1) this] obtain l1 h1 where
    1: "add p (l, h) = Done () (l1, h1)" "repr l1 h1 (ins p xs)" "frame (insert p (set xs)) h h1"
    by blast
  have iso: "isolated h1 q" if "q \<in> set ps" for q
  proof -
    have "q \<notin> insert p (set xs)" "isolated h q" using that Cons.prems by auto
    with frame_links [OF 1(3)] show ?thesis by (simp add: isolated_def)
  qed
  have "\<exists>l' h'. forM ps add (l1, h1) = Done () (l', h') \<and> repr l' h' (fold ins ps (ins p xs))
      \<and> frame (set ps \<union> set (ins p xs)) h1 h'"
    using Cons.prems iso by (intro Cons.IH [OF 1(2)]) (auto simp: set_ins)
  then obtain l2 h2 where 2: "forM ps add (l1, h1) = Done () (l2, h2)"
    "repr l2 h2 (fold ins ps (ins p xs))" "frame (set ps \<union> set (ins p xs)) h1 h2"
    by blast
  from frame_trans [OF 1(3) 2(3)] have "frame (set (p # ps) \<union> set xs) h h2"
    by (rule frame_mono) (auto simp: set_ins)
  with 1 2 show ?case by auto
qed

end

locale intrusive_removable = intrusive repr ins room add take_first
  for repr :: "'l \<Rightarrow> boxes \<Rightarrow> addr list \<Rightarrow> bool"
    and ins :: "addr \<Rightarrow> addr list \<Rightarrow> addr list"
    and room :: "nat \<Rightarrow> bool"
    and add :: "addr \<Rightarrow> ('l \<times> boxes, unit) prog"
    and take_first :: "('l \<times> boxes, addr option) prog" +
  fixes remove :: "addr \<Rightarrow> ('l \<times> boxes, unit) prog"
  assumes remove_ok: "repr l h xs \<Longrightarrow> p \<in> set xs \<Longrightarrow>
      \<exists>l' h'. remove p (l, h) = Done () (l', h') \<and> repr l' h' (remove1 p xs) \<and> isolated h' p
        \<and> frame (set xs) h h'"
begin

lemma add_then_remove:
  assumes "repr l h xs" "p \<notin> set xs" "isolated h p" "room (length xs)"
  shows "\<exists>l' h'. thenM (add p) (remove p) (l, h) = Done () (l', h') \<and> repr l' h' xs \<and> isolated h' p
    \<and> frame (insert p (set xs)) h h'"
proof -
  from add_ok [OF assms] obtain l1 h1 where
    1: "add p (l, h) = Done () (l1, h1)" "repr l1 h1 (ins p xs)" "frame (insert p (set xs)) h h1"
    by blast
  from remove_ok [OF 1(2), of p] obtain l2 h2 where
    2: "remove p (l1, h1) = Done () (l2, h2)" "repr l2 h2 (remove1 p (ins p xs))" "isolated h2 p"
    "frame (set (ins p xs)) h1 h2"
    by (auto simp: set_ins)
  from frame_trans [OF 1(3) 2(4)] have "frame (insert p (set xs)) h h2" by (simp add: set_ins)
  with 1 2 remove1_ins [OF assms(2)] show ?thesis by auto
qed

end

end
