(* ===== verification/Lists.thy ===== *)
theory Lists
  imports Intrusive
begin

text \<open>
  The intrusive collections of \<open>src/src/lists.rs\<close>: \<open>LinkedList\<close>, \<open>PossibleCycles\<close> and
  \<open>LinkedQueue\<close>. The links live in the boxes themselves, so a method runs on the pair of the
  collection's own fields and the memory. The contract of the three types is the locale
  \<open>intrusive\<close>: each is a list of distinct addresses, and its operations are the list operations.
\<close>

subsection \<open>LinkedList\<close>

record llist =
  ll_first :: "addr option"

definition heapM :: "(boxes, 'a) prog \<Rightarrow> ('l \<times> boxes, 'a) prog" where
  "heapM m = zoom snd (\<lambda>h s. (fst s, h)) m"

definition ll_new :: llist where
  "ll_new = \<lparr>ll_first = None\<rparr>"

definition ll_set_first :: "addr option \<Rightarrow> (llist \<times> boxes, unit) prog" where
  "ll_set_first f = modifyM (\<lambda>(l, h). (l\<lparr>ll_first := f\<rparr>, h))"

definition ll_get_first :: "(llist \<times> boxes, addr option) prog" where
  "ll_get_first = getM (\<lambda>(l, h). ll_first l)"

definition ll_is_empty :: "llist \<Rightarrow> bool" where
  "ll_is_empty l \<longleftrightarrow> ll_first l = None"

definition ll_add :: "addr \<Rightarrow> (llist \<times> boxes, unit) prog" where
  "ll_add ptr =
     thenM (heapM (debug_assert_nones ptr))
    (thenM (bindM ll_get_first (\<lambda>f. case f of
        Some first \<Rightarrow> thenM (heapM (set_prev first (Some ptr))) (heapM (set_next ptr (Some first)))
      | None \<Rightarrow> ret ()))
    (ll_set_first (Some ptr)))"

definition ll_remove :: "addr \<Rightarrow> (llist \<times> boxes, unit) prog" where
  "ll_remove ptr =
     thenM (bindM (heapM (get_next ptr)) (\<lambda>n. bindM (heapM (get_prev ptr)) (\<lambda>p. case (n, p) of
         (Some next, Some prev) \<Rightarrow>
           thenM (heapM (set_prev next (Some prev)))
          (thenM (heapM (set_next prev (Some next)))
          (thenM (heapM (set_next ptr None))
                 (heapM (set_prev ptr None))))
       | (Some next, None) \<Rightarrow>
           thenM (heapM (set_prev next None))
          (thenM (ll_set_first (Some next))
                 (heapM (set_next ptr None)))
       | (None, Some prev) \<Rightarrow>
           thenM (heapM (set_next prev None))
                 (heapM (set_prev ptr None))
       | (None, None) \<Rightarrow> ll_set_first None)))
     (heapM (debug_assert_nones ptr))"

definition ll_remove_first :: "(llist \<times> boxes, addr option) prog" where
  "ll_remove_first = bindM ll_get_first (\<lambda>f. case f of
      Some first \<Rightarrow>
        bindM (heapM (get_next first)) (\<lambda>n.
        thenM (ll_set_first n)
       (thenM (case n of Some next \<Rightarrow> heapM (set_prev next None) | None \<Rightarrow> ret ())
       (thenM (heapM (set_next first None))
       (thenM (heapM (cm_mark first NonMarked))
              (ret (Some first))))))
    | None \<Rightarrow> ret None)"

text \<open>\<open>Drop for LinkedList\<close>: \<open>while self.remove_first().is_some() {}\<close>.\<close>

definition ll_drop :: "nat \<Rightarrow> (llist \<times> boxes, unit) prog" where
  "ll_drop fuel = while_let fuel ll_remove_first (\<lambda>_. ret ())"

subsection \<open>PossibleCycles\<close>

record pcycles =
  pc_first :: "addr option"
  pc_size :: usize

definition pc_new :: pcycles where
  "pc_new = \<lparr>pc_first = None, pc_size = 0\<rparr>"

definition pc_set_first :: "addr option \<Rightarrow> (pcycles \<times> boxes, unit) prog" where
  "pc_set_first f = modifyM (\<lambda>(l, h). (l\<lparr>pc_first := f\<rparr>, h))"

definition pc_get_first :: "(pcycles \<times> boxes, addr option) prog" where
  "pc_get_first = getM (\<lambda>(l, h). pc_first l)"

definition pc_get_size :: "(pcycles \<times> boxes, usize) prog" where
  "pc_get_size = getM (\<lambda>(l, h). pc_size l)"

definition pc_set_size :: "usize \<Rightarrow> (pcycles \<times> boxes, unit) prog" where
  "pc_set_size n = modifyM (\<lambda>(l, h). (l\<lparr>pc_size := n\<rparr>, h))"

definition pc_is_empty :: "pcycles \<Rightarrow> bool" where
  "pc_is_empty l \<longleftrightarrow> pc_first l = None"

definition pc_add :: "addr \<Rightarrow> (pcycles \<times> boxes, unit) prog" where
  "pc_add ptr =
     thenM (heapM (debug_assert_nones ptr))
    (thenM (bindM pc_get_size (\<lambda>n. bindM (checked_add n 1) pc_set_size))
    (thenM (bindM pc_get_first (\<lambda>f. case f of
        Some first \<Rightarrow> thenM (heapM (set_prev first (Some ptr))) (heapM (set_next ptr (Some first)))
      | None \<Rightarrow> ret ()))
    (pc_set_first (Some ptr))))"

definition pc_remove :: "addr \<Rightarrow> (pcycles \<times> boxes, unit) prog" where
  "pc_remove ptr =
     thenM (bindM pc_get_size (\<lambda>n. bindM (checked_sub n 1) pc_set_size))
    (thenM (bindM (heapM (get_next ptr)) (\<lambda>n. bindM (heapM (get_prev ptr)) (\<lambda>p. case (n, p) of
         (Some next, Some prev) \<Rightarrow>
           thenM (heapM (set_prev next (Some prev)))
          (thenM (heapM (set_next prev (Some next)))
          (thenM (heapM (set_next ptr None))
                 (heapM (set_prev ptr None))))
       | (Some next, None) \<Rightarrow>
           thenM (heapM (set_prev next None))
          (thenM (pc_set_first (Some next))
                 (heapM (set_next ptr None)))
       | (None, Some prev) \<Rightarrow>
           thenM (heapM (set_next prev None))
                 (heapM (set_prev ptr None))
       | (None, None) \<Rightarrow> pc_set_first None)))
     (heapM (debug_assert_nones ptr)))"

definition pc_remove_first :: "(pcycles \<times> boxes, addr option) prog" where
  "pc_remove_first = bindM pc_get_first (\<lambda>f. case f of
      Some first \<Rightarrow>
        thenM (bindM pc_get_size (\<lambda>n. bindM (checked_sub n 1) pc_set_size))
       (bindM (heapM (get_next first)) (\<lambda>n.
        thenM (pc_set_first n)
       (thenM (case n of Some next \<Rightarrow> heapM (set_prev next None) | None \<Rightarrow> ret ())
       (thenM (heapM (set_next first None))
       (thenM (heapM (cm_mark first NonMarked))
              (ret (Some first)))))))
    | None \<Rightarrow> ret None)"

definition pc_drop :: "nat \<Rightarrow> (pcycles \<times> boxes, unit) prog" where
  "pc_drop fuel = while_let fuel pc_remove_first (\<lambda>_. ret ())"

subsection \<open>LinkedQueue\<close>

record lqueue =
  lq_first :: "addr option"
  lq_last :: "addr option"

definition lq_new :: lqueue where
  "lq_new = \<lparr>lq_first = None, lq_last = None\<rparr>"

definition lq_set_first :: "addr option \<Rightarrow> (lqueue \<times> boxes, unit) prog" where
  "lq_set_first f = modifyM (\<lambda>(l, h). (l\<lparr>lq_first := f\<rparr>, h))"

definition lq_set_last :: "addr option \<Rightarrow> (lqueue \<times> boxes, unit) prog" where
  "lq_set_last f = modifyM (\<lambda>(l, h). (l\<lparr>lq_last := f\<rparr>, h))"

definition lq_peek :: "lqueue \<Rightarrow> addr option" where
  "lq_peek l = lq_first l"

definition lq_is_empty :: "lqueue \<Rightarrow> bool" where
  "lq_is_empty l \<longleftrightarrow> lq_peek l = None"

definition lq_add :: "addr \<Rightarrow> (lqueue \<times> boxes, unit) prog" where
  "lq_add ptr =
     thenM (heapM (debug_assert_nones ptr))
    (thenM (bindM (getM (\<lambda>(l, h). lq_last l)) (\<lambda>f. case f of
        Some lst \<Rightarrow> heapM (set_next lst (Some ptr))
      | None \<Rightarrow> lq_set_first (Some ptr)))
    (lq_set_last (Some ptr)))"

definition lq_poll :: "(lqueue \<times> boxes, addr option) prog" where
  "lq_poll = bindM (getM (\<lambda>(l, h). lq_first l)) (\<lambda>f. case f of
      Some first \<Rightarrow>
        bindM (heapM (get_next first)) (\<lambda>n.
        thenM (lq_set_first n)
       (thenM (if n = None then lq_set_last None else ret ())
       (thenM (heapM (set_next first None))
       (thenM (heapM (cm_mark first NonMarked))
              (ret (Some first))))))
    | None \<Rightarrow> ret None)"

definition lq_drop :: "nat \<Rightarrow> (lqueue \<times> boxes, unit) prog" where
  "lq_drop fuel = while_let fuel lq_poll (\<lambda>_. ret ())"

subsection \<open>Iteration\<close>

text \<open>\<open>Iter\<close>: the state of the iterator is the pointer to the next element.\<close>

definition iter_next :: "(addr option \<times> boxes, addr option) prog" where
  "iter_next = bindM (getM fst) (\<lambda>nx. case nx of
      Some ptr \<Rightarrow> bindM (heapM (get_next ptr)) (\<lambda>n.
        thenM (modifyM (\<lambda>(_, h). (n, h))) (ret (Some ptr)))
    | None \<Rightarrow> ret None)"

definition ll_iter :: "llist \<Rightarrow> addr option" where
  "ll_iter l = ll_first l"

text \<open>\<open>Iter::contains\<close>, which consumes the iterator up to the element it looks for.\<close>

fun iter_contains :: "nat \<Rightarrow> addr \<Rightarrow> (addr option \<times> boxes, bool) prog" where
  "iter_contains 0 ptr = (\<lambda>s. Timeout)"
| "iter_contains (Suc n) ptr = bindM iter_next (\<lambda>r. case r of
     None \<Rightarrow> ret False
   | Some e \<Rightarrow> if e = ptr then ret True else iter_contains n ptr)"

subsection \<open>What the collections represent\<close>

definition ll_repr :: "llist \<Rightarrow> boxes \<Rightarrow> addr list \<Rightarrow> bool" where
  "ll_repr l h xs \<longleftrightarrow> distinct xs \<and> (\<exists>e. dseg h None (ll_first l) xs e None)"

definition pc_repr :: "pcycles \<Rightarrow> boxes \<Rightarrow> addr list \<Rightarrow> bool" where
  "pc_repr l h xs \<longleftrightarrow> distinct xs \<and> (\<exists>e. dseg h None (pc_first l) xs e None)
     \<and> unat (pc_size l) = length xs"

definition lq_repr :: "lqueue \<Rightarrow> boxes \<Rightarrow> addr list \<Rightarrow> bool" where
  "lq_repr l h xs \<longleftrightarrow> distinct xs \<and> sseg h (lq_first l) xs None
     \<and> lq_last l = (if xs = [] then None else Some (last xs))"

definition snoc :: "'a \<Rightarrow> 'a list \<Rightarrow> 'a list" where
  "snoc x xs = xs @ [x]"

text \<open>The evaluation of the primitive steps on a pair.\<close>

lemmas list_steps = heapM_def zoom_def get_next_def get_prev_def set_next_def set_prev_def
  ll_set_first_def ll_get_first_def pc_set_first_def pc_get_first_def pc_get_size_def
  pc_set_size_def lq_set_first_def lq_set_last_def

subsection \<open>Linking and unlinking in the memory\<close>

text \<open>The effect of \<open>add\<close> and \<open>remove\<close> on the memory, common to the two doubly linked lists.\<close>

definition link_first :: "addr \<Rightarrow> addr option \<Rightarrow> boxes \<Rightarrow> boxes" where
  "link_first p f h = (case f of None \<Rightarrow> h
     | Some x \<Rightarrow> upd p (\<lambda>b. b\<lparr>b_next := Some x\<rparr>) (upd x (\<lambda>b. b\<lparr>b_prev := Some p\<rparr>) h))"

definition unlink :: "addr \<Rightarrow> addr option \<Rightarrow> addr option \<Rightarrow> boxes \<Rightarrow> boxes" where
  "unlink p n q h =
     upd p (\<lambda>b. b\<lparr>b_prev := None\<rparr>) (upd p (\<lambda>b. b\<lparr>b_next := None\<rparr>)
       ((case q of None \<Rightarrow> id | Some y \<Rightarrow> upd y (\<lambda>b. b\<lparr>b_next := n\<rparr>))
       ((case n of None \<Rightarrow> id | Some x \<Rightarrow> upd x (\<lambda>b. b\<lparr>b_prev := q\<rparr>)) h)))"

lemma link_first_dseg:
  assumes "dseg h None f xs l None" "distinct xs" "p \<notin> set xs" "isolated h p"
  shows "\<exists>l. dseg (link_first p f h) None (Some p) (p # xs) l None"
proof (cases xs)
  case Nil
  with assms show ?thesis by (auto simp: link_first_def isolated_def)
next
  case (Cons x ys)
  with assms have f: "f = Some x" and x: "x \<notin> set ys" "x \<noteq> p" by auto
  let ?h = "upd x (\<lambda>b. b\<lparr>b_prev := Some p\<rparr>) h"
  from assms(1) f Cons have "dseg h None (Some x) (x # ys) l None" by simp
  from dseg_set_prev [OF this x(1), of "Some p"]
  have "dseg (upd p (\<lambda>b. b\<lparr>b_next := Some x\<rparr>) ?h) (Some p) (Some x) (x # ys) l None"
    using assms(3) Cons by (subst dseg_cong [of _ _ ?h]) auto
  with assms(4) f Cons x(2) show ?thesis
    by (auto simp: link_first_def isolated_def)
qed

lemma link_first_frame: "set_option f \<subseteq> S \<Longrightarrow> p \<in> S \<Longrightarrow> frame S h (link_first p f h)"
proof (cases f)
  case (Some x)
  assume "set_option f \<subseteq> S" "p \<in> S"
  with Some have "frame S h (upd x (\<lambda>b. b\<lparr>b_prev := Some p\<rparr>) h)"
    "frame S (upd x (\<lambda>b. b\<lparr>b_prev := Some p\<rparr>) h) (link_first p f h)"
    by (auto simp: link_first_def intro!: frame_upd_link)
  from frame_trans [OF this] show ?thesis by simp
qed (simp add: link_first_def)

lemma unlink_frame: "set_option n \<subseteq> S \<Longrightarrow> set_option q \<subseteq> S \<Longrightarrow> p \<in> S \<Longrightarrow> frame S h (unlink p n q h)"
proof -
  assume S: "set_option n \<subseteq> S" "set_option q \<subseteq> S" "p \<in> S"
  let ?h1 = "(case n of None \<Rightarrow> id | Some x \<Rightarrow> upd x (\<lambda>b. b\<lparr>b_prev := q\<rparr>)) h"
  let ?h2 = "(case q of None \<Rightarrow> id | Some y \<Rightarrow> upd y (\<lambda>b. b\<lparr>b_next := n\<rparr>)) ?h1"
  have "frame S h ?h1" "frame S ?h1 ?h2"
    using S by (auto split: option.split intro!: frame_upd_link)
  moreover have "frame S ?h2 (unlink p n q h)"
    unfolding unlink_def upd_upd using S(3) by (intro frame_upd_link) auto
  ultimately show ?thesis
    by (blast intro: frame_trans_same)
qed

lemma unlink_links:
  "links (unlink p n q h) r = (if r = p then map_option (\<lambda>_. (None, None)) (links h p)
     else if Some r = q \<and> Some r = n then map_option (\<lambda>_. (n, q)) (links h r)
     else if Some r = q then map_option (\<lambda>(a, b). (n, b)) (links h r)
     else if Some r = n then map_option (\<lambda>(a, b). (a, q)) (links h r) else links h r)"
  by (cases n; cases q) (auto simp: unlink_def option.map_comp comp_def split_def simp del: upd_upd)

lemma unlink_dseg:
  assumes d: "dseg h None f (as @ p # bs) l None" and dist: "distinct (as @ p # bs)"
  defines "n \<equiv> (if bs = [] then None else Some (hd bs))"
    and "q \<equiv> (if as = [] then None else Some (last as))"
  shows "\<exists>l. dseg (unlink p n q h) None (if as = [] then n else f) (as @ bs) l None"
proof -
  from d obtain m k nx where a: "dseg h None f as m k" and k: "k = Some p"
    and p: "links h p = Some (nx, m)" and b: "dseg h (Some p) nx bs l None"
    by (auto simp: dseg_append)
  from dseg_last [OF a] have m: "m = q" by (simp add: q_def)
  from dseg_first [OF b] have nx: "nx = n" by (simp add: n_def)
  have ub: "dseg (unlink p n q h) q n bs (if bs = [] then q else l) None"
  proof (cases bs)
    case Nil
    then show ?thesis by (simp add: n_def)
  next
    case (Cons x cs)
    then have x: "x \<notin> set cs" "x \<noteq> p" "Some x \<noteq> q"
      and cs: "\<And>r. r \<in> set cs \<Longrightarrow> r \<noteq> p \<and> Some r \<noteq> q \<and> r \<noteq> x"
      using dist last_in_set [of as] by (cases "as = []"; force simp: q_def)+
    from b nx Cons obtain nn where nn: "links h x = Some (nn, Some p)"
      "dseg h (Some x) nn cs l None" and n: "n = Some x" by auto
    from nn(2) have "dseg (unlink p n q h) (Some x) nn cs l None"
      using cs n by (subst dseg_cong) (auto simp: unlink_links)
    with nn n x Cons show ?thesis by (simp add: unlink_links)
  qed
  have ua: "dseg (unlink p n q h) None (if as = [] then n else f) as q n"
  proof (cases as rule: rev_cases)
    case Nil
    then show ?thesis by (simp add: q_def)
  next
    case (snoc cs y)
    with dist have y: "y \<notin> set cs" "y \<noteq> p" "Some y \<noteq> n"
      and cs: "\<And>r. r \<in> set cs \<Longrightarrow> r \<noteq> p \<and> Some r \<noteq> n \<and> r \<noteq> y"
      by (auto simp: n_def)
    from a snoc k m have "dseg (upd y (\<lambda>b. b\<lparr>b_next := n\<rparr>) h) None f (cs @ [y]) q n"
      using dseg_set_next [OF _ y(1), of h None f m k n] by simp
    then have "dseg (unlink p n q h) None f (cs @ [y]) q n"
      using cs y snoc by (subst dseg_cong) (auto simp: unlink_links q_def split_def)
    with snoc show ?thesis by simp
  qed
  from ua ub show ?thesis unfolding dseg_append by blast
qed

subsection \<open>The operations, evaluated\<close>

lemma heapM_Done [simp]: "m h = Done a h' \<Longrightarrow> heapM m (l, h) = Done a (l, h')"
  by (simp add: heapM_def zoom_def)

lemma set_next_Done [simp]: "h p = Some b \<Longrightarrow> set_next p v h = Done () (upd p (\<lambda>b. b\<lparr>b_next := v\<rparr>) h)"
  by (simp add: set_next_def)

lemma set_prev_Done [simp]: "h p = Some b \<Longrightarrow> set_prev p v h = Done () (upd p (\<lambda>b. b\<lparr>b_prev := v\<rparr>) h)"
  by (simp add: set_prev_def)

lemma get_links_Done [simp]:
  "links h p = Some (n, q) \<Longrightarrow> get_next p h = Done n h"
  "links h p = Some (n, q) \<Longrightarrow> get_prev p h = Done q h"
  by (auto simp: get_next_def get_prev_def links_Some)

lemma dseg_Some_live: "dseg h pv (Some x) xs l None \<Longrightarrow> \<exists>b. h x = Some b"
  by (cases xs) (auto simp: links_Some)

lemma ll_add_eval:
  assumes "ll_repr l h xs" "isolated h p" "p \<notin> set xs"
  shows "ll_add p (l, h) = Done () (l\<lparr>ll_first := Some p\<rparr>, link_first p (ll_first l) h)"
proof (cases "ll_first l")
  case None
  with assms show ?thesis
    by (simp add: ll_add_def ll_get_first_def ll_set_first_def link_first_def)
next
  case (Some x)
  with assms obtain b c where "h x = Some b" "h p = Some c"
    by (auto simp: ll_repr_def isolated_iff dest: dseg_Some_live)
  with assms Some show ?thesis
    by (cases "x = p") (simp_all add: ll_add_def ll_get_first_def ll_set_first_def link_first_def)
qed

lemma pc_add_eval:
  assumes "pc_repr l h xs" "isolated h p" "p \<notin> set xs" "length xs + 1 < 2 ^ 64"
  shows "pc_add p (l, h) = Done () (l\<lparr>pc_first := Some p, pc_size := pc_size l + 1\<rparr>, link_first p (pc_first l) h)"
proof (cases "pc_first l")
  case None
  with assms show ?thesis
    by (simp add: pc_add_def pc_get_first_def pc_set_first_def pc_get_size_def pc_set_size_def link_first_def
        pc_repr_def)
next
  case (Some x)
  with assms obtain b c where "h x = Some b" "h p = Some c"
    by (auto simp: pc_repr_def isolated_iff dest: dseg_Some_live)
  with assms Some show ?thesis
    by (cases "x = p") (simp_all add: pc_add_def pc_get_first_def pc_set_first_def pc_get_size_def
        pc_set_size_def link_first_def pc_repr_def)
qed

text \<open>Removal: the four cases of the source, by the neighbours of the element.\<close>

lemma remove_links_eval:
  assumes d: "dseg h None f (as @ p # bs) l None" and dist: "distinct (as @ p # bs)"
  defines "n \<equiv> (if bs = [] then None else Some (hd bs))"
    and "q \<equiv> (if as = [] then None else Some (last as))"
  shows "links h p = Some (n, q)" "\<exists>b. h p = Some b"
    "\<And>x. n = Some x \<Longrightarrow> (\<exists>b. h x = Some b) \<and> x \<noteq> p" "\<And>y. q = Some y \<Longrightarrow> (\<exists>b. h y = Some b) \<and> y \<noteq> p"
    "\<And>x y. n = Some x \<Longrightarrow> q = Some y \<Longrightarrow> x \<noteq> y"
proof -
  show "links h p = Some (n, q)" using dseg_middle [OF d] by (simp add: n_def q_def)
  then show "\<exists>b. h p = Some b" by (auto simp: links_Some)
  have n: "n = Some x \<Longrightarrow> x \<in> set bs" for x by (auto simp: n_def split: if_splits)
  have q: "q = Some y \<Longrightarrow> y \<in> set as" for y by (auto simp: q_def split: if_splits)
  show "n = Some x \<Longrightarrow> (\<exists>b. h x = Some b) \<and> x \<noteq> p" for x
    using n [of x] dseg_live [OF d, of x] dist by auto
  show "q = Some y \<Longrightarrow> (\<exists>b. h y = Some b) \<and> y \<noteq> p" for y
    using q [of y] dseg_live [OF d, of y] dist by auto
  show "n = Some x \<Longrightarrow> q = Some y \<Longrightarrow> x \<noteq> y" for x y
    using n [of x] q [of y] dist by auto
qed

lemma isolated_unlink: "links h p = Some z \<Longrightarrow> isolated (unlink p n q h) p"
  by (simp add: isolated_def unlink_links)

lemma upd_link_swap:
  "upd p (\<lambda>b. b\<lparr>b_prev := None\<rparr>) (upd p (\<lambda>b. b\<lparr>b_next := v\<rparr>) h) =
   upd p (\<lambda>b. b\<lparr>b_next := v\<rparr>) (upd p (\<lambda>b. b\<lparr>b_prev := None\<rparr>) h)"
proof -
  have "(\<lambda>b :: ccbox. b\<lparr>b_next := v, b_prev := None\<rparr>) = (\<lambda>b. b\<lparr>b_prev := None, b_next := v\<rparr>)"
    by (rule ext) (case_tac b, simp)
  then show ?thesis unfolding upd_upd by (rule arg_cong)
qed

lemma upd_noop_next: "links h p = Some (v, q) \<Longrightarrow> upd p (\<lambda>b. b\<lparr>b_next := v\<rparr>) h = h"
  by (auto simp: links_Some intro!: upd_id)

lemma upd_noop_prev: "links h p = Some (n, v) \<Longrightarrow> upd p (\<lambda>b. b\<lparr>b_prev := v\<rparr>) h = h"
  by (auto simp: links_Some intro!: upd_id)

lemma remove_body_eval:
  assumes d: "dseg h None f (as @ p # bs) e None" and dist: "distinct (as @ p # bs)"
    and setf: "\<And>v h. setf v (l, h) = Done () (upf v l, h)"
  defines "n \<equiv> (if bs = [] then None else Some (hd bs))"
    and "q \<equiv> (if as = [] then None else Some (last as))"
  shows "thenM (bindM (heapM (get_next p)) (\<lambda>n. bindM (heapM (get_prev p)) (\<lambda>q. case (n, q) of
         (Some next, Some prev) \<Rightarrow>
           thenM (heapM (set_prev next (Some prev)))
          (thenM (heapM (set_next prev (Some next)))
          (thenM (heapM (set_next p None))
                 (heapM (set_prev p None))))
       | (Some next, None) \<Rightarrow>
           thenM (heapM (set_prev next None))
          (thenM (setf (Some next))
                 (heapM (set_next p None)))
       | (None, Some prev) \<Rightarrow>
           thenM (heapM (set_next prev None))
                 (heapM (set_prev p None))
       | (None, None) \<Rightarrow> setf None)))
     (heapM (debug_assert_nones p)) (l, h) = Done () (if as = [] then upf n l else l, unlink p n q h)"
proof -
  note f = remove_links_eval [OF d dist, folded n_def q_def]
  from f(2) obtain b where b: "h p = Some b" ..
  note iso = isolated_unlink [OF f(1), of n q]
  have q: "q = None \<longleftrightarrow> as = []" by (simp add: q_def)
  show ?thesis
  proof (cases n; cases q)
    assume n: "n = None" and q': "q = None"
    have h: "unlink p n q h = h"
      using f(1) n q' by (simp add: unlink_def upd_noop_next upd_noop_prev del: upd_upd)
    with f(1) iso n q' q show ?thesis by (simp add: setf)
  next
    fix y assume n: "n = None" and q': "q = Some y"
    from f(4) [OF q'] obtain c where c: "h y = Some c" "y \<noteq> p" by blast
    let ?h = "upd p (\<lambda>b. b\<lparr>b_prev := None\<rparr>) (upd y (\<lambda>b. b\<lparr>b_next := None\<rparr>) h)"
    have h: "unlink p n q h = ?h"
      using f(1) n q' c by (simp add: unlink_def upd_noop_next del: upd_upd)
    with f(1) iso n q' q b c show ?thesis by simp
  next
    fix x assume n: "n = Some x" and q': "q = None"
    from f(3) [OF n] obtain c where c: "h x = Some c" "x \<noteq> p" by blast
    let ?h = "upd p (\<lambda>b. b\<lparr>b_next := None\<rparr>) (upd x (\<lambda>b. b\<lparr>b_prev := None\<rparr>) h)"
    have h: "unlink p n q h = ?h"
      using f(1) n q' c by (simp add: unlink_def upd_link_swap upd_noop_prev del: upd_upd)
    with f(1) iso n q' q b c show ?thesis by (simp add: setf)
  next
    fix x y assume n: "n = Some x" and q': "q = Some y"
    from f(3) [OF n] f(4) [OF q'] f(5) [OF n q'] obtain c d where
      c: "h x = Some c" "x \<noteq> p" "h y = Some d" "y \<noteq> p" "x \<noteq> y" by blast
    have h: "unlink p n q h = upd p (\<lambda>b. b\<lparr>b_prev := None\<rparr>) (upd p (\<lambda>b. b\<lparr>b_next := None\<rparr>)
       (upd y (\<lambda>b. b\<lparr>b_next := Some x\<rparr>) (upd x (\<lambda>b. b\<lparr>b_prev := Some y\<rparr>) h)))"
      using n q' by (simp add: unlink_def del: upd_upd)
    with f(1) iso n q' q b c show ?thesis by (simp del: upd_upd)
  qed
qed

lemma ll_remove_eval:
  assumes "dseg h None (ll_first l) (as @ p # bs) e None" "distinct (as @ p # bs)"
  shows "ll_remove p (l, h) = Done () (if as = [] then l\<lparr>ll_first := if bs = [] then None else Some (hd bs)\<rparr> else l,
    unlink p (if bs = [] then None else Some (hd bs)) (if as = [] then None else Some (last as)) h)"
  unfolding ll_remove_def using assms by (rule remove_body_eval) (simp add: ll_set_first_def)

lemma pc_remove_eval:
  assumes "dseg h None (pc_first l) (as @ p # bs) e None" "distinct (as @ p # bs)"
    "unat (pc_size l) = length (as @ p # bs)"
  defines "l' \<equiv> l\<lparr>pc_size := pc_size l - 1\<rparr>"
  shows "pc_remove p (l, h) = Done () (if as = [] then l'\<lparr>pc_first := if bs = [] then None else Some (hd bs)\<rparr> else l',
    unlink p (if bs = [] then None else Some (hd bs)) (if as = [] then None else Some (last as)) h)"
proof -
  have "bindM pc_get_size (\<lambda>n. bindM (checked_sub n 1) pc_set_size) (l, h) = Done () (l', h)"
    using assms(3) by (simp add: pc_get_size_def pc_set_size_def l'_def)
  then show ?thesis
    unfolding pc_remove_def
    by (simp only: thenM_Done) (rule remove_body_eval [OF _ assms(2)], use assms(1) in \<open>auto simp: l'_def pc_set_first_def\<close>)
qed

lemma unlink_first_heap:
  assumes "links h x = Some (n, None)"
  shows "unlink x n None h = upd x (\<lambda>b. b\<lparr>b_next := None\<rparr>)
     ((case n of None \<Rightarrow> id | Some y \<Rightarrow> upd y (\<lambda>b. b\<lparr>b_prev := None\<rparr>)) h)"
proof -
  let ?h = "(case n of None \<Rightarrow> id | Some y \<Rightarrow> upd y (\<lambda>b. b\<lparr>b_prev := None\<rparr>)) h"
  have "links ?h x = Some (n, None)" using assms by (cases n) auto
  then have "upd x (\<lambda>b. b\<lparr>b_prev := None\<rparr>) ?h = ?h" by (rule upd_noop_prev)
  then show ?thesis
    by (simp only: unlink_def upd_link_swap option.case id_apply)
qed

lemma take_first_body_eval:
  assumes d: "dseg h None (Some x) (x # xs) e None" and dist: "distinct (x # xs)"
    and setf: "\<And>v h. setf v (l, h) = Done () (upf v l, h)"
  defines "n \<equiv> (if xs = [] then None else Some (hd xs))"
  shows "bindM (heapM (get_next x)) (\<lambda>n.
        thenM (setf n)
       (thenM (case n of Some next \<Rightarrow> heapM (set_prev next None) | None \<Rightarrow> ret ())
       (thenM (heapM (set_next x None))
       (thenM (heapM (cm_mark x NonMarked))
              (ret (Some x)))))) (l, h) = Done (Some x) (upf n l, set_marks {x} NonMarked (unlink x n None h))"
proof -
  note f = remove_links_eval [where as = "[]", simplified append_Nil refl if_True, OF d dist, folded n_def]
  from f(2) obtain b where b: "h x = Some b" ..
  show ?thesis
  proof (cases n)
    case None
    with f(1) b show ?thesis
      by (simp add: setf unlink_first_heap upd_mark)
  next
    case (Some y)
    with f(3) obtain c where "h y = Some c" "y \<noteq> x" by blast
    with Some f(1) b show ?thesis
      by (simp add: setf unlink_first_heap upd_mark)
  qed
qed

lemma take_first_frame:
  assumes d: "dseg h None (Some x) (x # xs) e None" and dist: "distinct (x # xs)"
  defines "n \<equiv> (if xs = [] then None else Some (hd xs))"
  defines "h' \<equiv> set_marks {x} NonMarked (unlink x n None h)"
  shows "\<exists>e. dseg h' None n xs e None" "isolated h' x"
    "frame (set (x # xs)) (set_marks {x} NonMarked h) h'"
proof -
  have links: "links h' r = links (unlink x n None h) r" for r by (simp add: h'_def)
  from unlink_dseg [where as = "[]", simplified append_Nil refl if_True, OF d dist, folded n_def]
  show "\<exists>e. dseg h' None n xs e None" using dseg_cong [OF links] by simp
  from dseg_middle [where as = "[]", simplified append_Nil refl if_True, OF d] have "isolated (unlink x n None h) x"
    by (rule isolated_unlink)
  with links show "isolated h' x" by (simp add: isolated_def)
  have "frame (set (x # xs)) h (unlink x n None h)"
    by (rule unlink_frame) (auto simp: n_def)
  then show "frame (set (x # xs)) (set_marks {x} NonMarked h) h'"
    unfolding h'_def by (rule frame_set_marks)
qed

subsection \<open>The collections meet the contract\<close>

lemma frame_dseg: "frame S h h' \<Longrightarrow> S \<inter> set xs = {} \<Longrightarrow> dseg h' pv f xs l n = dseg h pv f xs l n"
  by (rule dseg_cong) (auto intro: frame_links)

lemma ll_repr_cong:
  "ll_repr l h xs \<Longrightarrow> (\<And>x. x \<in> set xs \<Longrightarrow> links h' x = links h x) \<Longrightarrow> ll_repr l h' xs"
  using dseg_cong [of xs h' h] by (simp add: ll_repr_def)

lemma pc_repr_cong:
  "pc_repr l h xs \<Longrightarrow> (\<And>x. x \<in> set xs \<Longrightarrow> links h' x = links h x) \<Longrightarrow> pc_repr l h' xs"
  using dseg_cong [of xs h' h] by (simp add: pc_repr_def)

lemma lq_repr_cong:
  "lq_repr l h xs \<Longrightarrow> (\<And>x. x \<in> set xs \<Longrightarrow> links h' x = links h x) \<Longrightarrow> lq_repr l h' xs"
  using sseg_cong [of xs h' h] by (simp add: lq_repr_def)

lemma ll_add_ok:
  assumes "ll_repr l h xs" "p \<notin> set xs" "isolated h p"
  shows "\<exists>l' h'. ll_add p (l, h) = Done () (l', h') \<and> ll_repr l' h' (p # xs) \<and> frame (insert p (set xs)) h h'"
proof -
  from assms(1) obtain e where d: "dseg h None (ll_first l) xs e None" "distinct xs"
    by (auto simp: ll_repr_def)
  from link_first_dseg [OF d assms(2,3)] assms(2) d(2)
  have "ll_repr (l\<lparr>ll_first := Some p\<rparr>) (link_first p (ll_first l) h) (p # xs)"
    by (auto simp: ll_repr_def)
  moreover have "frame (insert p (set xs)) h (link_first p (ll_first l) h)"
    using dseg_first [OF d(1)] by (intro link_first_frame) auto
  ultimately show ?thesis using ll_add_eval [OF assms(1,3,2)] by blast
qed

lemma pc_add_ok:
  assumes "pc_repr l h xs" "p \<notin> set xs" "isolated h p" "length xs + 1 < 2 ^ 64"
  shows "\<exists>l' h'. pc_add p (l, h) = Done () (l', h') \<and> pc_repr l' h' (p # xs) \<and> frame (insert p (set xs)) h h'"
proof -
  from assms(1) obtain e where d: "dseg h None (pc_first l) xs e None" "distinct xs"
    and n: "unat (pc_size l) = length xs"
    by (auto simp: pc_repr_def)
  have "unat (pc_size l + 1) = length xs + 1" using n assms(4) by (simp add: unat_word_ariths)
  with link_first_dseg [OF d assms(2,3)] assms(2) d(2)
  have "pc_repr (l\<lparr>pc_first := Some p, pc_size := pc_size l + 1\<rparr>) (link_first p (pc_first l) h) (p # xs)"
    by (auto simp: pc_repr_def)
  moreover have "frame (insert p (set xs)) h (link_first p (pc_first l) h)"
    using dseg_first [OF d(1)] by (intro link_first_frame) auto
  ultimately show ?thesis using pc_add_eval [OF assms(1,3,2,4)] by blast
qed

lemma ll_take_ok:
  assumes "ll_repr l h (x # xs)"
  shows "\<exists>l' h'. ll_remove_first (l, h) = Done (Some x) (l', h') \<and> ll_repr l' h' xs \<and> isolated h' x
    \<and> frame (set (x # xs)) (set_marks {x} NonMarked h) h'"
proof -
  let ?n = "if xs = [] then None else Some (hd xs)"
  from assms obtain e where f: "ll_first l = Some x" and d: "dseg h None (Some x) (x # xs) e None"
    and dist: "distinct (x # xs)" by (auto simp: ll_repr_def)
  have "ll_remove_first (l, h) = Done (Some x) (l\<lparr>ll_first := ?n\<rparr>, set_marks {x} NonMarked (unlink x ?n None h))"
    using take_first_body_eval [OF d dist, of ll_set_first l "\<lambda>v l. l\<lparr>ll_first := v\<rparr>"] f
    by (simp add: ll_remove_first_def ll_get_first_def ll_set_first_def)
  with take_first_frame [OF d dist] dist show ?thesis by (auto simp: ll_repr_def)
qed

lemma pc_take_ok:
  assumes "pc_repr l h (x # xs)"
  shows "\<exists>l' h'. pc_remove_first (l, h) = Done (Some x) (l', h') \<and> pc_repr l' h' xs \<and> isolated h' x
    \<and> frame (set (x # xs)) (set_marks {x} NonMarked h) h'"
proof -
  let ?n = "if xs = [] then None else Some (hd xs)"
  let ?l = "l\<lparr>pc_size := pc_size l - 1\<rparr>"
  from assms obtain e where f: "pc_first l = Some x" and d: "dseg h None (Some x) (x # xs) e None"
    and dist: "distinct (x # xs)" and n: "unat (pc_size l) = length xs + 1"
    by (auto simp: pc_repr_def)
  from n have "unat (pc_size l - 1) = length xs" by (simp add: unat_sub word_le_nat_alt)
  moreover have "pc_remove_first (l, h) = Done (Some x) (?l\<lparr>pc_first := ?n\<rparr>, set_marks {x} NonMarked (unlink x ?n None h))"
    using take_first_body_eval [OF d dist, of pc_set_first ?l "\<lambda>v l. l\<lparr>pc_first := v\<rparr>"] f n
    by (simp add: pc_remove_first_def pc_get_first_def pc_set_first_def pc_get_size_def pc_set_size_def)
  ultimately show ?thesis
    using take_first_frame [OF d dist] dist by (auto simp: pc_repr_def)
qed

lemma ll_remove_ok:
  assumes "ll_repr l h xs" "p \<in> set xs"
  shows "\<exists>l' h'. ll_remove p (l, h) = Done () (l', h') \<and> ll_repr l' h' (remove1 p xs) \<and> isolated h' p
    \<and> frame (set xs) h h'"
proof -
  from split_list [OF assms(2)] obtain as bs where xs: "xs = as @ p # bs" by blast
  with assms(1) obtain e where d: "dseg h None (ll_first l) (as @ p # bs) e None"
    and dist: "distinct (as @ p # bs)" by (auto simp: ll_repr_def)
  have "isolated (unlink p n q h) p" for n q
    using dseg_middle [OF d] by (rule isolated_unlink)
  moreover have "frame (set xs) h (unlink p (if bs = [] then None else Some (hd bs))
      (if as = [] then None else Some (last as)) h)"
    by (rule unlink_frame) (auto simp: xs)
  ultimately show ?thesis
    using ll_remove_eval [OF d dist] unlink_dseg [OF d dist] dist
    by (auto simp: ll_repr_def xs)
qed

lemma pc_remove_ok:
  assumes "pc_repr l h xs" "p \<in> set xs"
  shows "\<exists>l' h'. pc_remove p (l, h) = Done () (l', h') \<and> pc_repr l' h' (remove1 p xs) \<and> isolated h' p
    \<and> frame (set xs) h h'"
proof -
  from split_list [OF assms(2)] obtain as bs where xs: "xs = as @ p # bs" by blast
  with assms(1) obtain e where d: "dseg h None (pc_first l) (as @ p # bs) e None"
    and dist: "distinct (as @ p # bs)" and n: "unat (pc_size l) = length (as @ p # bs)"
    by (auto simp: pc_repr_def)
  have "isolated (unlink p n q h) p" for n q
    using dseg_middle [OF d] by (rule isolated_unlink)
  moreover have "frame (set xs) h (unlink p (if bs = [] then None else Some (hd bs))
      (if as = [] then None else Some (last as)) h)"
    by (rule unlink_frame) (auto simp: xs)
  moreover from n have "unat (pc_size l - 1) = length (as @ bs)" by (simp add: unat_sub word_le_nat_alt)
  ultimately show ?thesis
    using pc_remove_eval [OF d dist n] unlink_dseg [OF d dist] dist
    by (auto simp: pc_repr_def xs)
qed

lemma lq_add_ok:
  assumes "lq_repr l h xs" "p \<notin> set xs" "isolated h p"
  shows "\<exists>l' h'. lq_add p (l, h) = Done () (l', h') \<and> lq_repr l' h' (snoc p xs) \<and> frame (insert p (set xs)) h h'"
proof (cases xs rule: rev_cases)
  case Nil
  with assms show ?thesis
    by (auto simp: lq_add_def lq_repr_def lq_set_first_def lq_set_last_def snoc_def isolated_def)
next
  case (snoc ys y)
  with assms have s: "sseg h (lq_first l) (ys @ [y]) None" and l: "lq_last l = Some y"
    and d: "distinct (ys @ [y])" and y: "y \<notin> set ys" "y \<noteq> p"
    by (auto simp: lq_repr_def)
  from sseg_live [OF s, of y] obtain b where b: "h y = Some b" by auto
  let ?h = "upd y (\<lambda>b. b\<lparr>b_next := Some p\<rparr>) h" and ?l = "l\<lparr>lq_last := Some p\<rparr>"
  have "lq_add p (l, h) = Done () (?l, ?h)"
    using assms(3) l b by (simp add: lq_add_def lq_set_last_def)
  moreover have "sseg ?h (lq_first l) (ys @ [y]) (Some p)" using s y(1) by (rule sseg_set_next)
  with assms(2,3) d snoc y(2) have "lq_repr ?l ?h (snoc p xs)"
    by (auto simp: lq_repr_def snoc_def sseg_append isolated_def)
  moreover have "frame (insert p (set xs)) h ?h"
    using snoc by (intro frame_upd_link) auto
  ultimately show ?thesis by blast
qed

lemma lq_poll_ok:
  assumes "lq_repr l h (x # xs)"
  shows "\<exists>l' h'. lq_poll (l, h) = Done (Some x) (l', h') \<and> lq_repr l' h' xs \<and> isolated h' x
    \<and> frame (set (x # xs)) (set_marks {x} NonMarked h) h'"
proof -
  from assms obtain n where f: "lq_first l = Some x" and x: "links h x = Some (n, None)"
    and s: "sseg h n xs None" and d: "distinct (x # xs)"
    by (auto simp: lq_repr_def)
  from x obtain b where b: "h x = Some b" by (auto simp: links_Some)
  from sseg_first [OF s] have n: "n = None \<longleftrightarrow> xs = []" by auto
  let ?u = "upd x (\<lambda>b. b\<lparr>b_next := None\<rparr>) h"
  let ?h = "set_marks {x} NonMarked ?u"
  let ?l = "if xs = [] then l\<lparr>lq_first := n, lq_last := None\<rparr> else l\<lparr>lq_first := n\<rparr>"
  have "lq_poll (l, h) = Done (Some x) (?l, ?h)"
    using f x b n by (simp add: lq_poll_def lq_set_first_def lq_set_last_def upd_mark)
  moreover have links: "links ?h r = (if r = x then Some (None, None) else links h r)" for r
    using x by (cases "r = x") auto
  from s d have "sseg ?h n xs None" by (subst sseg_cong [of xs ?h h]) (auto simp: links)
  with assms d have "lq_repr ?l ?h xs" by (auto simp: lq_repr_def)
  moreover have "isolated ?h x" using x by (simp add: isolated_def)
  moreover have "frame (set (x # xs)) (set_marks {x} NonMarked h) ?h"
    by (intro frame_set_marks frame_upd_link) auto
  ultimately show ?thesis by blast
qed

lemma repr_unique:
  "ll_repr l h xs \<Longrightarrow> ll_repr l h ys \<Longrightarrow> xs = ys"
  "pc_repr k h xs \<Longrightarrow> pc_repr k h ys \<Longrightarrow> xs = ys"
  "lq_repr q h xs \<Longrightarrow> lq_repr q h ys \<Longrightarrow> xs = ys"
  by (auto simp: ll_repr_def pc_repr_def lq_repr_def intro: dseg_unique sseg_unique)

interpretation ll: intrusive_removable ll_repr Cons "\<lambda>_. True" ll_add ll_remove_first ll_remove
proof unfold_locales
  show "ll_repr l h xs \<Longrightarrow> x \<in> set xs \<Longrightarrow> \<exists>b. h x = Some b" for l h xs x
    by (auto simp: ll_repr_def dest: dseg_live)
  show "ll_repr l h [] \<Longrightarrow> ll_remove_first (l, h) = Done None (l, h)" for l h
    by (simp add: ll_repr_def ll_remove_first_def ll_get_first_def)
qed (simp_all add: ll_add_ok ll_take_ok ll_remove_ok ll_repr_cong del: set_simps, simp_all add: ll_repr_def)

interpretation pc: intrusive_removable pc_repr Cons "\<lambda>n. n + 1 < 2 ^ 64" pc_add pc_remove_first pc_remove
proof unfold_locales
  show "pc_repr l h xs \<Longrightarrow> x \<in> set xs \<Longrightarrow> \<exists>b. h x = Some b" for l h xs x
    by (auto simp: pc_repr_def dest: dseg_live)
  show "pc_repr l h [] \<Longrightarrow> pc_remove_first (l, h) = Done None (l, h)" for l h
    by (simp add: pc_repr_def pc_remove_first_def pc_get_first_def)
qed (simp_all add: pc_add_ok pc_take_ok pc_remove_ok pc_repr_cong del: set_simps, simp_all add: pc_repr_def)

interpretation lq: intrusive lq_repr snoc "\<lambda>_. True" lq_add lq_poll
proof unfold_locales
  show "lq_repr l h xs \<Longrightarrow> x \<in> set xs \<Longrightarrow> \<exists>b. h x = Some b" for l h xs x
    by (auto simp: lq_repr_def dest: sseg_live)
  show "lq_repr l h [] \<Longrightarrow> lq_poll (l, h) = Done None (l, h)" for l h
    by (simp add: lq_repr_def lq_poll_def)
  show "p \<notin> set xs \<Longrightarrow> remove1 p (snoc p xs) = xs" for p xs
    by (simp add: snoc_def remove1_append)
qed (simp_all add: lq_add_ok lq_poll_ok lq_repr_cong del: set_simps, simp_all add: lq_repr_def snoc_def)

subsection \<open>Iterating\<close>

lemma iter_contains_seg:
  "dseg h pv f xs e None \<Longrightarrow> length xs < fuel \<Longrightarrow> \<exists>s. iter_contains fuel p (f, h) = Done (p \<in> set xs) (s, h)"
proof (induction xs arbitrary: pv f fuel)
  case Nil
  then obtain n where "fuel = Suc n" by (cases fuel) auto
  with Nil show ?case by (simp add: iter_next_def bindM_def)
next
  case (Cons x xs)
  then obtain n where n: "fuel = Suc n" "length xs < n" by (cases fuel) auto
  from Cons.prems(1) obtain nx where f: "f = Some x" "links h x = Some (nx, pv)" "dseg h (Some x) nx xs e None" by auto
  from f(2) obtain b where b: "h x = Some b" "b_next b = nx" by (auto simp: links_Some)
  have "iter_next (f, h) = Done (Some x) (nx, h)"
    using f(1) b by (simp add: iter_next_def bindM_def thenM_def heapM_def get_next_def zoom_def)
  with Cons.IH [OF f(3) n(2)] show ?case by (auto simp: n(1) bindM_def)
qed

lemma iter_contains_ok:
  assumes "ll_repr l h xs" "length xs < fuel"
  shows "\<exists>s. iter_contains fuel p (ll_iter l, h) = Done (p \<in> set xs) (s, h)"
  using assms iter_contains_seg unfolding ll_repr_def ll_iter_def by blast

end
