(* ===== verification/Tracing.thy ===== *)
theory Tracing
  imports Lists
begin

text \<open>
  The tracing phases of a collection: \<open>CcBox::trace\<close> of \<open>src/src/cc.rs\<close> and \<open>trace_counting\<close>,
  \<open>trace_roots\<close> and the first half of \<open>__collect\<close> of \<open>src/src/lib.rs\<close>, on the memory and the
  four collections that are live while they run.

  The lists are locals of \<open>__collect\<close> that are passed by reference; they are places of the record
  \<open>tstate\<close>, and \<open>ContextInner\<close> says which of them a trace may use.
\<close>

record tstate =
  t_heap :: boxes
  t_meta :: "maddr \<Rightarrow> boxed_metadata option"
  t_pc :: pcycles
  t_root :: llist
  t_nonroot :: llist
  t_queue :: lqueue

datatype context_inner = Counting | RootTracing

definition on_heap :: "(boxes, 'a) prog \<Rightarrow> (tstate, 'a) prog" where
  "on_heap m = zoom t_heap (\<lambda>h s. s\<lparr>t_heap := h\<rparr>) m"

definition on_pc :: "(pcycles \<times> boxes, 'a) prog \<Rightarrow> (tstate, 'a) prog" where
  "on_pc m = zoom (\<lambda>s. (t_pc s, t_heap s)) (\<lambda>(l, h) s. s\<lparr>t_heap := h, t_pc := l\<rparr>) m"

definition on_root :: "(llist \<times> boxes, 'a) prog \<Rightarrow> (tstate, 'a) prog" where
  "on_root m = zoom (\<lambda>s. (t_root s, t_heap s)) (\<lambda>(l, h) s. s\<lparr>t_heap := h, t_root := l\<rparr>) m"

definition on_nonroot :: "(llist \<times> boxes, 'a) prog \<Rightarrow> (tstate, 'a) prog" where
  "on_nonroot m = zoom (\<lambda>s. (t_nonroot s, t_heap s)) (\<lambda>(l, h) s. s\<lparr>t_heap := h, t_nonroot := l\<rparr>) m"

definition on_queue :: "(lqueue \<times> boxes, 'a) prog \<Rightarrow> (tstate, 'a) prog" where
  "on_queue m = zoom (\<lambda>s. (t_queue s, t_heap s)) (\<lambda>(l, h) s. s\<lparr>t_heap := h, t_queue := l\<rparr>) m"

subsection \<open>CcBox::trace\<close>

fun is_ok :: "'e + 'a \<Rightarrow> bool" where
  "is_ok (Inl e) = False"
| "is_ok (Inr a) = True"

text \<open>\<open>let res = ...; debug_assert!(res.is_ok());\<close>\<close>

definition assert_ok :: "('s, 'e + 'a) prog \<Rightarrow> ('s, unit) prog" where
  "assert_ok m = bindM m (\<lambda>res. debug_assert (is_ok res))"

text \<open>\<open>counter_marker.is_in_list() && counter_marker.counter() == counter_marker.tracing_counter()\<close>\<close>

definition in_list_and_full :: "addr \<Rightarrow> (tstate, bool) prog" where
  "in_list_and_full ptr = bindM (on_heap (cm_test ptr is_in_list)) (\<lambda>b.
     if b then bindM (on_heap (on_cm ptr counter)) (\<lambda>c.
               bindM (on_heap (on_cm ptr tracing_counter)) (\<lambda>tc. ret (c = tc)))
     else ret False)"

definition cc_trace :: "context_inner \<Rightarrow> addr \<Rightarrow> (tstate, unit) prog" where
  "cc_trace ctx ptr = (case ctx of
     Counting \<Rightarrow>
       bindM (on_heap (cm_test ptr is_in_list_or_queue)) (\<lambda>b. if b then
          thenM (bindM (on_heap (on_cm ptr tracing_counter)) (\<lambda>tc.
                 bindM (on_heap (on_cm ptr counter)) (\<lambda>c. debug_assert (tc < c))))
         (thenM (assert_ok (on_heap (on_cm ptr increment_tracing_counter)))
         (bindM (in_list_and_full ptr) (\<lambda>full. if full then
             thenM (on_root (ll_remove ptr)) (on_nonroot (ll_add ptr))
           else ret ())))
       else
          bindM (on_heap (cm_test ptr is_in_possible_cycles)) (\<lambda>p. if p then
             assert_ok (on_heap (on_cm ptr increment_tracing_counter))
          else
             thenM (on_heap (on_cm ptr reset_tracing_counter))
            (thenM (assert_ok (on_heap (on_cm ptr increment_tracing_counter)))
            (thenM (on_queue (lq_add ptr))
                   (on_heap (cm_mark ptr InQueue))))))
   | RootTracing \<Rightarrow>
       bindM (in_list_and_full ptr) (\<lambda>full. if full then
           thenM (on_heap (cm_mark ptr NonMarked))
          (thenM (on_nonroot (ll_remove ptr))
          (thenM (on_queue (lq_add ptr))
                 (on_heap (cm_mark ptr InQueue))))
       else ret ()))"

text \<open>
  \<open>CcBox::trace_inner\<close>: the vtable of the box is read for its \<open>trace\<close>, which runs on the element;
  reading an element that is not there (it was moved out, or never written) is undefined behaviour.
\<close>

definition traceable_of :: "addr \<Rightarrow> (tstate, addr) prog" where
  "traceable_of ptr = bindM (\<lambda>s. on_heap (read_vtable (t_meta s) ptr) s) (\<lambda>vt. ret ptr)"

definition run_calls :: "context_inner \<Rightarrow> trace_call list \<Rightarrow> (tstate, unit) prog" where
  "run_calls ctx calls = forM calls (\<lambda>c. case c of CallCc p \<Rightarrow> cc_trace ctx p
     | CallPanic msg \<Rightarrow> panicM (PanicMsg msg))"

definition trace_inner :: "context_inner \<Rightarrow> addr \<Rightarrow> (tstate, unit) prog" where
  "trace_inner ctx ptr = bindM (traceable_of ptr) (\<lambda>obj. bindM (on_heap (deref obj b_elem)) (\<lambda>e. case e of
      None \<Rightarrow> (\<lambda>s. UB) | Some v \<Rightarrow> run_calls ctx (trace_val v)))"

subsection \<open>Trace counting\<close>

text \<open>The guard \<open>ResetMarkDropGuard\<close>, which acts when tracing panics.\<close>

definition reset_mark_drop_guard :: "addr \<Rightarrow> (tstate, unit) prog" where
  "reset_mark_drop_guard ptr = on_heap (cm_mark ptr NonMarked)"

definition trace_counting_one :: "addr \<Rightarrow> (tstate, unit) prog" where
  "trace_counting_one ptr =
     thenM (on_heap (cm_mark ptr InQueue))
    (thenM (on_unwind
        (thenM (trace_inner Counting ptr)
          (bindM (on_heap (on_cm ptr counter)) (\<lambda>c.
           bindM (on_heap (on_cm ptr tracing_counter)) (\<lambda>tc.
             if c = tc then on_nonroot (ll_add ptr) else on_root (ll_add ptr)))))
        (reset_mark_drop_guard ptr))
     (on_heap (cm_mark ptr InList)))"

definition trace_counting :: "nat \<Rightarrow> (tstate, unit) prog" where
  "trace_counting fuel =
     thenM (while_let fuel (on_pc pc_remove_first) trace_counting_one)
    (thenM (while_let fuel (on_queue lq_poll) trace_counting_one)
    (thenM (bindM (getM t_pc) (\<lambda>l. debug_assert (pc_is_empty l)))
           (bindM (getM t_queue) (\<lambda>l. debug_assert (lq_is_empty l)))))"

subsection \<open>Trace roots\<close>

definition trace_roots_one :: "addr \<Rightarrow> (tstate, unit) prog" where
  "trace_roots_one ptr = trace_inner RootTracing ptr"

definition trace_roots :: "nat \<Rightarrow> (tstate, unit) prog" where
  "trace_roots fuel =
     thenM (while_let fuel (on_root ll_remove_first) trace_roots_one)
    (thenM (while_let fuel (on_queue lq_poll) trace_roots_one)
    (thenM (bindM (getM t_queue) (\<lambda>l. debug_assert (lq_is_empty l)))
           (bindM (getM t_root) (\<lambda>l. debug_assert (ll_is_empty l)))))"

subsection \<open>The tracing half of __collect\<close>

text \<open>
  The three lists start empty. When tracing panics, unwinding drops the queue, the root list and
  the non-root list, in this order; \<open>POSSIBLE_CYCLES\<close> is a thread local and stays.
\<close>

definition drop_trace_lists :: "nat \<Rightarrow> (tstate, unit) prog" where
  "drop_trace_lists fuel =
     thenM (on_queue (lq_drop fuel)) (thenM (on_root (ll_drop fuel)) (on_nonroot (ll_drop fuel)))"

definition collect_trace :: "nat \<Rightarrow> (tstate, unit) prog" where
  "collect_trace fuel =
     thenM (modifyM (\<lambda>s. s\<lparr>t_nonroot := ll_new, t_root := ll_new, t_queue := lq_new\<rparr>))
     (on_unwind (thenM (trace_counting fuel) (trace_roots fuel)) (drop_trace_lists fuel))"

end
