(* ===== verification/Trace_Refine.thy ===== *)
theory Trace_Refine
  imports Tracing
begin

text \<open>
  The abstract state of the tracing phases and the refinement: the four collections as lists of
  addresses, the mark and the tracing counter of each box as functions. \<open>refines h0 s a\<close> relates a
  concrete state to it; \<open>h0\<close> is the memory at the start of the collection, whose elements,
  reference counters and flags no tracing step changes. Each concrete step is \<open>Done\<close> under the
  stated conditions and is matched by its abstract counterpart.
\<close>

record astate =
  a_pc :: "addr list"
  a_root :: "addr list"
  a_nonroot :: "addr list"
  a_queue :: "addr list"
  a_mark :: "addr \<Rightarrow> mark"
  a_tc :: "addr \<Rightarrow> nat"

definition listed :: "astate \<Rightarrow> addr list" where
  "listed a = a_pc a @ a_root a @ a_nonroot a @ a_queue a"

definition static :: "ccbox \<Rightarrow> metadata \<times> tval option \<times> bool \<times> bool \<times> nat" where
  "static b = (b_metadata b, b_elem b, v_meta (view (b_cm b)), v_fin (view (b_cm b)), v_rc (view (b_cm b)))"

definition rc_of :: "boxes \<Rightarrow> addr \<Rightarrow> nat" where
  "rc_of h p = (case h p of None \<Rightarrow> 0 | Some b \<Rightarrow> v_rc (view (b_cm b)))"

definition calls_of :: "boxes \<Rightarrow> addr \<Rightarrow> trace_call list" where
  "calls_of h p = (case h p of None \<Rightarrow> [] | Some b \<Rightarrow> (case b_elem b of None \<Rightarrow> [] | Some v \<Rightarrow> trace_val v))"

definition mark_of :: "boxes \<Rightarrow> addr \<Rightarrow> mark" where
  "mark_of h p = (case h p of None \<Rightarrow> NonMarked | Some b \<Rightarrow> v_mark (view (b_cm b)))"

definition tc_of :: "boxes \<Rightarrow> addr \<Rightarrow> nat" where
  "tc_of h p = (case h p of None \<Rightarrow> 0 | Some b \<Rightarrow> v_tc (view (b_cm b)))"

definition vtables_ok :: "(maddr \<Rightarrow> boxed_metadata option) \<Rightarrow> boxes \<Rightarrow> bool" where
  "vtables_ok M h \<longleftrightarrow> (\<forall>p b. h p = Some b \<longrightarrow> has_vtable M (b_metadata b) (v_meta (view (b_cm b))))"

definition refines :: "boxes \<Rightarrow> tstate \<Rightarrow> astate \<Rightarrow> bool" where
  "refines h0 s a \<longleftrightarrow>
     (\<forall>p. map_option static (t_heap s p) = map_option static (h0 p)) \<and>
     (\<forall>p b. t_heap s p = Some b \<longrightarrow> v_mark (view (b_cm b)) = a_mark a p \<and> v_tc (view (b_cm b)) = a_tc a p) \<and>
     pc_repr (t_pc s) (t_heap s) (a_pc a) \<and> ll_repr (t_root s) (t_heap s) (a_root a) \<and>
     ll_repr (t_nonroot s) (t_heap s) (a_nonroot a) \<and> lq_repr (t_queue s) (t_heap s) (a_queue a) \<and>
     distinct (listed a) \<and> (\<forall>p \<in> dom h0 - set (listed a). isolated (t_heap s) p) \<and> vtables_ok (t_meta s) h0"

lemma refines_live:
  assumes "refines h0 s a" "p \<in> dom h0"
  obtains b where "t_heap s p = Some b" "v_mark (view (b_cm b)) = a_mark a p"
    "v_tc (view (b_cm b)) = a_tc a p" "v_rc (view (b_cm b)) = rc_of h0 p"
    "calls_of h0 p = (case b_elem b of None \<Rightarrow> [] | Some v \<Rightarrow> trace_val v)"
    "map_option b_elem (h0 p) = Some (b_elem b)"
proof -
  from assms(2) obtain c where c: "h0 p = Some c" by auto
  from assms(1) have "map_option static (t_heap s p) = map_option static (h0 p)"
    by (simp add: refines_def)
  with c obtain b where b: "t_heap s p = Some b" "static b = static c" by auto
  from assms(1) b(1) have "v_mark (view (b_cm b)) = a_mark a p \<and> v_tc (view (b_cm b)) = a_tc a p"
    by (simp add: refines_def)
  with b c show thesis
    by (intro that [of b]) (auto simp: rc_of_def calls_of_def static_def)
qed

lemma refines_vtable:
  assumes "refines h0 s a" "p \<in> dom h0"
  shows "traceable_of p s = Done p s"
proof -
  from assms(2) obtain c where c: "h0 p = Some c" by auto
  from assms(1) have "map_option static (t_heap s p) = map_option static (h0 p)" by (simp add: refines_def)
  with c obtain b where b: "t_heap s p = Some b" "static b = static c" by auto
  have "has_vtable (t_meta s) (b_metadata b) (v_meta (view (b_cm b)))"
    using assms(1) c b(2) by (auto simp: refines_def vtables_ok_def static_def)
  from read_vtable_ok [of "t_heap s", OF b(1) this] show ?thesis
    by (auto simp: traceable_of_def on_heap_def zoom_def bindM_def)
qed

lemma refines_listed_live: "refines h0 s a \<Longrightarrow> p \<in> set (listed a) \<Longrightarrow> p \<in> dom h0"
proof -
  assume r: "refines h0 s a" and p: "p \<in> set (listed a)"
  then have "\<exists>b. t_heap s p = Some b"
    using pc.repr_live ll.repr_live lq.repr_live unfolding refines_def listed_def by fastforce
  moreover from r have "map_option static (t_heap s p) = map_option static (h0 p)"
    by (simp add: refines_def)
  ultimately show ?thesis by (cases "h0 p") auto
qed

subsection \<open>One step of the memory\<close>

text \<open>
  A change of the memory that re-links the boxes of \<open>S\<close> and sets the marks of \<open>M\<close> keeps the
  relation, given that the collections still represent the new lists.
\<close>

lemma frame_static:
  assumes "frame S (set_marks M m h) h'"
  shows "map_option static (h' p) = map_option static (h p)"
    and "h' p = Some b' \<Longrightarrow> \<exists>b. h p = Some b \<and> v_tc (view (b_cm b')) = v_tc (view (b_cm b)) \<and>
      v_mark (view (b_cm b')) = (if p \<in> M then m else v_mark (view (b_cm b)))"
proof -
  from frame_payload [OF assms, of p] have e: "map_option payload (h' p) = map_option payload (set_marks M m h p)" .
  show "map_option static (h' p) = map_option static (h p)"
    using e by (cases "h p"; cases "h' p") (auto simp: set_marks_def payload_def static_def view_mark split: if_splits)
  show "h' p = Some b' \<Longrightarrow> \<exists>b. h p = Some b \<and> v_tc (view (b_cm b')) = v_tc (view (b_cm b)) \<and>
      v_mark (view (b_cm b')) = (if p \<in> M then m else v_mark (view (b_cm b)))"
    using e by (cases "h p") (auto simp: set_marks_def payload_def view_mark split: if_splits)
qed

lemma refines_step:
  assumes r: "refines h0 s a" and f: "frame S (set_marks M m (t_heap s)) h'"
    and lists: "pc_repr pc' h' xs" "ll_repr ro' h' rs" "ll_repr nr' h' ns" "lq_repr q' h' qs"
    and dist: "distinct (xs @ rs @ ns @ qs)"
    and iso: "\<And>p. p \<in> dom h0 \<Longrightarrow> p \<notin> set (xs @ rs @ ns @ qs) \<Longrightarrow> isolated h' p"
  shows "refines h0 (s\<lparr>t_heap := h', t_pc := pc', t_root := ro', t_nonroot := nr', t_queue := q'\<rparr>)
     (a\<lparr>a_pc := xs, a_root := rs, a_nonroot := ns, a_queue := qs,
        a_mark := (\<lambda>p. if p \<in> M then m else a_mark a p)\<rparr>)"
proof -
  have "map_option static (h' p) = map_option static (h0 p)" for p
    using frame_static(1) [OF f] r by (simp add: refines_def)
  moreover have "v_mark (view (b_cm b)) = (if p \<in> M then m else a_mark a p) \<and> v_tc (view (b_cm b)) = a_tc a p"
    if "h' p = Some b" for p b
    using frame_static(2) [OF f that] r by (auto simp: refines_def)
  moreover have "vtables_ok (t_meta s) h0" using r by (simp add: refines_def)
  ultimately show ?thesis
    using lists dist iso by (simp add: refines_def listed_def)
qed

text \<open>A box outside the touched set keeps its links.\<close>

lemma isolated_frame:
  "frame S (set_marks M m h) h' \<Longrightarrow> p \<notin> S \<Longrightarrow> isolated h p \<Longrightarrow> isolated h' p"
  using frame_links [of S "set_marks M m h" h' p] by (simp add: isolated_def)

lemma refines_cm:
  assumes r: "refines h0 s a" and b: "t_heap s p = Some b"
    and same: "v_meta (view c) = v_meta (view (b_cm b))" "v_fin (view c) = v_fin (view (b_cm b))"
      "v_rc (view c) = v_rc (view (b_cm b))"
  shows "refines h0 (s\<lparr>t_heap := upd p (\<lambda>b. b\<lparr>b_cm := c\<rparr>) (t_heap s)\<rparr>)
     (a\<lparr>a_mark := (a_mark a)(p := v_mark (view c)), a_tc := (a_tc a)(p := v_tc (view c))\<rparr>)"
proof -
  let ?h = "upd p (\<lambda>b. b\<lparr>b_cm := c\<rparr>) (t_heap s)"
  have links: "links ?h q = links (t_heap s) q" for q
    by (simp add: links_def upd_apply option.map_comp comp_def)
  have "map_option static (?h q) = map_option static (h0 q)" for q
  proof (cases "q = p")
    case True
    have "map_option static (?h p) = map_option static (t_heap s p)"
      using b same by (simp add: static_def)
    with True r show ?thesis by (simp add: refines_def)
  qed (use r in \<open>simp add: refines_def\<close>)
  with r b links show ?thesis
    by (auto simp: refines_def upd_apply listed_def isolated_def
        intro: pc_repr_cong ll_repr_cong lq_repr_cong)
qed

subsection \<open>The list operations\<close>

lemma disjoint_listed:
  assumes "refines h0 s a"
  shows "distinct (a_pc a)" "distinct (a_root a)" "distinct (a_nonroot a)" "distinct (a_queue a)"
    "set (a_pc a) \<inter> set (a_root a) = {}" "set (a_pc a) \<inter> set (a_nonroot a) = {}"
    "set (a_pc a) \<inter> set (a_queue a) = {}" "set (a_root a) \<inter> set (a_nonroot a) = {}"
    "set (a_root a) \<inter> set (a_queue a) = {}" "set (a_nonroot a) \<inter> set (a_queue a) = {}"
  using assms by (auto simp: refines_def listed_def)

lemma on_pc_take_nil:
  "refines h0 s a \<Longrightarrow> a_pc a = [] \<Longrightarrow> on_pc pc_remove_first s = Done None s"
  using pc.take_nil [of "t_pc s" "t_heap s"] by (simp add: refines_def on_pc_def zoom_def)

lemma on_root_take_nil:
  "refines h0 s a \<Longrightarrow> a_root a = [] \<Longrightarrow> on_root ll_remove_first s = Done None s"
  using ll.take_nil [of "t_root s" "t_heap s"] by (simp add: refines_def on_root_def zoom_def)

lemma on_queue_take_nil:
  "refines h0 s a \<Longrightarrow> a_queue a = [] \<Longrightarrow> on_queue lq_poll s = Done None s"
  using lq.take_nil [of "t_queue s" "t_heap s"] by (simp add: refines_def on_queue_def zoom_def)

lemma refinesD:
  assumes "refines h0 s a"
  shows "pc_repr (t_pc s) (t_heap s) (a_pc a)" "ll_repr (t_root s) (t_heap s) (a_root a)"
    "ll_repr (t_nonroot s) (t_heap s) (a_nonroot a)" "lq_repr (t_queue s) (t_heap s) (a_queue a)"
    "\<And>p. p \<in> dom h0 \<Longrightarrow> p \<notin> set (listed a) \<Longrightarrow> isolated (t_heap s) p"
  using assms by (auto simp: refines_def)

lemma on_pc_take_cons:
  assumes r: "refines h0 s a" and x: "a_pc a = x # xs"
  shows "\<exists>s'. on_pc pc_remove_first s = Done (Some x) s'
    \<and> refines h0 s' (a\<lparr>a_pc := xs, a_mark := (a_mark a)(x := NonMarked)\<rparr>)"
proof -
  note d = disjoint_listed [OF r] and rd = refinesD [OF r]
  from pc.take_cons [OF rd(1) [unfolded x]] obtain l' h' where
    1: "pc_remove_first (t_pc s, t_heap s) = Done (Some x) (l', h')" "pc_repr l' h' xs" "isolated h' x"
    "frame (set (x # xs)) (set_marks {x} NonMarked (t_heap s)) h'" by blast
  let ?s = "s\<lparr>t_heap := h', t_pc := l', t_root := t_root s, t_nonroot := t_nonroot s, t_queue := t_queue s\<rparr>"
  have "refines h0 ?s (a\<lparr>a_pc := xs, a_root := a_root a, a_nonroot := a_nonroot a, a_queue := a_queue a,
      a_mark := (\<lambda>p. if p \<in> {x} then NonMarked else a_mark a p)\<rparr>)"
  proof (rule refines_step [OF r 1(4) 1(2)])
    show "ll_repr (t_root s) h' (a_root a)" "ll_repr (t_nonroot s) h' (a_nonroot a)"
      "lq_repr (t_queue s) h' (a_queue a)"
      using d x ll.repr_frame [OF ll.repr_set_marks [OF rd(2)] 1(4)]
        ll.repr_frame [OF ll.repr_set_marks [OF rd(3)] 1(4)]
        lq.repr_frame [OF lq.repr_set_marks [OF rd(4)] 1(4)] by auto
    show "distinct (xs @ a_root a @ a_nonroot a @ a_queue a)" using d x by auto
    show "isolated h' p" if "p \<in> dom h0" "p \<notin> set (xs @ a_root a @ a_nonroot a @ a_queue a)" for p
      using that 1(3) isolated_frame [OF 1(4), of p] rd(5) [of p] x by (cases "p = x") (auto simp: listed_def)
  qed
  moreover have "on_pc pc_remove_first s = Done (Some x) ?s"
    using 1(1) by (simp add: on_pc_def zoom_def)
  ultimately show ?thesis by (auto simp: fun_upd_def cong: if_cong)
qed

end
