(* ===== verification/Trace_Steps.thy ===== *)
theory Trace_Steps
  imports Trace_Refine
begin

text \<open>
  The steps of tracing on the abstract state: taking from and adding to the collections, reading
  and writing the counters, and the two arms of \<open>CcBox::trace\<close>. Each lemma says that the concrete
  step returns and that the relation \<open>refines\<close> is carried to the abstract result.
\<close>

subsection \<open>The collections a step does not touch\<close>

lemma untouched:
  assumes "refines h0 s a" "frame S (set_marks M m (t_heap s)) h'"
  shows "S \<inter> set (a_pc a) = {} \<Longrightarrow> pc_repr (t_pc s) h' (a_pc a)"
    "S \<inter> set (a_root a) = {} \<Longrightarrow> ll_repr (t_root s) h' (a_root a)"
    "S \<inter> set (a_nonroot a) = {} \<Longrightarrow> ll_repr (t_nonroot s) h' (a_nonroot a)"
    "S \<inter> set (a_queue a) = {} \<Longrightarrow> lq_repr (t_queue s) h' (a_queue a)"
  using refinesD [OF assms(1)] assms(2)
  by (blast intro: pc.repr_frame pc.repr_set_marks ll.repr_frame ll.repr_set_marks
      lq.repr_frame lq.repr_set_marks)+

lemma untouched_relink:
  assumes "refines h0 s a" "frame S (t_heap s) h'"
  shows "S \<inter> set (a_pc a) = {} \<Longrightarrow> pc_repr (t_pc s) h' (a_pc a)"
    "S \<inter> set (a_root a) = {} \<Longrightarrow> ll_repr (t_root s) h' (a_root a)"
    "S \<inter> set (a_nonroot a) = {} \<Longrightarrow> ll_repr (t_nonroot s) h' (a_nonroot a)"
    "S \<inter> set (a_queue a) = {} \<Longrightarrow> lq_repr (t_queue s) h' (a_queue a)"
  using untouched [of h0 s a S "{}" NonMarked h'] assms by simp_all

subsection \<open>Taking\<close>

lemma on_root_take_cons:
  assumes r: "refines h0 s a" and x: "a_root a = x # xs"
  shows "\<exists>s'. on_root ll_remove_first s = Done (Some x) s'
    \<and> refines h0 s' (a\<lparr>a_root := xs, a_mark := (a_mark a)(x := NonMarked)\<rparr>)"
proof -
  note d = disjoint_listed [OF r] and rd = refinesD [OF r]
  from ll.take_cons [OF rd(2) [unfolded x]] obtain l' h' where
    1: "ll_remove_first (t_root s, t_heap s) = Done (Some x) (l', h')" "ll_repr l' h' xs" "isolated h' x"
    "frame (set (x # xs)) (set_marks {x} NonMarked (t_heap s)) h'" by blast
  let ?s = "s\<lparr>t_heap := h', t_pc := t_pc s, t_root := l', t_nonroot := t_nonroot s, t_queue := t_queue s\<rparr>"
  have "refines h0 ?s (a\<lparr>a_pc := a_pc a, a_root := xs, a_nonroot := a_nonroot a, a_queue := a_queue a,
      a_mark := (\<lambda>p. if p \<in> {x} then NonMarked else a_mark a p)\<rparr>)"
  proof (rule refines_step [OF r 1(4) _ 1(2)])
    show "pc_repr (t_pc s) h' (a_pc a)" "ll_repr (t_nonroot s) h' (a_nonroot a)"
      "lq_repr (t_queue s) h' (a_queue a)"
      using d x untouched [OF r 1(4)] by auto
    show "distinct (a_pc a @ xs @ a_nonroot a @ a_queue a)" using d x by auto
    show "isolated h' p" if "p \<in> dom h0" "p \<notin> set (a_pc a @ xs @ a_nonroot a @ a_queue a)" for p
      using that 1(3) isolated_frame [OF 1(4), of p] rd(5) [of p] x by (cases "p = x") (auto simp: listed_def)
  qed
  moreover have "on_root ll_remove_first s = Done (Some x) ?s"
    using 1(1) by (simp add: on_root_def zoom_def)
  ultimately show ?thesis by (auto simp: fun_upd_def cong: if_cong)
qed

lemma on_queue_take_cons:
  assumes r: "refines h0 s a" and x: "a_queue a = x # xs"
  shows "\<exists>s'. on_queue lq_poll s = Done (Some x) s'
    \<and> refines h0 s' (a\<lparr>a_queue := xs, a_mark := (a_mark a)(x := NonMarked)\<rparr>)"
proof -
  note d = disjoint_listed [OF r] and rd = refinesD [OF r]
  from lq.take_cons [OF rd(4) [unfolded x]] obtain l' h' where
    1: "lq_poll (t_queue s, t_heap s) = Done (Some x) (l', h')" "lq_repr l' h' xs" "isolated h' x"
    "frame (set (x # xs)) (set_marks {x} NonMarked (t_heap s)) h'" by blast
  let ?s = "s\<lparr>t_heap := h', t_pc := t_pc s, t_root := t_root s, t_nonroot := t_nonroot s, t_queue := l'\<rparr>"
  have "refines h0 ?s (a\<lparr>a_pc := a_pc a, a_root := a_root a, a_nonroot := a_nonroot a, a_queue := xs,
      a_mark := (\<lambda>p. if p \<in> {x} then NonMarked else a_mark a p)\<rparr>)"
  proof (rule refines_step [OF r 1(4) _ _ _ 1(2)])
    show "pc_repr (t_pc s) h' (a_pc a)" "ll_repr (t_root s) h' (a_root a)"
      "ll_repr (t_nonroot s) h' (a_nonroot a)"
      using d x untouched [OF r 1(4)] by (auto simp: Int_commute)
    show "distinct (a_pc a @ a_root a @ a_nonroot a @ xs)" using d x by auto
    show "isolated h' p" if "p \<in> dom h0" "p \<notin> set (a_pc a @ a_root a @ a_nonroot a @ xs)" for p
      using that 1(3) isolated_frame [OF 1(4), of p] rd(5) [of p] x by (cases "p = x") (auto simp: listed_def)
  qed
  moreover have "on_queue lq_poll s = Done (Some x) ?s"
    using 1(1) by (simp add: on_queue_def zoom_def)
  ultimately show ?thesis by (auto simp: fun_upd_def cong: if_cong)
qed

subsection \<open>Adding and removing\<close>

text \<open>The same step without a change of marks.\<close>

lemma refines_relink:
  assumes r: "refines h0 s a" and f: "frame S (t_heap s) h'"
    and lists: "pc_repr pc' h' xs" "ll_repr ro' h' rs" "ll_repr nr' h' ns" "lq_repr q' h' qs"
    and dist: "distinct (xs @ rs @ ns @ qs)"
    and iso: "\<And>p. p \<in> dom h0 \<Longrightarrow> p \<notin> set (xs @ rs @ ns @ qs) \<Longrightarrow> isolated h' p"
  shows "refines h0 (s\<lparr>t_heap := h', t_pc := pc', t_root := ro', t_nonroot := nr', t_queue := q'\<rparr>)
     (a\<lparr>a_pc := xs, a_root := rs, a_nonroot := ns, a_queue := qs\<rparr>)"
proof -
  from f have "frame S (set_marks {} NonMarked (t_heap s)) h'" by simp
  from refines_step [OF r this lists dist iso] show ?thesis by simp
qed

lemma isolated_relink: "frame S h h' \<Longrightarrow> p \<notin> S \<Longrightarrow> isolated h p \<Longrightarrow> isolated h' p"
  using frame_links [of S h h' p] by (simp add: isolated_def)

lemma on_nonroot_add:
  assumes r: "refines h0 s a" and p: "p \<in> dom h0" "p \<notin> set (listed a)"
  shows "\<exists>s'. on_nonroot (ll_add p) s = Done () s' \<and> refines h0 s' (a\<lparr>a_nonroot := p # a_nonroot a\<rparr>)"
proof -
  note d = disjoint_listed [OF r] and rd = refinesD [OF r]
  from p(2) have np: "p \<notin> set (a_nonroot a)" by (simp add: listed_def)
  from ll.add_ok [OF rd(3) np rd(5) [OF p] TrueI] obtain l' h' where
    1: "ll_add p (t_nonroot s, t_heap s) = Done () (l', h')" "ll_repr l' h' (p # a_nonroot a)"
    "frame (insert p (set (a_nonroot a))) (t_heap s) h'" by blast
  let ?s = "s\<lparr>t_heap := h', t_pc := t_pc s, t_root := t_root s, t_nonroot := l', t_queue := t_queue s\<rparr>"
  have "refines h0 ?s (a\<lparr>a_pc := a_pc a, a_root := a_root a, a_nonroot := p # a_nonroot a, a_queue := a_queue a\<rparr>)"
  proof (rule refines_relink [OF r 1(3) _ _ 1(2)])
    show "pc_repr (t_pc s) h' (a_pc a)" "ll_repr (t_root s) h' (a_root a)" "lq_repr (t_queue s) h' (a_queue a)"
      using d p untouched_relink [OF r 1(3)] by (auto simp: listed_def)
    show "distinct (a_pc a @ a_root a @ (p # a_nonroot a) @ a_queue a)" using d p by (auto simp: listed_def)
    show "isolated h' q" if "q \<in> dom h0" "q \<notin> set (a_pc a @ a_root a @ (p # a_nonroot a) @ a_queue a)" for q
      using that isolated_relink [OF 1(3), of q] rd(5) [of q] by (auto simp: listed_def)
  qed
  moreover have "on_nonroot (ll_add p) s = Done () ?s" using 1(1) by (simp add: on_nonroot_def zoom_def)
  ultimately show ?thesis by auto
qed

lemma on_root_add:
  assumes r: "refines h0 s a" and p: "p \<in> dom h0" "p \<notin> set (listed a)"
  shows "\<exists>s'. on_root (ll_add p) s = Done () s' \<and> refines h0 s' (a\<lparr>a_root := p # a_root a\<rparr>)"
proof -
  note d = disjoint_listed [OF r] and rd = refinesD [OF r]
  from p(2) have np: "p \<notin> set (a_root a)" by (simp add: listed_def)
  from ll.add_ok [OF rd(2) np rd(5) [OF p] TrueI] obtain l' h' where
    1: "ll_add p (t_root s, t_heap s) = Done () (l', h')" "ll_repr l' h' (p # a_root a)"
    "frame (insert p (set (a_root a))) (t_heap s) h'" by blast
  let ?s = "s\<lparr>t_heap := h', t_pc := t_pc s, t_root := l', t_nonroot := t_nonroot s, t_queue := t_queue s\<rparr>"
  have "refines h0 ?s (a\<lparr>a_pc := a_pc a, a_root := p # a_root a, a_nonroot := a_nonroot a, a_queue := a_queue a\<rparr>)"
  proof (rule refines_relink [OF r 1(3) _ 1(2)])
    show "pc_repr (t_pc s) h' (a_pc a)" "ll_repr (t_nonroot s) h' (a_nonroot a)" "lq_repr (t_queue s) h' (a_queue a)"
      using d p untouched_relink [OF r 1(3)] by (auto simp: listed_def)
    show "distinct (a_pc a @ (p # a_root a) @ a_nonroot a @ a_queue a)" using d p by (auto simp: listed_def)
    show "isolated h' q" if "q \<in> dom h0" "q \<notin> set (a_pc a @ (p # a_root a) @ a_nonroot a @ a_queue a)" for q
      using that isolated_relink [OF 1(3), of q] rd(5) [of q] by (auto simp: listed_def)
  qed
  moreover have "on_root (ll_add p) s = Done () ?s" using 1(1) by (simp add: on_root_def zoom_def)
  ultimately show ?thesis by auto
qed

lemma set_snoc [simp]: "set (snoc p xs) = insert p (set xs)"
  by (simp add: snoc_def)

lemma on_queue_add:
  assumes r: "refines h0 s a" and p: "p \<in> dom h0" "p \<notin> set (listed a)"
  shows "\<exists>s'. on_queue (lq_add p) s = Done () s' \<and> refines h0 s' (a\<lparr>a_queue := a_queue a @ [p]\<rparr>)"
proof -
  note d = disjoint_listed [OF r] and rd = refinesD [OF r]
  from p(2) have np: "p \<notin> set (a_queue a)" by (simp add: listed_def)
  from lq.add_ok [OF rd(4) np rd(5) [OF p] TrueI] obtain l' h' where
    1: "lq_add p (t_queue s, t_heap s) = Done () (l', h')" "lq_repr l' h' (a_queue a @ [p])"
    "frame (insert p (set (a_queue a))) (t_heap s) h'" unfolding snoc_def by blast
  let ?s = "s\<lparr>t_heap := h', t_pc := t_pc s, t_root := t_root s, t_nonroot := t_nonroot s, t_queue := l'\<rparr>"
  have "refines h0 ?s (a\<lparr>a_pc := a_pc a, a_root := a_root a, a_nonroot := a_nonroot a, a_queue := a_queue a @ [p]\<rparr>)"
  proof (rule refines_relink [OF r 1(3) _ _ _ 1(2)])
    show "pc_repr (t_pc s) h' (a_pc a)" "ll_repr (t_root s) h' (a_root a)" "ll_repr (t_nonroot s) h' (a_nonroot a)"
      using d p untouched_relink [OF r 1(3)] by (auto simp: listed_def Int_commute)
    show "distinct (a_pc a @ a_root a @ a_nonroot a @ a_queue a @ [p])" using d p by (auto simp: listed_def)
    show "isolated h' q" if "q \<in> dom h0" "q \<notin> set (a_pc a @ a_root a @ a_nonroot a @ a_queue a @ [p])" for q
      using that isolated_relink [OF 1(3), of q] rd(5) [of q] by (auto simp: listed_def)
  qed
  moreover have "on_queue (lq_add p) s = Done () ?s" using 1(1) by (simp add: on_queue_def zoom_def)
  ultimately show ?thesis by auto
qed

lemma on_root_remove:
  assumes r: "refines h0 s a" and p: "p \<in> set (a_root a)"
  shows "\<exists>s'. on_root (ll_remove p) s = Done () s' \<and> refines h0 s' (a\<lparr>a_root := remove1 p (a_root a)\<rparr>)"
proof -
  note d = disjoint_listed [OF r] and rd = refinesD [OF r]
  from ll.remove_ok [OF rd(2) p] obtain l' h' where
    1: "ll_remove p (t_root s, t_heap s) = Done () (l', h')" "ll_repr l' h' (remove1 p (a_root a))"
    "isolated h' p" "frame (set (a_root a)) (t_heap s) h'" by blast
  let ?s = "s\<lparr>t_heap := h', t_pc := t_pc s, t_root := l', t_nonroot := t_nonroot s, t_queue := t_queue s\<rparr>"
  have "refines h0 ?s (a\<lparr>a_pc := a_pc a, a_root := remove1 p (a_root a), a_nonroot := a_nonroot a, a_queue := a_queue a\<rparr>)"
  proof (rule refines_relink [OF r 1(4) _ 1(2)])
    show "pc_repr (t_pc s) h' (a_pc a)" "ll_repr (t_nonroot s) h' (a_nonroot a)" "lq_repr (t_queue s) h' (a_queue a)"
      using d untouched_relink [OF r 1(4)] by auto
    show "distinct (a_pc a @ remove1 p (a_root a) @ a_nonroot a @ a_queue a)" using d by auto
    show "isolated h' q" if "q \<in> dom h0" "q \<notin> set (a_pc a @ remove1 p (a_root a) @ a_nonroot a @ a_queue a)" for q
      using that d 1(3) isolated_relink [OF 1(4), of q] rd(5) [of q] by (cases "q = p") (auto simp: listed_def)
  qed
  moreover have "on_root (ll_remove p) s = Done () ?s" using 1(1) by (simp add: on_root_def zoom_def)
  ultimately show ?thesis by auto
qed

lemma on_nonroot_remove:
  assumes r: "refines h0 s a" and p: "p \<in> set (a_nonroot a)"
  shows "\<exists>s'. on_nonroot (ll_remove p) s = Done () s' \<and> refines h0 s' (a\<lparr>a_nonroot := remove1 p (a_nonroot a)\<rparr>)"
proof -
  note d = disjoint_listed [OF r] and rd = refinesD [OF r]
  from ll.remove_ok [OF rd(3) p] obtain l' h' where
    1: "ll_remove p (t_nonroot s, t_heap s) = Done () (l', h')" "ll_repr l' h' (remove1 p (a_nonroot a))"
    "isolated h' p" "frame (set (a_nonroot a)) (t_heap s) h'" by blast
  let ?s = "s\<lparr>t_heap := h', t_pc := t_pc s, t_root := t_root s, t_nonroot := l', t_queue := t_queue s\<rparr>"
  have "refines h0 ?s (a\<lparr>a_pc := a_pc a, a_root := a_root a, a_nonroot := remove1 p (a_nonroot a), a_queue := a_queue a\<rparr>)"
  proof (rule refines_relink [OF r 1(4) _ _ 1(2)])
    show "pc_repr (t_pc s) h' (a_pc a)" "ll_repr (t_root s) h' (a_root a)" "lq_repr (t_queue s) h' (a_queue a)"
      using d untouched_relink [OF r 1(4)] by auto
    show "distinct (a_pc a @ a_root a @ remove1 p (a_nonroot a) @ a_queue a)" using d by auto
    show "isolated h' q" if "q \<in> dom h0" "q \<notin> set (a_pc a @ a_root a @ remove1 p (a_nonroot a) @ a_queue a)" for q
      using that d 1(3) isolated_relink [OF 1(4), of q] rd(5) [of q] by (cases "q = p") (auto simp: listed_def)
  qed
  moreover have "on_nonroot (ll_remove p) s = Done () ?s" using 1(1) by (simp add: on_nonroot_def zoom_def)
  ultimately show ?thesis by auto
qed

subsection \<open>Counters and marks\<close>

lemma zoom_read: "m (get s) = Done v (get s) \<Longrightarrow> put (get s) s = s \<Longrightarrow> zoom get put m s = Done v s"
  by (simp add: zoom_def)

lemma on_heap_test:
  assumes "refines h0 s a" "p \<in> dom h0"
  shows "on_heap (cm_test p is_in_list_or_queue) s = Done (a_mark a p = InList \<or> a_mark a p = InQueue) s"
    "on_heap (cm_test p is_in_list) s = Done (a_mark a p = InList) s"
    "on_heap (cm_test p is_in_possible_cycles) s = Done (a_mark a p = PossibleCycles) s"
  using assms by (auto elim!: refines_live simp: on_heap_def zoom_read cm_tests)

lemma on_heap_counter:
  assumes "refines h0 s a" "p \<in> dom h0" "rc_of h0 p < 16383"
  shows "on_heap (on_cm p counter) s = Done (word_of_nat (rc_of h0 p)) s"
  using assms(1,2)
proof (rule refines_live)
  fix b assume b: "t_heap s p = Some b" "v_rc (view (b_cm b)) = rc_of h0 p"
  with assms(3) have "on_cm p counter (t_heap s) = Done (word_of_nat (rc_of h0 p)) (t_heap s)"
    by (metis on_cm_read counter_eval(1))
  then show ?thesis by (simp add: on_heap_def zoom_read)
qed

lemma on_heap_tracing_counter:
  assumes "refines h0 s a" "p \<in> dom h0" "a_tc a p < 16383"
  shows "on_heap (on_cm p tracing_counter) s = Done (word_of_nat (a_tc a p)) s"
  using assms(1,2)
proof (rule refines_live)
  fix b assume b: "t_heap s p = Some b" "v_tc (view (b_cm b)) = a_tc a p"
  with assms(3) have "on_cm p tracing_counter (t_heap s) = Done (word_of_nat (a_tc a p)) (t_heap s)"
    by (metis on_cm_read tracing_counter_eval(1))
  then show ?thesis by (simp add: on_heap_def zoom_read)
qed

lemma on_heap_cm_write:
  assumes r: "refines h0 s a" and p: "p \<in> dom h0"
    and m: "\<And>cm. v_mark (view cm) = a_mark a p \<Longrightarrow> v_tc (view cm) = a_tc a p \<Longrightarrow>
      \<exists>cm'. m cm = Done v cm' \<and> view cm' = (view cm)\<lparr>v_mark := k, v_tc := t\<rparr>"
  shows "\<exists>s'. on_heap (on_cm p m) s = Done v s'
    \<and> refines h0 s' (a\<lparr>a_mark := (a_mark a)(p := k), a_tc := (a_tc a)(p := t)\<rparr>)"
  using r p
proof (rule refines_live)
  fix b assume b: "t_heap s p = Some b" "v_mark (view (b_cm b)) = a_mark a p" "v_tc (view (b_cm b)) = a_tc a p"
  from m [OF b(2,3)] obtain c where c: "m (b_cm b) = Done v c"
    "view c = (view (b_cm b))\<lparr>v_mark := k, v_tc := t\<rparr>" by blast
  from on_cm_Done [of "t_heap s" p b m v c] b(1) c(1) have "on_heap (on_cm p m) s
      = Done v (s\<lparr>t_heap := upd p (\<lambda>b. b\<lparr>b_cm := c\<rparr>) (t_heap s)\<rparr>)"
    by (simp add: on_heap_def zoom_Done)
  moreover have "refines h0 (s\<lparr>t_heap := upd p (\<lambda>b. b\<lparr>b_cm := c\<rparr>) (t_heap s)\<rparr>)
      (a\<lparr>a_mark := (a_mark a)(p := k), a_tc := (a_tc a)(p := t)\<rparr>)"
    using refines_cm [OF r b(1), of c] c(2) by simp
  ultimately show ?thesis by blast
qed

lemma on_heap_mark:
  assumes "refines h0 s a" "p \<in> dom h0"
  shows "\<exists>s'. on_heap (cm_mark p k) s = Done () s' \<and> refines h0 s' (a\<lparr>a_mark := (a_mark a)(p := k)\<rparr>)"
  using on_heap_cm_write [OF assms, where m = "modifyM (mark k)" and v = "()" and k = k and t = "a_tc a p"]
  by (simp add: cm_mark_def view_mark)

lemma on_heap_increment:
  assumes "refines h0 s a" "p \<in> dom h0" "a_tc a p < 16382"
  shows "\<exists>s'. assert_ok (on_heap (on_cm p increment_tracing_counter)) s = Done () s'
    \<and> refines h0 s' (a\<lparr>a_tc := (a_tc a)(p := a_tc a p + 1)\<rparr>)"
proof -
  have "\<exists>s'. on_heap (on_cm p increment_tracing_counter) s = Done (Inr ()) s'
    \<and> refines h0 s' (a\<lparr>a_mark := (a_mark a)(p := a_mark a p), a_tc := (a_tc a)(p := a_tc a p + 1)\<rparr>)"
  proof (rule on_heap_cm_write [OF assms(1,2)])
    fix cm assume "v_mark (view cm) = a_mark a p" "v_tc (view cm) = a_tc a p"
    with assms(3) show "\<exists>cm'. increment_tracing_counter cm = Done (Inr ()) cm'
      \<and> view cm' = (view cm)\<lparr>v_mark := a_mark a p, v_tc := a_tc a p + 1\<rparr>"
      by (intro exI [of _ "tc_plus_one cm"])
        (auto simp: increment_tracing_counter_eval view_tc_plus_one)
  qed
  then show ?thesis by (auto simp: assert_ok_def)
qed

lemma on_heap_reset:
  assumes "refines h0 s a" "p \<in> dom h0" "a_tc a p < 16383"
  shows "\<exists>s'. on_heap (on_cm p reset_tracing_counter) s = Done () s'
    \<and> refines h0 s' (a\<lparr>a_tc := (a_tc a)(p := 0)\<rparr>)"
proof -
  have "\<exists>s'. on_heap (on_cm p reset_tracing_counter) s = Done () s'
    \<and> refines h0 s' (a\<lparr>a_mark := (a_mark a)(p := a_mark a p), a_tc := (a_tc a)(p := 0)\<rparr>)"
    by (rule on_heap_cm_write [OF assms(1,2)])
      (use assms(3) in \<open>auto simp: reset_tracing_counter_eval view_tc_zero\<close>)
  then show ?thesis by simp
qed

lemma in_list_and_full_eval:
  assumes "refines h0 s a" "p \<in> dom h0" "rc_of h0 p < 16383" "a_tc a p < 16383"
  shows "in_list_and_full p s = Done (a_mark a p = InList \<and> rc_of h0 p = a_tc a p) s"
  using assms by (simp add: in_list_and_full_def on_heap_test on_heap_counter
      on_heap_tracing_counter word_of_nat_u16_eq)

subsection \<open>CcBox::trace on the abstract state\<close>

definition count_step :: "(addr \<Rightarrow> nat) \<Rightarrow> addr \<Rightarrow> astate \<Rightarrow> astate" where
  "count_step rc p a =
     (if a_mark a p = NonMarked then
        a\<lparr>a_tc := (a_tc a)(p := 1), a_queue := a_queue a @ [p], a_mark := (a_mark a)(p := InQueue)\<rparr>
      else if a_mark a p = InList \<and> rc p = a_tc a p + 1 then
        a\<lparr>a_tc := (a_tc a)(p := a_tc a p + 1), a_root := remove1 p (a_root a), a_nonroot := p # a_nonroot a\<rparr>
      else a\<lparr>a_tc := (a_tc a)(p := a_tc a p + 1)\<rparr>)"

definition count_ok :: "boxes \<Rightarrow> addr \<Rightarrow> astate \<Rightarrow> bool" where
  "count_ok h0 p a \<longleftrightarrow> p \<in> dom h0 \<and> rc_of h0 p < 16383 \<and>
     (if a_mark a p = NonMarked then p \<notin> set (listed a) \<and> a_tc a p < 16383
      else a_tc a p < rc_of h0 p \<and> (a_mark a p = InList \<longrightarrow> p \<in> set (a_root a)))"

definition root_step :: "(addr \<Rightarrow> nat) \<Rightarrow> addr \<Rightarrow> astate \<Rightarrow> astate" where
  "root_step rc p a =
     (if a_mark a p = InList \<and> rc p = a_tc a p then
        a\<lparr>a_nonroot := remove1 p (a_nonroot a), a_queue := a_queue a @ [p], a_mark := (a_mark a)(p := InQueue)\<rparr>
      else a)"

definition root_ok :: "boxes \<Rightarrow> addr \<Rightarrow> astate \<Rightarrow> bool" where
  "root_ok h0 p a \<longleftrightarrow> p \<in> dom h0 \<and> rc_of h0 p < 16383 \<and> a_tc a p < 16383 \<and>
     (a_mark a p = InList \<longrightarrow> rc_of h0 p = a_tc a p \<longrightarrow> p \<in> set (a_nonroot a))"

lemma cc_trace_counting_new:
  assumes r: "refines h0 s a" and ok: "count_ok h0 p a" and m: "a_mark a p = NonMarked"
  shows "\<exists>s'. cc_trace Counting p s = Done () s' \<and> refines h0 s' (count_step (rc_of h0) p a)"
proof -
  from ok m have p: "p \<in> dom h0" "p \<notin> set (listed a)" "a_tc a p < 16383" by (auto simp: count_ok_def)
  from on_heap_reset [OF r p(1,3)] obtain s1 where
    1: "on_heap (on_cm p reset_tracing_counter) s = Done () s1" "refines h0 s1 (a\<lparr>a_tc := (a_tc a)(p := 0)\<rparr>)"
    by blast
  from on_heap_increment [OF 1(2) p(1)] obtain s2 where
    2: "assert_ok (on_heap (on_cm p increment_tracing_counter)) s1 = Done () s2"
    "refines h0 s2 (a\<lparr>a_tc := (a_tc a)(p := 1)\<rparr>)" by auto
  from on_queue_add [OF 2(2) p(1)] p(2) obtain s3 where
    3: "on_queue (lq_add p) s2 = Done () s3"
    "refines h0 s3 (a\<lparr>a_tc := (a_tc a)(p := 1), a_queue := a_queue a @ [p]\<rparr>)"
    by (auto simp: listed_def)
  from on_heap_mark [OF 3(2) p(1), of InQueue] obtain s4 where
    4: "on_heap (cm_mark p InQueue) s3 = Done () s4"
    "refines h0 s4 (a\<lparr>a_tc := (a_tc a)(p := 1), a_queue := a_queue a @ [p], a_mark := (a_mark a)(p := InQueue)\<rparr>)"
    by auto
  from 1 2 3 4 m show ?thesis
    by (simp add: cc_trace_def bindM_def thenM_def on_heap_test [OF r p(1)] count_step_def)
qed

lemma cc_trace_counting_marked:
  assumes r: "refines h0 s a" and ok: "count_ok h0 p a" and m: "a_mark a p = InList \<or> a_mark a p = InQueue"
  shows "\<exists>s'. cc_trace Counting p s = Done () s' \<and> refines h0 s' (count_step (rc_of h0) p a)"
proof -
  let ?a = "a\<lparr>a_tc := (a_tc a)(p := a_tc a p + 1)\<rparr>"
  from ok m have p: "p \<in> dom h0" "rc_of h0 p < 16383" "a_tc a p < rc_of h0 p"
    and root: "a_mark a p = InList \<Longrightarrow> p \<in> set (a_root a)" by (auto simp: count_ok_def)
  from p have tc: "a_tc a p < 16383" "a_tc a p < 16382" by simp_all
  from on_heap_increment [OF r p(1) tc(2)] obtain s1 where
    1: "assert_ok (on_heap (on_cm p increment_tracing_counter)) s = Done () s1" "refines h0 s1 ?a"
    by blast
  have full: "in_list_and_full p s1 = Done (a_mark a p = InList \<and> rc_of h0 p = a_tc a p + 1) s1"
    using in_list_and_full_eval [OF 1(2) p(1)] p by simp
  have lt: "(word_of_nat (a_tc a p) :: u16) < word_of_nat (rc_of h0 p)"
    using p by (simp add: word_less_nat_alt unat_of_nat)
  have pre: "cc_trace Counting p s = (if a_mark a p = InList \<and> rc_of h0 p = a_tc a p + 1
       then thenM (on_root (ll_remove p)) (on_nonroot (ll_add p)) s1 else Done () s1)"
    using m 1(1) full lt on_heap_test(1) [OF r p(1)] on_heap_counter [OF r p(1,2)]
      on_heap_tracing_counter [OF r p(1) tc(1)]
    by (simp add: cc_trace_def)
  show ?thesis
  proof (cases "a_mark a p = InList \<and> rc_of h0 p = a_tc a p + 1")
    case True
    with root have pr: "p \<in> set (a_root ?a)" by simp
    from on_root_remove [OF 1(2) pr] obtain s2 where
      2: "on_root (ll_remove p) s1 = Done () s2" "refines h0 s2 (?a\<lparr>a_root := remove1 p (a_root a)\<rparr>)"
      by auto
    have "p \<notin> set (listed (?a\<lparr>a_root := remove1 p (a_root a)\<rparr>))"
      using disjoint_listed [OF r] pr by (auto simp: listed_def)
    from on_nonroot_add [OF 2(2) p(1) this] 2(1) True show ?thesis
      by (auto simp: pre count_step_def)
  next
    case False
    with 1 m show ?thesis by (auto simp: pre count_step_def)
  qed
qed

lemma cc_trace_counting:
  assumes r: "refines h0 s a" and ok: "count_ok h0 p a"
  shows "\<exists>s'. cc_trace Counting p s = Done () s' \<and> refines h0 s' (count_step (rc_of h0) p a)"
proof (cases "a_mark a p")
  case PossibleCycles
  with ok have p: "p \<in> dom h0" "a_tc a p < 16382" by (auto simp: count_ok_def)
  from on_heap_increment [OF r p] PossibleCycles show ?thesis
    by (auto simp: cc_trace_def bindM_def on_heap_test [OF r p(1)] count_step_def)
qed (use cc_trace_counting_new [OF assms] cc_trace_counting_marked [OF assms] in auto)

lemma cc_trace_roots:
  assumes r: "refines h0 s a" and ok: "root_ok h0 p a"
  shows "\<exists>s'. cc_trace RootTracing p s = Done () s' \<and> refines h0 s' (root_step (rc_of h0) p a)"
proof (cases "a_mark a p = InList \<and> rc_of h0 p = a_tc a p")
  case False
  with ok r show ?thesis
    by (intro exI [of _ s]) (auto simp: cc_trace_def in_list_and_full_eval root_ok_def root_step_def)
next
  case True
  with ok have p: "p \<in> dom h0" "p \<in> set (a_nonroot a)" "rc_of h0 p < 16383" "a_tc a p < 16383"
    by (auto simp: root_ok_def)
  let ?a = "a\<lparr>a_mark := (a_mark a)(p := NonMarked)\<rparr>"
  from on_heap_mark [OF r p(1), of NonMarked] obtain s1 where
    1: "on_heap (cm_mark p NonMarked) s = Done () s1" "refines h0 s1 ?a" by blast
  from on_nonroot_remove [OF 1(2)] p(2) obtain s2 where
    2: "on_nonroot (ll_remove p) s1 = Done () s2" "refines h0 s2 (?a\<lparr>a_nonroot := remove1 p (a_nonroot a)\<rparr>)"
    by auto
  have "p \<notin> set (listed (?a\<lparr>a_nonroot := remove1 p (a_nonroot a)\<rparr>))"
    using disjoint_listed [OF r] p(2) by (auto simp: listed_def)
  from on_queue_add [OF 2(2) p(1) this] obtain s3 where
    3: "on_queue (lq_add p) s2 = Done () s3"
    "refines h0 s3 (?a\<lparr>a_nonroot := remove1 p (a_nonroot a), a_queue := a_queue a @ [p]\<rparr>)" by auto
  from on_heap_mark [OF 3(2) p(1), of InQueue] obtain s4 where
    4: "on_heap (cm_mark p InQueue) s3 = Done () s4"
    "refines h0 s4 (a\<lparr>a_nonroot := remove1 p (a_nonroot a), a_queue := a_queue a @ [p],
       a_mark := (a_mark a)(p := InQueue)\<rparr>)" by auto
  have "cc_trace RootTracing p s = Done () s4"
    using 1(1) 2(1) 3(1) 4(1) True in_list_and_full_eval [OF r p(1,3,4)] by (simp add: cc_trace_def)
  with 4(2) True show ?thesis by (auto simp: root_step_def)
qed

end
