(* ===== verification/Trace_Graph.thy ===== *)
theory Trace_Graph
  imports Trace_Refine
begin

text \<open>
  The reference graph a collection sees, and the set it has to find.

  \<open>targets h x\<close> are the boxes the element of \<open>x\<close> reports, one entry per reported \<open>Cc\<close>. The
  collection looks at the part of the memory that can be reached from the boxes it starts with;
  its \<open>garbage\<close> are the boxes of this part that cannot be reached from a box with a reference
  from outside it, which a box shows by a reference counter above the number of references
  reported inside.
\<close>

definition targets :: "boxes \<Rightarrow> addr \<Rightarrow> addr list" where
  "targets h x = called (calls_of h x)"

inductive_set reach :: "boxes \<Rightarrow> addr set \<Rightarrow> addr set" for h A where
  reach_start: "x \<in> A \<Longrightarrow> x \<in> reach h A"
| reach_step: "x \<in> reach h A \<Longrightarrow> y \<in> set (targets h x) \<Longrightarrow> y \<in> reach h A"

definition refs_from :: "boxes \<Rightarrow> addr set \<Rightarrow> addr \<Rightarrow> nat" where
  "refs_from h A y = (\<Sum>x\<in>A. count_list (targets h x) y)"

definition ext_roots :: "boxes \<Rightarrow> addr set \<Rightarrow> addr set" where
  "ext_roots h A = {r \<in> reach h A. refs_from h (reach h A) r < rc_of h r}"

definition garbage :: "boxes \<Rightarrow> addr set \<Rightarrow> addr set" where
  "garbage h A = reach h A - reach h (ext_roots h A)"

text \<open>
  What a collection needs of the memory: the part it looks at is finite and live, holds elements,
  and each reference counter counts at least the reported references. The last point follows from
  the contract of \<open>Trace\<close>: a value reports no more \<open>Cc\<close>s than it owns.
\<close>

definition traceable :: "boxes \<Rightarrow> addr set \<Rightarrow> bool" where
  "traceable h A \<longleftrightarrow> finite (reach h A) \<and>
     (\<forall>p \<in> reach h A. (\<exists>b v. h p = Some b \<and> b_elem b = Some v) \<and> rc_of h p < 16383
        \<and> refs_from h (reach h A) p \<le> rc_of h p)"

lemma traceableD:
  assumes "traceable h A"
  shows "finite (reach h A)" "p \<in> reach h A \<Longrightarrow> p \<in> dom h" "p \<in> reach h A \<Longrightarrow> rc_of h p < 16383"
    "p \<in> reach h A \<Longrightarrow> refs_from h (reach h A) p \<le> rc_of h p"
  using assms by (auto simp: traceable_def)

lemma reach_closed:
  assumes "A \<subseteq> B" "\<And>x y. x \<in> B \<Longrightarrow> y \<in> set (targets h x) \<Longrightarrow> y \<in> B"
  shows "reach h A \<subseteq> B"
proof
  fix x assume "x \<in> reach h A"
  then show "x \<in> B" by induction (use assms in auto)
qed

lemma reach_none: "reach h {} = {}"
  using reach_closed [of "{}" "{}" h] by simp

lemma reach_eqI:
  assumes "A \<subseteq> B" "B \<subseteq> reach h A" "\<And>x y. x \<in> B \<Longrightarrow> y \<in> set (targets h x) \<Longrightarrow> y \<in> B"
  shows "reach h A = B"
  using reach_closed [of A B h] assms by auto

lemma reach_mono_start: "A \<subseteq> reach h B \<Longrightarrow> reach h A \<subseteq> reach h B"
  by (rule reach_closed) (auto intro: reach_step)

lemma refs_from_mono: "finite B \<Longrightarrow> A \<subseteq> B \<Longrightarrow> refs_from h A y \<le> refs_from h B y"
  by (simp add: refs_from_def sum_mono2)

lemma refs_from_insert [simp]:
  "finite A \<Longrightarrow> x \<notin> A \<Longrightarrow> refs_from h (insert x A) y = count_list (targets h x) y + refs_from h A y"
  by (simp add: refs_from_def)

lemma refs_from_empty [simp]: "refs_from h {} y = 0"
  by (simp add: refs_from_def)

lemma refs_from_zero: "finite A \<Longrightarrow> refs_from h A y = 0 \<longleftrightarrow> (\<forall>x\<in>A. y \<notin> set (targets h x))"
  by (auto simp: refs_from_def count_list_0_iff)

lemma ext_roots_subset: "ext_roots h A \<subseteq> reach h A"
  by (auto simp: ext_roots_def)

lemma garbage_subset: "garbage h A \<subseteq> reach h A"
  by (auto simp: garbage_def)

subsection \<open>Soundness and completeness of the set\<close>

text \<open>Nothing outside the garbage reports a member of it, so it accounts for all its references.\<close>

lemma garbage_refs:
  assumes "traceable h A" "y \<in> garbage h A"
  shows "refs_from h (garbage h A) y = rc_of h y"
proof -
  let ?S = "reach h A" and ?G = "garbage h A"
  note t = traceableD [OF assms(1)]
  from assms(2) have y: "y \<in> ?S" "y \<notin> reach h (ext_roots h A)" by (auto simp: garbage_def)
  then have "y \<notin> ext_roots h A" by (auto intro: reach_start)
  with y(1) t(4) have full: "refs_from h ?S y = rc_of h y" by (force simp: ext_roots_def)
  have "count_list (targets h x) y = 0" if "x \<in> ?S - ?G" for x
    using that y(2) by (auto simp: garbage_def count_list_0_iff intro: reach_step)
  then have "refs_from h ?S y = refs_from h ?G y"
    unfolding refs_from_def using t(1) garbage_subset by (intro sum.mono_neutral_right) auto
  with full show ?thesis by simp
qed

text \<open>Any set of reached boxes that accounts for all its references is part of the garbage.\<close>

lemma garbage_greatest:
  assumes t: "traceable h A" and G: "G \<subseteq> reach h A" "\<And>y. y \<in> G \<Longrightarrow> refs_from h G y = rc_of h y"
  shows "G \<subseteq> garbage h A"
proof -
  let ?S = "reach h A"
  note t = traceableD [OF t]
  have "z \<notin> G" if "z \<in> reach h (ext_roots h A)" for z
    using that
  proof induction
    case (reach_start r)
    then have "refs_from h ?S r < rc_of h r" by (simp add: ext_roots_def)
    with refs_from_mono [OF t(1) G(1), of h r] G(2) [of r] show ?case by auto
  next
    case (reach_step x y)
    show ?case
    proof
      assume y: "y \<in> G"
      from reach_step have xS: "x \<in> ?S" and x: "x \<notin> G" and "count_list (targets h x) y \<noteq> 0"
        using reach_mono_start [OF ext_roots_subset] by (auto simp: count_list_0_iff)
      moreover have "finite G" using G(1) t(1) finite_subset by blast
      ultimately have "refs_from h G y < refs_from h (insert x G) y" by simp
      also have "\<dots> \<le> refs_from h ?S y" using t(1) G(1) xS by (intro refs_from_mono) auto
      also have "\<dots> \<le> rc_of h y" using y G(1) t(4) by auto
      finally show False using G(2) [OF y] by simp
    qed
  qed
  with G(1) show ?thesis by (auto simp: garbage_def)
qed

text \<open>Garbage reports only garbage and boxes that stay; what stays never reports garbage.\<close>

lemma survivors_closed:
  "x \<in> reach h A - garbage h A \<Longrightarrow> y \<in> set (targets h x) \<Longrightarrow> y \<in> reach h A - garbage h A"
  by (auto simp: garbage_def intro: reach_step)

end
