(* ===== verification/Trace_Count.thy ===== *)
theory Trace_Count
  imports Trace_Steps Trace_Graph
begin

text \<open>
  The counting phase. \<open>count_inv h0 P C M a\<close> is its invariant: \<open>P\<close> are the boxes the collection
  started with, \<open>C\<close> holds the box that is being traced (or nothing) and \<open>M\<close> counts what has been
  reported from it so far. Every box met has as tracing counter the number of references reported
  to it, the boxes in the two lists are the ones whose references have all been reported, and the
  root list holds those whose counter is above it.
\<close>

definition traced :: "astate \<Rightarrow> addr set" where
  "traced a = set (a_root a) \<union> set (a_nonroot a)"

definition met :: "addr set \<Rightarrow> astate \<Rightarrow> addr set" where
  "met C a = set (a_pc a) \<union> traced a \<union> set (a_queue a) \<union> C"

definition reported :: "boxes \<Rightarrow> (addr \<Rightarrow> nat) \<Rightarrow> astate \<Rightarrow> addr \<Rightarrow> nat" where
  "reported h0 M a p = refs_from h0 (traced a) p + M p"

definition count_inv :: "boxes \<Rightarrow> addr set \<Rightarrow> addr set \<Rightarrow> (addr \<Rightarrow> nat) \<Rightarrow> astate \<Rightarrow> bool" where
  "count_inv h0 P C M a \<longleftrightarrow>
     traceable h0 P \<and> distinct (listed a) \<and> C \<inter> set (listed a) = {} \<and>
     P \<subseteq> met C a \<and> met C a \<subseteq> reach h0 P \<and>
     (\<forall>p \<in> reach h0 P. a_mark a p = (if p \<in> traced a then InList else if p \<in> set (a_pc a) then PossibleCycles
        else if p \<in> met C a then InQueue else NonMarked)) \<and>
     (\<forall>p \<in> met C a. a_tc a p = reported h0 M a p) \<and>
     (\<forall>p \<in> reach h0 P - met C a. reported h0 M a p = 0 \<and> a_tc a p < 16383) \<and>
     (\<forall>p \<in> set (a_root a). a_tc a p < rc_of h0 p) \<and> (\<forall>p \<in> set (a_nonroot a). a_tc a p = rc_of h0 p) \<and>
     (\<forall>p \<in> dom h0 - reach h0 P. a_mark a p = mark_of h0 p \<and> a_tc a p = tc_of h0 p) \<and>
     (\<forall>p. M p \<le> refs_from h0 C p) \<and> (\<exists>c. C \<subseteq> {c})"

lemma met_listed: "met C a = set (listed a) \<union> C"
  by (auto simp: met_def traced_def listed_def)

text \<open>What has been reported never exceeds the reference counter.\<close>

lemma reported_le:
  assumes inv: "count_inv h0 P C M a" and p: "p \<in> reach h0 P" and N: "N \<le> refs_from h0 C p"
  shows "refs_from h0 (traced a) p + N \<le> rc_of h0 p"
proof -
  from inv have t: "traceable h0 P" and sub: "met C a \<subseteq> reach h0 P" and dis: "C \<inter> traced a = {}"
    by (auto simp: count_inv_def listed_def traced_def)
  note t = traceableD [OF t]
  from sub have fin: "finite (traced a)" "finite C"
    by (auto intro: finite_subset [OF _ t(1)] simp: met_def)
  have "refs_from h0 (traced a) p + N \<le> refs_from h0 (traced a) p + refs_from h0 C p" using N by simp
  also have "\<dots> = refs_from h0 (traced a \<union> C) p"
    unfolding refs_from_def using fin dis by (intro sum.union_disjoint [symmetric]) auto
  also have "\<dots> \<le> refs_from h0 (reach h0 P) p"
    using sub by (intro refs_from_mono t(1)) (auto simp: met_def)
  also have "\<dots> \<le> rc_of h0 p" using t(4) p .
  finally show ?thesis .
qed

lemma count_inv_step_ok:
  assumes inv: "count_inv h0 P C M a" and p: "p \<in> reach h0 P" and M: "M p < refs_from h0 C p"
  shows "count_ok h0 p a"
proof -
  from inv have t: "traceable h0 P" and dis: "C \<inter> set (listed a) = {}"
    and mk: "a_mark a p = (if p \<in> traced a then InList else if p \<in> set (a_pc a) then PossibleCycles
        else if p \<in> met C a then InQueue else NonMarked)"
    and tc: "p \<in> met C a \<Longrightarrow> a_tc a p = reported h0 M a p" "p \<notin> met C a \<Longrightarrow> a_tc a p < 16383"
    using p by (auto simp: count_inv_def)
  from reported_le [OF inv p, of "M p + 1"] M have lt: "reported h0 M a p < rc_of h0 p"
    by (simp add: reported_def)
  moreover from inv have "p \<in> set (a_nonroot a) \<Longrightarrow> a_tc a p = rc_of h0 p" by (simp add: count_inv_def)
  ultimately show ?thesis
    using traceableD(2,3) [OF t p] mk tc
    by (auto simp: count_ok_def met_listed traced_def listed_def split: if_splits)
qed

lemma count_invD:
  assumes "count_inv h0 P C M a"
  shows "traceable h0 P" "distinct (listed a)" "C \<inter> set (listed a) = {}" "P \<subseteq> met C a"
    "met C a \<subseteq> reach h0 P" "\<exists>c. C \<subseteq> {c}" "M q \<le> refs_from h0 C q"
    "q \<in> reach h0 P \<Longrightarrow> a_mark a q = (if q \<in> traced a then InList
        else if q \<in> set (a_pc a) then PossibleCycles else if q \<in> met C a then InQueue else NonMarked)"
    "q \<in> met C a \<Longrightarrow> a_tc a q = reported h0 M a q"
    "q \<in> reach h0 P \<Longrightarrow> q \<notin> met C a \<Longrightarrow> reported h0 M a q = 0"
    "q \<in> reach h0 P \<Longrightarrow> q \<notin> met C a \<Longrightarrow> a_tc a q < 16383"
    "q \<in> set (a_root a) \<Longrightarrow> a_tc a q < rc_of h0 q" "q \<in> set (a_nonroot a) \<Longrightarrow> a_tc a q = rc_of h0 q"
    "q \<in> dom h0 \<Longrightarrow> q \<notin> reach h0 P \<Longrightarrow> a_mark a q = mark_of h0 q \<and> a_tc a q = tc_of h0 q"
  using assms unfolding count_inv_def by simp_all

text \<open>
  One report, as a change of the invariant: \<open>b\<close> has met \<open>p\<close> as well, its tracing counter went up,
  and if it became full it moved from the root list to the other one.
\<close>

lemma count_inv_report:
  assumes inv: "count_inv h0 P C M a" and p: "p \<in> reach h0 P" and M: "M p < refs_from h0 C p"
    and b: "traced b = traced a" "a_pc b = a_pc a" "met C b = insert p (met C a)"
      "distinct (listed b)" "C \<inter> set (listed b) = {}"
      "a_tc b = (a_tc a)(p := reported h0 M a p + 1)"
      "a_mark b = (if p \<in> met C a then a_mark a else (a_mark a)(p := InQueue))"
    and lists: "\<And>q. q \<in> set (a_root b) \<Longrightarrow> a_tc b q < rc_of h0 q"
      "\<And>q. q \<in> set (a_nonroot b) \<Longrightarrow> a_tc b q = rc_of h0 q"
  shows "count_inv h0 P C (M(p := M p + 1)) b"
proof -
  note d = count_invD [OF inv]
  have rep: "reported h0 (M(p := M p + 1)) b q = (if q = p then reported h0 M a p + 1 else reported h0 M a q)" for q
    by (simp add: reported_def b)
  show ?thesis
    unfolding count_inv_def
  proof (intro conjI ballI allI)
    show "a_mark b q = (if q \<in> traced b then InList else if q \<in> set (a_pc b) then PossibleCycles
        else if q \<in> met C b then InQueue else NonMarked)" if q: "q \<in> reach h0 P" for q
    proof (cases "p \<in> met C a")
      case True
      then have "insert p (met C a) = met C a" by blast
      with True d(8) [OF q] show ?thesis by (simp add: b)
    next
      case False
      then have "p \<notin> traced a" "p \<notin> set (a_pc a)" by (auto simp: met_def)
      with False d(8) [OF q] show ?thesis by (simp add: b)
    qed
    show "P \<subseteq> met C b" "met C b \<subseteq> reach h0 P" using d(4,5) p unfolding b(3) by auto
    show "a_tc b q = reported h0 (M(p := M p + 1)) b q" if "q \<in> met C b" for q
      using that d(9) [of q] by (auto simp: rep [simplified] b)
    show "reported h0 (M(p := M p + 1)) b q = 0" "a_tc b q < 16383" if "q \<in> reach h0 P - met C b" for q
      using that d(10,11) [of q] by (auto simp: rep [simplified] b)
    show "a_mark b q = mark_of h0 q" "a_tc b q = tc_of h0 q" if "q \<in> dom h0 - reach h0 P" for q
      using that d(14) [of q] p by (auto simp: b split: if_splits)
    show "(M(p := M p + 1)) q \<le> refs_from h0 C q" for q using d(7) [of q] M by simp
  qed (use d(1,6) b(4,5) lists in simp_all)
qed

lemma count_inv_step:
  assumes inv: "count_inv h0 P C M a" and p: "p \<in> reach h0 P" and M: "M p < refs_from h0 C p"
  shows "count_inv h0 P C (M(p := M p + 1)) (count_step (rc_of h0) p a)"
proof (cases "a_mark a p = NonMarked")
  case True
  note d = count_invD [OF inv] and ok = count_inv_step_ok [OF assms]
  from True d(8) [OF p] have new: "p \<notin> met C a" by (auto simp: met_def split: if_splits)
  then have fresh: "p \<notin> set (listed a)" "p \<notin> C" "p \<notin> set (a_root a)" "p \<notin> set (a_nonroot a)"
    by (auto simp: met_listed) (auto simp: listed_def)
  show ?thesis
  proof (rule count_inv_report [OF assms])
    show "met C (count_step (rc_of h0) p a) = insert p (met C a)"
      using True by (auto simp: count_step_def met_def traced_def)
    show "distinct (listed (count_step (rc_of h0) p a))" "C \<inter> set (listed (count_step (rc_of h0) p a)) = {}"
      using True d(2,3) fresh by (auto simp: count_step_def listed_def)
  qed (use True new fresh d(10) [OF p new] d(12,13) in \<open>auto simp: count_step_def traced_def\<close>)
next
  case False
  note d = count_invD [OF inv] and ok = count_inv_step_ok [OF assms]
  from False d(8) [OF p] have old: "p \<in> met C a" by (auto simp: met_def split: if_splits)
  from d(9) [OF this] have tc: "a_tc a p = reported h0 M a p" .
  show ?thesis
  proof (cases "a_mark a p = InList \<and> rc_of h0 p = a_tc a p + 1")
    case True
    with ok have r: "p \<in> set (a_root a)" by (simp add: count_ok_def)
    have step: "count_step (rc_of h0) p a = a\<lparr>a_tc := (a_tc a)(p := a_tc a p + 1),
        a_root := remove1 p (a_root a), a_nonroot := p # a_nonroot a\<rparr>"
      using True by (simp add: count_step_def)
    have same: "set (listed (count_step (rc_of h0) p a)) = set (listed a)"
      "traced (count_step (rc_of h0) p a) = traced a"
      unfolding step using d(2) r by (auto simp: listed_def traced_def)
    show ?thesis
    proof (rule count_inv_report [OF assms])
      show "met C (count_step (rc_of h0) p a) = insert p (met C a)"
        using old unfolding met_listed same by blast
      show "distinct (listed (count_step (rc_of h0) p a))"
        unfolding step using d(2) r by (auto simp: listed_def)
      show "C \<inter> set (listed (count_step (rc_of h0) p a)) = {}" using d(3) same by simp
      show "a_tc (count_step (rc_of h0) p a) q < rc_of h0 q" if "q \<in> set (a_root (count_step (rc_of h0) p a))" for q
        using that d(2) d(12) [of q] unfolding step by (auto simp: listed_def)
      show "a_tc (count_step (rc_of h0) p a) q = rc_of h0 q" if "q \<in> set (a_nonroot (count_step (rc_of h0) p a))" for q
        using that True d(13) [of q] unfolding step by auto
    qed (use old tc same in \<open>simp_all add: step\<close>)
  next
    case no: False
    have step: "count_step (rc_of h0) p a = a\<lparr>a_tc := (a_tc a)(p := a_tc a p + 1)\<rparr>"
      using False no by (auto simp: count_step_def)
    have same: "listed (count_step (rc_of h0) p a) = listed a" by (simp add: step listed_def)
    have nr: "p \<notin> set (a_nonroot a)" using ok d(13) [of p] False by (auto simp: count_ok_def)
    have rt: "p \<in> set (a_root a) \<Longrightarrow> a_tc a p + 1 < rc_of h0 p"
      using ok d(8) [OF p] no d(12) [of p] by (auto simp: traced_def)
    show ?thesis
    proof (rule count_inv_report [OF assms])
      show "met C (count_step (rc_of h0) p a) = insert p (met C a)"
        using old unfolding met_listed same by blast
    qed (use old tc d(2,3,12,13) nr rt same in \<open>auto simp: step traced_def\<close>)
  qed
qed

lemma count_step_lists:
  "count_ok h0 p a \<Longrightarrow> distinct (listed a) \<Longrightarrow> traced (count_step (rc_of h0) p a) = traced a"
  "a_pc (count_step (rc_of h0) p a) = a_pc a"
  by (auto simp: count_step_def count_ok_def traced_def listed_def split: if_splits)

subsection \<open>Tracing one box\<close>

text \<open>The traces of the boxes that have been traced have all returned.\<close>

definition calls_end :: "boxes \<Rightarrow> addr set \<Rightarrow> bool" where
  "calls_end h0 S \<longleftrightarrow> (\<forall>x \<in> S. \<not> panics (calls_of h0 x))"

lemma calls_end_insert [simp]: "calls_end h0 (insert x S) \<longleftrightarrow> \<not> panics (calls_of h0 x) \<and> calls_end h0 S"
  by (simp add: calls_end_def)

text \<open>
  Whose turn it is: the box \<open>x\<close> has been taken out of \<open>POSSIBLE_CYCLES\<close>, after the boxes that have been
  traced so far, or that buffer is empty and all its boxes have been traced.
\<close>

definition turn :: "addr list \<Rightarrow> addr \<Rightarrow> addr set \<Rightarrow> addr list \<Rightarrow> bool" where
  "turn ps x T qs \<longleftrightarrow> (\<exists>zs. ps = zs @ x # qs \<and> T = set zs) \<or> qs = [] \<and> set ps \<subseteq> T"

lemma turn_suffix: "turn ps x T qs \<Longrightarrow> \<exists>ys. ps = ys @ qs"
  by (auto simp: turn_def intro: exI [of _ "_ @ [x]"])

text \<open>
  What a panic of a \<open>trace\<close> leaves: it is the first panic, of a reached box \<open>x\<close>; the boxes not yet taken stay
  in \<open>POSSIBLE_CYCLES\<close>, and a box outside the collections is unmarked. The tracing counter of a box that
  stays buffered is the number of references that were reported to it before the panic: by the boxes
  \<open>T\<close> that had been traced, and by \<open>x\<close> in the calls \<open>pre\<close>.
\<close>

definition unwound :: "boxes \<Rightarrow> addr list \<Rightarrow> panic \<Rightarrow> tstate \<Rightarrow> bool" where
  "unwound h0 ps e s \<longleftrightarrow> (\<exists>msg x a pre cs T. e = PanicMsg msg \<and> x \<in> reach h0 (set ps) \<and>
     calls_of h0 x = pre @ CallPanic msg # cs \<and> \<not> panics pre \<and> calls_end h0 T \<and> turn ps x T (a_pc a) \<and>
     refines h0 s a \<and> set (listed a) \<subseteq> reach h0 (set ps) \<and>
     (\<forall>p \<in> set (a_pc a). a_mark a p = PossibleCycles \<and> a_tc a p = refs_from h0 T p + count_list (called pre) p) \<and>
     (\<forall>p \<in> reach h0 (set ps) - set (listed a). a_mark a p = NonMarked))"

lemma unwound_panics: "unwound h0 ps e s \<Longrightarrow> \<exists>x \<in> reach h0 (set ps). panics (calls_of h0 x)"
  unfolding unwound_def panics_def by (elim exE conjE, rule bexI) (simp_all, blast)

lemma run_calls_counting:
  "refines h0 s a \<Longrightarrow> count_inv h0 P {c} (count_list (called pre)) a \<Longrightarrow> calls_of h0 c = pre @ cs \<Longrightarrow> \<not> panics pre \<Longrightarrow>
   wp (run_calls Counting cs)
     (\<lambda>_ s'. \<exists>b. refines h0 s' b \<and> count_inv h0 P {c} (count_list (targets h0 c)) b
        \<and> a_pc b = a_pc a \<and> traced b = traced a \<and> \<not> panics (calls_of h0 c))
     (\<lambda>e s'. \<exists>msg b pre' cs'. e = PanicMsg msg \<and> calls_of h0 c = pre' @ CallPanic msg # cs' \<and> \<not> panics pre' \<and> refines h0 s' b
        \<and> count_inv h0 P {c} (count_list (called pre')) b \<and> a_pc b = a_pc a \<and> traced b = traced a) s"
proof (induction cs arbitrary: s a pre)
  case Nil
  then have "targets h0 c = called pre" by (simp add: targets_def)
  with Nil.prems show ?case by (auto simp: run_calls_def wp_def)
next
  case (Cons k cs)
  show ?case
  proof (cases k)
    case (CallPanic msg)
    with Cons.prems show ?thesis by (auto simp: run_calls_def wp_def)
  next
    case (CallCc p)
    from Cons.prems(3) CallCc have tg: "targets h0 c = called pre @ p # called cs" by (simp add: targets_def)
    have "c \<in> reach h0 P" using count_invD(5) [OF Cons.prems(2)] by (auto simp: met_def)
    then have p: "p \<in> reach h0 P" using tg by (auto intro: reach_step)
    have M: "count_list (called pre) p < refs_from h0 {c} p" by (simp add: refs_from_def tg)
    note ok = count_inv_step_ok [OF Cons.prems(2) p M]
    from cc_trace_counting [OF Cons.prems(1) ok] obtain s1 where
      1: "cc_trace Counting p s = Done () s1" "refines h0 s1 (count_step (rc_of h0) p a)" by blast
    have "(count_list (called pre))(p := count_list (called pre) p + 1) = count_list (called (pre @ [k]))"
      by (rule ext) (simp add: CallCc)
    with count_inv_step [OF Cons.prems(2) p M]
    have inv: "count_inv h0 P {c} (count_list (called (pre @ [k]))) (count_step (rc_of h0) p a)" by simp
    have "\<not> panics (pre @ [k])" using Cons.prems(4) by (simp add: panics_def CallCc)
    from Cons.IH [OF 1(2) inv _ this] Cons.prems(3) show ?thesis
      using count_step_lists(1) [OF ok] count_step_lists(2) count_invD(2) [OF Cons.prems(2)]
      by (simp add: run_calls_def wp_thenM CallCc wp_Done [where m = "cc_trace Counting p", OF 1(1)])
  qed
qed

text \<open>Putting the traced box into its list.\<close>

lemma count_inv_finish:
  assumes inv: "count_inv h0 P {x} (count_list (targets h0 x)) a"
    and b: "b = (if rc_of h0 x = a_tc a x then a\<lparr>a_nonroot := x # a_nonroot a\<rparr> else a\<lparr>a_root := x # a_root a\<rparr>)
      \<lparr>a_mark := (a_mark a)(x := InList)\<rparr>"
  shows "count_inv h0 P {} (\<lambda>_. 0) b" "a_pc b = a_pc a" "traced b = insert x (traced a)"
proof -
  note d = count_invD [OF inv]
  from b show pc: "a_pc b = a_pc a" by simp
  from b show tr: "traced b = insert x (traced a)" by (auto simp: traced_def)
  have x: "x \<in> reach h0 P" "x \<notin> set (listed a)" "x \<notin> traced a" "x \<in> met {x} a"
    using d(3,5) by (auto simp: met_def listed_def traced_def)
  have le: "a_tc a x \<le> rc_of h0 x"
    using d(9) [OF x(4)] reported_le [OF inv x(1) d(7)] by (simp add: reported_def)
  have fin: "finite (traced a)" by (simp add: traced_def)
  have rep: "reported h0 (\<lambda>_. 0) b q = reported h0 (count_list (targets h0 x)) a q" for q
    using fin x(3) by (simp add: reported_def tr)
  have mt: "met {} b = met {x} a" by (auto simp: met_def tr pc) (auto simp: b split: if_splits)
  have tc: "a_tc b = a_tc a" by (simp add: b)
  show "count_inv h0 P {} (\<lambda>_. 0) b"
    unfolding count_inv_def
  proof (intro conjI ballI)
    show "distinct (listed b)" using d(2) x(2) by (auto simp: b listed_def)
    show "a_mark b q = (if q \<in> traced b then InList else if q \<in> set (a_pc b) then PossibleCycles
        else if q \<in> met {} b then InQueue else NonMarked)" if "q \<in> reach h0 P" for q
      using d(8) [OF that] unfolding tr mt pc by (auto simp: b)
    show "a_tc b q < rc_of h0 q" if "q \<in> set (a_root b)" for q
      using that d(12) [of q] le by (auto simp: b split: if_splits)
    show "a_tc b q = rc_of h0 q" if "q \<in> set (a_nonroot b)" for q
      using that d(13) [of q] by (auto simp: b split: if_splits)
    show "a_mark b q = mark_of h0 q" "a_tc b q = tc_of h0 q" if "q \<in> dom h0 - reach h0 P" for q
      using that d(14) [of q] x(1) by (auto simp: b split: if_splits)
  qed (use d in \<open>simp_all add: rep mt tc\<close>)
qed

lemma unwound_marks:
  assumes inv: "count_inv h0 (set ps) {x} (count_list (called pre)) a" and r: "refines h0 s (a\<lparr>a_mark := (a_mark a)(x := NonMarked)\<rparr>)"
    and pc: "turn ps x (traced a) (a_pc a)" "calls_end h0 (traced a)"
    and e: "e = PanicMsg msg" "x \<in> reach h0 (set ps)" "calls_of h0 x = pre @ CallPanic msg # cs" "\<not> panics pre"
  shows "unwound h0 ps e s"
proof -
  note d = count_invD [OF inv]
  let ?b = "a\<lparr>a_mark := (a_mark a)(x := NonMarked)\<rparr>"
  have l: "listed ?b = listed a" by (simp add: listed_def)
  have x: "x \<notin> set (listed a)" using d(3) by simp
  have "set (listed a) \<subseteq> reach h0 (set ps)" using d(5) by (simp add: met_listed)
  moreover have "a_mark ?b p = PossibleCycles \<and> a_tc ?b p = refs_from h0 (traced a) p + count_list (called pre) p"
    if "p \<in> set (a_pc a)" for p
  proof -
    have "p \<in> reach h0 (set ps)" "p \<noteq> x" "p \<notin> traced a" "p \<in> met {x} a"
      using that d(2,3,5) by (auto simp: traced_def listed_def met_def)
    with that d(8) d(9) [of p] show ?thesis by (simp add: reported_def)
  qed
  moreover have "a_mark ?b p = NonMarked" if "p \<in> reach h0 (set ps) - set (listed a)" for p
    using that d(8) [of p] by (auto simp: met_listed traced_def listed_def)
  ultimately show ?thesis
    unfolding unwound_def using r e pc l
    by (intro exI [of _ msg] exI [of _ x] exI [of _ ?b] exI [of _ pre] exI [of _ cs] exI [of _ "traced a"]) simp
qed

lemma trace_inner_eval:
  assumes r: "refines h0 s a" and t: "traceable h0 P" and x: "x \<in> reach h0 P"
  shows "trace_inner ctx x s = run_calls ctx (calls_of h0 x) s"
  using r traceableD(2) [OF t x]
proof (rule refines_live)
  fix b assume b: "t_heap s x = Some b" "map_option b_elem (h0 x) = Some (b_elem b)"
    "calls_of h0 x = (case b_elem b of None \<Rightarrow> [] | Some v \<Rightarrow> trace_val v)"
  moreover from t x obtain c v where "h0 x = Some c" "b_elem c = Some v" by (auto simp: traceable_def)
  ultimately have "b_elem b = Some v" by simp
  with b refines_vtable [OF r traceableD(2) [OF t x]] show ?thesis
    by (simp add: trace_inner_def on_heap_def zoom_def bindM_def)
qed

lemma trace_counting_one_ok:
  assumes r: "refines h0 s a" and inv: "count_inv h0 (set ps) {x} (\<lambda>_. 0) (a\<lparr>a_mark := (a_mark a)(x := InQueue)\<rparr>)"
    and pc: "turn ps x (traced a) (a_pc a)" and ce: "calls_end h0 (traced a)"
  shows "wp (trace_counting_one x)
     (\<lambda>_ s'. \<exists>b. refines h0 s' b \<and> count_inv h0 (set ps) {} (\<lambda>_. 0) b \<and> a_pc b = a_pc a
        \<and> traced b = insert x (traced a) \<and> \<not> panics (calls_of h0 x))
     (unwound h0 ps) s"
proof -
  let ?a = "a\<lparr>a_mark := (a_mark a)(x := InQueue)\<rparr>"
  note d = count_invD [OF inv]
  have x: "x \<in> reach h0 (set ps)" using d(5) by (auto simp: met_def)
  note live = traceableD(2) [OF d(1) x] and rc = traceableD(3) [OF d(1) x]
  from on_heap_mark [OF r live, of InQueue] obtain s1 where
    1: "on_heap (cm_mark x InQueue) s = Done () s1" "refines h0 s1 ?a" by blast
  have start: "count_inv h0 (set ps) {x} (count_list (called [])) ?a"
  proof -
    have "count_list [] = (\<lambda>_ :: addr. 0)" by (rule ext) simp
    with inv show ?thesis by (simp only: called.simps)
  qed
  have cont: "wp (bindM (on_heap (on_cm x counter)) (\<lambda>c. bindM (on_heap (on_cm x tracing_counter)) (\<lambda>tc.
      if c = tc then on_nonroot (ll_add x) else on_root (ll_add x))))
      (\<lambda>_. wp (on_heap (cm_mark x InList)) (\<lambda>_ s'. \<exists>b. refines h0 s' b \<and> count_inv h0 (set ps) {} (\<lambda>_. 0) b
        \<and> a_pc b = a_pc a \<and> traced b = insert x (traced a) \<and> \<not> panics (calls_of h0 x)) (unwound h0 ps)) E s2"
    if r2: "refines h0 s2 b" and i2: "count_inv h0 (set ps) {x} (count_list (targets h0 x)) b"
      and l2: "a_pc b = a_pc ?a" "traced b = traced ?a" and np: "\<not> panics (calls_of h0 x)" for s2 b E
  proof -
    note d2 = count_invD [OF i2]
    have new: "x \<notin> set (listed b)" using d2(3) by simp
    have "a_tc b x \<le> rc_of h0 x"
      using d2(9) [of x] reported_le [OF i2 x d2(7)] by (simp add: reported_def met_def)
    then have reads: "on_heap (on_cm x counter) s2 = Done (word_of_nat (rc_of h0 x)) s2"
      "on_heap (on_cm x tracing_counter) s2 = Done (word_of_nat (a_tc b x)) s2"
      using on_heap_counter [OF r2 live rc] on_heap_tracing_counter [OF r2 live] rc by simp_all
    let ?b = "if rc_of h0 x = a_tc b x then b\<lparr>a_nonroot := x # a_nonroot b\<rparr> else b\<lparr>a_root := x # a_root b\<rparr>"
    obtain s3 where 3: "(if rc_of h0 x = a_tc b x then on_nonroot (ll_add x) else on_root (ll_add x)) s2 = Done () s3"
      "refines h0 s3 ?b"
      using on_nonroot_add [OF r2 live new] on_root_add [OF r2 live new] by (cases "rc_of h0 x = a_tc b x") auto
    from on_heap_mark [OF 3(2) live, of InList] obtain s4 where
      4: "on_heap (cm_mark x InList) s3 = Done () s4" "refines h0 s4 (?b\<lparr>a_mark := (a_mark b)(x := InList)\<rparr>)"
      by (auto split: if_splits)
    have eq: "((word_of_nat (rc_of h0 x) :: u16) = word_of_nat (a_tc b x)) = (rc_of h0 x = a_tc b x)"
      using rc \<open>a_tc b x \<le> rc_of h0 x\<close> by (simp add: word_of_nat_u16_eq)
    have "(bindM (on_heap (on_cm x counter)) (\<lambda>c. bindM (on_heap (on_cm x tracing_counter)) (\<lambda>tc.
      if c = tc then on_nonroot (ll_add x) else on_root (ll_add x)))) s2 = Done () s3"
      using 3(1) by (simp add: reads eq)
    moreover have l3: "a_pc b = a_pc a" "traced b = traced a" using l2 by (simp_all add: traced_def)
    note f = count_inv_finish [OF i2 refl, unfolded l3]
    from 4(2) f have "\<exists>b. refines h0 s4 b \<and> count_inv h0 (set ps) {} (\<lambda>_. 0) b \<and> a_pc b = a_pc a
        \<and> traced b = insert x (traced a) \<and> \<not> panics (calls_of h0 x)" using np by blast
    ultimately show ?thesis using 4(1) by (simp add: wp_Done)
  qed
  have guard: "wp (reset_mark_drop_guard x) (\<lambda>_. unwound h0 ps e) (unwound h0 ps) s2"
    if "e = PanicMsg msg" "calls_of h0 x = pre @ CallPanic msg # cs" "\<not> panics pre" "refines h0 s2 b"
      "count_inv h0 (set ps) {x} (count_list (called pre)) b" "a_pc b = a_pc ?a" "traced b = traced ?a" for e msg s2 b pre cs
  proof -
    have "traced b = traced a" "a_pc b = a_pc a" using that(6,7) by (simp_all add: traced_def)
    then have "turn ps x (traced b) (a_pc b)" "calls_end h0 (traced b)" using pc ce by simp_all
    note u = unwound_marks [OF that(5) _ this that(1) x that(2,3)]
    from on_heap_mark [OF that(4) live, of NonMarked] u show ?thesis
      by (auto simp: reset_mark_drop_guard_def wp_Done)
  qed
  have inner: "wp (trace_inner Counting x) Q E s1 = wp (run_calls Counting (calls_of h0 x)) Q E s1" for Q E
    by (rule wp_cong) (rule trace_inner_eval [OF 1(2) d(1) x])
  show ?thesis
    unfolding trace_counting_one_def wp_thenM wp_on_unwind
      wp_Done [where m = "on_heap (cm_mark x InQueue)", OF 1(1)] inner
    by (rule wp_conseq [OF run_calls_counting [OF 1(2) start]]) (use cont guard in \<open>auto simp: panics_def\<close>)
qed

subsection \<open>The two loops\<close>

lemma count_inv_take:
  assumes inv: "count_inv h0 P {} (\<lambda>_. 0) a"
    and b: "a_root b = a_root a" "a_nonroot b = a_nonroot a" "a_tc b = a_tc a"
      "a_mark b = (a_mark a)(x := InQueue)"
      "a_pc a = x # a_pc b \<and> a_queue b = a_queue a \<or> a_pc b = a_pc a \<and> a_queue a = x # a_queue b"
  shows "count_inv h0 P {x} (\<lambda>_. 0) b" "x \<in> reach h0 P - traced a" "traced b = traced a"
proof -
  note d = count_invD [OF inv]
  show tr: "traced b = traced a" by (simp add: traced_def b)
  have mt: "met {x} b = met {} a" using b(5) by (auto simp: met_def tr)
  have new: "x \<notin> set (listed b)" "distinct (listed b)" "x \<in> met {} a" "x \<notin> traced a"
    using d(2) b(1,2,5) by (auto simp: listed_def met_def traced_def)
  with d(5) show "x \<in> reach h0 P - traced a" by blast
  have rep: "reported h0 (\<lambda>_. 0) b q = reported h0 (\<lambda>_. 0) a q" for q by (simp add: reported_def tr)
  show "count_inv h0 P {x} (\<lambda>_. 0) b"
    unfolding count_inv_def
  proof (intro conjI ballI)
    show "a_mark b q = (if q \<in> traced b then InList else if q \<in> set (a_pc b) then PossibleCycles
        else if q \<in> met {x} b then InQueue else NonMarked)" if "q \<in> reach h0 P" for q
    proof (cases "q = x")
      case True
      with new show ?thesis unfolding tr by (simp add: b(4) met_def listed_def)
    next
      case False
      then have "q \<in> set (a_pc b) \<longleftrightarrow> q \<in> set (a_pc a)" using b(5) by auto
      with False d(8) [OF that] show ?thesis unfolding tr mt by (simp add: b(4))
    qed
    show "a_mark b q = mark_of h0 q" "a_tc b q = tc_of h0 q" if "q \<in> dom h0 - reach h0 P" for q
      using that d(14) [of q] d(5) new(3) by (auto simp: b split: if_splits)
  qed (use d new in \<open>simp_all add: rep mt b(1-3)\<close>)
qed

lemma measure_less:
  assumes "traceable h0 P" "x \<in> reach h0 P - traced a" "traced b = insert x (traced a)"
  shows "card (reach h0 P - traced b) < card (reach h0 P - traced a)"
proof -
  have "reach h0 P - traced b = (reach h0 P - traced a) - {x}" using assms(3) by blast
  with assms(2) traceableD(1) [OF assms(1)] show ?thesis by (simp only: card_Diff1_less finite_Diff)
qed

lemma counting_round:
  assumes inv: "count_inv h0 (set ps) {} (\<lambda>_. 0) a" and r: "refines h0 s b"
    and b: "a_root b = a_root a" "a_nonroot b = a_nonroot a" "a_tc b = a_tc a"
      "a_mark b = (a_mark a)(x := NonMarked)"
      "a_pc a = x # a_pc b \<and> a_queue b = a_queue a \<or> a_pc b = a_pc a \<and> a_queue a = x # a_queue b"
    and pc: "turn ps x (traced a) (a_pc b)" and e: "calls_end h0 (traced a)"
  shows "wp (trace_counting_one x) (\<lambda>_ u. \<exists>c. refines h0 u c \<and> count_inv h0 (set ps) {} (\<lambda>_. 0) c \<and> calls_end h0 (traced c)
     \<and> a_pc c = a_pc b \<and> traced c = insert x (traced a) \<and> card (reach h0 (set ps) - traced c) < card (reach h0 (set ps) - traced a))
     (unwound h0 ps) s"
proof -
  let ?b = "b\<lparr>a_mark := (a_mark b)(x := InQueue)\<rparr>"
  have take: "count_inv h0 (set ps) {x} (\<lambda>_. 0) ?b" "x \<in> reach h0 (set ps) - traced a" "traced ?b = traced a"
    using count_inv_take [OF inv, of ?b x] b by simp_all
  have tr: "traced b = traced a" using take(3) by (simp add: traced_def)
  show ?thesis
    by (rule wp_conseq [OF trace_counting_one_ok [OF r take(1) pc [folded tr] e [folded tr]]])
      (use measure_less [OF count_invD(1) [OF inv] take(2)] e in \<open>fastforce simp: tr\<close>)
qed

text \<open>The measure of both loops starts below the number of reached boxes.\<close>

lemma measure_start: "finite S \<Longrightarrow> card S < fuel \<Longrightarrow> card (S - T) < fuel"
  using card_mono [of S "S - T"] by simp

lemma counting_loop_pc:
  assumes "refines h0 s a" "count_inv h0 (set ps) {} (\<lambda>_. 0) a" "ps = ys @ a_pc a" "traced a = set ys"
    "card (reach h0 (set ps)) < fuel" "calls_end h0 (traced a)"
  shows "wp (while_let fuel (on_pc pc_remove_first) trace_counting_one)
     (\<lambda>_ s'. \<exists>b. refines h0 s' b \<and> count_inv h0 (set ps) {} (\<lambda>_. 0) b \<and> calls_end h0 (traced b) \<and> a_pc b = [] \<and> set ps \<subseteq> traced b) (unwound h0 ps) s"
proof (rule wp_while_let [where g = a and I = "\<lambda>a s. refines h0 s a \<and> count_inv h0 (set ps) {} (\<lambda>_. 0) a \<and> calls_end h0 (traced a) \<and> (\<exists>ys. ps = ys @ a_pc a \<and> traced a = set ys)"
      and \<mu> = "\<lambda>a. card (reach h0 (set ps) - traced a)"])
  show "card (reach h0 (set ps) - traced a) < fuel"
    using traceableD(1) [OF count_invD(1) [OF assms(2)]] assms(5) by (rule measure_start)
next
  fix a s assume a: "refines h0 s a \<and> count_inv h0 (set ps) {} (\<lambda>_. 0) a \<and> calls_end h0 (traced a) \<and> (\<exists>ys. ps = ys @ a_pc a \<and> traced a = set ys)"
  then have r: "refines h0 s a" and inv: "count_inv h0 (set ps) {} (\<lambda>_. 0) a" and ce: "calls_end h0 (traced a)" by auto
  show "wp (on_pc pc_remove_first) (\<lambda>r t. case r of
      None \<Rightarrow> \<exists>b. refines h0 t b \<and> count_inv h0 (set ps) {} (\<lambda>_. 0) b \<and> calls_end h0 (traced b) \<and> a_pc b = [] \<and> set ps \<subseteq> traced b
    | Some x \<Rightarrow> wp (trace_counting_one x) (\<lambda>_ u. \<exists>b. (refines h0 u b \<and> count_inv h0 (set ps) {} (\<lambda>_. 0) b \<and> calls_end h0 (traced b)
        \<and> (\<exists>ys. ps = ys @ a_pc b \<and> traced b = set ys)) \<and> card (reach h0 (set ps) - traced b) < card (reach h0 (set ps) - traced a))
        (unwound h0 ps) t) (unwound h0 ps) s"
  proof (cases "a_pc a")
    case Nil
    with a have "set ps \<subseteq> traced a" by auto
    with Nil r inv ce show ?thesis by (auto simp: wp_Done [OF on_pc_take_nil])
  next
    case (Cons x xs)
    let ?b = "a\<lparr>a_pc := xs, a_mark := (a_mark a)(x := NonMarked)\<rparr>"
    from on_pc_take_cons [OF r Cons] obtain s1 where
      1: "on_pc pc_remove_first s = Done (Some x) s1" "refines h0 s1 ?b" by blast
    from a Cons obtain zs where zs: "ps = zs @ x # xs" "traced a = set zs" by auto
    then have pc: "turn ps x (traced a) (a_pc ?b)" by (auto simp: turn_def)
    have "wp (trace_counting_one x) (\<lambda>_ u. \<exists>c. refines h0 u c \<and> count_inv h0 (set ps) {} (\<lambda>_. 0) c \<and> calls_end h0 (traced c)
      \<and> a_pc c = a_pc ?b \<and> traced c = insert x (traced a) \<and> card (reach h0 (set ps) - traced c) < card (reach h0 (set ps) - traced a))
      (unwound h0 ps) s1"
      by (rule counting_round [OF inv 1(2) _ _ _ _ _ pc ce]) (simp_all add: Cons)
    then show ?thesis
      unfolding wp_Done [where m = "on_pc pc_remove_first", OF 1(1)] option.case
      proof (rule wp_conseq)
      fix r u assume "\<exists>c. refines h0 u c \<and> count_inv h0 (set ps) {} (\<lambda>_. 0) c \<and> calls_end h0 (traced c)
        \<and> a_pc c = a_pc ?b \<and> traced c = insert x (traced a) \<and> card (reach h0 (set ps) - traced c) < card (reach h0 (set ps) - traced a)"
      then obtain c where c: "refines h0 u c" "count_inv h0 (set ps) {} (\<lambda>_. 0) c" "calls_end h0 (traced c)"
        "a_pc c = xs" "traced c = insert x (traced a)" "card (reach h0 (set ps) - traced c) < card (reach h0 (set ps) - traced a)" by auto
      have "ps = (zs @ [x]) @ a_pc c" "traced c = set (zs @ [x])" using zs c(4,5) by auto
      with c(1-3,6) show "\<exists>b. (refines h0 u b \<and> count_inv h0 (set ps) {} (\<lambda>_. 0) b \<and> calls_end h0 (traced b)
        \<and> (\<exists>ys. ps = ys @ a_pc b \<and> traced b = set ys)) \<and> card (reach h0 (set ps) - traced b) < card (reach h0 (set ps) - traced a)" by blast
    qed
  qed
qed (use assms in blast)

lemma counting_loop_queue:
  assumes "refines h0 s a" "count_inv h0 (set ps) {} (\<lambda>_. 0) a" "a_pc a = []" "set ps \<subseteq> traced a"
    "card (reach h0 (set ps)) < fuel" "calls_end h0 (traced a)"
  shows "wp (while_let fuel (on_queue lq_poll) trace_counting_one)
     (\<lambda>_ s'. \<exists>b. refines h0 s' b \<and> count_inv h0 (set ps) {} (\<lambda>_. 0) b \<and> calls_end h0 (traced b) \<and> a_pc b = [] \<and> a_queue b = [])
     (unwound h0 ps) s"
proof (rule wp_while_let [where g = a and I = "\<lambda>a s. refines h0 s a \<and> count_inv h0 (set ps) {} (\<lambda>_. 0) a \<and> calls_end h0 (traced a) \<and> a_pc a = [] \<and> set ps \<subseteq> traced a"
      and \<mu> = "\<lambda>a. card (reach h0 (set ps) - traced a)"])
  show "card (reach h0 (set ps) - traced a) < fuel"
    using traceableD(1) [OF count_invD(1) [OF assms(2)]] assms(5) by (rule measure_start)
next
  fix a s assume a: "refines h0 s a \<and> count_inv h0 (set ps) {} (\<lambda>_. 0) a \<and> calls_end h0 (traced a) \<and> a_pc a = [] \<and> set ps \<subseteq> traced a"
  then have r: "refines h0 s a" and inv: "count_inv h0 (set ps) {} (\<lambda>_. 0) a" and nil: "a_pc a = []" and ce: "calls_end h0 (traced a)" and all: "set ps \<subseteq> traced a" by auto
  show "wp (on_queue lq_poll) (\<lambda>r t. case r of
      None \<Rightarrow> \<exists>b. refines h0 t b \<and> count_inv h0 (set ps) {} (\<lambda>_. 0) b \<and> calls_end h0 (traced b) \<and> a_pc b = [] \<and> a_queue b = []
    | Some x \<Rightarrow> wp (trace_counting_one x) (\<lambda>_ u. \<exists>b. (refines h0 u b \<and> count_inv h0 (set ps) {} (\<lambda>_. 0) b \<and> calls_end h0 (traced b)
        \<and> a_pc b = [] \<and> set ps \<subseteq> traced b) \<and> card (reach h0 (set ps) - traced b) < card (reach h0 (set ps) - traced a))
        (unwound h0 ps) t) (unwound h0 ps) s"
  proof (cases "a_queue a")
    case Nil
    with r inv nil ce show ?thesis by (auto simp: wp_Done [OF on_queue_take_nil])
  next
    case (Cons x xs)
    let ?b = "a\<lparr>a_queue := xs, a_mark := (a_mark a)(x := NonMarked)\<rparr>"
    from on_queue_take_cons [OF r Cons] obtain s1 where
      1: "on_queue lq_poll s = Done (Some x) s1" "refines h0 s1 ?b" by blast
    have pc: "turn ps x (traced a) (a_pc ?b)" using nil all by (simp add: turn_def)
    have "wp (trace_counting_one x) (\<lambda>_ u. \<exists>c. refines h0 u c \<and> count_inv h0 (set ps) {} (\<lambda>_. 0) c \<and> calls_end h0 (traced c)
      \<and> a_pc c = a_pc ?b \<and> traced c = insert x (traced a) \<and> card (reach h0 (set ps) - traced c) < card (reach h0 (set ps) - traced a))
      (unwound h0 ps) s1"
      by (rule counting_round [OF inv 1(2) _ _ _ _ _ pc ce]) (simp_all add: Cons)
    then show ?thesis
      unfolding wp_Done [where m = "on_queue lq_poll", OF 1(1)] option.case
      by (rule wp_conseq) (use nil all in fastforce, assumption)
  qed
qed (use assms in blast)

text \<open>The phase as a whole: every reached box is in a list and knows how often it was reported.\<close>

lemma trace_counting_ok:
  assumes "refines h0 s a" "count_inv h0 (set ps) {} (\<lambda>_. 0) a" "a_pc a = ps" "traced a = {}"
    "card (reach h0 (set ps)) < fuel"
  shows "wp (trace_counting fuel)
     (\<lambda>_ s'. \<exists>b. refines h0 s' b \<and> count_inv h0 (set ps) {} (\<lambda>_. 0) b \<and> calls_end h0 (traced b) \<and> a_pc b = [] \<and> a_queue b = [])
     (unwound h0 ps) s"
proof -
  have empty: "wp (thenM (bindM (getM t_pc) (\<lambda>l. debug_assert (pc_is_empty l)))
           (bindM (getM t_queue) (\<lambda>l. debug_assert (lq_is_empty l)))) Q E s"
    if "refines h0 s b" "a_pc b = []" "a_queue b = []" "Q () s" for s b Q E
  proof -
    from that have "pc_is_empty (t_pc s)" "lq_is_empty (t_queue s)"
      by (auto simp: refines_def pc_repr_def lq_repr_def pc_is_empty_def lq_is_empty_def lq_peek_def)
    with that(4) show ?thesis by (simp add: wp_Done)
  qed
  show ?thesis
    unfolding trace_counting_def wp_thenM [of "while_let fuel (on_pc pc_remove_first) trace_counting_one"]
      wp_thenM [of "while_let fuel (on_queue lq_poll) trace_counting_one"]
    by (rule wp_conseq [OF counting_loop_pc [OF assms(1,2) _ _ assms(5), of "[]"]])
      (use assms(3,4) in \<open>auto simp: calls_end_def intro!: wp_conseq [OF counting_loop_queue [OF _ _ _ _ assms(5)]] empty\<close>)
qed

lemma counting_complete:
  assumes inv: "count_inv h0 P {} (\<lambda>_. 0) a" and nil: "a_pc a = []" "a_queue a = []"
  shows "traced a = reach h0 P"
    "p \<in> reach h0 P \<Longrightarrow> a_tc a p = refs_from h0 (reach h0 P) p"
    "p \<in> reach h0 P \<Longrightarrow> a_mark a p = InList"
    "set (a_root a) = ext_roots h0 P"
proof -
  note d = count_invD [OF inv]
  have met: "met {} a = traced a" using nil by (simp add: met_def)
  have fin: "finite (traced a)" by (simp add: traced_def)
  have "y \<in> traced a" if "x \<in> traced a" "y \<in> set (targets h0 x)" for x y
  proof (rule ccontr)
    assume y: "y \<notin> traced a"
    have "x \<in> reach h0 P" using that(1) d(5) met by blast
    then have "y \<in> reach h0 P" using that(2) by (rule reach_step)
    from d(10) [OF this] y met have "refs_from h0 (traced a) y = 0" by (simp add: reported_def)
    with that fin show False by (simp add: refs_from_zero)
  qed
  then show S: "traced a = reach h0 P"
    using reach_eqI [of P "traced a" h0] d(4,5) met by simp
  show tc: "a_tc a p = refs_from h0 (reach h0 P) p" if "p \<in> reach h0 P" for p
    using that d(9) [of p] met S by (simp add: reported_def)
  show "p \<in> reach h0 P \<Longrightarrow> a_mark a p = InList" using d(8) [of p] S by simp
  show "set (a_root a) = ext_roots h0 P"
    using S tc d(12,13) by (fastforce simp: ext_roots_def traced_def)
qed

end
