(* ===== verification/Trace_Survive.thy ===== *)
theory Trace_Survive
  imports Trace_Count
begin

text \<open>
  The phase that traces the roots. \<open>taken\<close> are the boxes that were taken out of the lists: they
  survive. \<open>root_inv h0 P C a\<close> is the invariant, \<open>C\<close> the box being traced (or nothing): what a
  taken box other than it reports has left the non-root list, the boxes waiting in the root list
  and the queue can be reached from a box with an outside reference, and no counter has changed.
\<close>

definition taken :: "boxes \<Rightarrow> addr set \<Rightarrow> astate \<Rightarrow> addr set" where
  "taken h0 P a = reach h0 P - set (listed a)"

definition root_inv :: "boxes \<Rightarrow> addr set \<Rightarrow> addr set \<Rightarrow> astate \<Rightarrow> bool" where
  "root_inv h0 P C a \<longleftrightarrow>
     traceable h0 P \<and> distinct (listed a) \<and> a_pc a = [] \<and> set (listed a) \<subseteq> reach h0 P \<and>
     (\<forall>p \<in> reach h0 P. a_mark a p = (if p \<in> traced a then InList
        else if p \<in> set (a_queue a) then InQueue else NonMarked)) \<and>
     (\<forall>p \<in> reach h0 P. a_tc a p = refs_from h0 (reach h0 P) p) \<and>
     (\<forall>p \<in> set (a_root a). a_tc a p < rc_of h0 p) \<and> (\<forall>p \<in> set (a_nonroot a). a_tc a p = rc_of h0 p) \<and>
     (\<forall>p \<in> dom h0 - reach h0 P. a_mark a p = mark_of h0 p \<and> a_tc a p = tc_of h0 p) \<and>
     taken h0 P a \<union> set (a_root a) \<union> set (a_queue a) \<subseteq> reach h0 (ext_roots h0 P) \<and>
     (\<forall>x \<in> taken h0 P a - C. set (targets h0 x) \<inter> set (a_nonroot a) = {}) \<and> calls_end h0 (reach h0 P)"

lemma root_invD:
  assumes "root_inv h0 P C a"
  shows "traceable h0 P" "distinct (listed a)" "a_pc a = []" "set (listed a) \<subseteq> reach h0 P"
    "q \<in> reach h0 P \<Longrightarrow> a_mark a q = (if q \<in> traced a then InList
        else if q \<in> set (a_queue a) then InQueue else NonMarked)"
    "q \<in> reach h0 P \<Longrightarrow> a_tc a q = refs_from h0 (reach h0 P) q"
    "q \<in> set (a_root a) \<Longrightarrow> a_tc a q < rc_of h0 q" "q \<in> set (a_nonroot a) \<Longrightarrow> a_tc a q = rc_of h0 q"
    "taken h0 P a \<union> set (a_root a) \<union> set (a_queue a) \<subseteq> reach h0 (ext_roots h0 P)"
    "x \<in> taken h0 P a \<Longrightarrow> x \<notin> C \<Longrightarrow> set (targets h0 x) \<inter> set (a_nonroot a) = {}"
    "q \<in> dom h0 \<Longrightarrow> q \<notin> reach h0 P \<Longrightarrow> a_mark a q = mark_of h0 q \<and> a_tc a q = tc_of h0 q" "calls_end h0 (reach h0 P)"
  using assms unfolding root_inv_def by simp_all

lemma root_inv_start:
  assumes inv: "count_inv h0 P {} (\<lambda>_. 0) a" and nil: "a_pc a = []" "a_queue a = []" and ce: "calls_end h0 (traced a)"
  shows "root_inv h0 P {} a"
proof -
  note d = count_invD [OF inv] and c = counting_complete [OF assms(1-3)]
  have l: "set (listed a) = traced a" using nil by (auto simp: listed_def traced_def)
  have "set (a_root a) \<subseteq> reach h0 (ext_roots h0 P)" by (auto simp: c(4) intro: reach_start)
  then show ?thesis
    unfolding root_inv_def using d(1,2,12,13,14) c(2,3) nil ce by (auto simp: taken_def l c(1))
qed

subsection \<open>One report\<close>

lemma root_inv_step_ok:
  assumes inv: "root_inv h0 P C a" and p: "p \<in> reach h0 P"
  shows "root_ok h0 p a"
proof -
  note d = root_invD [OF inv]
  from d(6) [OF p] traceableD(3,4) [OF d(1) p] have tc: "a_tc a p < 16383" by simp
  have "p \<in> set (a_nonroot a)" if "a_mark a p = InList" "rc_of h0 p = a_tc a p"
    using that d(5) [OF p] d(7) [of p] by (auto simp: traced_def split: if_splits)
  with tc traceableD(2,3) [OF d(1) p] show ?thesis by (simp add: root_ok_def)
qed

lemma root_step_idle: "p \<notin> set (a_nonroot a) \<Longrightarrow> root_inv h0 P C a \<Longrightarrow> p \<in> reach h0 P \<Longrightarrow>
   root_step rc p a = a \<or> rc \<noteq> rc_of h0"
  using root_invD(5,7) [of h0 P C a p] by (auto simp: root_step_def traced_def split: if_splits)

lemma root_inv_step:
  assumes inv: "root_inv h0 P {c} a" and c: "c \<in> taken h0 P a" and p: "p \<in> set (targets h0 c)"
  shows "root_inv h0 P {c} (root_step (rc_of h0) p a)" "p \<notin> set (a_nonroot (root_step (rc_of h0) p a))"
    "set (listed (root_step (rc_of h0) p a)) = set (listed a)"
    "length (listed (root_step (rc_of h0) p a)) = length (listed a)"
    "set (a_nonroot (root_step (rc_of h0) p a)) \<subseteq> set (a_nonroot a)"
proof -
  note d = root_invD [OF inv]
  have S: "p \<in> reach h0 P" using c p by (auto simp: taken_def intro: reach_step)
  have R: "p \<in> reach h0 (ext_roots h0 P)" using c p d(9) by (auto intro: reach_step)
  have all: "root_inv h0 P {c} (root_step (rc_of h0) p a) \<and>
      p \<notin> set (a_nonroot (root_step (rc_of h0) p a)) \<and> set (listed (root_step (rc_of h0) p a)) = set (listed a) \<and>
      length (listed (root_step (rc_of h0) p a)) = length (listed a) \<and>
      set (a_nonroot (root_step (rc_of h0) p a)) \<subseteq> set (a_nonroot a)"
  proof (cases "p \<in> set (a_nonroot a)")
    case False
    from root_step_idle [OF this inv S, of "rc_of h0"] have "root_step (rc_of h0) p a = a" by simp
    with inv False show ?thesis by simp
  next
    case True
    let ?b = "a\<lparr>a_nonroot := remove1 p (a_nonroot a), a_queue := a_queue a @ [p], a_mark := (a_mark a)(p := InQueue)\<rparr>"
    have "a_mark a p = InList" using d(5) [OF S] True by (simp add: traced_def)
    with d(8) [OF True] have step: "root_step (rc_of h0) p a = ?b" by (simp add: root_step_def)
    have dist: "distinct (a_nonroot a)" "p \<notin> set (a_root a)" "p \<notin> set (a_queue a)"
      using d(2) True by (auto simp: listed_def)
    have l: "set (listed ?b) = set (listed a)" "length (listed ?b) = length (listed a)"
      using True dist length_pos_if_in_set [OF True] by (auto simp: listed_def length_remove1)
    have tk: "taken h0 P ?b = taken h0 P a" unfolding taken_def l ..
    have tr: "traced ?b = traced a - {p}" using dist by (auto simp: traced_def)
    have "root_inv h0 P {c} ?b"
      unfolding root_inv_def tk l
    proof (intro conjI ballI)
      show "a_mark ?b q = (if q \<in> traced ?b then InList else if q \<in> set (a_queue ?b) then InQueue else NonMarked)"
        if "q \<in> reach h0 P" for q
        using d(5) [OF that] unfolding tr by simp
      show "distinct (listed ?b)" using d(2) True by (auto simp: listed_def)
      show "set (targets h0 x) \<inter> set (a_nonroot ?b) = {}" if "x \<in> taken h0 P a - {c}" for x
        using that d(10) [of x] dist by auto
      show "a_mark ?b q = mark_of h0 q" "a_tc ?b q = tc_of h0 q" if "q \<in> dom h0 - reach h0 P" for q
        using that d(11) [of q] S by auto
    qed (use d R dist in auto)
    with step l dist show ?thesis by simp
  qed
  then show "root_inv h0 P {c} (root_step (rc_of h0) p a)" "p \<notin> set (a_nonroot (root_step (rc_of h0) p a))"
    "set (listed (root_step (rc_of h0) p a)) = set (listed a)"
    "length (listed (root_step (rc_of h0) p a)) = length (listed a)"
    "set (a_nonroot (root_step (rc_of h0) p a)) \<subseteq> set (a_nonroot a)" by blast+
qed

subsection \<open>Tracing one box\<close>

lemma run_calls_roots:
  "refines h0 s a \<Longrightarrow> root_inv h0 (set ps) {c} a \<Longrightarrow> c \<in> taken h0 (set ps) a \<Longrightarrow> calls_of h0 c = pre @ cs \<Longrightarrow>
   set (called pre) \<inter> set (a_nonroot a) = {} \<Longrightarrow>
   wp (run_calls RootTracing cs)
     (\<lambda>_ s'. \<exists>b. refines h0 s' b \<and> root_inv h0 (set ps) {} b \<and> length (listed b) = length (listed a)
        \<and> (a_root a = [] \<longrightarrow> a_root b = []))
     (unwound h0 ps) s"
proof (induction cs arbitrary: s a pre)
  case Nil
  then have "set (targets h0 c) \<inter> set (a_nonroot a) = {}" by (simp add: targets_def)
  with Nil.prems(2) have "root_inv h0 (set ps) {} a" by (auto simp: root_inv_def)
  with Nil.prems(1) show ?case by (auto simp: run_calls_def wp_def)
next
  case (Cons k cs)
  show ?case
  proof (cases k)
    case (CallPanic msg)
    have "c \<in> reach h0 (set ps)" using Cons.prems(3) by (simp add: taken_def)
    with root_invD(12) [OF Cons.prems(2)] have "\<not> panics (calls_of h0 c)" by (simp add: calls_end_def)
    with Cons.prems(4) CallPanic show ?thesis by (auto simp: panics_def)
  next
    case (CallCc p)
    from Cons.prems(4) CallCc have p: "p \<in> set (targets h0 c)" by (simp add: targets_def)
    with Cons.prems(3) have S: "p \<in> reach h0 (set ps)" by (auto simp: taken_def intro: reach_step)
    from cc_trace_roots [OF Cons.prems(1) root_inv_step_ok [OF Cons.prems(2) S]] obtain s1 where
      1: "cc_trace RootTracing p s = Done () s1" "refines h0 s1 (root_step (rc_of h0) p a)" by blast
    note st = root_inv_step [OF Cons.prems(2,3) p]
    have "c \<in> taken h0 (set ps) (root_step (rc_of h0) p a)"
      using Cons.prems(3) by (simp add: taken_def st(3))
    moreover have "set (called (pre @ [k])) \<inter> set (a_nonroot (root_step (rc_of h0) p a)) = {}"
      using Cons.prems(5) st(2,5) CallCc by auto
    moreover have "a_root (root_step (rc_of h0) p a) = a_root a" by (simp add: root_step_def)
    ultimately show ?thesis
      using Cons.IH [OF 1(2) st(1), of "pre @ [k]"] Cons.prems(4) st(4)
      by (simp add: run_calls_def wp_thenM CallCc wp_Done [where m = "cc_trace RootTracing p", OF 1(1)])
  qed
qed

text \<open>Taking a box out of the root list or the queue, and tracing it.\<close>

lemma roots_round:
  assumes inv: "root_inv h0 (set ps) {} a" and r: "refines h0 s b"
    and b: "a_nonroot b = a_nonroot a" "a_pc b = a_pc a" "a_tc b = a_tc a" "a_mark b = (a_mark a)(x := NonMarked)"
      "a_root a = x # a_root b \<and> a_queue b = a_queue a \<or> a_root b = a_root a \<and> a_queue a = x # a_queue b"
  shows "wp (trace_roots_one x) (\<lambda>_ u. \<exists>c. refines h0 u c \<and> root_inv h0 (set ps) {} c
     \<and> (a_root b = [] \<longrightarrow> a_root c = []) \<and> length (listed c) < length (listed a)) (unwound h0 ps) s"
proof -
  note d = root_invD [OF inv]
  have l: "set (listed a) = insert x (set (listed b))" "length (listed a) = Suc (length (listed b))"
    using b by (auto simp: listed_def)
  have new: "x \<notin> set (listed b)" "distinct (listed b)" using d(2) b by (auto simp: listed_def)
  have xS: "x \<in> reach h0 (set ps)" using d(4) l by auto
  have tk: "taken h0 (set ps) b = insert x (taken h0 (set ps) a)"
    using l new xS by (auto simp: taken_def)
  have xq: "x \<in> set (a_root a) \<union> set (a_queue a)" and qb: "set (a_queue b) \<subseteq> set (a_queue a)"
    "set (a_root b) \<subseteq> set (a_root a)" using b(5) by auto
  have "root_inv h0 (set ps) {x} b"
    unfolding root_inv_def
  proof (intro conjI ballI)
    show "a_mark b q = (if q \<in> traced b then InList else if q \<in> set (a_queue b) then InQueue else NonMarked)"
      if "q \<in> reach h0 (set ps)" for q
    proof (cases "q = x")
      case True
      with new show ?thesis by (simp add: b(4) listed_def traced_def)
    next
      case False
      then have "q \<in> traced b \<longleftrightarrow> q \<in> traced a" "q \<in> set (a_queue b) \<longleftrightarrow> q \<in> set (a_queue a)"
        using b(1,5) by (auto simp: traced_def)
      with False d(5) [OF that] show ?thesis by (simp add: b(4))
    qed
    show "set (targets h0 y) \<inter> set (a_nonroot b) = {}" if "y \<in> taken h0 (set ps) b - {x}" for y
      using that d(10) [of y] by (simp add: tk b)
    show "taken h0 (set ps) b \<union> set (a_root b) \<union> set (a_queue b) \<subseteq> reach h0 (ext_roots h0 (set ps))"
      using d(9) xq qb by (auto simp: tk)
    show "a_mark b q = mark_of h0 q" "a_tc b q = tc_of h0 q" if "q \<in> dom h0 - reach h0 (set ps)" for q
      using that d(11) [of q] xS by (auto simp: b(3,4))
  qed (use d new b l qb in auto)
  moreover have "x \<in> taken h0 (set ps) b" by (simp add: tk)
  ultimately have "wp (run_calls RootTracing (calls_of h0 x)) (\<lambda>_ u. \<exists>c. refines h0 u c \<and> root_inv h0 (set ps) {} c
     \<and> length (listed c) = length (listed b) \<and> (a_root b = [] \<longrightarrow> a_root c = [])) (unwound h0 ps) s"
    by (rule run_calls_roots [OF r, where pre = "[]"]) simp_all
  moreover have "wp (trace_roots_one x) Q E s = wp (run_calls RootTracing (calls_of h0 x)) Q E s" for Q E
    by (rule wp_cong) (simp add: trace_roots_one_def trace_inner_eval [OF r d(1) xS])
  ultimately show ?thesis by (auto simp: l elim!: wp_conseq)
qed

subsection \<open>The two loops\<close>

lemma roots_loop_root:
  assumes "refines h0 s a" "root_inv h0 (set ps) {} a" "length (listed a) < fuel"
  shows "wp (while_let fuel (on_root ll_remove_first) trace_roots_one)
     (\<lambda>_ s'. \<exists>b. refines h0 s' b \<and> root_inv h0 (set ps) {} b \<and> length (listed b) < fuel \<and> a_root b = [])
     (unwound h0 ps) s"
proof (rule wp_while_let [where g = a and \<mu> = "\<lambda>a. length (listed a)"
      and I = "\<lambda>a s. refines h0 s a \<and> root_inv h0 (set ps) {} a \<and> length (listed a) < fuel"])
  fix a s assume a: "refines h0 s a \<and> root_inv h0 (set ps) {} a \<and> length (listed a) < fuel"
  then have r: "refines h0 s a" and inv: "root_inv h0 (set ps) {} a" by auto
  show "wp (on_root ll_remove_first) (\<lambda>r t. case r of
      None \<Rightarrow> \<exists>b. refines h0 t b \<and> root_inv h0 (set ps) {} b \<and> length (listed b) < fuel \<and> a_root b = []
    | Some x \<Rightarrow> wp (trace_roots_one x) (\<lambda>_ u. \<exists>b. (refines h0 u b \<and> root_inv h0 (set ps) {} b
        \<and> length (listed b) < fuel) \<and> length (listed b) < length (listed a)) (unwound h0 ps) t) (unwound h0 ps) s"
  proof (cases "a_root a")
    case Nil
    with a show ?thesis by (auto simp: wp_Done [OF on_root_take_nil])
  next
    case (Cons x xs)
    let ?b = "a\<lparr>a_root := xs, a_mark := (a_mark a)(x := NonMarked)\<rparr>"
    from on_root_take_cons [OF r Cons] obtain s1 where
      1: "on_root ll_remove_first s = Done (Some x) s1" "refines h0 s1 ?b" by blast
    have "wp (trace_roots_one x) (\<lambda>_ u. \<exists>c. refines h0 u c \<and> root_inv h0 (set ps) {} c
      \<and> (a_root ?b = [] \<longrightarrow> a_root c = []) \<and> length (listed c) < length (listed a)) (unwound h0 ps) s1"
      by (rule roots_round [OF inv 1(2)]) (simp_all add: Cons)
    then show ?thesis
      unfolding wp_Done [where m = "on_root ll_remove_first", OF 1(1)] option.case
      by (rule wp_conseq) (use a in fastforce, assumption)
  qed
qed (use assms in blast)+

lemma roots_loop_queue:
  assumes "refines h0 s a" "root_inv h0 (set ps) {} a" "length (listed a) < fuel" "a_root a = []"
  shows "wp (while_let fuel (on_queue lq_poll) trace_roots_one)
     (\<lambda>_ s'. \<exists>b. refines h0 s' b \<and> root_inv h0 (set ps) {} b \<and> a_root b = [] \<and> a_queue b = [])
     (unwound h0 ps) s"
proof (rule wp_while_let [where g = a and \<mu> = "\<lambda>a. length (listed a)"
      and I = "\<lambda>a s. refines h0 s a \<and> root_inv h0 (set ps) {} a \<and> a_root a = []"])
  fix a s assume a: "refines h0 s a \<and> root_inv h0 (set ps) {} a \<and> a_root a = []"
  then have r: "refines h0 s a" and inv: "root_inv h0 (set ps) {} a" by auto
  show "wp (on_queue lq_poll) (\<lambda>r t. case r of
      None \<Rightarrow> \<exists>b. refines h0 t b \<and> root_inv h0 (set ps) {} b \<and> a_root b = [] \<and> a_queue b = []
    | Some x \<Rightarrow> wp (trace_roots_one x) (\<lambda>_ u. \<exists>b. (refines h0 u b \<and> root_inv h0 (set ps) {} b
        \<and> a_root b = []) \<and> length (listed b) < length (listed a)) (unwound h0 ps) t) (unwound h0 ps) s"
  proof (cases "a_queue a")
    case Nil
    with a show ?thesis by (auto simp: wp_Done [OF on_queue_take_nil])
  next
    case (Cons x xs)
    let ?b = "a\<lparr>a_queue := xs, a_mark := (a_mark a)(x := NonMarked)\<rparr>"
    from on_queue_take_cons [OF r Cons] obtain s1 where
      1: "on_queue lq_poll s = Done (Some x) s1" "refines h0 s1 ?b" by blast
    have "wp (trace_roots_one x) (\<lambda>_ u. \<exists>c. refines h0 u c \<and> root_inv h0 (set ps) {} c
      \<and> (a_root ?b = [] \<longrightarrow> a_root c = []) \<and> length (listed c) < length (listed a)) (unwound h0 ps) s1"
      by (rule roots_round [OF inv 1(2)]) (simp_all add: Cons)
    then show ?thesis
      unfolding wp_Done [where m = "on_queue lq_poll", OF 1(1)] option.case
      by (rule wp_conseq) (use a in auto)
  qed
qed (use assms in blast)+

lemma trace_roots_ok:
  assumes "refines h0 s a" "root_inv h0 (set ps) {} a" "length (listed a) < fuel"
  shows "wp (trace_roots fuel)
     (\<lambda>_ s'. \<exists>b. refines h0 s' b \<and> root_inv h0 (set ps) {} b \<and> a_root b = [] \<and> a_queue b = [])
     (unwound h0 ps) s"
proof -
  have empty: "wp (thenM (bindM (getM t_queue) (\<lambda>l. debug_assert (lq_is_empty l)))
           (bindM (getM t_root) (\<lambda>l. debug_assert (ll_is_empty l)))) Q E s"
    if "refines h0 s b" "a_root b = []" "a_queue b = []" "Q () s" for s b Q E
  proof -
    from that have "ll_is_empty (t_root s)" "lq_is_empty (t_queue s)"
      by (auto simp: refines_def ll_repr_def lq_repr_def ll_is_empty_def lq_is_empty_def lq_peek_def)
    with that(4) show ?thesis by (simp add: wp_Done)
  qed
  show ?thesis
    unfolding trace_roots_def wp_thenM [of "while_let fuel (on_root ll_remove_first) trace_roots_one"]
      wp_thenM [of "while_let fuel (on_queue lq_poll) trace_roots_one"]
    by (rule wp_conseq [OF roots_loop_root [OF assms]])
      (auto intro!: wp_conseq [OF roots_loop_queue] empty)
qed

text \<open>When nothing waits any more, what is left in the non-root list is the garbage.\<close>

lemma roots_complete:
  assumes inv: "root_inv h0 P {} a" and nil: "a_root a = []" "a_queue a = []"
  shows "set (a_nonroot a) = garbage h0 P"
proof -
  note d = root_invD [OF inv]
  have l: "set (listed a) = set (a_nonroot a)" using nil d(3) by (simp add: listed_def)
  have N: "set (a_nonroot a) \<subseteq> reach h0 P" using d(4) l by simp
  have "reach h0 (ext_roots h0 P) \<subseteq> taken h0 P a"
  proof (rule reach_closed)
    show "ext_roots h0 P \<subseteq> taken h0 P a"
      using d(6,8) by (fastforce simp: ext_roots_def taken_def l)
    show "y \<in> taken h0 P a" if "x \<in> taken h0 P a" "y \<in> set (targets h0 x)" for x y
      using that d(10) [OF that(1)] reach_step [of x h0 P y] by (auto simp: taken_def l)
  qed
  with d(9) have "taken h0 P a = reach h0 (ext_roots h0 P)" by auto
  then show ?thesis using N by (auto simp: garbage_def taken_def l)
qed

end
