(* ===== verification/Trace_Correct.thy ===== *)
theory Trace_Correct
  imports Trace_Survive
begin

text \<open>
  The tracing half of a collection, end to end: from a memory that is ready for a collection to
  the partition of the reached boxes into garbage and survivors, or to the clean state a panic of a
  user's \<open>trace\<close> leaves.
\<close>

text \<open>
  \<open>POSSIBLE_CYCLES\<close> holds the boxes \<open>ps\<close>, marked so and with their tracing counters reset; no
  other box is linked, the other boxes that can be reached are unmarked and not dropped, and each box
  has its metadata.
\<close>

definition ready :: "addr list \<Rightarrow> tstate \<Rightarrow> bool" where
  "ready ps s \<longleftrightarrow> (let h = t_heap s in
     vtables_ok (t_meta s) h \<and> pc_repr (t_pc s) h ps \<and> traceable h (set ps) \<and> (\<forall>p \<in> dom h - set ps. isolated h p) \<and>
     (\<forall>p \<in> set ps. mark_of h p = PossibleCycles \<and> tc_of h p = 0) \<and>
     (\<forall>p \<in> reach h (set ps) - set ps. mark_of h p = NonMarked \<and> tc_of h p < 16383))"

text \<open>
  The non-root list is the garbage, its members are marked and their counters agree. No box that was
  traced has a \<open>trace\<close> that panics.
\<close>

definition collected :: "boxes \<Rightarrow> addr list \<Rightarrow> tstate \<Rightarrow> bool" where
  "collected h ps s \<longleftrightarrow> (\<forall>x \<in> reach h (set ps). \<not> panics (calls_of h x)) \<and> (\<exists>ns. ll_repr (t_nonroot s) (t_heap s) ns \<and> set ns = garbage h (set ps) \<and>
     pc_repr (t_pc s) (t_heap s) [] \<and> ll_is_empty (t_root s) \<and> lq_is_empty (t_queue s) \<and>
     (\<forall>p. map_option static (t_heap s p) = map_option static (h p)) \<and>
     (\<forall>p \<in> dom h - set ns. isolated (t_heap s) p) \<and>
     (\<forall>p \<in> reach h (set ps). mark_of (t_heap s) p = (if p \<in> set ns then InList else NonMarked)
        \<and> tc_of (t_heap s) p = refs_from h (reach h (set ps)) p) \<and>
     (\<forall>p \<in> dom h - reach h (set ps). mark_of (t_heap s) p = mark_of h p \<and> tc_of (t_heap s) p = tc_of h p))"

text \<open>
  A panicking \<open>trace\<close>: only the boxes not yet taken are still buffered, with what was reported to them
  as tracing counters; all others are free.
\<close>

definition aborted :: "boxes \<Rightarrow> addr list \<Rightarrow> panic \<Rightarrow> tstate \<Rightarrow> bool" where
  "aborted h ps e s \<longleftrightarrow> (\<exists>msg x qs pre cs T. e = PanicMsg msg \<and> x \<in> reach h (set ps) \<and>
     calls_of h x = pre @ CallPanic msg # cs \<and> \<not> panics pre \<and> calls_end h T \<and> turn ps x T qs \<and>
     (\<forall>p \<in> set qs. tc_of (t_heap s) p = refs_from h T p + count_list (called pre) p) \<and> vtables_ok (t_meta s) h \<and> pc_repr (t_pc s) (t_heap s) qs \<and>
     ll_is_empty (t_root s) \<and> ll_is_empty (t_nonroot s) \<and> lq_is_empty (t_queue s) \<and>
     (\<forall>p. map_option static (t_heap s p) = map_option static (h p)) \<and>
     (\<forall>p \<in> dom h - set qs. isolated (t_heap s) p) \<and>
     (\<forall>p \<in> reach h (set ps). mark_of (t_heap s) p = (if p \<in> set qs then PossibleCycles else NonMarked)))"

lemma aborted_panics: "aborted h ps e s \<Longrightarrow> \<exists>x \<in> reach h (set ps). panics (calls_of h x)"
  unfolding aborted_def panics_def by (elim exE conjE, rule bexI) (simp_all, blast)

lemma refines_marks:
  assumes "refines h0 s a" "p \<in> dom h0"
  shows "mark_of (t_heap s) p = a_mark a p" "tc_of (t_heap s) p = a_tc a p"
  using assms by (auto elim!: refines_live simp: mark_of_def tc_of_def)

lemma refines_empty:
  assumes "refines h0 s a"
  shows "a_root a = [] \<Longrightarrow> ll_is_empty (t_root s)" "a_nonroot a = [] \<Longrightarrow> ll_is_empty (t_nonroot s)"
    "a_queue a = [] \<Longrightarrow> lq_is_empty (t_queue s)"
  using assms by (auto simp: refines_def ll_repr_def lq_repr_def ll_is_empty_def lq_is_empty_def lq_peek_def)

subsection \<open>The start\<close>

lemma ready_start:
  assumes "ready ps s"
  defines "a \<equiv> \<lparr>a_pc = ps, a_root = [], a_nonroot = [], a_queue = [], a_mark = mark_of (t_heap s), a_tc = tc_of (t_heap s)\<rparr>"
  shows "refines (t_heap s) (s\<lparr>t_nonroot := ll_new, t_root := ll_new, t_queue := lq_new\<rparr>) a"
    "count_inv (t_heap s) (set ps) {} (\<lambda>_. 0) a" "a_pc a = ps"
proof -
  let ?h = "t_heap s"
  from assms(1) have vt: "vtables_ok (t_meta s) ?h" and pc: "pc_repr (t_pc s) ?h ps" and t: "traceable ?h (set ps)"
    and iso: "\<forall>p \<in> dom ?h - set ps. isolated ?h p"
    and ps: "\<forall>p \<in> set ps. mark_of ?h p = PossibleCycles \<and> tc_of ?h p = 0"
    and other: "\<forall>p \<in> reach ?h (set ps) - set ps. mark_of ?h p = NonMarked \<and> tc_of ?h p < 16383"
    by (simp_all add: ready_def Let_def)
  have dist: "distinct ps" using pc by (rule pc.repr_distinct)
  show "refines ?h (s\<lparr>t_nonroot := ll_new, t_root := ll_new, t_queue := lq_new\<rparr>) a"
    using vt pc iso dist by (auto simp: refines_def a_def listed_def mark_of_def tc_of_def
        ll_repr_def lq_repr_def ll_new_def lq_new_def)
  have met: "met {} a = set ps" "traced a = {}" by (simp_all add: met_def traced_def a_def)
  have rep: "reported ?h (\<lambda>_. 0) a p = 0" for p by (simp add: reported_def met)
  show "count_inv ?h (set ps) {} (\<lambda>_. 0) a"
    unfolding count_inv_def met rep
    using t ps other dist by (auto simp: listed_def a_def intro: reach_start)
  show "a_pc a = ps" by (simp add: a_def)
qed

lemma ready_untraced: "traced \<lparr>a_pc = ps, a_root = [], a_nonroot = [], a_queue = [], a_mark = m, a_tc = t\<rparr> = {}"
  by (simp add: traced_def)

subsection \<open>Unwinding\<close>

lemma on_queue_drop:
  assumes r: "refines h0 s a" and n: "length (a_queue a) < fuel"
  shows "\<exists>s'. on_queue (lq_drop fuel) s = Done () s' \<and> refines h0 s'
    (a\<lparr>a_queue := [], a_mark := (\<lambda>p. if p \<in> set (a_queue a) then NonMarked else a_mark a p)\<rparr>)"
proof -
  note d = disjoint_listed [OF r] and rd = refinesD [OF r]
  from lq.drop_all [OF rd(4) n] obtain l' h' where
    1: "lq_drop fuel (t_queue s, t_heap s) = Done () (l', h')" "lq_repr l' h' []"
    "\<forall>x\<in>set (a_queue a). isolated h' x" "frame (set (a_queue a)) (set_marks (set (a_queue a)) NonMarked (t_heap s)) h'"
    unfolding lq_drop_def by blast
  let ?s = "s\<lparr>t_heap := h', t_pc := t_pc s, t_root := t_root s, t_nonroot := t_nonroot s, t_queue := l'\<rparr>"
  have "refines h0 ?s (a\<lparr>a_pc := a_pc a, a_root := a_root a, a_nonroot := a_nonroot a, a_queue := [],
      a_mark := (\<lambda>p. if p \<in> set (a_queue a) then NonMarked else a_mark a p)\<rparr>)"
  proof (rule refines_step [OF r 1(4) _ _ _ 1(2)])
    show "pc_repr (t_pc s) h' (a_pc a)" "ll_repr (t_root s) h' (a_root a)" "ll_repr (t_nonroot s) h' (a_nonroot a)"
      using d untouched [OF r 1(4)] by (auto simp: Int_commute)
    show "isolated h' p" if "p \<in> dom h0" "p \<notin> set (a_pc a @ a_root a @ a_nonroot a @ [])" for p
      using that 1(3) isolated_frame [OF 1(4), of p] rd(5) [of p] by (auto simp: listed_def)
  qed (use d in auto)
  moreover have "on_queue (lq_drop fuel) s = Done () ?s" using 1(1) by (simp add: on_queue_def zoom_def)
  ultimately show ?thesis by auto
qed

lemma on_root_drop:
  assumes r: "refines h0 s a" and n: "length (a_root a) < fuel"
  shows "\<exists>s'. on_root (ll_drop fuel) s = Done () s' \<and> refines h0 s'
    (a\<lparr>a_root := [], a_mark := (\<lambda>p. if p \<in> set (a_root a) then NonMarked else a_mark a p)\<rparr>)"
proof -
  note d = disjoint_listed [OF r] and rd = refinesD [OF r]
  from ll.drop_all [OF rd(2) n] obtain l' h' where
    1: "ll_drop fuel (t_root s, t_heap s) = Done () (l', h')" "ll_repr l' h' []"
    "\<forall>x\<in>set (a_root a). isolated h' x" "frame (set (a_root a)) (set_marks (set (a_root a)) NonMarked (t_heap s)) h'"
    unfolding ll_drop_def by blast
  let ?s = "s\<lparr>t_heap := h', t_pc := t_pc s, t_root := l', t_nonroot := t_nonroot s, t_queue := t_queue s\<rparr>"
  have "refines h0 ?s (a\<lparr>a_pc := a_pc a, a_root := [], a_nonroot := a_nonroot a, a_queue := a_queue a,
      a_mark := (\<lambda>p. if p \<in> set (a_root a) then NonMarked else a_mark a p)\<rparr>)"
  proof (rule refines_step [OF r 1(4) _ 1(2)])
    show "pc_repr (t_pc s) h' (a_pc a)" "ll_repr (t_nonroot s) h' (a_nonroot a)" "lq_repr (t_queue s) h' (a_queue a)"
      using d untouched [OF r 1(4)] by (auto simp: Int_commute)
    show "isolated h' p" if "p \<in> dom h0" "p \<notin> set (a_pc a @ [] @ a_nonroot a @ a_queue a)" for p
      using that 1(3) isolated_frame [OF 1(4), of p] rd(5) [of p] by (auto simp: listed_def)
  qed (use d in auto)
  moreover have "on_root (ll_drop fuel) s = Done () ?s" using 1(1) by (simp add: on_root_def zoom_def)
  ultimately show ?thesis by auto
qed

lemma on_nonroot_drop:
  assumes r: "refines h0 s a" and n: "length (a_nonroot a) < fuel"
  shows "\<exists>s'. on_nonroot (ll_drop fuel) s = Done () s' \<and> refines h0 s'
    (a\<lparr>a_nonroot := [], a_mark := (\<lambda>p. if p \<in> set (a_nonroot a) then NonMarked else a_mark a p)\<rparr>)"
proof -
  note d = disjoint_listed [OF r] and rd = refinesD [OF r]
  from ll.drop_all [OF rd(3) n] obtain l' h' where
    1: "ll_drop fuel (t_nonroot s, t_heap s) = Done () (l', h')" "ll_repr l' h' []"
    "\<forall>x\<in>set (a_nonroot a). isolated h' x" "frame (set (a_nonroot a)) (set_marks (set (a_nonroot a)) NonMarked (t_heap s)) h'"
    unfolding ll_drop_def by blast
  let ?s = "s\<lparr>t_heap := h', t_pc := t_pc s, t_root := t_root s, t_nonroot := l', t_queue := t_queue s\<rparr>"
  have "refines h0 ?s (a\<lparr>a_pc := a_pc a, a_root := a_root a, a_nonroot := [], a_queue := a_queue a,
      a_mark := (\<lambda>p. if p \<in> set (a_nonroot a) then NonMarked else a_mark a p)\<rparr>)"
  proof (rule refines_step [OF r 1(4) _ _ 1(2)])
    show "pc_repr (t_pc s) h' (a_pc a)" "ll_repr (t_root s) h' (a_root a)" "lq_repr (t_queue s) h' (a_queue a)"
      using d untouched [OF r 1(4)] by (auto simp: Int_commute)
    show "isolated h' p" if "p \<in> dom h0" "p \<notin> set (a_pc a @ a_root a @ [] @ a_queue a)" for p
      using that 1(3) isolated_frame [OF 1(4), of p] rd(5) [of p] by (auto simp: listed_def)
  qed (use d in auto)
  moreover have "on_nonroot (ll_drop fuel) s = Done () ?s" using 1(1) by (simp add: on_nonroot_def zoom_def)
  ultimately show ?thesis by auto
qed

lemma drop_trace_lists_ok:
  assumes t: "traceable h0 (set ps)" and u: "unwound h0 ps e s" and n: "card (reach h0 (set ps)) < fuel"
  shows "wp (drop_trace_lists fuel) (\<lambda>_. aborted h0 ps e) E s"
proof -
  from u obtain msg x a pre cs T where e: "e = PanicMsg msg" "x \<in> reach h0 (set ps)" "calls_of h0 x = pre @ CallPanic msg # cs"
      "\<not> panics pre" "calls_end h0 T" and ps: "turn ps x T (a_pc a)"
    and r: "refines h0 s a" and sub: "set (listed a) \<subseteq> reach h0 (set ps)"
    and pc: "\<forall>p \<in> set (a_pc a). a_mark a p = PossibleCycles"
    and tc: "\<forall>p \<in> set (a_pc a). a_tc a p = refs_from h0 T p + count_list (called pre) p"
    and free: "\<forall>p \<in> reach h0 (set ps) - set (listed a). a_mark a p = NonMarked"
    by (auto simp: unwound_def)
  note d = disjoint_listed [OF r]
  have "length (listed a) = card (set (listed a))"
    using r by (intro distinct_card [symmetric]) (simp add: refines_def)
  also have "\<dots> \<le> card (reach h0 (set ps))" using traceableD(1) [OF t] sub by (rule card_mono)
  finally have len: "length (a_queue a) < fuel" "length (a_root a) < fuel" "length (a_nonroot a) < fuel"
    using n by (auto simp: listed_def)
  let ?a1 = "a\<lparr>a_queue := [], a_mark := (\<lambda>p. if p \<in> set (a_queue a) then NonMarked else a_mark a p)\<rparr>"
  let ?a2 = "?a1\<lparr>a_root := [], a_mark := (\<lambda>p. if p \<in> set (a_root a) then NonMarked else a_mark ?a1 p)\<rparr>"
  let ?a3 = "?a2\<lparr>a_nonroot := [], a_mark := (\<lambda>p. if p \<in> set (a_nonroot a) then NonMarked else a_mark ?a2 p)\<rparr>"
  from on_queue_drop [OF r len(1)] obtain s1 where 1: "on_queue (lq_drop fuel) s = Done () s1" "refines h0 s1 ?a1" by blast
  from on_root_drop [OF 1(2)] len(2) obtain s2 where 2: "on_root (ll_drop fuel) s1 = Done () s2" "refines h0 s2 ?a2" by auto
  from on_nonroot_drop [OF 2(2)] len(3) obtain s3 where 3: "on_nonroot (ll_drop fuel) s2 = Done () s3" "refines h0 s3 ?a3" by auto
  have l: "listed ?a3 = a_pc a" by (simp add: listed_def)
  have "mark_of (t_heap s3) p = (if p \<in> set (a_pc a) then PossibleCycles else NonMarked)"
    if "p \<in> reach h0 (set ps)" for p
  proof -
    have "mark_of (t_heap s3) p = a_mark ?a3 p" using refines_marks(1) [OF 3(2)] traceableD(2) [OF t that] by simp
    also have "\<dots> = (if p \<in> set (a_pc a) then PossibleCycles else NonMarked)"
      using pc free that d by (auto simp: listed_def)
    finally show ?thesis .
  qed
  moreover have "tc_of (t_heap s3) p = refs_from h0 T p + count_list (called pre) p" if "p \<in> set (a_pc a)" for p
  proof -
    have "p \<in> dom h0" using refines_listed_live [OF r] that by (simp add: listed_def)
    from refines_marks(2) [OF 3(2) this] tc that show ?thesis by simp
  qed
  moreover have "pc_repr (t_pc s3) (t_heap s3) (a_pc a)" using refinesD(1) [OF 3(2)] by simp
  moreover have "\<forall>p. map_option static (t_heap s3 p) = map_option static (h0 p)" "vtables_ok (t_meta s3) h0"
    using 3(2) by (simp_all add: refines_def)
  moreover have "\<forall>p \<in> dom h0 - set (a_pc a). isolated (t_heap s3) p" using refinesD(5) [OF 3(2)] l by auto
  ultimately have "aborted h0 ps e s3"
    unfolding aborted_def using e ps refines_empty [OF 3(2)]
    by (intro exI [of _ msg] exI [of _ x] exI [of _ "a_pc a"] exI [of _ pre] exI [of _ cs] exI [of _ T]) simp
  then show ?thesis
    using 1(1) 2(1) 3(1) by (simp add: drop_trace_lists_def wp_Done)
qed

subsection \<open>The whole\<close>

lemma collect_trace_ok:
  assumes ready: "ready ps s" and n: "card (reach (t_heap s) (set ps)) < fuel"
  shows "wp (collect_trace fuel) (\<lambda>_. collected (t_heap s) ps) (aborted (t_heap s) ps) s"
proof -
  let ?h = "t_heap s" and ?s = "s\<lparr>t_nonroot := ll_new, t_root := ll_new, t_queue := lq_new\<rparr>"
  note st = ready_start [OF ready]
  note t = count_invD(1) [OF st(2)]
  note nothing_traced = ready_untraced [of ps]
  have fin: "collected ?h ps s'" if r: "refines ?h s' b" and inv: "root_inv ?h (set ps) {} b"
    and nil: "a_root b = []" "a_queue b = []" and np: "\<forall>x \<in> reach ?h (set ps). \<not> panics (calls_of ?h x)" for s' b
  proof -
    note d = root_invD [OF inv] and c = roots_complete [OF inv nil]
    have l: "set (listed b) = set (a_nonroot b)" "traced b = set (a_nonroot b)"
      using nil d(3) by (simp_all add: listed_def traced_def)
    have "mark_of (t_heap s') p = (if p \<in> set (a_nonroot b) then InList else NonMarked)
        \<and> tc_of (t_heap s') p = refs_from ?h (reach ?h (set ps)) p" if "p \<in> reach ?h (set ps)" for p
      using refines_marks [OF r traceableD(2) [OF t that]] d(5,6) [OF that] nil l by simp
    moreover have "mark_of (t_heap s') p = mark_of ?h p \<and> tc_of (t_heap s') p = tc_of ?h p"
      if "p \<in> dom ?h - reach ?h (set ps)" for p
      using refines_marks [OF r, of p] d(11) [of p] that by simp
    ultimately show ?thesis
      unfolding collected_def using refinesD [OF r] refines_empty [OF r] nil d(3) c r l
      by (intro conjI [OF np] exI [of _ "a_nonroot b"]) (auto simp: refines_def)
  qed
  have roots: "wp (trace_roots fuel) (\<lambda>_. collected ?h ps) (unwound ?h ps) s'"
    if r: "refines ?h s' b" and inv: "count_inv ?h (set ps) {} (\<lambda>_. 0) b" and nil: "a_pc b = []" "a_queue b = []"
      and ce: "calls_end ?h (traced b)" for s' b
  proof -
    have "length (listed b) = card (set (listed b))"
      using r by (intro distinct_card [symmetric]) (simp add: refines_def)
    also have "\<dots> = card (reach ?h (set ps))"
      using counting_complete(1) [OF inv nil] nil by (simp add: listed_def traced_def)
    finally have "length (listed b) < fuel" using n by simp
    moreover have "\<forall>x \<in> reach ?h (set ps). \<not> panics (calls_of ?h x)"
      using ce counting_complete(1) [OF inv nil] by (simp add: calls_end_def)
    ultimately show ?thesis
      by (intro wp_conseq [OF trace_roots_ok [OF r root_inv_start [OF inv nil ce]]]) (auto intro: fin)
  qed
  have "wp (trace_counting fuel) (\<lambda>_. wp (trace_roots fuel) (\<lambda>_. collected ?h ps) (unwound ?h ps)) (unwound ?h ps) ?s"
    by (rule wp_conseq [OF trace_counting_ok [OF st nothing_traced n]]) (use roots in auto)
  then have "wp (thenM (trace_counting fuel) (trace_roots fuel)) (\<lambda>_. collected ?h ps)
      (\<lambda>e. wp (drop_trace_lists fuel) (\<lambda>_. aborted ?h ps e) (aborted ?h ps)) ?s"
    unfolding wp_thenM [symmetric] by (rule wp_conseq) (auto intro: drop_trace_lists_ok [OF t _ n])
  then show ?thesis
    by (simp add: collect_trace_def wp_thenM [of "modifyM _"] wp_Done wp_on_unwind)
qed

text \<open>
  After the counting phase the root list holds exactly the boxes with a reference from outside
  the part of the memory that was traced, the non-root list all other reached boxes, and each
  tracing counter is the number of references reported to its box.
\<close>

lemma trace_counting_partition:
  assumes "ready ps s" "card (reach (t_heap s) (set ps)) < fuel"
    and "\<forall>x \<in> reach (t_heap s) (set ps). \<not> panics (calls_of (t_heap s) x)"
  shows "\<exists>s' rs ns. trace_counting fuel (s\<lparr>t_nonroot := ll_new, t_root := ll_new, t_queue := lq_new\<rparr>) = Done () s' \<and>
    ll_repr (t_root s') (t_heap s') rs \<and> set rs = ext_roots (t_heap s) (set ps) \<and>
    ll_repr (t_nonroot s') (t_heap s') ns \<and> set ns = reach (t_heap s) (set ps) - ext_roots (t_heap s) (set ps) \<and>
    (\<forall>p \<in> reach (t_heap s) (set ps). tc_of (t_heap s') p = refs_from (t_heap s) (reach (t_heap s) (set ps)) p)"
proof -
  let ?h = "t_heap s" and ?s = "s\<lparr>t_nonroot := ll_new, t_root := ll_new, t_queue := lq_new\<rparr>"
  note st = ready_start [OF assms(1)]
  from trace_counting_ok [OF st ready_untraced assms(2)] assms(3) obtain s' b where
    1: "trace_counting fuel ?s = Done () s'" and r: "refines ?h s' b"
    and inv: "count_inv ?h (set ps) {} (\<lambda>_. 0) b" and nil: "a_pc b = []" "a_queue b = []"
    by (cases "trace_counting fuel ?s") (auto simp: wp_def dest: unwound_panics)
  note c = counting_complete [OF inv nil]
  have "set (a_nonroot b) = reach ?h (set ps) - ext_roots ?h (set ps)"
    using c(1,4) disjoint_listed(8) [OF r] by (auto simp: traced_def)
  moreover have "tc_of (t_heap s') p = refs_from ?h (reach ?h (set ps)) p" if "p \<in> reach ?h (set ps)" for p
    using refines_marks(2) [OF r traceableD(2) [OF count_invD(1) [OF inv] that]] c(2) [OF that] by simp
  ultimately show ?thesis
    using 1 refinesD(2,3) [OF r] c(4) by blast
qed

end
