(* ===== verification/Trace_Panic.thy ===== *)
theory Trace_Panic
  imports Trace_Correct
begin

text \<open>
  What a panic leaves in \<open>POSSIBLE_CYCLES\<close>. The comment in \<open>trace_counting\<close> says that the tracing
  counter of a box taken from there has been reset by \<open>add_to_list\<close>. A collection that a panic cut
  short has already counted references to boxes that are still buffered: they keep these counts,
  and the next collection starts from them. \<open>stale_counter\<close> shows the first half,
  \<open>stale_box_condemned\<close> what the next collection makes of such a counter.
\<close>

lemma first_split:
  "xs @ a # ys = us @ b # vs \<Longrightarrow> \<forall>z \<in> set xs. \<not> P z \<Longrightarrow> \<forall>z \<in> set us. \<not> P z \<Longrightarrow> P a \<Longrightarrow> P b \<Longrightarrow> xs = us \<and> a = b \<and> ys = vs"
proof (induction xs arbitrary: us)
  case Nil
  then show ?case by (cases us) auto
next
  case (Cons x xs)
  then show ?case by (cases us) auto
qed

lemma first_panic:
  assumes "pre @ CallPanic msg # cs = pre' @ CallPanic msg' # cs'" "\<not> panics pre" "\<not> panics pre'"
  shows "pre' = pre" "msg' = msg"
  using first_split [OF assms(1), of "\<lambda>c. \<exists>e. c = CallPanic e"] assms(2,3) by (auto simp: panics_def)

text \<open>
  The first of the buffered boxes whose \<open>trace\<close> panics is \<open>x\<close>, and it does after the calls \<open>pre\<close>. The boxes
  behind it stay buffered, with the references as tracing counters that the boxes before \<open>x\<close> and \<open>pre\<close> report.
\<close>

lemma stale_counter:
  assumes ready: "ready (zs @ x # qs) s" and n: "card (reach (t_heap s) (set (zs @ x # qs))) < fuel"
    and zs: "\<forall>z \<in> set zs. \<not> panics (calls_of (t_heap s) z)"
    and x: "calls_of (t_heap s) x = pre @ CallPanic msg # cs" "\<not> panics pre"
  shows "\<exists>s'. collect_trace fuel s = Panicked (PanicMsg msg) s' \<and> pc_repr (t_pc s') (t_heap s') qs \<and>
    (\<forall>y \<in> set qs. mark_of (t_heap s') y = PossibleCycles \<and>
       tc_of (t_heap s') y = refs_from (t_heap s) (set zs) y + count_list (called pre) y) \<and>
    vtables_ok (t_meta s') (t_heap s) \<and> (\<forall>p. map_option static (t_heap s' p) = map_option static (t_heap s p)) \<and>
    (\<forall>p \<in> dom (t_heap s) - set qs. isolated (t_heap s') p)"
proof -
  let ?h = "t_heap s" and ?ps = "zs @ x # qs"
  have xr: "x \<in> reach ?h (set ?ps)" by (rule reach_start) simp
  have xp: "panics (calls_of ?h x)" using x(1) by (auto simp: panics_def)
  note t = collect_trace_ok [OF ready n]
  show ?thesis
  proof (cases "collect_trace fuel s")
    case (Done u s')
    with t have "collected ?h ?ps s'" by (simp add: wp_def)
    with xr xp show ?thesis unfolding collected_def by blast
  next
    case (Panicked e s')
    with t have "aborted ?h ?ps e s'" by (simp add: wp_def)
    then obtain msg' x' qs' pre' cs' T where a: "e = PanicMsg msg'" "calls_of ?h x' = pre' @ CallPanic msg' # cs'" "\<not> panics pre'"
      "calls_end ?h T" "turn ?ps x' T qs'" "\<forall>p \<in> set qs'. tc_of (t_heap s') p = refs_from ?h T p + count_list (called pre') p"
      "vtables_ok (t_meta s') ?h" "pc_repr (t_pc s') (t_heap s') qs'"
      "\<forall>p. map_option static (t_heap s' p) = map_option static (?h p)" "\<forall>p \<in> dom ?h - set qs'. isolated (t_heap s') p"
      "\<forall>p \<in> reach ?h (set ?ps). mark_of (t_heap s') p = (if p \<in> set qs' then PossibleCycles else NonMarked)"
      unfolding aborted_def by blast
    have "\<not> set ?ps \<subseteq> T" using a(4) xp by (auto simp: calls_end_def)
    with a(5) obtain zs' where z: "?ps = zs' @ x' # qs'" "T = set zs'" by (auto simp: turn_def)
    have "panics (calls_of ?h x')" using a(2) by (auto simp: panics_def)
    with first_split [OF z(1), of "\<lambda>z. panics (calls_of ?h z)"] zs xp a(4) z(2)
    have eq: "zs' = zs" "x' = x" "qs' = qs" by (auto simp: calls_end_def)
    have "pre' = pre" "msg' = msg" using first_panic [of pre msg cs pre' msg' cs'] x a(2,3) eq(2) by simp_all
    moreover have "mark_of (t_heap s') y = PossibleCycles" if "y \<in> set qs" for y
    proof -
      have "y \<in> reach ?h (set ?ps)" by (rule reach_start) (use that in simp)
      with a(11) that eq(3) show ?thesis by simp
    qed
    ultimately show ?thesis using a(1,6-10) z(2) eq Panicked by simp
  qed (use t in \<open>simp_all add: wp_def\<close>)
qed

text \<open>
  A buffered box that reports nothing, whose references all come from outside, and whose stale
  counter happens to equal its reference counter: the collection puts it into the non-root list,
  as if it were garbage.
\<close>

lemma stale_box_condemned:
  assumes pc: "pc_repr (t_pc s) (t_heap s) [y]" and iso: "\<forall>p \<in> dom (t_heap s) - {y}. isolated (t_heap s) p"
    and vt: "vtables_ok (t_meta s) (t_heap s)" and mk: "mark_of (t_heap s) y = PossibleCycles"
    and el: "\<exists>b v. t_heap s y = Some b \<and> b_elem b = Some v" and calls: "calls_of (t_heap s) y = []"
    and rc: "0 < rc_of (t_heap s) y" "rc_of (t_heap s) y < 16383"
    and stale: "tc_of (t_heap s) y = rc_of (t_heap s) y"
  shows "\<exists>s'. collect_trace (Suc (Suc n)) s = Done () s' \<and> ll_repr (t_nonroot s') (t_heap s') [y]"
    and "y \<notin> garbage (t_heap s) {y}"
proof -
  let ?h = "t_heap s"
  let ?s = "s\<lparr>t_nonroot := ll_new, t_root := ll_new, t_queue := lq_new\<rparr>"
  let ?a = "\<lparr>a_pc = [y], a_root = [], a_nonroot = [], a_queue = [], a_mark = mark_of ?h, a_tc = tc_of ?h\<rparr>"
  have tg: "targets ?h y = []" by (simp add: targets_def calls)
  have S: "reach ?h {y} = {y}" by (rule reach_eqI) (auto simp: tg intro: reach_start)
  have t: "traceable ?h {y}" using el rc by (auto simp: traceable_def S refs_from_def tg)
  have yS: "y \<in> reach ?h {y}" by (simp add: S)
  note live = traceableD(2) [OF t yS]
  have "y \<in> ext_roots ?h {y}" using rc by (simp add: ext_roots_def S refs_from_def tg)
  then show "y \<notin> garbage ?h {y}" by (auto simp: garbage_def intro: reach_start)
  have r: "refines ?h ?s ?a"
    using pc iso vt by (auto simp: refines_def listed_def mark_of_def tc_of_def ll_repr_def lq_repr_def ll_new_def lq_new_def)
  let ?a1 = "?a\<lparr>a_pc := [], a_mark := (a_mark ?a)(y := NonMarked)\<rparr>"
  from on_pc_take_cons [OF r] obtain s1 where
    1: "on_pc pc_remove_first ?s = Done (Some y) s1" "refines ?h s1 ?a1" by auto
  let ?a2 = "?a1\<lparr>a_mark := (a_mark ?a1)(y := InQueue)\<rparr>"
  from on_heap_mark [OF 1(2) live, of InQueue] obtain s2 where
    2: "on_heap (cm_mark y InQueue) s1 = Done () s2" "refines ?h s2 ?a2" by blast
  have inner: "trace_inner Counting y s2 = Done () s2"
    by (simp add: trace_inner_eval [OF 2(2) t yS] calls run_calls_def)
  have reads: "on_heap (on_cm y counter) s2 = Done (word_of_nat (rc_of ?h y)) s2"
    "on_heap (on_cm y tracing_counter) s2 = Done (word_of_nat (rc_of ?h y)) s2"
    using on_heap_counter [OF 2(2) live rc(2)] on_heap_tracing_counter [OF 2(2) live] stale rc(2) by simp_all
  from on_nonroot_add [OF 2(2) live] obtain s3 where
    3: "on_nonroot (ll_add y) s2 = Done () s3" "refines ?h s3 (?a2\<lparr>a_nonroot := [y]\<rparr>)" by (auto simp: listed_def)
  from on_heap_mark [OF 3(2) live, of InList] obtain s4 where
    4: "on_heap (cm_mark y InList) s3 = Done () s4" "refines ?h s4 (?a2\<lparr>a_nonroot := [y], a_mark := (a_mark ?a2)(y := InList)\<rparr>)"
    by auto
  have one: "trace_counting_one y s1 = Done () s4"
    using 2(1) 3(1) 4(1) inner reads by (simp add: trace_counting_one_def)
  note nil = on_pc_take_nil [OF 4(2)] on_queue_take_nil [OF 4(2)] on_root_take_nil [OF 4(2)]
  have empty: "pc_is_empty (t_pc s4)" "lq_is_empty (t_queue s4)" "ll_is_empty (t_root s4)"
    using refinesD(1) [OF 4(2)] refines_empty [OF 4(2)] by (auto simp: pc_repr_def pc_is_empty_def)
  have "trace_counting (Suc (Suc n)) ?s = Done () s4"
    using 1(1) one nil empty by (simp add: trace_counting_def)
  moreover have "trace_roots (Suc (Suc n)) s4 = Done () s4"
    using nil empty by (simp add: trace_roots_def)
  ultimately have "collect_trace (Suc (Suc n)) s = Done () s4" by (simp add: collect_trace_def)
  with refinesD(3) [OF 4(2)] show "\<exists>s'. collect_trace (Suc (Suc n)) s = Done () s' \<and> ll_repr (t_nonroot s') (t_heap s') [y]"
    by auto
qed

text \<open>Both halves: what the boxes before the panic have reported can condemn a box to which they refer.\<close>

lemma vtables_static:
  assumes "vtables_ok M h" "\<forall>p. map_option static (h' p) = map_option static (h p)"
  shows "vtables_ok M h'"
  unfolding vtables_ok_def
proof (intro allI impI)
  fix p b assume "h' p = Some b"
  with assms(2) [rule_format, of p] obtain c where "h p = Some c" "static c = static b" by (cases "h p") auto
  moreover from assms(1) this(1) have "has_vtable M (b_metadata c) (v_meta (view (b_cm c)))" unfolding vtables_ok_def by blast
  ultimately show "has_vtable M (b_metadata b) (v_meta (view (b_cm b)))" by (simp add: static_def)
qed

lemma kept_static_graph:
  assumes "map_option static (h' y) = map_option static (h y)"
  shows "rc_of h' y = rc_of h y" "calls_of h' y = calls_of h y"
    "(\<exists>b v. h' y = Some b \<and> b_elem b = Some v) \<longleftrightarrow> (\<exists>b v. h y = Some b \<and> b_elem b = Some v)"
  using assms by (cases "h y"; cases "h' y"; auto simp: rc_of_def calls_of_def static_def)+

lemma stale_counter_used:
  assumes ready: "ready (zs @ x # [y]) s" and n: "card (reach (t_heap s) (set (zs @ x # [y]))) < fuel"
    and zs: "\<forall>z \<in> set zs. \<not> panics (calls_of (t_heap s) z)"
    and x: "calls_of (t_heap s) x = pre @ CallPanic msg # cs" "\<not> panics pre"
    and y: "calls_of (t_heap s) y = []" "0 < rc_of (t_heap s) y"
      "rc_of (t_heap s) y = refs_from (t_heap s) (set zs) y + count_list (called pre) y"
    and s': "collect_trace fuel s = Panicked e s'"
  shows "y \<notin> garbage (t_heap s') {y}" "\<exists>s''. collect_trace (Suc (Suc n)) s' = Done () s'' \<and> ll_repr (t_nonroot s'') (t_heap s'') [y]"
proof -
  let ?h = "t_heap s"
  from stale_counter [OF ready n zs x] s' have 1: "pc_repr (t_pc s') (t_heap s') [y]" "mark_of (t_heap s') y = PossibleCycles"
    "tc_of (t_heap s') y = rc_of ?h y" "vtables_ok (t_meta s') ?h"
    "\<forall>p. map_option static (t_heap s' p) = map_option static (?h p)" "\<forall>p \<in> dom ?h - {y}. isolated (t_heap s') p"
    using y(3) by auto
  have "traceable ?h (set (zs @ x # [y]))" using ready by (simp add: ready_def Let_def)
  moreover have "y \<in> reach ?h (set (zs @ x # [y]))" by (rule reach_start) simp
  ultimately have el: "\<exists>b v. ?h y = Some b \<and> b_elem b = Some v" "rc_of ?h y < 16383" by (auto simp: traceable_def)
  have "dom (t_heap s') \<subseteq> dom ?h"
  proof
    fix p assume "p \<in> dom (t_heap s')"
    with 1(5) [rule_format, of p] show "p \<in> dom ?h" by (cases "?h p") auto
  qed
  with 1(6) have iso: "\<forall>p \<in> dom (t_heap s') - {y}. isolated (t_heap s') p" by blast
  note g = kept_static_graph [where h = ?h and h' = "t_heap s'" and y = y, OF 1(5) [rule_format]]
  note c = stale_box_condemned [OF 1(1) iso vtables_static [OF 1(4,5)] 1(2), unfolded g, OF el(1) y(1,2) el(2) 1(3)]
  from c show "y \<notin> garbage (t_heap s') {y}" "\<exists>s''. collect_trace (Suc (Suc n)) s' = Done () s'' \<and> ll_repr (t_nonroot s'') (t_heap s'') [y]"
    by blast+
qed

end
