(* ===== verification/Gc_State.thy ===== *)
theory Gc_State
  imports Prelude
begin

text \<open>
  The collector's global state: \<open>src/src/state.rs\<close>, and the bookkeeping half of \<open>cc_alloc\<close> and
  \<open>cc_dealloc\<close> of \<open>src/src/utils.rs\<close>. The flags say in which phase the collector is; the drop
  guards of \<open>replace_state_field!\<close> set one for the time a block runs and put the old value back,
  on a panic too.
\<close>

record gc_state =
  st_collecting :: bool
  st_finalizing :: bool
  st_dropping :: bool
  st_allocated_bytes :: usize
  st_executions_counter :: usize

definition state_new :: gc_state where
  "state_new = \<lparr>st_collecting = False, st_finalizing = False, st_dropping = False,
     st_allocated_bytes = 0, st_executions_counter = 0\<rparr>"

definition state_default :: gc_state where
  "state_default = state_new"

text \<open>The readers of the cells, unfolded everywhere.\<close>

definition state_allocated_bytes :: "gc_state \<Rightarrow> usize" where [simp]:
  "state_allocated_bytes s = st_allocated_bytes s"

definition state_executions_count :: "gc_state \<Rightarrow> usize" where [simp]:
  "state_executions_count s = st_executions_counter s"

definition is_collecting :: "gc_state \<Rightarrow> bool" where [simp]:
  "is_collecting s = st_collecting s"

definition is_finalizing :: "gc_state \<Rightarrow> bool" where [simp]:
  "is_finalizing s = st_finalizing s"

definition is_dropping :: "gc_state \<Rightarrow> bool" where [simp]:
  "is_dropping s = st_dropping s"

definition record_allocation :: "usize \<Rightarrow> (gc_state, unit) prog" where
  "record_allocation bytes = bindM (getM st_allocated_bytes) (\<lambda>n. bindM (checked_add n bytes)
     (\<lambda>n'. modifyM (\<lambda>s. s\<lparr>st_allocated_bytes := n'\<rparr>)))"

definition record_deallocation :: "usize \<Rightarrow> (gc_state, unit) prog" where
  "record_deallocation bytes = bindM (getM st_allocated_bytes) (\<lambda>n. bindM (checked_sub n bytes)
     (\<lambda>n'. modifyM (\<lambda>s. s\<lparr>st_allocated_bytes := n'\<rparr>)))"

definition increment_executions_count :: "(gc_state, unit) prog" where
  "increment_executions_count = bindM (getM st_executions_counter) (\<lambda>n. bindM (checked_add n 1)
     (\<lambda>n'. modifyM (\<lambda>s. s\<lparr>st_executions_counter := n'\<rparr>)))"

definition set_collecting :: "bool \<Rightarrow> gc_state \<Rightarrow> gc_state" where
  "set_collecting v s = s\<lparr>st_collecting := v\<rparr>"

definition set_finalizing :: "bool \<Rightarrow> gc_state \<Rightarrow> gc_state" where
  "set_finalizing v s = s\<lparr>st_finalizing := v\<rparr>"

definition set_dropping :: "bool \<Rightarrow> gc_state \<Rightarrow> gc_state" where
  "set_dropping v s = s\<lparr>st_dropping := v\<rparr>"

definition is_tracing :: "gc_state \<Rightarrow> bool" where
  "is_tracing s \<longleftrightarrow> st_collecting s \<and> \<not> st_finalizing s \<and> \<not> st_dropping s"

text \<open>
  \<open>with_guard\<close>: run \<open>m\<close> with a guard whose destructor is \<open>cleanup\<close>. The destructor runs when the
  block is left, whether it returns or panics.
\<close>

definition with_guard :: "('s, 'a) prog \<Rightarrow> ('s \<Rightarrow> 's) \<Rightarrow> ('s, 'a) prog" where
  "with_guard m cleanup = (\<lambda>s. case m s of Done a t \<Rightarrow> Done a (cleanup t)
     | Panicked e t \<Rightarrow> Panicked e (cleanup t) | UB \<Rightarrow> UB | Timeout \<Rightarrow> Timeout)"

text \<open>
  The two fields \<open>replace_state_field!\<close> is used for, on the state as a part of a larger one.
\<close>

datatype state_field = FieldDropping | FieldFinalizing

fun field_get :: "state_field \<Rightarrow> gc_state \<Rightarrow> bool" where
  "field_get FieldDropping s = is_dropping s"
| "field_get FieldFinalizing s = is_finalizing s"

fun field_set :: "state_field \<Rightarrow> bool \<Rightarrow> gc_state \<Rightarrow> gc_state" where
  "field_set FieldDropping v s = set_dropping v s"
| "field_set FieldFinalizing v s = set_finalizing v s"

definition replace_state_field ::
  "('s \<Rightarrow> gc_state) \<Rightarrow> ((gc_state \<Rightarrow> gc_state) \<Rightarrow> 's \<Rightarrow> 's) \<Rightarrow> state_field \<Rightarrow> bool \<Rightarrow> ('s, 'a) prog \<Rightarrow> ('s, 'a) prog" where
  "replace_state_field get app f v m = bindM (getM (\<lambda>s. field_get f (get s))) (\<lambda>old.
     thenM (modifyM (app (field_set f v))) (with_guard m (app (field_set f old))))"

subsection \<open>Laws\<close>

text \<open>A new state has counted nothing and is in no phase.\<close>

lemma state_default_idle:
  "state_allocated_bytes state_default = 0" "state_executions_count state_default = 0"
  "\<not> is_collecting state_default" "\<not> is_finalizing state_default" "\<not> is_dropping state_default" "\<not> is_tracing state_default"
  by (simp_all add: state_default_def state_new_def is_tracing_def)

lemma with_guard_simps [simp]:
  "m s = Done a t \<Longrightarrow> with_guard m c s = Done a (c t)"
  "m s = Panicked e t \<Longrightarrow> with_guard m c s = Panicked e (c t)"
  by (simp_all add: with_guard_def)

lemma wp_with_guard: "wp (with_guard m c) Q E s \<longleftrightarrow> wp m (\<lambda>a t. Q a (c t)) (\<lambda>e t. E e (c t)) s"
  by (cases "m s") (simp_all add: wp_def with_guard_def)

lemma field_simps_gc [simp]:
  "field_get f (field_set f v s) = v" "field_set f v (field_set f w s) = field_set f v s"
  "field_set f (field_get f s) s = s"
  by (cases f; simp add: set_dropping_def set_finalizing_def)+

lemma field_other [simp]: "f \<noteq> g \<Longrightarrow> field_get f (field_set g v s) = field_get f s"
  by (cases f; cases g) (auto simp: set_dropping_def set_finalizing_def)

lemma field_set_keeps [simp]:
  "st_collecting (field_set f v s) = st_collecting s"
  "st_allocated_bytes (field_set f v s) = st_allocated_bytes s"
  "st_executions_counter (field_set f v s) = st_executions_counter s"
  by (cases f; simp add: set_dropping_def set_finalizing_def)+

text \<open>The guarded field has the new value inside the block and the old one after it, whatever happens.\<close>

lemma wp_replace_state_field:
  "wp (replace_state_field get app f v m) Q E s \<longleftrightarrow>
   wp m (\<lambda>a t. Q a (app (field_set f (field_get f (get s))) t))
        (\<lambda>e t. E e (app (field_set f (field_get f (get s))) t)) (app (field_set f v) s)"
  by (simp add: replace_state_field_def wp_bindM wp_thenM wp_with_guard wp_Done)

lemma record_allocation_eval:
  "record_allocation n s = (if unat (st_allocated_bytes s) + unat n < 2 ^ 64
     then Done () (s\<lparr>st_allocated_bytes := st_allocated_bytes s + n\<rparr>) else Panicked ArithOverflow s)"
  by (simp add: record_allocation_def checked_add_def bindM_def)

lemma record_deallocation_eval:
  "record_deallocation n s = (if unat n \<le> unat (st_allocated_bytes s)
     then Done () (s\<lparr>st_allocated_bytes := st_allocated_bytes s - n\<rparr>) else Panicked ArithOverflow s)"
  by (simp add: record_deallocation_def checked_sub_def bindM_def)

lemma record_alloc_dealloc:
  assumes "unat (st_allocated_bytes s) + unat n < 2 ^ 64"
  shows "thenM (record_allocation n) (record_deallocation n) s = Done () s"
proof -
  have "unat (st_allocated_bytes s + n) = unat (st_allocated_bytes s) + unat n"
    using assms by (simp add: unat_word_ariths)
  with assms show ?thesis by (simp add: record_allocation_eval record_deallocation_eval thenM_def)
qed

end
