(* ===== verification/Config.thy ===== *)
theory Config
  imports Gc_State
begin

text \<open>
  The trigger of automatic collections: \<open>src/src/config.rs\<close>. Thresholds are 64-bit words. The
  arithmetic on \<open>f64\<close> is not modelled: its operations are a parameter of the definitions, and no
  lemma here assumes anything about them. The loop that raises the threshold is a partial
  function, whose value is None when it runs for ever.
\<close>

record 'f f64_ops =
  f_of_usize :: "usize \<Rightarrow> 'f"
  f_mul :: "'f \<Rightarrow> 'f \<Rightarrow> 'f"
  f_le :: "'f \<Rightarrow> 'f \<Rightarrow> bool"
  f_eq :: "'f \<Rightarrow> 'f \<Rightarrow> bool"
  f_zero :: 'f
  f_tenth :: 'f
  f_one :: 'f

definition DEFAULT_BYTES_THRESHOLD :: usize where
  "DEFAULT_BYTES_THRESHOLD = 100"

record 'f config =
  cf_bytes_threshold :: usize
  cf_adjustment_percent :: 'f
  cf_buffered_threshold :: "usize option"
  cf_auto_collect :: bool

definition config_new :: "'f f64_ops \<Rightarrow> 'f config" where
  "config_new fl = \<lparr>cf_bytes_threshold = DEFAULT_BYTES_THRESHOLD, cf_adjustment_percent = f_tenth fl,
     cf_buffered_threshold = None, cf_auto_collect = True\<rparr>"

definition config_default :: "'f f64_ops \<Rightarrow> 'f config" where
  "config_default fl = config_new fl"

definition set_auto_collect :: "bool \<Rightarrow> 'f config \<Rightarrow> 'f config" where
  "set_auto_collect auto_collect cf = cf\<lparr>cf_auto_collect := auto_collect\<rparr>"

definition set_buffered_objects_threshold :: "usize option \<Rightarrow> 'f config \<Rightarrow> 'f config" where
  "set_buffered_objects_threshold threshold cf = cf\<lparr>cf_buffered_threshold := threshold\<rparr>"

text \<open>\<open>assert!((0f64..=1f64).contains(&percent))\<close>\<close>

definition set_adjustment_percent :: "'f f64_ops \<Rightarrow> 'f \<Rightarrow> ('f config, unit) prog" where
  "set_adjustment_percent fl percent =
     (if f_le fl (f_zero fl) percent \<and> f_le fl percent (f_one fl)
      then modifyM (\<lambda>cf. cf\<lparr>cf_adjustment_percent := percent\<rparr>)
      else panicM (PanicMsg ''percent must be between 0 and 1''))"

definition should_collect :: "'f config \<Rightarrow> gc_state \<Rightarrow> usize \<Rightarrow> bool" where
  "should_collect cf st pc_len =
     (if \<not> cf_auto_collect cf then False
      else if st_allocated_bytes st > cf_bytes_threshold cf then True
      else (case cf_buffered_threshold cf of
          Some buffered_threshold \<Rightarrow> pc_len > buffered_threshold
        | None \<Rightarrow> False))"

definition auto_collect :: "'f config \<Rightarrow> bool" where [simp]:
  "auto_collect cf = cf_auto_collect cf"

definition adjustment_percent :: "'f config \<Rightarrow> 'f" where [simp]:
  "adjustment_percent cf = cf_adjustment_percent cf"

definition buffered_objects_threshold :: "'f config \<Rightarrow> usize option" where [simp]:
  "buffered_objects_threshold cf = cf_buffered_threshold cf"

text \<open>Each setter changes what its reader reads and nothing else; no setter changes the threshold.\<close>

lemma setters_read:
  "auto_collect (set_auto_collect b cf) = b" "buffered_objects_threshold (set_auto_collect b cf) = buffered_objects_threshold cf"
  "buffered_objects_threshold (set_buffered_objects_threshold t cf) = t" "auto_collect (set_buffered_objects_threshold t cf) = auto_collect cf"
  "cf_bytes_threshold (set_auto_collect b cf) = cf_bytes_threshold cf"
  "cf_bytes_threshold (set_buffered_objects_threshold t cf) = cf_bytes_threshold cf"
  by (simp_all add: set_auto_collect_def set_buffered_objects_threshold_def)

lemma set_adjustment_percent_eval:
  "set_adjustment_percent fl x cf = (if f_le fl (f_zero fl) x \<and> f_le fl x (f_one fl)
     then Done () (cf\<lparr>cf_adjustment_percent := x\<rparr>) else Panicked (PanicMsg ''percent must be between 0 and 1'') cf)"
  by (simp add: set_adjustment_percent_def)

subsection \<open>adjust\<close>

text \<open>\<open>usize::checked_shl\<close> fails only when the shift amount is not below the width.\<close>

definition checked_shl :: "usize \<Rightarrow> nat \<Rightarrow> usize option" where
  "checked_shl x rhs = (if rhs < 64 then Some (push_bit rhs x) else None)"

partial_function (option) increase_loop :: "usize \<Rightarrow> usize \<Rightarrow> usize option" where
  "increase_loop allocated threshold = (case checked_shl threshold 1 of
     None \<Rightarrow> Some threshold
   | Some new_threshold \<Rightarrow>
       if allocated < new_threshold then Some new_threshold else increase_loop allocated new_threshold)"

text \<open>Halving a threshold that is not zero makes it smaller, whatever the floats say.\<close>

lemma unat_half: "unat (drop_bit 1 t) = unat t div 2" for t :: usize
  by (simp add: drop_bit_eq_div unat_div)

function decrease_loop :: "'f f64_ops \<Rightarrow> 'f \<Rightarrow> usize \<Rightarrow> usize \<Rightarrow> usize" where
  "decrease_loop fl percent allocated threshold =
     (if f_le fl (f_of_usize fl allocated) (f_mul fl (f_of_usize fl threshold) percent) then
        let new_threshold = drop_bit 1 threshold in
        if allocated \<ge> new_threshold then threshold
        else if new_threshold \<le> DEFAULT_BYTES_THRESHOLD then DEFAULT_BYTES_THRESHOLD
        else decrease_loop fl percent allocated new_threshold
      else threshold)"
  by pat_completeness auto

termination decrease_loop
proof (relation "measure (\<lambda>(fl, p, a, t). unat t)")
  fix fl :: "'f f64_ops" and p :: 'f and a t x :: usize
  assume x: "x = drop_bit 1 t" "\<not> x \<le> a"
  then have "0 < unat x" by (simp add: word_le_nat_alt)
  moreover from x(1) unat_half [of t] have "unat x = unat t div 2" by simp
  ultimately have "unat x < unat t" by simp
  then show "((fl, p, a, x), fl, p, a, t) \<in> measure (\<lambda>(fl, p, a, t). unat t)" by simp
qed simp

declare decrease_loop.simps [simp del]

definition adjust :: "'f f64_ops \<Rightarrow> gc_state \<Rightarrow> 'f config \<Rightarrow> 'f config option" where
  "adjust fl st cf =
     (if st_allocated_bytes st \<ge> cf_bytes_threshold cf then
        map_option (\<lambda>t. cf\<lparr>cf_bytes_threshold := t\<rparr>) (increase_loop (st_allocated_bytes st) (cf_bytes_threshold cf))
      else if f_eq fl (f_mul fl (f_of_usize fl (cf_bytes_threshold cf)) (cf_adjustment_percent cf)) (f_zero fl)
      then Some cf
      else Some (cf\<lparr>cf_bytes_threshold :=
        decrease_loop fl (cf_adjustment_percent cf) (st_allocated_bytes st) (cf_bytes_threshold cf)\<rparr>))"

subsection \<open>The loop that raises the threshold\<close>

lemma increase_loop_eval:
  "increase_loop a t = (if a < push_bit 1 t then Some (push_bit 1 t) else increase_loop a (push_bit 1 t))"
  by (subst increase_loop.simps) (simp add: checked_shl_def)

lemma unat_double: "unat t < 2 ^ 63 \<Longrightarrow> unat (push_bit 1 t) = 2 * unat t" for t :: usize
proof -
  assume t: "unat t < 2 ^ 63"
  have "push_bit 1 t = 2 * t" by (simp add: push_bit_eq_mult)
  then show ?thesis using t by (simp add: unat_word_ariths)
qed

text \<open>
  Below half the address space the loop returns: it stops at the first doubling above the number
  of allocated bytes, which is at most twice that number.
\<close>

lemma increase_loop_returns:
  "0 < unat t \<Longrightarrow> t \<le> a \<Longrightarrow> unat a < 2 ^ 63 \<Longrightarrow>
   \<exists>t'. increase_loop a t = Some t' \<and> a < t' \<and> unat t' \<le> 2 * unat a \<and> (\<exists>k. unat t' = unat t * 2 ^ k)"
proof (induction "unat a - unat t" arbitrary: t rule: less_induct)
  case less
  from less.prems have le: "unat t \<le> unat a" by (simp add: word_le_nat_alt)
  with less.prems have d: "unat (push_bit 1 t) = 2 * unat t" by (intro unat_double) simp
  show ?case
  proof (cases "a < push_bit 1 t")
    case True
    moreover from le d have "unat (push_bit 1 t) \<le> 2 * unat a" by simp
    moreover have "\<exists>k. unat (push_bit 1 t) = unat t * 2 ^ k" unfolding d by (rule exI [of _ 1]) simp
    ultimately show ?thesis by (subst increase_loop_eval) simp
  next
    case False
    then have "2 * unat t \<le> unat a" using d by (simp add: word_less_nat_alt)
    with d less.prems(1) have "unat a - unat (push_bit 1 t) < unat a - unat t" "0 < unat (push_bit 1 t)"
      "push_bit 1 t \<le> a" by (simp_all add: word_le_nat_alt)
    from less.hyps [OF this less.prems(3)] obtain t' k where
      t': "increase_loop a (push_bit 1 t) = Some t'" "a < t'" "unat t' \<le> 2 * unat a"
      "unat t' = unat (push_bit 1 t) * 2 ^ k" by blast
    have "unat t' = unat t * 2 ^ Suc k" using t'(4) d by simp
    then have "\<exists>k. unat t' = unat t * 2 ^ k" by blast
    moreover have "increase_loop a t = Some t'" using t'(1) False by (subst increase_loop_eval) simp
    ultimately show ?thesis using t'(2,3) by blast
  qed
qed

text \<open>
  The shift never fails, it drops the highest bit: once the threshold has been shifted to zero the
  loop runs for ever.
\<close>

lemma increase_loop_zero: "increase_loop a 0 = None"
proof -
  have "t \<noteq> 0" if "increase_loop a t = Some y" for t y
  proof (rule increase_loop.raw_induct [where P = "\<lambda>a t y. t \<noteq> 0", OF _ that])
    fix f :: "usize \<Rightarrow> usize \<Rightarrow> usize option" and b u z
    assume ih: "\<And>b u z. f b u = Some z \<Longrightarrow> u \<noteq> 0"
      and step: "(case checked_shl u 1 of None \<Rightarrow> Some u | Some n \<Rightarrow> if b < n then Some n else f b n) = Some z"
    show "u \<noteq> 0"
    proof
      assume "u = 0"
      with step have "f b 0 = Some z" by (simp add: checked_shl_def)
      with ih show False by blast
    qed
  qed
  then show ?thesis by (cases "increase_loop a 0") auto
qed

lemma increase_loop_steps:
  "(\<And>i. i < k \<Longrightarrow> push_bit (Suc i) t \<le> a) \<Longrightarrow> increase_loop a t = increase_loop a (push_bit k t)"
proof (induction k arbitrary: t)
  case 0
  then show ?case by simp
next
  case (Suc k)
  have "\<not> a < push_bit 1 t" using Suc.prems [of 0] by simp
  then have "increase_loop a t = increase_loop a (push_bit 1 t)" by (subst increase_loop_eval) simp
  also have "\<dots> = increase_loop a (push_bit k (push_bit 1 t))"
    using Suc.prems [of "Suc i" for i] by (intro Suc.IH) (simp add: push_bit_push_bit)
  finally show ?case by (simp add: push_bit_push_bit)
qed

lemma increase_loop_stops: "a < push_bit (Suc i) t \<Longrightarrow> \<exists>t'. increase_loop a t = Some t' \<and> a < t'"
proof (induction i arbitrary: t)
  case 0
  then show ?case by (subst increase_loop_eval) auto
next
  case (Suc i)
  then have "a < push_bit (Suc i) (push_bit 1 t)" by (simp add: push_bit_push_bit)
  from Suc.IH [OF this] show ?case by (subst increase_loop_eval) auto
qed

lemma push_bit_out: "64 \<le> n \<Longrightarrow> push_bit n x = 0" for x :: usize
  by (rule bit_word_eqI) (simp add: bit_push_bit_iff)

text \<open>The loop runs for ever exactly if no doubling, as it wraps around, exceeds the allocated bytes.\<close>

lemma increase_loop_None_iff: "increase_loop a t = None \<longleftrightarrow> (\<forall>i. push_bit (Suc i) t \<le> a)"
proof
  assume "increase_loop a t = None"
  with increase_loop_stops show "\<forall>i. push_bit (Suc i) t \<le> a" by (metis linorder_not_le option.distinct(1))
next
  assume "\<forall>i. push_bit (Suc i) t \<le> a"
  with increase_loop_steps [of 64 t a] have "increase_loop a t = increase_loop a (push_bit 64 t)" by blast
  also have "push_bit 64 t = 0" by (rule push_bit_out) simp
  finally show "increase_loop a t = None" by (simp add: increase_loop_zero)
qed

text \<open>The doublings of the default threshold wrap around after 57 steps; the largest is \<open>25 * 2 ^ 59\<close>.\<close>

lemma default_doublings: "push_bit i DEFAULT_BYTES_THRESHOLD \<le> (25 * 2 ^ 59 :: usize)"
proof (cases "i < 64")
  case True
  have "\<forall>j \<in> set [0..<64]. push_bit j (100 :: usize) \<le> 25 * 2 ^ 59" by (simp add: upt_rec)
  then show ?thesis using True by (simp add: DEFAULT_BYTES_THRESHOLD_def)
next
  case False
  then show ?thesis by (simp add: push_bit_out)
qed

lemma increase_loop_default:
  "increase_loop a DEFAULT_BYTES_THRESHOLD = None \<longleftrightarrow> 25 * 2 ^ 59 \<le> a"
proof -
  have "push_bit (Suc 56) DEFAULT_BYTES_THRESHOLD = 25 * 2 ^ 59" by (simp add: DEFAULT_BYTES_THRESHOLD_def)
  then show ?thesis
    using default_doublings unfolding increase_loop_None_iff by (metis order.trans)
qed

subsection \<open>The loop that lowers it, and the whole\<close>

lemma decrease_loop_bounds:
  "a < t \<Longrightarrow> DEFAULT_BYTES_THRESHOLD \<le> t \<Longrightarrow>
   a < decrease_loop fl p a t \<and> DEFAULT_BYTES_THRESHOLD \<le> decrease_loop fl p a t \<and> decrease_loop fl p a t \<le> t"
proof (induction fl p a t rule: decrease_loop.induct)
  case (1 fl p a t)
  have half: "drop_bit 1 t \<le> t" unfolding word_le_nat_alt unat_half by simp
  show ?case
  proof (cases "f_le fl (f_of_usize fl a) (f_mul fl (f_of_usize fl t) p) \<and> a < drop_bit 1 t")
    case False
    with 1 show ?thesis by (subst (1 2 3) decrease_loop.simps) (auto simp: Let_def)
  next
    case True
    show ?thesis
    proof (cases "drop_bit 1 t \<le> DEFAULT_BYTES_THRESHOLD")
      case small: True
      with True 1 show ?thesis by (subst (1 2 3) decrease_loop.simps) (auto simp: Let_def)
    next
      case big: False
      with True have eq: "decrease_loop fl p a t = decrease_loop fl p a (drop_bit 1 t)"
        by (subst decrease_loop.simps) (auto simp: Let_def)
      from 1(1) [OF _ refl _ big] True big half show ?thesis unfolding eq by force
    qed
  qed
qed

lemma adjust_ok:
  assumes "DEFAULT_BYTES_THRESHOLD \<le> cf_bytes_threshold cf" "unat (st_allocated_bytes st) < 2 ^ 63"
  shows "\<exists>cf'. adjust fl st cf = Some cf' \<and> DEFAULT_BYTES_THRESHOLD \<le> cf_bytes_threshold cf'
    \<and> st_allocated_bytes st < cf_bytes_threshold cf' \<and> cf' = cf\<lparr>cf_bytes_threshold := cf_bytes_threshold cf'\<rparr>
    \<and> unat (cf_bytes_threshold cf') \<le> max (unat (cf_bytes_threshold cf)) (2 * unat (st_allocated_bytes st))"
proof (cases "st_allocated_bytes st \<ge> cf_bytes_threshold cf")
  case True
  have "0 < unat (cf_bytes_threshold cf)"
    using assms(1) by (simp add: word_le_nat_alt DEFAULT_BYTES_THRESHOLD_def)
  from increase_loop_returns [OF this True assms(2)] obtain t' where
    t': "increase_loop (st_allocated_bytes st) (cf_bytes_threshold cf) = Some t'"
    "st_allocated_bytes st < t'" "unat t' \<le> 2 * unat (st_allocated_bytes st)" by blast
  with True assms(1) have "DEFAULT_BYTES_THRESHOLD \<le> t'" by simp
  with t' True show ?thesis by (simp add: adjust_def)
next
  case False
  then have lt: "st_allocated_bytes st < cf_bytes_threshold cf" by simp
  from decrease_loop_bounds [OF this assms(1), of fl "cf_adjustment_percent cf"] False lt assms(1)
  show ?thesis by (auto simp: adjust_def word_le_nat_alt)
qed

text \<open>After an adjustment a collection is not due for the number of bytes any more.\<close>

lemma should_collect_after_adjust:
  assumes "DEFAULT_BYTES_THRESHOLD \<le> cf_bytes_threshold cf" "unat (st_allocated_bytes st) < 2 ^ 63"
    "adjust fl st cf = Some cf'" "cf_buffered_threshold cf = None"
  shows "\<not> should_collect cf' st n"
proof -
  from adjust_ok [OF assms(1,2), of fl] assms(3) have lt: "st_allocated_bytes st < cf_bytes_threshold cf'"
    and eq: "cf' = cf\<lparr>cf_bytes_threshold := cf_bytes_threshold cf'\<rparr>" by auto
  from arg_cong [OF eq, of cf_buffered_threshold] assms(4) have "cf_buffered_threshold cf' = None" by simp
  with lt show ?thesis by (auto simp: should_collect_def)
qed

end
