(* ===== verification/Gc_World.thy ===== *)
theory Gc_World
  imports Lists Config
begin

text \<open>
  The memory and the thread locals the public operations work on, and the operations on \<open>CcBox\<close> of
  \<open>src/src/cc.rs\<close> below them: allocation and metadata, \<open>add_to_list\<close> and \<open>remove_from_list\<close>.

  The allocator is not part of the crate. \<open>allocator\<close> holds the functions that choose the address
  of a new allocation from the memory; what is used of it is that the address is not live. An
  allocation that fails aborts the process (\<open>handle_alloc_error\<close>) and is not modelled.
\<close>

record allocator =
  al_box :: "boxes \<Rightarrow> addr"
  al_meta :: "(maddr \<Rightarrow> boxed_metadata option) \<Rightarrow> maddr"

definition fresh_allocator :: "allocator \<Rightarrow> bool" where
  "fresh_allocator al \<longleftrightarrow> (\<forall>h. finite (dom h) \<longrightarrow> h (al_box al h) = None)
     \<and> (\<forall>m. finite (dom m) \<longrightarrow> m (al_meta al m) = None)"

record 'f world =
  w_boxes :: boxes
  w_meta :: "maddr \<Rightarrow> boxed_metadata option"
  w_pc :: pcycles
  w_state :: gc_state
  w_config :: "'f config"
  w_config_borrowed :: bool
  w_state_alive :: bool
  w_pc_alive :: bool
  w_config_alive :: bool

type_synonym ('f, 'a) gc = "('f world, 'a) prog"

definition on_boxes :: "(boxes, 'a) prog \<Rightarrow> ('f, 'a) gc" where
  "on_boxes m = zoom w_boxes (\<lambda>h w. w\<lparr>w_boxes := h\<rparr>) m"

definition on_state :: "(gc_state, 'a) prog \<Rightarrow> ('f, 'a) gc" where
  "on_state m = zoom w_state (\<lambda>s w. w\<lparr>w_state := s\<rparr>) m"

definition on_possible_cycles :: "(pcycles \<times> boxes, 'a) prog \<Rightarrow> ('f, 'a) gc" where
  "on_possible_cycles m = zoom (\<lambda>w. (w_pc w, w_boxes w)) (\<lambda>(l, h) w. w\<lparr>w_boxes := h, w_pc := l\<rparr>) m"

text \<open>
  \<open>state(f)\<close> and the \<open>try_with\<close>s: a thread local may be gone when its thread is exiting.
\<close>

definition with_state :: "('f, 'a) gc \<Rightarrow> ('f, 'a) gc" where
  "with_state m = bindM (getM w_state_alive) (\<lambda>b.
     if b then m else panicM (PanicMsg ''Couldn't access the state''))"

definition try_state :: "('f, 'a) gc \<Rightarrow> ('f, 'a option) gc" where
  "try_state m = bindM (getM w_state_alive) (\<lambda>b. if b then bindM m (\<lambda>a. ret (Some a)) else ret None)"

definition try_pc :: "('f, unit) gc \<Rightarrow> ('f, unit) gc" where
  "try_pc m = bindM (getM w_pc_alive) (\<lambda>b. if b then m else ret ())"

text \<open>The debug checks at the start of the public operations.\<close>

definition not_tracing :: "string \<Rightarrow> ('f, unit) gc" where
  "not_tracing msg = bindM (with_state (getM (\<lambda>w. is_tracing (w_state w))))
     (\<lambda>b. if b then panicM (PanicMsg msg) else ret ())"

subsection \<open>Allocation\<close>

definition cc_alloc :: "allocator \<Rightarrow> usize \<Rightarrow> ('f, addr) gc" where
  "cc_alloc al layout = thenM (on_state (record_allocation layout)) (getM (\<lambda>w. al_box al (w_boxes w)))"

definition cc_dealloc :: "addr \<Rightarrow> usize \<Rightarrow> ('f, unit) gc" where
  "cc_dealloc p layout = thenM (on_state (record_deallocation layout))
     (\<lambda>w. case w_boxes w p of None \<Rightarrow> UB | Some _ \<Rightarrow> Done () (w\<lparr>w_boxes := (w_boxes w)(p := None)\<rparr>))"

definition alloc_other :: "allocator \<Rightarrow> ('f, maddr) gc" where [simp]:
  "alloc_other al = getM (\<lambda>w. al_meta al (w_meta w))"

definition dealloc_other :: "maddr \<Rightarrow> ('f, unit) gc" where
  "dealloc_other m = (\<lambda>w. case w_meta w m of None \<Rightarrow> UB | Some _ \<Rightarrow> Done () (w\<lparr>w_meta := (w_meta w)(m := None)\<rparr>))"

text \<open>The element is None when it is the uninitialised \<open>NewCyclicWrapper\<close> of \<open>new_cyclic\<close>.\<close>

definition metadata_new :: "usize \<Rightarrow> metadata" where [simp]:
  "metadata_new layout = MetaVTable \<lparr>vt_size = layout\<rparr>"

definition ccbox_new :: "allocator \<Rightarrow> usize \<Rightarrow> tval option \<Rightarrow> ('f, addr) gc" where
  "ccbox_new al layout t = bindM (getM (\<lambda>w. st_finalizing (w_state w))) (\<lambda>already_finalized.
     bindM (cc_alloc al layout) (\<lambda>ptr.
     thenM (modifyM (\<lambda>w. w\<lparr>w_boxes := (w_boxes w)(ptr \<mapsto>
        \<lparr>b_next = None, b_prev = None, b_metadata = metadata_new layout,
         b_cm = new_with_counter_to_one already_finalized, b_elem = t\<rparr>)\<rparr>))
     (ret ptr)))"

definition boxed_metadata_new :: "allocator \<Rightarrow> vtable \<Rightarrow> weak_counter_marker \<Rightarrow> ('f, maddr) gc" where
  "boxed_metadata_new al vt wcm = bindM (alloc_other al) (\<lambda>m.
     thenM (modifyM (\<lambda>w. w\<lparr>w_meta := (w_meta w)(m \<mapsto> \<lparr>bm_vtable = vt, bm_weak = wcm\<rparr>)\<rparr>)) (ret m))"

subsection \<open>Metadata\<close>

definition deref_meta :: "maddr \<Rightarrow> (boxed_metadata \<Rightarrow> 'a) \<Rightarrow> ('f, 'a) gc" where
  "deref_meta m f = (\<lambda>w. case w_meta w m of None \<Rightarrow> UB | Some b \<Rightarrow> Done (f b) w)"

text \<open>\<open>metadata.as_ref().weak_counter_marker\<close>, followed by one of its methods.\<close>

definition on_wcm :: "maddr \<Rightarrow> (weak_counter_marker, 'a) prog \<Rightarrow> ('f, 'a) gc" where
  "on_wcm m p = (\<lambda>w. case w_meta w m of None \<Rightarrow> UB
     | Some b \<Rightarrow> zoom (\<lambda>_. bm_weak b) (\<lambda>c w. w\<lparr>w_meta := (w_meta w)(m \<mapsto> b\<lparr>bm_weak := c\<rparr>)\<rparr>) p w)"

text \<open>The member of the union that the flag selects; reading the other one is undefined.\<close>

definition union_vtable :: "addr \<Rightarrow> ('f, vtable) gc" where
  "union_vtable p = bindM (on_boxes (deref p b_metadata)) (\<lambda>m.
     case m of MetaVTable vt \<Rightarrow> ret vt | MetaBoxed _ \<Rightarrow> (\<lambda>w. UB))"

definition get_metadata_unchecked :: "addr \<Rightarrow> ('f, maddr) gc" where
  "get_metadata_unchecked p = bindM (on_boxes (deref p b_metadata)) (\<lambda>m.
     case m of MetaBoxed b \<Rightarrow> ret b | MetaVTable _ \<Rightarrow> (\<lambda>w. UB))"

definition box_vtable :: "addr \<Rightarrow> ('f, vtable) gc" where
  "box_vtable p = (\<lambda>w. on_boxes (read_vtable (w_meta w) p) w)"

lemma box_vtable_unfold:
  "box_vtable p = bindM (on_boxes (cm_test p has_allocated_for_metadata)) (\<lambda>b.
     if b then bindM (get_metadata_unchecked p) (\<lambda>m. deref_meta m bm_vtable) else union_vtable p)"
proof (rule ext)
  fix w :: "'a world"
  show "box_vtable p w = bindM (on_boxes (cm_test p has_allocated_for_metadata)) (\<lambda>b.
     if b then bindM (get_metadata_unchecked p) (\<lambda>m. deref_meta m bm_vtable) else union_vtable p) w"
  proof (cases "w_boxes w p")
    case None
    then show ?thesis by (simp add: box_vtable_def read_vtable_def on_boxes_def zoom_def bindM_def cm_test_def on_cm_def)
  next
    case (Some b)
    then show ?thesis
      by (cases "b_metadata b") (auto simp: box_vtable_def read_vtable_def get_metadata_unchecked_def union_vtable_def
          deref_meta_def on_boxes_def zoom_def bindM_def split: option.splits)
  qed
qed

definition get_traceable :: "addr \<Rightarrow> ('f, addr) gc" where
  "get_traceable p = bindM (box_vtable p) (\<lambda>vt. ret p)"

lemma get_traceable_box:
  assumes "w_boxes w p = Some b" "has_vtable (w_meta w) (b_metadata b) (v_meta (view (b_cm b)))"
  shows "get_traceable p w = Done p w"
  using read_vtable_ok [of "w_boxes w", OF assms] by (auto simp: get_traceable_def box_vtable_def on_boxes_def zoom_def bindM_def)

definition box_layout :: "addr \<Rightarrow> ('f, usize) gc" where
  "box_layout p = bindM (box_vtable p) (\<lambda>vt. ret (vt_size vt))"

definition get_or_init_metadata :: "allocator \<Rightarrow> addr \<Rightarrow> ('f, maddr) gc" where
  "get_or_init_metadata al p = bindM (on_boxes (cm_test p has_allocated_for_metadata)) (\<lambda>b.
     if b then get_metadata_unchecked p
     else bindM (union_vtable p) (\<lambda>vt.
          bindM (boxed_metadata_new al vt (weak_new True)) (\<lambda>ptr.
          thenM (on_boxes (store p (\<lambda>b. b\<lparr>b_metadata := MetaBoxed ptr\<rparr>)))
         (thenM (on_boxes (on_cm p (modifyM (set_allocated_for_metadata True))))
                (ret ptr)))))"

definition drop_metadata :: "addr \<Rightarrow> ('f, unit) gc" where
  "drop_metadata p = bindM (on_boxes (cm_test p has_allocated_for_metadata)) (\<lambda>b.
     if b then bindM (get_metadata_unchecked p) (\<lambda>boxed.
          bindM (on_wcm boxed (getM weak_counter)) (\<lambda>c.
          if c = 0 then dealloc_other boxed
          else on_wcm boxed (modifyM (set_accessible False))))
     else ret ())"

subsection \<open>The buffer of possible cycles\<close>

definition remove_from_list :: "addr \<Rightarrow> ('f, unit) gc" where
  "remove_from_list ptr = bindM (on_boxes (cm_test ptr is_in_possible_cycles)) (\<lambda>b.
     if b then try_pc (thenM (on_boxes (cm_mark ptr NonMarked)) (on_possible_cycles (pc_remove ptr)))
     else ret ())"

definition add_to_list :: "addr \<Rightarrow> ('f, unit) gc" where
  "add_to_list ptr = bindM (on_boxes (cm_test ptr is_in_possible_cycles)) (\<lambda>b.
     if \<not> b then try_pc
         (thenM (bindM (on_boxes (cm_test ptr is_not_marked)) debug_assert)
         (thenM (on_possible_cycles (pc_add ptr))
         (thenM (on_boxes (on_cm ptr reset_tracing_counter))
                (on_boxes (cm_mark ptr PossibleCycles)))))
     else ret ())"

end
