(* ===== verification/Gc_Buffer.thy ===== *)
theory Gc_Buffer
  imports Gc_World
begin

text \<open>
  The invariant of the buffer: the boxes marked \<open>PossibleCycles\<close> are the ones in it, and an
  unmarked box is in no list. \<open>add_to_list\<close> and \<open>remove_from_list\<close> keep it, are idempotent and undo
  each other.
\<close>

definition buffered :: "addr list \<Rightarrow> 'f world \<Rightarrow> bool" where
  "buffered ps w \<longleftrightarrow> pc_repr (w_pc w) (w_boxes w) ps \<and>
     (\<forall>p b. w_boxes w p = Some b \<longrightarrow> (v_mark (view (b_cm b)) = PossibleCycles \<longleftrightarrow> p \<in> set ps)) \<and>
     (\<forall>p b. w_boxes w p = Some b \<longrightarrow> v_mark (view (b_cm b)) = NonMarked \<longrightarrow> isolated (w_boxes w) p)"

lemma buffered_repr: "buffered ps w \<Longrightarrow> pc_repr (w_pc w) (w_boxes w) ps"
  by (simp add: buffered_def)

lemma buffered_mark:
  "buffered ps w \<Longrightarrow> w_boxes w p = Some b \<Longrightarrow> v_mark (view (b_cm b)) = PossibleCycles \<longleftrightarrow> p \<in> set ps"
  unfolding buffered_def by blast

lemma buffered_isolated:
  "buffered ps w \<Longrightarrow> w_boxes w p = Some b \<Longrightarrow> v_mark (view (b_cm b)) = NonMarked \<Longrightarrow> isolated (w_boxes w) p"
  unfolding buffered_def by blast

text \<open>What is not the buffer: all of the world but the links, the marks and the tracing counters.\<close>

definition unbuffered_part :: "ccbox \<Rightarrow> metadata \<times> tval option \<times> bool \<times> bool \<times> nat" where
  "unbuffered_part b = (b_metadata b, b_elem b, v_meta (view (b_cm b)), v_fin (view (b_cm b)), v_rc (view (b_cm b)))"

definition same_but_buffer :: "'f world \<Rightarrow> 'f world \<Rightarrow> bool" where
  "same_but_buffer w w' \<longleftrightarrow> w' = w\<lparr>w_boxes := w_boxes w', w_pc := w_pc w'\<rparr> \<and>
     (\<forall>p. map_option unbuffered_part (w_boxes w' p) = map_option unbuffered_part (w_boxes w p))"

lemma same_but_buffer_refl [simp]: "same_but_buffer w w"
  by (simp add: same_but_buffer_def)

lemma same_but_buffer_trans: "same_but_buffer u v \<Longrightarrow> same_but_buffer v w \<Longrightarrow> same_but_buffer u w"
  by (cases u; cases v; cases w) (auto simp: same_but_buffer_def)

text \<open>One step on the memory: some links change, and the counter marker of one box.\<close>

lemma buffered_step:
  assumes inv: "buffered ps w" and p: "w_boxes w p = Some b"
    and f: "frame S (w_boxes w) h" "S \<subseteq> insert p (set ps)"
    and repr: "pc_repr l h qs"
    and qs: "set qs - {p} = set ps - {p}" "v_mark (view c) = PossibleCycles \<longleftrightarrow> p \<in> set qs"
      "v_mark (view c) = NonMarked \<Longrightarrow> isolated h p"
    and c: "v_meta (view c) = v_meta (view (b_cm b))" "v_fin (view c) = v_fin (view (b_cm b))"
      "v_rc (view c) = v_rc (view (b_cm b))"
  defines "w' \<equiv> w\<lparr>w_boxes := upd p (\<lambda>b. b\<lparr>b_cm := c\<rparr>) h, w_pc := l\<rparr>"
  shows "buffered qs w'" "same_but_buffer w w'"
proof -
  let ?h = "upd p (\<lambda>b. b\<lparr>b_cm := c\<rparr>) h"
  have links: "links ?h q = links h q" for q by (simp add: links_def upd_apply option.map_comp comp_def)
  have pay: "map_option payload (h q) = map_option payload (w_boxes w q)" for q using frame_payload [OF f(1)] .
  have iso: "isolated h q = isolated (w_boxes w) q" if "q \<noteq> p" "q \<notin> set ps" for q
    by (rule links_cong_isolated, rule frame_links [OF f(1)]) (use that f(2) in blast)
  have cm: "\<exists>d. w_boxes w q = Some d \<and> b_cm d = b_cm e" if "h q = Some e" for q e
    using pay [of q] that by (cases "w_boxes w q") (auto simp: payload_def)
  show "buffered qs w'"
    unfolding buffered_def
  proof (intro conjI allI impI)
    show "pc_repr (w_pc w') (w_boxes w') qs"
      using repr links by (auto simp: w'_def intro: pc_repr_cong)
    fix q e assume e: "w_boxes w' q = Some e"
    show "v_mark (view (b_cm e)) = PossibleCycles \<longleftrightarrow> q \<in> set qs"
    proof (cases "q = p")
      case True
      with e qs(2) show ?thesis by (auto simp: w'_def)
    next
      case False
      with e cm obtain d where d: "w_boxes w q = Some d" "b_cm d = b_cm e" by (auto simp: w'_def)
      with buffered_mark [OF inv d(1)] have "v_mark (view (b_cm e)) = PossibleCycles \<longleftrightarrow> q \<in> set ps" by simp
      with qs(1) False show ?thesis by auto
    qed
    assume m: "v_mark (view (b_cm e)) = NonMarked"
    have "isolated h q"
    proof (cases "q = p")
      case True
      with e m qs(3) show ?thesis by (auto simp: w'_def)
    next
      case False
      with e cm obtain d where d: "w_boxes w q = Some d" "b_cm d = b_cm e" by (auto simp: w'_def)
      with buffered_isolated [OF inv d(1)] buffered_mark [OF inv d(1)] m
      have "isolated (w_boxes w) q" "q \<notin> set ps" by auto
      with iso False show ?thesis by simp
    qed
    with links show "isolated (w_boxes w') q" by (simp add: isolated_def w'_def)
  qed
  have "map_option unbuffered_part (?h q) = map_option unbuffered_part (w_boxes w q)" for q
    using pay [of q] p c by (cases "h q"; cases "w_boxes w q") (auto simp: upd_apply payload_def unbuffered_part_def)
  then show "same_but_buffer w w'" by (simp add: same_but_buffer_def w'_def)
qed

lemma add_to_list_ok:
  assumes inv: "buffered ps w" and p: "w_boxes w p = Some b" and m: "v_mark (view (b_cm b)) = NonMarked"
    and tc: "v_tc (view (b_cm b)) < 16383" and n: "length ps + 1 < 2 ^ 64" and alive: "w_pc_alive w"
  shows "\<exists>w' b'. add_to_list p w = Done () w' \<and> buffered (p # ps) w' \<and> same_but_buffer w w'
    \<and> w_boxes w' p = Some b' \<and> v_tc (view (b_cm b')) = 0
    \<and> (\<forall>q. q \<noteq> p \<longrightarrow> map_option payload (w_boxes w' q) = map_option payload (w_boxes w q))
    \<and> (\<forall>q. q \<notin> set (p # ps) \<longrightarrow> w_boxes w' q = w_boxes w q)"
proof -
  let ?h = "w_boxes w" and ?c = "mark PossibleCycles (tc_zero (b_cm b))"
  have np: "p \<notin> set ps" using buffered_mark [OF inv p] m by auto
  note iso = buffered_isolated [OF inv p m] and pc = buffered_repr [OF inv]
  from pc.add_ok [OF pc np iso n] obtain l h where
    1: "pc_add p (w_pc w, ?h) = Done () (l, h)" "pc_repr l h (p # ps)" "frame (insert p (set ps)) ?h h" by blast
  from frame_cm [OF 1(3), of p] p obtain b1 where b1: "h p = Some b1" "b_cm b1 = b_cm b" by auto
  let ?w = "w\<lparr>w_boxes := upd p (\<lambda>b. b\<lparr>b_cm := ?c\<rparr>) h, w_pc := l\<rparr>"
  have "on_cm p reset_tracing_counter h = Done () (upd p (\<lambda>b. b\<lparr>b_cm := tc_zero (b_cm b1)\<rparr>) h)"
    using on_cm_Done [of h p b1 reset_tracing_counter] reset_tracing_counter_eval [OF tc] b1 by simp
  with p m alive 1(1) b1 have "add_to_list p w = Done () ?w"
    by (simp add: add_to_list_def on_boxes_def zoom_def try_pc_def on_possible_cycles_def cm_tests
        thenM_def bindM_def)
  moreover have "buffered (p # ps) ?w" "same_but_buffer w ?w"
    by (rule buffered_step [OF inv p 1(3) order.refl 1(2)]; simp add: cm_upd)+
  moreover have "w_boxes ?w p = Some (b1\<lparr>b_cm := ?c\<rparr>)" using b1 by simp
  moreover have "map_option payload (w_boxes ?w q) = map_option payload (w_boxes w q)" if "q \<noteq> p" for q
    using that frame_payload [OF 1(3), of q] by simp
  moreover have "w_boxes ?w q = w_boxes w q" if "q \<notin> set (p # ps)" for q
    using that frame_out [OF 1(3), of q] by simp
  ultimately show ?thesis by (intro exI [of _ ?w] exI [of _ "b1\<lparr>b_cm := ?c\<rparr>"]) (simp add: cm_upd)
qed

lemma add_to_list_noop:
  "buffered ps w \<Longrightarrow> p \<in> set ps \<Longrightarrow> w_boxes w p = Some b \<Longrightarrow> add_to_list p w = Done () w"
  using buffered_mark [of ps w p b] by (simp add: add_to_list_def on_boxes_def zoom_def bindM_def cm_tests)

lemma remove_from_list_noop:
  "buffered ps w \<Longrightarrow> p \<notin> set ps \<Longrightarrow> w_boxes w p = Some b \<Longrightarrow> remove_from_list p w = Done () w"
  using buffered_mark [of ps w p b] by (simp add: remove_from_list_def on_boxes_def zoom_def bindM_def cm_tests)

lemma remove_from_list_ok:
  assumes inv: "buffered ps w" and p: "w_boxes w p = Some b" and m: "p \<in> set ps" and alive: "w_pc_alive w"
  shows "\<exists>w' b'. remove_from_list p w = Done () w' \<and> buffered (remove1 p ps) w' \<and> same_but_buffer w w'
    \<and> w_boxes w' p = Some b' \<and> view (b_cm b') = (view (b_cm b))\<lparr>v_mark := NonMarked\<rparr>
    \<and> (\<forall>q. q \<noteq> p \<longrightarrow> map_option payload (w_boxes w' q) = map_option payload (w_boxes w q))
    \<and> (\<forall>q. q \<notin> set ps \<longrightarrow> w_boxes w' q = w_boxes w q)"
proof -
  let ?h = "w_boxes w" and ?c = "mark NonMarked (b_cm b)"
  from inv have pc: "pc_repr (w_pc w) ?h ps" by (simp add: buffered_def)
  have dist: "distinct ps" using pc by (rule pc.repr_distinct)
  let ?h1 = "upd p (\<lambda>b. b\<lparr>b_cm := mark NonMarked (b_cm b)\<rparr>) ?h"
  have h1: "?h1 = set_marks {p} NonMarked ?h" by (rule upd_mark)
  have pc1: "pc_repr (w_pc w) ?h1 ps" unfolding h1 by (rule pc.repr_set_marks [OF pc])
  from pc.remove_ok [OF pc1 m] obtain l h where
    1: "pc_remove p (w_pc w, ?h1) = Done () (l, h)" "pc_repr l h (remove1 p ps)" "isolated h p" "frame (set ps) ?h1 h"
    by blast
  from p have "w_boxes w p = Some b" .
  have mk: "v_mark (view (b_cm b)) = PossibleCycles" using buffered_mark [OF inv p] m by simp
  from frame_payload [OF 1(4), of p] p obtain b1 where b1: "h p = Some b1" "b_cm b1 = ?c"
    by (cases "h p") (auto simp: payload_def)
  text \<open>The same memory, with the links changed first and the mark set after.\<close>
  let ?g = "upd p (\<lambda>d. d\<lparr>b_cm := b_cm b\<rparr>) h"
  have g: "frame (set ps) ?h ?g"
  proof -
    have "?g q = ?h q" if "q \<notin> set ps" for q using that m frame_out [OF 1(4) that] by (auto simp: upd_apply)
    moreover have "map_option payload (?g q) = map_option payload (?h q)" for q
      using frame_payload [OF 1(4), of q] p
      by (cases "h q"; cases "?h q") (auto simp: upd_apply payload_def split: if_splits)
    ultimately show ?thesis by (simp add: frame_def)
  qed
  have links: "links ?g q = links h q" for q by (simp add: links_def upd_apply option.map_comp comp_def)
  have eq: "upd p (\<lambda>d. d\<lparr>b_cm := ?c\<rparr>) ?g = h" using b1 by (simp add: upd_id)
  let ?w = "w\<lparr>w_boxes := upd p (\<lambda>d. d\<lparr>b_cm := ?c\<rparr>) ?g, w_pc := l\<rparr>"
  have "remove_from_list p w = Done () (w\<lparr>w_boxes := h, w_pc := l\<rparr>)"
    using p mk alive 1(1) by (simp add: remove_from_list_def on_boxes_def zoom_def try_pc_def
        on_possible_cycles_def cm_tests thenM_def bindM_def)
  moreover have pg: "pc_repr l ?g (remove1 p ps)" using 1(2) links by (rule pc_repr_cong)
  have "set ps \<subseteq> insert p (set ps)" "set (remove1 p ps) - {p} = set ps - {p}" "p \<notin> set (remove1 p ps)"
    using dist by auto
  note st = buffered_step [OF inv p g this(1) pg this(2), of ?c]
  have "buffered (remove1 p ps) ?w" "same_but_buffer w ?w"
    by (rule st; use dist 1(3) links in \<open>simp add: cm_upd isolated_def\<close>)+
  moreover have "map_option payload (h q) = map_option payload (?h q)" if "q \<noteq> p" for q
    using that frame_payload [OF 1(4), of q] by simp
  moreover have "h q = ?h q" if "q \<notin> set ps" for q using that m frame_out [OF 1(4) that] by (auto simp: upd_apply)
  ultimately show ?thesis unfolding eq using b1
    by (intro exI [of _ "w\<lparr>w_boxes := h, w_pc := l\<rparr>"] exI [of _ b1]) (simp add: cm_upd)
qed

end
