(* ===== verification/Cc_Ops.thy ===== *)
theory Cc_Ops
  imports Gc_Buffer
begin

text \<open>
  The operations of \<open>Cc\<close> in \<open>src/src/cc.rs\<close> that run no user code: a \<open>Cc\<close> is the address of its
  \<open>CcBox\<close>. Creation and destruction, which may start a collection, are not here.
\<close>

type_synonym u32 = "32 word"

definition strong_count :: "addr \<Rightarrow> ('f, u32) gc" where
  "strong_count p = bindM (on_boxes (on_cm p counter)) (\<lambda>c. ret (ucast c))"

definition cc_ptr_eq :: "addr \<Rightarrow> addr \<Rightarrow> bool" where
  "cc_ptr_eq this other \<longleftrightarrow> this = other"

definition already_finalized :: "addr \<Rightarrow> ('f, bool) gc" where
  "already_finalized p = bindM (on_boxes (cm_test p needs_finalization)) (\<lambda>b. ret (\<not> b))"

definition finalize_again :: "addr \<Rightarrow> ('f, unit) gc" where
  "finalize_again p = bindM (with_state (getM (\<lambda>w. \<not> st_collecting (w_state w)
       \<and> \<not> st_finalizing (w_state w) \<and> \<not> st_dropping (w_state w)))) (\<lambda>b.
     if b then on_boxes (on_cm p (modifyM (set_finalized False)))
     else panicM (PanicMsg ''Cc::finalize_again cannot be called while collecting''))"

definition mark_alive :: "addr \<Rightarrow> ('f, unit) gc" where
  "mark_alive p = remove_from_list p"

definition cc_clone :: "addr \<Rightarrow> ('f, addr) gc" where
  "cc_clone p =
     thenM (not_tracing ''Cannot clone while tracing!'')
     (bindM (on_boxes (on_cm p increment_counter)) (\<lambda>res. case res of
         Inl _ \<Rightarrow> panicM (PanicMsg ''Too many references has been created to a single Cc'')
       | Inr _ \<Rightarrow> thenM (mark_alive p) (ret p)))"

definition get_elem :: "addr \<Rightarrow> ('f, tval) gc" where
  "get_elem p = bindM (on_boxes (deref p b_elem)) (\<lambda>e. case e of None \<Rightarrow> (\<lambda>w. UB) | Some v \<Rightarrow> ret v)"

definition cc_deref :: "addr \<Rightarrow> ('f, tval) gc" where
  "cc_deref p = thenM (not_tracing ''Cannot deref while tracing!'') (get_elem p)"

text \<open>\<open>Inr t\<close> is \<open>Ok(t)\<close>; \<open>Inl p\<close> hands the \<open>Cc\<close> back.\<close>

definition try_unwrap :: "addr \<Rightarrow> ('f, addr + tval) gc" where
  "try_unwrap p = bindM (strong_count p) (\<lambda>n. if n \<noteq> 1 then ret (Inl p) else
     bindM (try_state (
       bindM (getM (\<lambda>w. st_collecting (w_state w) \<or> st_dropping (w_state w))) (\<lambda>busy.
       if busy then ret None else
       bindM (getM (\<lambda>w. st_finalizing (w_state w))) (\<lambda>fin.
       if fin then ret None else
         thenM (remove_from_list p)
        (bindM (get_elem p) (\<lambda>t.
         bindM (box_layout p) (\<lambda>layout.
         thenM (drop_metadata p)
        (thenM (cc_dealloc p layout)
               (ret (Some t)))))))))) (\<lambda>res. case res of
       Some (Some t) \<Rightarrow> ret (Inr t)
     | _ \<Rightarrow> ret (Inl p)))"

subsection \<open>What the checks let through\<close>

definition calm :: "'f world \<Rightarrow> bool" where
  "calm w \<longleftrightarrow> w_state_alive w \<and> w_pc_alive w \<and> \<not> is_tracing (w_state w)"

lemma not_tracing_calm [simp]: "calm w \<Longrightarrow> not_tracing msg w = Done () w"
  by (simp add: calm_def not_tracing_def with_state_def bindM_def)

lemma not_tracing_panics:
  "w_state_alive w \<Longrightarrow> is_tracing (w_state w) \<Longrightarrow> not_tracing msg w = Panicked (PanicMsg msg) w"
  by (simp add: not_tracing_def with_state_def bindM_def)

lemma thenM_not_tracing_panics:
  "w_state_alive w \<Longrightarrow> is_tracing (w_state w) \<Longrightarrow> thenM (not_tracing msg) m w = Panicked (PanicMsg msg) w"
  by (simp add: not_tracing_panics)

lemma mark_alive_ok:
  assumes inv: "buffered ps w" and p: "w_boxes w p = Some b" and alive: "w_pc_alive w"
  shows "\<exists>w'. mark_alive p w = Done () w' \<and> buffered (remove1 p ps) w' \<and> same_but_buffer w w'"
proof (cases "p \<in> set ps")
  case True
  with remove_from_list_ok [OF inv p True alive] show ?thesis by (auto simp: mark_alive_def)
next
  case False
  with remove_from_list_noop [OF inv False p] inv show ?thesis
    by (auto simp: mark_alive_def remove1_idem)
qed

text \<open>Writing the part of a counter marker the buffer does not read.\<close>

lemma buffered_set_cm:
  assumes inv: "buffered ps w" and p: "w_boxes w p = Some b" and m: "v_mark (view c) = v_mark (view (b_cm b))"
  shows "buffered ps (w\<lparr>w_boxes := upd p (\<lambda>b. b\<lparr>b_cm := c\<rparr>) (w_boxes w)\<rparr>)"
proof -
  have links: "links (upd p (\<lambda>b. b\<lparr>b_cm := c\<rparr>) (w_boxes w)) q = links (w_boxes w) q" for q
    by (simp add: links_def upd_apply option.map_comp comp_def)
  then show ?thesis
    using inv p m by (auto simp: buffered_def upd_apply isolated_def intro: pc_repr_cong split: if_splits)
qed

subsection \<open>clone\<close>

lemma cc_clone_ok:
  assumes inv: "buffered ps w" and p: "w_boxes w p = Some b" and n: "v_rc (view (b_cm b)) < 16382" and calm: "calm w"
  shows "\<exists>w' v. cc_clone p w = Done p w' \<and> buffered (remove1 p ps) w' \<and> same_but_buffer v w'
    \<and> v = w\<lparr>w_boxes := upd p (\<lambda>b. b\<lparr>b_cm := rc_plus_one (b_cm b)\<rparr>) (w_boxes w)\<rparr>"
proof -
  let ?v = "w\<lparr>w_boxes := upd p (\<lambda>d. d\<lparr>b_cm := rc_plus_one (b_cm b)\<rparr>) (w_boxes w)\<rparr>"
  have inc: "on_cm p increment_counter (w_boxes w) = Done (Inr ()) (upd p (\<lambda>d. d\<lparr>b_cm := rc_plus_one (b_cm b)\<rparr>) (w_boxes w))"
    using on_cm_Done [of "w_boxes w" p b increment_counter] p n increment_counter_eval [of "b_cm b"] by simp
  have v: "buffered ps ?v" using n by (intro buffered_set_cm [OF inv p]) (simp add: cm_upd)
  have "w_boxes ?v p = Some (b\<lparr>b_cm := rc_plus_one (b_cm b)\<rparr>)" "w_pc_alive ?v"
    using p calm by (simp_all add: calm_def)
  from mark_alive_ok [OF v this] obtain w' where
    "mark_alive p ?v = Done () w'" "buffered (remove1 p ps) w'" "same_but_buffer ?v w'" by blast
  moreover have "upd p (\<lambda>b. b\<lparr>b_cm := rc_plus_one (b_cm b)\<rparr>) (w_boxes w) = upd p (\<lambda>d. d\<lparr>b_cm := rc_plus_one (b_cm b)\<rparr>) (w_boxes w)"
    using p by (intro ext) (simp add: upd_apply)
  ultimately show ?thesis
    using calm inc by (auto simp: cc_clone_def on_boxes_def zoom_def bindM_def)
qed

lemma cc_clone_overflow:
  assumes p: "w_boxes w p = Some b" and n: "v_rc (view (b_cm b)) = 16382" and calm: "calm w"
  shows "cc_clone p w = Panicked (PanicMsg ''Too many references has been created to a single Cc'') w"
proof -
  have "on_cm p increment_counter (w_boxes w) = Done (Inl OverflowError) (w_boxes w)"
    using on_cm_read [of "w_boxes w" p b increment_counter] p n increment_counter_eval [of "b_cm b"] by simp
  with calm show ?thesis by (simp add: cc_clone_def on_boxes_def zoom_def bindM_def)
qed

subsection \<open>Finalizing again\<close>

lemma finalize_again_ok:
  assumes p: "w_boxes w p = Some b" and "w_state_alive w"
    and "\<not> st_collecting (w_state w)" "\<not> st_finalizing (w_state w)" "\<not> st_dropping (w_state w)"
  shows "thenM (finalize_again p) (already_finalized p) w
    = Done False (w\<lparr>w_boxes := upd p (\<lambda>b. b\<lparr>b_cm := set_finalized False (b_cm b)\<rparr>) (w_boxes w)\<rparr>)"
proof -
  have "upd p (\<lambda>d. d\<lparr>b_cm := set_finalized False (b_cm b)\<rparr>) (w_boxes w) = upd p (\<lambda>b. b\<lparr>b_cm := set_finalized False (b_cm b)\<rparr>) (w_boxes w)"
    using p by (intro ext) (simp add: upd_apply)
  then show ?thesis
    using assms by (simp add: finalize_again_def already_finalized_def with_state_def on_boxes_def zoom_def
        bindM_def thenM_def on_cm_Done cm_tests cm_upd)
qed

lemma finalize_again_busy:
  "w_state_alive w \<Longrightarrow> st_collecting (w_state w) \<or> st_finalizing (w_state w) \<or> st_dropping (w_state w) \<Longrightarrow>
   finalize_again p w = Panicked (PanicMsg ''Cc::finalize_again cannot be called while collecting'') w"
  by (auto simp: finalize_again_def with_state_def bindM_def)

end
