(* ===== verification/Weak_Ptr.thy ===== *)
theory Weak_Ptr
  imports Cc_Ops "HOL-Library.Multiset"
begin

text \<open>
  Weak pointers: \<open>src/src/weak/mod.rs\<close>. A \<open>Weak\<close> holds the address of the metadata allocation, None
  if it was made by \<open>Weak::new\<close>, and the address of the box, which may have been freed.
\<close>

record weak_ptr =
  wk_metadata :: "maddr option"
  wk_cc :: addr

text \<open>\<open>NonNull::dangling()\<close> is an address of no allocation; it is a parameter.\<close>

definition weak_ptr_new :: "addr \<Rightarrow> weak_ptr" where
  "weak_ptr_new dangling = \<lparr>wk_metadata = None, wk_cc = dangling\<rparr>"

fun weak_ptr_eq :: "weak_ptr \<Rightarrow> weak_ptr \<Rightarrow> bool" where
  "weak_ptr_eq this other = (case (wk_metadata this, wk_metadata other) of
     (None, None) \<Rightarrow> True
   | (None, Some _) \<Rightarrow> False
   | (Some _, None) \<Rightarrow> False
   | (Some m1, Some m2) \<Rightarrow> m1 = m2)"

text \<open>\<open>self.weak_counter_marker().map_or(d, f)\<close>\<close>

definition wcm_map_or :: "weak_ptr \<Rightarrow> 'a \<Rightarrow> (weak_counter_marker \<Rightarrow> 'a) \<Rightarrow> ('f, 'a) gc" where
  "wcm_map_or k d f = (case wk_metadata k of None \<Rightarrow> ret d | Some m \<Rightarrow> on_wcm m (getM f))"

definition weak_strong_count :: "weak_ptr \<Rightarrow> ('f, u32) gc" where
  "weak_strong_count k = bindM (wcm_map_or k False is_accessible) (\<lambda>acc.
     if acc then
       bindM (on_boxes (on_cm (wk_cc k) counter)) (\<lambda>c.
       if c = 0 then ret 0 else
       bindM (on_boxes (cm_test (wk_cc k) is_dropped)) (\<lambda>dropped.
       if dropped then ret 0 else
       bindM (on_boxes (cm_test (wk_cc k) is_in_list_or_queue)) (\<lambda>listed.
       if listed then
         bindM (try_state (getM (\<lambda>w. st_dropping (w_state w)))) (\<lambda>dropping.
         if (case dropping of Some b \<Rightarrow> b | None \<Rightarrow> True) then ret 0 else ret (ucast c))
       else ret (ucast c))))
     else ret 0)"

definition weak_weak_count :: "weak_ptr \<Rightarrow> ('f, u32) gc" where
  "weak_weak_count k = wcm_map_or k 0 (\<lambda>w. ucast (weak_counter w))"

definition weak_upgrade :: "weak_ptr \<Rightarrow> ('f, addr option) gc" where
  "weak_upgrade k =
     thenM (not_tracing ''Cannot upgrade while tracing!'')
     (bindM (weak_strong_count k) (\<lambda>n. if n = 0 then ret None else
        bindM (on_boxes (on_cm (wk_cc k) increment_counter)) (\<lambda>res. case res of
          Inl _ \<Rightarrow> panicM (PanicMsg ''Too many references has been created to a single Cc'')
        | Inr _ \<Rightarrow> thenM (mark_alive (wk_cc k)) (ret (Some (wk_cc k))))))"

definition weak_clone :: "weak_ptr \<Rightarrow> ('f, weak_ptr) gc" where
  "weak_clone k =
     thenM (not_tracing ''Cannot clone while tracing!'')
    (thenM (case wk_metadata k of None \<Rightarrow> ret ()
       | Some m \<Rightarrow> bindM (on_wcm m weak_increment_counter) (\<lambda>res. case res of
           Inl _ \<Rightarrow> panicM (PanicMsg ''Too many references has been created to a single Weak'')
         | Inr _ \<Rightarrow> ret ()))
     (ret k))"

definition weak_drop :: "weak_ptr \<Rightarrow> ('f, unit) gc" where
  "weak_drop k = (case wk_metadata k of None \<Rightarrow> ret ()
     | Some metadata \<Rightarrow>
         thenM (bindM (on_wcm metadata weak_decrement_counter) (\<lambda>res. debug_assert (case res of Inl _ \<Rightarrow> False | Inr _ \<Rightarrow> True)))
        (bindM (on_wcm metadata (getM weak_counter)) (\<lambda>c.
         bindM (on_wcm metadata (getM is_accessible)) (\<lambda>acc.
         if c = 0 \<and> \<not> acc then dealloc_other metadata else ret ()))))"

definition downgrade :: "allocator \<Rightarrow> addr \<Rightarrow> ('f, weak_ptr) gc" where
  "downgrade al p =
     thenM (not_tracing ''Cannot downgrade while tracing!'')
    (bindM (get_or_init_metadata al p) (\<lambda>metadata.
     bindM (on_wcm metadata weak_increment_counter) (\<lambda>res. case res of
       Inl _ \<Rightarrow> panicM (PanicMsg ''Too many references has been created to a single Weak'')
     | Inr _ \<Rightarrow> thenM (mark_alive p) (ret \<lparr>wk_metadata = Some metadata, wk_cc = p\<rparr>))))"

definition cc_weak_count :: "addr \<Rightarrow> ('f, u32) gc" where
  "cc_weak_count p = bindM (on_boxes (cm_test p has_allocated_for_metadata)) (\<lambda>b.
     if b then bindM (get_metadata_unchecked p) (\<lambda>m. on_wcm m (getM (\<lambda>w. ucast (weak_counter w))))
     else ret 0)"

subsection \<open>The invariant of the metadata allocations\<close>

text \<open>
  \<open>W\<close> are the weak pointers that exist. A box whose flag is set owns a metadata allocation, alone;
  the weak counter of an allocation is the number of weak pointers to it; it says accessible exactly
  as long as its box exists; and an allocation whose box is gone has a weak pointer left.
\<close>

definition to_meta :: "maddr \<Rightarrow> weak_ptr multiset \<Rightarrow> weak_ptr multiset" where
  "to_meta m W = filter_mset (\<lambda>k. wk_metadata k = Some m) W"

definition owner :: "'f world \<Rightarrow> addr \<Rightarrow> maddr \<Rightarrow> bool" where
  "owner w p m \<longleftrightarrow> (\<exists>b. w_boxes w p = Some b \<and> v_meta (view (b_cm b)) \<and> b_metadata b = MetaBoxed m)"

definition union_ok :: "'f world \<Rightarrow> bool" where
  "union_ok w \<longleftrightarrow> (\<forall>p b. w_boxes w p = Some b \<longrightarrow>
     (if v_meta (view (b_cm b)) then (\<exists>m. b_metadata b = MetaBoxed m) else (\<exists>vt. b_metadata b = MetaVTable vt)))"

definition weak_inv :: "weak_ptr multiset \<Rightarrow> 'f world \<Rightarrow> bool" where
  "weak_inv W w \<longleftrightarrow> union_ok w \<and>
     (\<forall>p m. owner w p m \<longrightarrow> (\<exists>bm. w_meta w m = Some bm \<and> w_acc (wview (bm_weak bm)))) \<and>
     (\<forall>p q m. owner w p m \<longrightarrow> owner w q m \<longrightarrow> p = q) \<and>
     (\<forall>m bm. w_meta w m = Some bm \<longrightarrow> w_count (wview (bm_weak bm)) = size (to_meta m W)) \<and>
     (\<forall>m bm. w_meta w m = Some bm \<longrightarrow> (if w_acc (wview (bm_weak bm))
        then (\<exists>p. owner w p m) else 0 < size (to_meta m W))) \<and>
     (\<forall>k m. k \<in># W \<longrightarrow> wk_metadata k = Some m \<longrightarrow> (\<exists>bm. w_meta w m = Some bm \<and>
        (w_acc (wview (bm_weak bm)) \<longrightarrow> owner w (wk_cc k) m)))"

lemma weak_invD:
  assumes "weak_inv W w"
  shows "union_ok w" "owner w p m \<Longrightarrow> \<exists>bm. w_meta w m = Some bm \<and> w_acc (wview (bm_weak bm))"
    "owner w p m \<Longrightarrow> owner w q m \<Longrightarrow> p = q"
    "w_meta w m = Some bm \<Longrightarrow> w_count (wview (bm_weak bm)) = size (to_meta m W)"
    "w_meta w m = Some bm \<Longrightarrow> w_acc (wview (bm_weak bm)) \<Longrightarrow> \<exists>p. owner w p m"
    "w_meta w m = Some bm \<Longrightarrow> \<not> w_acc (wview (bm_weak bm)) \<Longrightarrow> 0 < size (to_meta m W)"
    "k \<in># W \<Longrightarrow> wk_metadata k = Some m \<Longrightarrow> \<exists>bm. w_meta w m = Some bm \<and> (w_acc (wview (bm_weak bm)) \<longrightarrow> owner w (wk_cc k) m)"
  using assms unfolding weak_inv_def by metis+

lemma weak_inv_has_vtable:
  assumes "weak_inv W w" "w_boxes w p = Some b"
  shows "has_vtable (w_meta w) (b_metadata b) (v_meta (view (b_cm b)))"
proof (cases "v_meta (view (b_cm b))")
  case True
  with weak_invD(1) [OF assms(1)] assms(2) obtain m where m: "b_metadata b = MetaBoxed m" unfolding union_ok_def by metis
  with True assms(2) have "owner w p m" by (simp add: owner_def)
  from weak_invD(2) [OF assms(1) this] m True show ?thesis by auto
next
  case False
  with weak_invD(1) [OF assms(1)] assms(2) obtain vt where "b_metadata b = MetaVTable vt" unfolding union_ok_def by metis
  with False show ?thesis by simp
qed

lemma weak_inv_get_traceable: "weak_inv W w \<Longrightarrow> w_boxes w p = Some b \<Longrightarrow> get_traceable p w = Done p w"
  using get_traceable_box weak_inv_has_vtable by blast

lemma to_meta_simps [simp]:
  "to_meta m (add_mset k W) = (if wk_metadata k = Some m then add_mset k (to_meta m W) else to_meta m W)"
  "to_meta m {#} = {#}"
  by (simp_all add: to_meta_def)

lemma to_meta_mem: "k \<in># to_meta m W \<longleftrightarrow> k \<in># W \<and> wk_metadata k = Some m"
  by (simp add: to_meta_def)

lemma weak_inv_owner:
  "weak_inv W w \<Longrightarrow> k \<in># W \<Longrightarrow> wk_metadata k = Some m \<Longrightarrow> w_meta w m = Some bm \<Longrightarrow>
   w_acc (wview (bm_weak bm)) \<Longrightarrow> owner w (wk_cc k) m"
  using weak_invD(7) [of W w k m] by auto

text \<open>The invariant looks at nothing but the owners and the metadata.\<close>

definition box_meta :: "ccbox \<Rightarrow> bool \<times> metadata" where
  "box_meta b = (v_meta (view (b_cm b)), b_metadata b)"

lemma weak_inv_cong:
  assumes inv: "weak_inv W w" and meta: "w_meta w' = w_meta w"
    and boxes: "\<And>p. map_option box_meta (w_boxes w' p) = map_option box_meta (w_boxes w p)"
  shows "weak_inv W w'"
proof -
  have own: "owner w' = owner w"
  proof (intro ext)
    fix p m
    show "owner w' p m = owner w p m"
      using boxes [of p] by (cases "w_boxes w p"; cases "w_boxes w' p") (auto simp: owner_def box_meta_def)
  qed
  have "union_ok w'"
    unfolding union_ok_def
  proof (intro allI impI)
    fix p b assume "w_boxes w' p = Some b"
    with boxes [of p] obtain c where "w_boxes w p = Some c" "box_meta c = box_meta b" by (cases "w_boxes w p") auto
    with weak_invD(1) [OF inv] show "if v_meta (view (b_cm b)) then \<exists>m. b_metadata b = MetaBoxed m else \<exists>vt. b_metadata b = MetaVTable vt"
      unfolding union_ok_def box_meta_def by (metis prod.inject)
  qed
  with inv show ?thesis unfolding weak_inv_def own meta by blast
qed

lemma weak_inv_buffer: "weak_inv W w \<Longrightarrow> same_but_buffer w w' \<Longrightarrow> weak_inv W w'"
proof (rule weak_inv_cong, assumption)
  assume s: "same_but_buffer w w'"
  then have "w' = w\<lparr>w_boxes := w_boxes w', w_pc := w_pc w'\<rparr>" by (simp add: same_but_buffer_def)
  then show "w_meta w' = w_meta w" by (metis world.select_convs(2) world.surjective world.update_convs(1,3))
  fix p
  from s have "map_option unbuffered_part (w_boxes w' p) = map_option unbuffered_part (w_boxes w p)"
    by (simp add: same_but_buffer_def)
  then show "map_option box_meta (w_boxes w' p) = map_option box_meta (w_boxes w p)"
    by (cases "w_boxes w p"; cases "w_boxes w' p") (auto simp: unbuffered_part_def box_meta_def)
qed

text \<open>A change of the counter of one allocation, matched by a change of the weak pointers to it.\<close>

lemma weak_inv_count:
  assumes inv: "weak_inv W w" and m: "w_meta w m = Some bm"
    and bm': "w_acc (wview (bm_weak bm')) = w_acc (wview (bm_weak bm))"
      "w_count (wview (bm_weak bm')) = size (to_meta m V)"
      "w_acc (wview (bm_weak bm)) \<or> 0 < size (to_meta m V)"
    and other: "\<And>n. n \<noteq> m \<Longrightarrow> to_meta n V = to_meta n W"
    and new: "\<And>k. k \<in># V \<Longrightarrow> wk_metadata k = Some m \<Longrightarrow> w_acc (wview (bm_weak bm)) \<Longrightarrow> owner w (wk_cc k) m"
  shows "weak_inv V (w\<lparr>w_meta := (w_meta w)(m \<mapsto> bm')\<rparr>)"
proof -
  note d = weak_invD [OF inv]
  let ?w = "w\<lparr>w_meta := (w_meta w)(m \<mapsto> bm')\<rparr>"
  have own: "owner ?w = owner w" by (intro ext) (simp add: owner_def)
  have inW: "k \<in># W" if "k \<in># V" "wk_metadata k = Some n" "n \<noteq> m" for k n
  proof -
    have "k \<in># to_meta n V" using that by (simp add: to_meta_mem)
    then show ?thesis using other [OF that(3)] by (simp add: to_meta_mem)
  qed
  show ?thesis
    unfolding weak_inv_def own
  proof (intro conjI allI impI)
    show "union_ok ?w" using d(1) by (simp add: union_ok_def)
    show "p = q" if "owner w p n" "owner w q n" for p q n using that by (rule d(3))
    show "\<exists>cm. w_meta ?w n = Some cm \<and> w_acc (wview (bm_weak cm))" if "owner w p n" for p n
      using d(2) [OF that] m bm'(1) by auto
    show "w_count (wview (bm_weak cm)) = size (to_meta n V)" if "w_meta ?w n = Some cm" for n cm
      using that d(4) [of n cm] bm'(2) other [of n] by (auto split: if_splits)
    show "if w_acc (wview (bm_weak cm)) then \<exists>p. owner w p n else 0 < size (to_meta n V)" if "w_meta ?w n = Some cm" for n cm
      using that d(5,6) [of n cm] d(5) [OF m] bm'(1,3) other [of n] by (auto split: if_splits)
    show "\<exists>cm. w_meta ?w n = Some cm \<and> (w_acc (wview (bm_weak cm)) \<longrightarrow> owner w (wk_cc k) n)"
      if "k \<in># V" "wk_metadata k = Some n" for k n
      using that d(7) [OF inW [OF that], OF _ that(2)] new [OF that(1)] bm'(1) by (cases "n = m") auto
  qed
qed

subsection \<open>clone and drop\<close>

lemma on_wcm_read:
  "w_meta w m = Some bm \<Longrightarrow> on_wcm m (getM f) w = Done (f (bm_weak bm)) w"
  by (simp add: on_wcm_def zoom_def fun_upd_idem)

lemma on_wcm_Done:
  "w_meta w m = Some bm \<Longrightarrow> p (bm_weak bm) = Done a c \<Longrightarrow>
   on_wcm m p w = Done a (w\<lparr>w_meta := (w_meta w)(m \<mapsto> bm\<lparr>bm_weak := c\<rparr>)\<rparr>)"
  by (simp add: on_wcm_def zoom_def)

text \<open>No allocation appears, and those that stay keep their vtable.\<close>

definition metas_kept :: "(maddr \<Rightarrow> boxed_metadata option) \<Rightarrow> (maddr \<Rightarrow> boxed_metadata option) \<Rightarrow> bool" where
  "metas_kept M M' \<longleftrightarrow> (\<forall>m c. M' m = Some c \<longrightarrow> (\<exists>b. M m = Some b \<and> bm_vtable c = bm_vtable b))"

lemma metas_kept_refl [simp]: "metas_kept M M"
  by (simp add: metas_kept_def)

lemma metas_kept_trans: "metas_kept M M' \<Longrightarrow> metas_kept M' M'' \<Longrightarrow> metas_kept M M''"
  unfolding metas_kept_def by fastforce

lemma metas_kept_upd:
  "metas_kept M (M(m := None))" "M m = Some b \<Longrightarrow> bm_vtable c = bm_vtable b \<Longrightarrow> metas_kept M (M(m \<mapsto> c))"
  by (auto simp: metas_kept_def)

lemma weak_clone_frame:
  assumes inv: "weak_inv W w" and k: "k \<in># W" "wk_metadata k = Some m" and calm: "calm w"
    and n: "size (to_meta m W) < 32767"
  shows "\<exists>M. weak_clone k w = Done k (w\<lparr>w_meta := M\<rparr>) \<and> weak_inv (add_mset k W) (w\<lparr>w_meta := M\<rparr>) \<and> metas_kept (w_meta w) M"
proof -
  from weak_invD(7) [OF inv k] obtain bm where bm: "w_meta w m = Some bm"
    "w_acc (wview (bm_weak bm)) \<Longrightarrow> owner w (wk_cc k) m" by blast
  from weak_invD(4) [OF inv bm(1)] n have c: "w_count (wview (bm_weak bm)) \<noteq> 32767" by simp
  let ?c = "(bm_weak bm)\<lparr>weak_counter_cell := weak_counter_cell (bm_weak bm) + 1\<rparr>"
  let ?w = "w\<lparr>w_meta := (w_meta w)(m \<mapsto> bm\<lparr>bm_weak := ?c\<rparr>)\<rparr>"
  have "on_wcm m weak_increment_counter w = Done (Inr ()) ?w"
    using c by (intro on_wcm_Done [OF bm(1)]) (simp add: weak_increment_eval)
  with calm k(2) have "weak_clone k w = Done k ?w" by (simp add: weak_clone_def)
  moreover have "weak_inv (add_mset k W) ?w"
    using weak_invD(4,6) [OF inv bm(1)] weak_inv_owner [OF inv _ _ bm(1)] bm(2) k(2) wview_plus(2) [OF c]
    by (intro weak_inv_count [OF inv bm(1)]) auto
  moreover have "metas_kept (w_meta w) ((w_meta w)(m \<mapsto> bm\<lparr>bm_weak := ?c\<rparr>))" using bm(1) by (intro metas_kept_upd(2) [of "w_meta w" m bm]) simp_all
  ultimately show ?thesis by blast
qed

lemma weak_clone_ok:
  assumes "weak_inv W w" "k \<in># W" "wk_metadata k = Some m" "calm w" "size (to_meta m W) < 32767"
  shows "\<exists>w'. weak_clone k w = Done k w' \<and> weak_inv (add_mset k W) w'"
  using weak_clone_frame [OF assms] by blast

lemma weak_clone_overflow:
  assumes inv: "weak_inv W w" and k: "k \<in># W" "wk_metadata k = Some m" and calm: "calm w"
    and n: "size (to_meta m W) = 32767"
  shows "weak_clone k w = Panicked (PanicMsg ''Too many references has been created to a single Weak'') w"
proof -
  from weak_invD(7) [OF inv k] obtain bm where bm: "w_meta w m = Some bm" by blast
  from weak_invD(4) [OF inv bm] n have "w_count (wview (bm_weak bm)) = 32767" by simp
  then have "on_wcm m weak_increment_counter w = Done (Inl WeakOverflowError) (w\<lparr>w_meta := (w_meta w)(m \<mapsto> bm\<lparr>bm_weak := bm_weak bm\<rparr>)\<rparr>)"
    by (intro on_wcm_Done [OF bm]) (simp add: weak_increment_eval)
  with bm have "on_wcm m weak_increment_counter w = Done (Inl WeakOverflowError) w" by (simp add: fun_upd_idem)
  with calm k(2) show ?thesis by (simp add: weak_clone_def)
qed

lemma weak_inv_dealloc:
  assumes inv: "weak_inv W w" and m: "w_meta w m = Some bm" "\<not> w_acc (wview (bm_weak bm))"
    and V: "to_meta m V = {#}" "\<And>n. n \<noteq> m \<Longrightarrow> to_meta n V = to_meta n W"
  shows "weak_inv V (w\<lparr>w_meta := (w_meta w)(m := None)\<rparr>)"
proof -
  note d = weak_invD [OF inv]
  let ?w = "w\<lparr>w_meta := (w_meta w)(m := None)\<rparr>"
  have own: "owner ?w = owner w" by (intro ext) (simp add: owner_def)
  have nm: "n \<noteq> m" if "owner w p n" for p n using d(2) [OF that] m by auto
  have inW: "k \<in># W \<and> n \<noteq> m" if "k \<in># V" "wk_metadata k = Some n" for k n
  proof -
    have k: "k \<in># to_meta n V" using that by (simp add: to_meta_mem)
    then have "n \<noteq> m" using V(1) by auto
    with k V(2) [OF this] show ?thesis by (simp add: to_meta_mem)
  qed
  show ?thesis
    unfolding weak_inv_def own
  proof (intro conjI allI impI)
    show "union_ok ?w" using d(1) by (simp add: union_ok_def)
    show "p = q" if "owner w p n" "owner w q n" for p q n using that by (rule d(3))
    show "\<exists>cm. w_meta ?w n = Some cm \<and> w_acc (wview (bm_weak cm))" if "owner w p n" for p n
      using d(2) [OF that] nm [OF that] by auto
    show "w_count (wview (bm_weak cm)) = size (to_meta n V)" if "w_meta ?w n = Some cm" for n cm
      using that d(4) [of n cm] V(2) [of n] by (auto split: if_splits)
    show "if w_acc (wview (bm_weak cm)) then \<exists>p. owner w p n else 0 < size (to_meta n V)" if "w_meta ?w n = Some cm" for n cm
      using that d(5,6) [of n cm] V(2) [of n] by (auto split: if_splits)
    show "\<exists>cm. w_meta ?w n = Some cm \<and> (w_acc (wview (bm_weak cm)) \<longrightarrow> owner w (wk_cc k) n)"
      if "k \<in># V" "wk_metadata k = Some n" for k n
      using inW [OF that] d(7) [of k n] that(2) by auto
  qed
qed

lemma weak_drop_ok:
  assumes inv: "weak_inv W w" and k: "k \<in># W"
  shows "\<exists>M. weak_drop k w = Done () (w\<lparr>w_meta := M\<rparr>) \<and> weak_inv (W - {#k#}) (w\<lparr>w_meta := M\<rparr>)
    \<and> metas_kept (w_meta w) M"
proof (cases "wk_metadata k")
  case None
  obtain V where V: "W = add_mset k V" using multi_member_split [OF k] by blast
  have eq: "to_meta m W = to_meta m V" for m by (simp add: V None)
  from inv have "weak_inv V w" unfolding weak_inv_def eq by (auto simp: V)
  with None V show ?thesis by (intro exI [of _ "w_meta w"]) (simp add: weak_drop_def)
next
  case (Some m)
  obtain V where V: "W = add_mset k V" using multi_member_split [OF k] by blast
  from weak_invD(7) [OF inv k Some] obtain bm where bm: "w_meta w m = Some bm" by blast
  have cW: "w_count (wview (bm_weak bm)) = Suc (size (to_meta m V))"
    using weak_invD(4) [OF inv bm] by (simp add: V Some)
  then have c: "w_count (wview (bm_weak bm)) \<noteq> 0" by simp
  let ?c = "(bm_weak bm)\<lparr>weak_counter_cell := weak_counter_cell (bm_weak bm) - 1\<rparr>"
  let ?bm = "bm\<lparr>bm_weak := ?c\<rparr>"
  let ?w = "w\<lparr>w_meta := (w_meta w)(m \<mapsto> ?bm)\<rparr>"
  have vc: "wview ?c = (wview (bm_weak bm))\<lparr>w_count := size (to_meta m V)\<rparr>"
    using wview_minus(2) [OF c] cW by simp
  have dec: "on_wcm m weak_decrement_counter w = Done (Inr ()) ?w"
    using c by (intro on_wcm_Done [OF bm]) (simp add: weak_decrement_eval)
  have read: "on_wcm m (getM f) ?w = Done (f ?c) ?w" for f :: "weak_counter_marker \<Rightarrow> 'b"
    using on_wcm_read [of ?w m ?bm f] by simp
  have run: "weak_drop k w = (if size (to_meta m V) = 0 \<and> \<not> w_acc (wview (bm_weak bm)) then dealloc_other m ?w else Done () ?w)"
    using dec by (simp add: weak_drop_def Some thenM_def bindM_def read is_accessible_view weak_counter_eq vc)
  show ?thesis
  proof (cases "size (to_meta m V) = 0 \<and> \<not> w_acc (wview (bm_weak bm))")
    case True
    have "weak_inv V (w\<lparr>w_meta := (w_meta w)(m := None)\<rparr>)"
      using True by (intro weak_inv_dealloc [OF inv bm]) (auto simp: V Some)
    with True show ?thesis unfolding run by (intro exI [of _ "(w_meta w)(m := None)"]) (simp add: dealloc_other_def V metas_kept_upd)
  next
    case False
    have "weak_inv V ?w"
      using False vc weak_inv_owner [OF inv _ _ bm] by (intro weak_inv_count [OF inv bm]) (auto simp: V Some)
    with False show ?thesis unfolding run by (intro exI [of _ "(w_meta w)(m \<mapsto> ?bm)"]) (auto simp: V intro: metas_kept_upd(2) [of "w_meta w" m bm] bm)
  qed
qed

end
