(* ===== verification/Weak_Safety.thy ===== *)
theory Weak_Safety
  imports Weak_Ptr
begin

text \<open>
  The operations that connect weak pointers and boxes: making the metadata, \<open>downgrade\<close>,
  \<open>upgrade\<close>, and freeing a box that weak pointers still point to.
\<close>

subsection \<open>Upgrading\<close>

definition upgradable :: "weak_ptr \<Rightarrow> 'f world \<Rightarrow> bool" where
  "upgradable k w \<longleftrightarrow> (case wk_metadata k of None \<Rightarrow> False | Some m \<Rightarrow>
     (case w_meta w m of None \<Rightarrow> False | Some bm \<Rightarrow>
     (case w_boxes w (wk_cc k) of None \<Rightarrow> False | Some b \<Rightarrow>
        w_acc (wview (bm_weak bm)) \<and> v_rc (view (b_cm b)) \<noteq> 0 \<and> v_tc (view (b_cm b)) \<noteq> 16383 \<and>
        \<not> ((v_mark (view (b_cm b)) = InList \<or> v_mark (view (b_cm b)) = InQueue)
           \<and> (w_state_alive w \<longrightarrow> st_dropping (w_state w))))))"

definition rc_bounded :: "weak_ptr \<Rightarrow> 'f world \<Rightarrow> bool" where
  "rc_bounded k w \<longleftrightarrow> (\<forall>b. w_boxes w (wk_cc k) = Some b \<longrightarrow> v_rc (view (b_cm b)) < 16383)"

lemma word_of_nat_u16_zero: "n < 65536 \<Longrightarrow> (word_of_nat n :: u16) = 0 \<longleftrightarrow> n = 0"
  by (rule word_of_nat_u16_numeral)

lemma weak_strong_count_eval:
  assumes inv: "weak_inv W w" and k: "k \<in># W" and rc: "rc_bounded k w"
  shows "weak_strong_count k w = Done (if upgradable k w
     then ucast (word_of_nat (v_rc (view (b_cm (the (w_boxes w (wk_cc k)))))) :: u16) else 0) w"
proof (cases "wk_metadata k")
  case None
  then show ?thesis by (simp add: weak_strong_count_def wcm_map_or_def upgradable_def bindM_def)
next
  case (Some m)
  from weak_invD(7) [OF inv k Some] obtain bm where bm: "w_meta w m = Some bm"
    "w_acc (wview (bm_weak bm)) \<Longrightarrow> owner w (wk_cc k) m" by blast
  have acc: "on_wcm m (getM is_accessible) w = Done (w_acc (wview (bm_weak bm))) w"
    using on_wcm_read [OF bm(1), of is_accessible] by (simp add: is_accessible_view)
  show ?thesis
  proof (cases "w_acc (wview (bm_weak bm))")
    case False
    with acc bm(1) Some show ?thesis
      by (simp add: weak_strong_count_def wcm_map_or_def upgradable_def bindM_def split: option.splits)
  next
    case True
    from bm(2) [OF True] obtain b where b: "w_boxes w (wk_cc k) = Some b" by (auto simp: owner_def)
    with rc have n: "v_rc (view (b_cm b)) < 16383" by (auto simp: rc_bounded_def)
    have cnt: "on_boxes (on_cm (wk_cc k) counter) w = Done (word_of_nat (v_rc (view (b_cm b)))) w"
      using on_cm_read [of "w_boxes w" "wk_cc k" b counter] b n by (simp add: on_boxes_def zoom_def)
    have tests: "on_boxes (cm_test (wk_cc k) f) w = Done (f (b_cm b)) w" for f
      using b by (simp add: on_boxes_def zoom_def)
    from n have zero: "(word_of_nat (v_rc (view (b_cm b))) :: u16) = 0 \<longleftrightarrow> v_rc (view (b_cm b)) = 0"
      by (intro word_of_nat_u16_zero) simp
    show ?thesis
      using acc True bm(1) Some b zero
      by (simp add: weak_strong_count_def wcm_map_or_def upgradable_def bindM_def cnt tests cm_tests try_state_def)
  qed
qed

lemma u32_zero: "n < 65536 \<Longrightarrow> (ucast (word_of_nat n :: u16) :: u32) = 0 \<longleftrightarrow> n = 0"
  by (simp add: word_unat_eq_iff unsigned_ucast_eq unat_of_nat take_bit_eq_mod)

lemma weak_upgrade_none:
  assumes "weak_inv W w" "k \<in># W" "rc_bounded k w" "calm w" "\<not> upgradable k w"
  shows "weak_upgrade k w = Done None w"
  using assms weak_strong_count_eval [OF assms(1-3)] by (simp add: weak_upgrade_def)

lemma weak_upgrade_some:
  assumes inv: "weak_inv W w" and k: "k \<in># W" and rc: "rc_bounded k w" and calm: "calm w" and up: "upgradable k w"
    and buf: "buffered ps w" and b: "w_boxes w (wk_cc k) = Some b" and n: "v_rc (view (b_cm b)) < 16382"
  shows "\<exists>w' b'. weak_upgrade k w = Done (Some (wk_cc k)) w' \<and> weak_inv W w' \<and> buffered (remove1 (wk_cc k) ps) w'
    \<and> w_boxes w' (wk_cc k) = Some b' \<and> v_rc (view (b_cm b')) = v_rc (view (b_cm b)) + 1"
proof -
  let ?p = "wk_cc k"
  have rc0: "v_rc (view (b_cm b)) \<noteq> 0" using up b by (auto simp: upgradable_def split: option.splits)
  have cnt: "weak_strong_count k w = Done (ucast (word_of_nat (v_rc (view (b_cm b))) :: u16)) w"
    using weak_strong_count_eval [OF inv k rc] up b by simp
  from cc_clone_ok [OF buf b n calm] obtain w' v where
    1: "cc_clone ?p w = Done ?p w'" "buffered (remove1 ?p ps) w'" "same_but_buffer v w'"
    "v = w\<lparr>w_boxes := upd ?p (\<lambda>b. b\<lparr>b_cm := rc_plus_one (b_cm b)\<rparr>) (w_boxes w)\<rparr>" by blast
  have "weak_upgrade k w = Done (Some ?p) w'"
  proof -
    have nz: "(ucast (word_of_nat (v_rc (view (b_cm b))) :: u16) :: u32) \<noteq> 0"
      using rc0 n u32_zero [of "v_rc (view (b_cm b))"] by simp
    from 1(1) calm obtain r v' where "on_boxes (on_cm ?p increment_counter) w = Done r v'"
      "(case r of Inl _ \<Rightarrow> panicM (PanicMsg ''Too many references has been created to a single Cc'')
         | Inr _ \<Rightarrow> thenM (mark_alive ?p) (ret ?p)) v' = Done ?p w'"
      by (auto simp: cc_clone_def bindM_eq_Done)
    then show ?thesis
      using calm cnt nz by (cases r) (auto simp: weak_upgrade_def thenM_eq_Done)
  qed
  moreover have "weak_inv W v"
    by (rule weak_inv_cong [OF inv]) (use n in \<open>auto simp: 1(4) upd_apply box_meta_def option.map_comp comp_def
        b cm_upd intro!: option.map_cong0\<close>)
  then have "weak_inv W w'" using 1(3) by (rule weak_inv_buffer)
  moreover from 1(3) b obtain b' where "w_boxes w' ?p = Some b'" "unbuffered_part b' = unbuffered_part (b\<lparr>b_cm := rc_plus_one (b_cm b)\<rparr>)"
    by (auto simp: same_but_buffer_def 1(4) dest!: spec [of _ ?p])
  ultimately show ?thesis using 1(2) n by (auto simp: unbuffered_part_def cm_upd)
qed

subsection \<open>Freeing a box\<close>

text \<open>
  The end of every box: its metadata is dropped and its memory is freed. The weak pointers to it
  stay valid, and none of them can be upgraded any more.
\<close>

lemma owner_upd: "owner (w\<lparr>w_meta := m\<rparr>) = owner w"
  by (intro ext) (simp add: owner_def)

lemma free_box_ok:
  assumes inv: "weak_inv W w" and p: "w_boxes w p = Some b"
    and bytes: "unat layout \<le> unat (st_allocated_bytes (w_state w))"
  shows "\<exists>M w'. thenM (drop_metadata p) (cc_dealloc p layout) w = Done () w' \<and> weak_inv W w' \<and>
    w' = w\<lparr>w_meta := M, w_state := (w_state w)\<lparr>st_allocated_bytes := st_allocated_bytes (w_state w) - layout\<rparr>,
           w_boxes := (w_boxes w)(p := None)\<rparr> \<and> metas_kept (w_meta w) M \<and> (\<forall>k \<in># W. wk_cc k = p \<longrightarrow> \<not> upgradable k w')"
proof -
  note d = weak_invD [OF inv]
  let ?s = "(w_state w)\<lparr>st_allocated_bytes := st_allocated_bytes (w_state w) - layout\<rparr>"
  have test: "on_boxes (cm_test p has_allocated_for_metadata) w = Done (v_meta (view (b_cm b))) w"
    using p by (simp add: on_boxes_def zoom_def cm_tests)
  have free: "cc_dealloc p layout (w\<lparr>w_meta := m\<rparr>) = Done () (w\<lparr>w_meta := m, w_state := ?s, w_boxes := (w_boxes w)(p := None)\<rparr>)" for m
    using p bytes by (simp add: cc_dealloc_def on_state_def zoom_def record_deallocation_eval thenM_def bindM_def)
  have unown: "owner (w\<lparr>w_meta := m, w_state := ?s, w_boxes := (w_boxes w)(p := None)\<rparr>) q n \<longleftrightarrow> owner w q n \<and> q \<noteq> p" for m q n
    by (auto simp: owner_def)
  have union: "union_ok (w\<lparr>w_meta := m, w_state := ?s, w_boxes := (w_boxes w)(p := None)\<rparr>)" for m
    using d(1) by (simp add: union_ok_def)
  have dead: "\<not> upgradable k (w\<lparr>w_meta := m, w_state := ?s, w_boxes := (w_boxes w)(p := None)\<rparr>)" if "wk_cc k = p" for k m
    using that by (simp add: upgradable_def split: option.splits)
  show ?thesis
  proof (cases "v_meta (view (b_cm b))")
    case False
    have no: "\<not> owner w p n" for n using p False by (simp add: owner_def)
    have "drop_metadata p w = Done () w" by (simp add: drop_metadata_def test False bindM_def)
    with free [of "w_meta w"] have "thenM (drop_metadata p) (cc_dealloc p layout) w
        = Done () (w\<lparr>w_meta := w_meta w, w_state := ?s, w_boxes := (w_boxes w)(p := None)\<rparr>)" by simp
    moreover have "weak_inv W (w\<lparr>w_meta := w_meta w, w_state := ?s, w_boxes := (w_boxes w)(p := None)\<rparr>)"
    proof -
      have eq: "owner w q n \<and> q \<noteq> p \<longleftrightarrow> owner w q n" for q n using no by auto
      show ?thesis using inv union [of "w_meta w"] unfolding weak_inv_def unown eq by simp
    qed
    ultimately show ?thesis using dead [of _ "w_meta w"] metas_kept_refl by blast
  next
    case True
    with d(1) p obtain m where m: "b_metadata b = MetaBoxed m" unfolding union_ok_def by metis
    with p True have own: "owner w p m" by (simp add: owner_def)
    from d(2) [OF this] obtain bm where bm: "w_meta w m = Some bm" "w_acc (wview (bm_weak bm))" by blast
    have get: "get_metadata_unchecked p w = Done m w"
      using p m by (simp add: get_metadata_unchecked_def on_boxes_def zoom_def bindM_def)
    have cnt: "on_wcm m (getM weak_counter) w = Done (weak_counter (bm_weak bm)) w" by (rule on_wcm_read [OF bm(1)])
    let ?bm = "bm\<lparr>bm_weak := set_accessible False (bm_weak bm)\<rparr>"
    let ?M = "if size (to_meta m W) = 0 then (w_meta w)(m := None) else (w_meta w)(m \<mapsto> ?bm)"
    have "drop_metadata p w = Done () (w\<lparr>w_meta := ?M\<rparr>)"
      using d(4) [OF bm(1)] by (simp add: drop_metadata_def test True bindM_def get cnt weak_counter_eq
          dealloc_other_def bm(1) on_wcm_Done)
    with free [of ?M] have "thenM (drop_metadata p) (cc_dealloc p layout) w
        = Done () (w\<lparr>w_meta := ?M, w_state := ?s, w_boxes := (w_boxes w)(p := None)\<rparr>)" by simp
    moreover have "weak_inv W (w\<lparr>w_meta := ?M, w_state := ?s, w_boxes := (w_boxes w)(p := None)\<rparr>)"
      unfolding weak_inv_def unown
    proof (intro conjI allI impI)
      let ?w = "w\<lparr>w_meta := ?M, w_state := ?s, w_boxes := (w_boxes w)(p := None)\<rparr>"
      show "union_ok ?w" by (rule union)
      have nm: "n \<noteq> m" if "owner w q n" "q \<noteq> p" for q n using d(3) [OF that(1), of p] own that by auto
      show "\<exists>cm. w_meta ?w n = Some cm \<and> w_acc (wview (bm_weak cm))" if "owner w q n \<and> q \<noteq> p" for q n
        using d(2) [of q n] nm [of q n] that by auto
      show "q = r" if "owner w q n \<and> q \<noteq> p" "owner w r n \<and> r \<noteq> p" for q r n using that d(3) by blast
      show "w_count (wview (bm_weak cm)) = size (to_meta n W)" if "w_meta ?w n = Some cm" for n cm
        using that d(4) [of n cm] d(4) [OF bm(1)] by (auto simp: wview_set_accessible split: if_splits)
      show "if w_acc (wview (bm_weak cm)) then \<exists>q. owner w q n \<and> q \<noteq> p else 0 < size (to_meta n W)"
        if "w_meta ?w n = Some cm" for n cm
      proof (cases "n = m")
        case True
        with that nonempty_has_size [of "to_meta m W"] show ?thesis by (auto simp: wview_set_accessible split: if_splits)
      next
        case False
        with that have cm: "w_meta w n = Some cm" by (auto split: if_splits)
        have "\<not> owner w p n" using False p m by (auto simp: owner_def)
        with d(5,6) [OF cm] show ?thesis by auto
      qed
      show "\<exists>cm. w_meta ?w n = Some cm \<and> (w_acc (wview (bm_weak cm)) \<longrightarrow> owner w (wk_cc k) n \<and> wk_cc k \<noteq> p)"
        if k: "k \<in># W" "wk_metadata k = Some n" for k n
      proof (cases "n = m")
        case True
        with k have "k \<in># to_meta m W" by (simp add: to_meta_mem)
        then have "size (to_meta m W) \<noteq> 0" by auto
        with True show ?thesis by (simp add: wview_set_accessible)
      next
        case False
        from d(7) [OF k] obtain cm where cm: "w_meta w n = Some cm" "w_acc (wview (bm_weak cm)) \<Longrightarrow> owner w (wk_cc k) n" by blast
        have "\<not> owner w p n" using False p m by (auto simp: owner_def)
        with cm False show ?thesis by auto
      qed
    qed
    moreover have "metas_kept (w_meta w) ?M" using bm(1) by (simp add: metas_kept_upd)
    ultimately show ?thesis using dead by blast
  qed
qed

subsection \<open>Downgrading\<close>

lemma get_or_init_metadata_ok:
  assumes inv: "weak_inv W w" and p: "w_boxes w p = Some b" and al: "fresh_allocator al" "finite (dom (w_meta w))"
  shows "\<exists>w' m b'. get_or_init_metadata al p w = Done m w' \<and> weak_inv W w' \<and> owner w' p m
    \<and> w_boxes w' = (w_boxes w)(p \<mapsto> b') \<and> w' = w\<lparr>w_boxes := w_boxes w', w_meta := w_meta w'\<rparr>
    \<and> view (b_cm b') = (view (b_cm b))\<lparr>v_meta := True\<rparr> \<and> links (w_boxes w') p = links (w_boxes w) p
    \<and> b_elem b' = b_elem b \<and> (v_meta (view (b_cm b)) \<and> b_metadata b = MetaBoxed m \<or> w_meta w m = None)
    \<and> (\<forall>vt. box_vtable p w = Done vt w \<longrightarrow> box_vtable p w' = Done vt w')
    \<and> (\<forall>n. w_meta w n \<noteq> None \<longrightarrow> w_meta w' n = w_meta w n)"
proof -
  note d = weak_invD [OF inv]
  have test: "on_boxes (cm_test p has_allocated_for_metadata) w = Done (v_meta (view (b_cm b))) w"
    using p by (simp add: on_boxes_def zoom_def cm_tests)
  show ?thesis
  proof (cases "v_meta (view (b_cm b))")
    case True
    with d(1) p obtain m where m: "b_metadata b = MetaBoxed m" unfolding union_ok_def by metis
    then have "get_or_init_metadata al p w = Done m w"
      using p True test by (simp add: get_or_init_metadata_def get_metadata_unchecked_def on_boxes_def zoom_def bindM_def)
    moreover have "owner w p m" using p m True by (simp add: owner_def)
    moreover have "view (b_cm b) = (view (b_cm b))\<lparr>v_meta := True\<rparr>" using True by (cases "view (b_cm b)") simp
    ultimately show ?thesis using inv p True m by (intro exI [of _ w] exI [of _ m] exI [of _ b]) (simp add: fun_upd_idem)
  next
    case False
    with d(1) p obtain vt where vt: "b_metadata b = MetaVTable vt" unfolding union_ok_def by metis
    define m where "m = al_meta al (w_meta w)"
    have m: "w_meta w m = None" using al by (simp add: fresh_allocator_def m_def)
    let ?b = "b\<lparr>b_metadata := MetaBoxed m, b_cm := set_allocated_for_metadata True (b_cm b)\<rparr>"
    let ?w = "w\<lparr>w_boxes := (w_boxes w)(p \<mapsto> ?b), w_meta := (w_meta w)(m \<mapsto> \<lparr>bm_vtable = vt, bm_weak = weak_new True\<rparr>)\<rparr>"
    have upd: "upd p f (w_boxes w) = (w_boxes w)(p \<mapsto> f b)" for f using p by (simp add: upd_def)
    have run: "get_or_init_metadata al p w = Done m ?w"
      using p test False vt
      by (simp add: get_or_init_metadata_def union_vtable_def boxed_metadata_new_def on_boxes_def zoom_def
          bindM_def thenM_def upd on_cm_Done m_def [symmetric]) (simp add: upd_def)
    have vt': "box_vtable p w = Done vt w" "box_vtable p ?w = Done vt ?w"
      using p False vt by (simp_all add: box_vtable_unfold union_vtable_def get_metadata_unchecked_def deref_meta_def
          on_boxes_def zoom_def bindM_def cm_tests cm_upd)
    have own: "owner ?w q n \<longleftrightarrow> (if q = p then n = m else owner w q n)" for q n
      by (auto simp: owner_def cm_upd)
    have old: "\<not> owner w q m" for q using d(2) [of q m] m by auto
    have noW: "to_meta m W = {#}"
    proof (rule ccontr)
      assume "to_meta m W \<noteq> {#}"
      then obtain k where "k \<in># to_meta m W" by blast
      then have "k \<in># W" "wk_metadata k = Some m" by (simp_all add: to_meta_mem)
      from d(7) [OF this] m show False by simp
    qed
    have nop: "\<not> owner w p n" for n using p False by (simp add: owner_def)
    have "weak_inv W ?w"
      unfolding weak_inv_def own
    proof (intro conjI allI impI)
      show "union_ok ?w" using d(1) by (simp add: union_ok_def cm_upd)
      show "\<exists>cm. w_meta ?w n = Some cm \<and> w_acc (wview (bm_weak cm))" if "if q = p then n = m else owner w q n" for q n
        using that d(2) [of q n] old [of q] by (auto simp: wview_new split: if_splits)
      show "q = r" if "if q = p then n = m else owner w q n" "if r = p then n = m else owner w r n" for q r n
        using that old d(3) [of q n r] by (auto split: if_splits)
      show "w_count (wview (bm_weak cm)) = size (to_meta n W)" if "w_meta ?w n = Some cm" for n cm
        using that d(4) [of n cm] noW by (auto simp: wview_new split: if_splits)
      show "if w_acc (wview (bm_weak cm)) then \<exists>q. if q = p then n = m else owner w q n else 0 < size (to_meta n W)"
        if "w_meta ?w n = Some cm" for n cm
      proof (cases "n = m")
        case True
        with that show ?thesis by (auto simp: wview_new)
      next
        case False
        with that have "w_meta w n = Some cm" by simp
        with d(5,6) [OF this] nop show ?thesis by (metis)
      qed
      show "\<exists>cm. w_meta ?w n = Some cm \<and> (w_acc (wview (bm_weak cm)) \<longrightarrow> (if wk_cc k = p then n = m else owner w (wk_cc k) n))"
        if k: "k \<in># W" "wk_metadata k = Some n" for k n
      proof -
        have "n \<noteq> m" using k noW to_meta_mem [of k m W] by auto
        with d(7) [OF k] nop show ?thesis by auto
      qed
    qed
    moreover have "owner ?w p m" by (simp add: own)
    moreover have "links (w_boxes ?w) p = links (w_boxes w) p" using p by (simp add: links_def)
    ultimately show ?thesis
      using run m vt' by (intro exI [of _ ?w] exI [of _ m] exI [of _ ?b]) (simp add: cm_upd)
  qed
qed

lemma downgrade_ok:
  assumes inv: "weak_inv W w" and p: "w_boxes w p = Some b" and al: "fresh_allocator al" "finite (dom (w_meta w))"
    and buf: "buffered ps w" and calm: "calm w" and n: "\<And>m. size (to_meta m W) < 32767"
  shows "\<exists>w' k. downgrade al p w = Done k w' \<and> wk_cc k = p \<and> weak_inv (add_mset k W) w' \<and> buffered (remove1 p ps) w'"
proof -
  from get_or_init_metadata_ok [OF inv p al] obtain w1 m b1 where
    1: "get_or_init_metadata al p w = Done m w1" "weak_inv W w1" "owner w1 p m" "w_boxes w1 = (w_boxes w)(p \<mapsto> b1)"
    "w1 = w\<lparr>w_boxes := w_boxes w1, w_meta := w_meta w1\<rparr>" "view (b_cm b1) = (view (b_cm b))\<lparr>v_meta := True\<rparr>"
    "links (w_boxes w1) p = links (w_boxes w) p" by blast
  have pc: "w_pc w1 = w_pc w" "w_state w1 = w_state w" "w_state_alive w1 = w_state_alive w" "w_pc_alive w1 = w_pc_alive w"
    using 1(5) by (metis world.select_convs world.surjective world.update_convs(1,2))+
  have links: "links (w_boxes w1) q = links (w_boxes w) q" for q
    using 1(4,7) by (cases "q = p") (simp_all add: links_def)
  have buf1: "buffered ps w1"
    using buf p links 1(6) pc by (auto simp: buffered_def 1(4) isolated_def intro: pc_repr_cong split: if_splits)
  from weak_invD(2) [OF 1(2,3)] obtain bm where bm: "w_meta w1 m = Some bm" "w_acc (wview (bm_weak bm))" by blast
  have c: "w_count (wview (bm_weak bm)) \<noteq> 32767" using weak_invD(4) [OF 1(2) bm(1)] n [of m] by simp
  let ?c = "(bm_weak bm)\<lparr>weak_counter_cell := weak_counter_cell (bm_weak bm) + 1\<rparr>"
  let ?w2 = "w1\<lparr>w_meta := (w_meta w1)(m \<mapsto> bm\<lparr>bm_weak := ?c\<rparr>)\<rparr>"
  let ?k = "\<lparr>wk_metadata = Some m, wk_cc = p\<rparr>"
  have inc: "on_wcm m weak_increment_counter w1 = Done (Inr ()) ?w2"
    using c by (intro on_wcm_Done [OF bm(1)]) (simp add: weak_increment_eval)
  have inv2: "weak_inv (add_mset ?k W) ?w2"
    using weak_invD(4) [OF 1(2) bm(1)] weak_inv_owner [OF 1(2) _ _ bm(1)] 1(3) bm(2) wview_plus(2) [OF c]
    by (intro weak_inv_count [OF 1(2) bm(1)]) auto
  have buf2: "buffered ps ?w2" using buf1 by (simp add: buffered_def)
  have p2: "w_boxes ?w2 p = Some b1" "w_pc_alive ?w2" using 1(4) calm pc by (simp_all add: calm_def)
  from mark_alive_ok [OF buf2 p2] obtain w3 where
    3: "mark_alive p ?w2 = Done () w3" "buffered (remove1 p ps) w3" "same_but_buffer ?w2 w3" by blast
  have "downgrade al p w = Done ?k w3"
    using calm 1(1) inc 3(1) by (simp add: downgrade_def)
  with weak_inv_buffer [OF inv2 3(3)] 3(2) show ?thesis by force
qed

end
