(* ===== verification/Cc_Drop.thy ===== *)
theory Cc_Drop
  imports Weak_Safety
begin

text \<open>
  The destructor of \<open>Cc\<close>, in \<open>src/src/cc.rs\<close>. It runs code from outside the crate: the finalizers
  and the hand-written destructors of the values it destroys, and cleaning actions. They are a
  parameter, a program on the world for each number; a theorem about code that runs them states what
  it needs of them. Destroying a value destroys the \<open>Cc\<close>s in it, so the destructor is recursive; the
  fuel bounds the depth of this recursion.

  The operations of the crate slotmap are parameters too: the empty map, \<open>insert\<close> (None when it
  panics because the map is full), \<open>remove\<close>, and the values in the order in which the map's
  destructor drops them. A value is a cleaning action, given by its number.
\<close>

record slotmap_ops =
  sm_new :: slotmap
  sm_insert :: "nat \<Rightarrow> slotmap \<Rightarrow> (nat \<times> slotmap) option"
  sm_remove :: "nat \<Rightarrow> slotmap \<Rightarrow> nat option \<times> slotmap"
  sm_values :: "slotmap \<Rightarrow> nat list"

record 'f user_code =
  uc_finalize :: "nat \<Rightarrow> ('f, unit) gc"
  uc_drop :: "nat \<Rightarrow> ('f, unit) gc"
  uc_action :: "nat \<Rightarrow> ('f, unit) gc"
  uc_slotmap :: slotmap_ops

definition decrement_rc :: "addr \<Rightarrow> ('f, unit) gc" where
  "decrement_rc p = bindM (on_boxes (on_cm p decrement_counter)) (\<lambda>res.
     debug_assert (case res of Inl _ \<Rightarrow> False | Inr _ \<Rightarrow> True))"

definition handle_possible_cycle :: "addr \<Rightarrow> ('f, unit) gc" where
  "handle_possible_cycle p = thenM (decrement_rc p) (add_to_list p)"

definition run_finalizer :: "'f user_code \<Rightarrow> addr \<Rightarrow> ('f, unit) gc" where
  "run_finalizer uc p = bindM (get_elem p) (\<lambda>v. forM (finalize_val v) (uc_finalize uc))"

text \<open>
  \<open>replace_state_field!\<close> on the state of the world.
\<close>

definition with_field :: "state_field \<Rightarrow> bool \<Rightarrow> ('f, 'a) gc \<Rightarrow> ('f, 'a) gc" where
  "with_field f v m = replace_state_field w_state (\<lambda>g w. w\<lparr>w_state := g (w_state w)\<rparr>) f v m"

text \<open>
  Drop glue drops one field after the other. When a drop panics the remaining fields are dropped
  during unwinding; a second panic then aborts the process, and appears here as the panic.
\<close>

fun drop_seq :: "('d \<Rightarrow> ('f, unit) gc) \<Rightarrow> 'd list \<Rightarrow> ('f, unit) gc" where
  "drop_seq d [] = ret ()"
| "drop_seq d (x # xs) = thenM (on_unwind (d x) (drop_seq d xs)) (drop_seq d xs)"

text \<open>
  One drop of the drop glue, given what dropping a \<open>Cc\<close> does. The destructor of a \<open>CleaningAction\<close>
  runs the action: nothing has taken it out of its \<open>Option\<close> before.
\<close>

definition cleaning_action_drop :: "'f user_code \<Rightarrow> nat \<Rightarrow> ('f, unit) gc" where
  "cleaning_action_drop uc fun = uc_action uc fun"

definition drop_by :: "'f user_code \<Rightarrow> (addr \<Rightarrow> ('f, unit) gc) \<Rightarrow> drop_call \<Rightarrow> ('f, unit) gc" where
  "drop_by uc dc d = (case d of
       DropCc q \<Rightarrow> dc q
     | DropWeak m q \<Rightarrow> weak_drop \<lparr>wk_metadata = m, wk_cc = q\<rparr>
     | DropUser k \<Rightarrow> uc_drop uc k
     | DropMap sm \<Rightarrow> drop_seq (cleaning_action_drop uc) (sm_values (uc_slotmap uc) sm))"

lemma drop_by_simps [simp]:
  "drop_by uc dc (DropCc q) = dc q"
  "drop_by uc dc (DropWeak m q) = weak_drop \<lparr>wk_metadata = m, wk_cc = q\<rparr>"
  "drop_by uc dc (DropUser k) = uc_drop uc k"
  "drop_by uc dc (DropMap sm) = drop_seq (cleaning_action_drop uc) (sm_values (uc_slotmap uc) sm)"
  by (simp_all add: drop_by_def)

text \<open>\<open>drop_in_place\<close>: the element is gone from now on, and its parts are dropped.\<close>

definition drop_elem :: "(drop_call \<Rightarrow> ('f, unit) gc) \<Rightarrow> addr \<Rightarrow> ('f, unit) gc" where
  "drop_elem d p = bindM (get_elem p) (\<lambda>v.
     thenM (on_boxes (store p (\<lambda>b. b\<lparr>b_elem := None\<rparr>))) (drop_seq d (drop_glue v)))"

fun cc_drop :: "'f user_code \<Rightarrow> nat \<Rightarrow> addr \<Rightarrow> ('f, unit) gc" where
  "cc_drop uc 0 p = (\<lambda>w. Timeout)"
| "cc_drop uc (Suc n) p =
     thenM (not_tracing ''Cannot drop while tracing!'')
     (bindM (on_boxes (cm_test p is_in_list_or_queue)) (\<lambda>listed. if listed then decrement_rc p else
      bindM (on_boxes (on_cm p counter)) (\<lambda>c. if c = 1 then
        with_state
          (bindM (bindM (on_boxes (cm_test p needs_finalization)) (\<lambda>needs. if needs then
              with_field FieldFinalizing True
                (thenM (on_boxes (on_cm p (modifyM (set_finalized True))))
                (thenM (run_finalizer uc p)
                (bindM (on_boxes (on_cm p counter)) (\<lambda>c2.
                 if c2 \<noteq> 1 then thenM (handle_possible_cycle p) (ret True) else ret False))))
            else ret False)) (\<lambda>resurrected. if resurrected then ret () else
          thenM (decrement_rc p)
         (thenM (remove_from_list p)
           (with_field FieldDropping True
             (bindM (box_layout p) (\<lambda>layout.
              thenM (on_boxes (on_cm p (modifyM (set_dropped True))))
             (thenM (drop_elem (drop_by uc (cc_drop uc n)) p)
             (thenM (drop_metadata p)
                    (cc_dealloc p layout)))))))))
      else handle_possible_cycle p)))"

definition drop_one :: "'f user_code \<Rightarrow> nat \<Rightarrow> drop_call \<Rightarrow> ('f, unit) gc" where
  "drop_one uc n = drop_by uc (cc_drop uc n)"

end
