(* ===== verification/Lists_Append.thy ===== *)
theory Lists_Append
  imports Lists
begin

text \<open>
  The two operations of \<open>PossibleCycles\<close> that put a whole list back into the buffer after a
  finalization: \<open>swap_list\<close> and \<open>mark_self_and_append\<close> of \<open>src/src/lists.rs\<close>. The loop over
  \<open>self.iter()\<close> carries fuel; more than the length of the list is enough.
\<close>

definition pc_swap_list :: "usize \<Rightarrow> llist \<Rightarrow> (pcycles \<times> boxes, llist) prog" where
  "pc_swap_list to_swap_size to_swap =
     thenM (pc_set_size to_swap_size)
     (bindM pc_get_first (\<lambda>old. thenM (pc_set_first (ll_first to_swap)) (ret (to_swap\<lparr>ll_first := old\<rparr>))))"

fun mark_iter :: "nat \<Rightarrow> mark \<Rightarrow> addr option \<Rightarrow> addr \<Rightarrow> (pcycles \<times> boxes, addr) prog" where
  "mark_iter 0 m cur prev = (\<lambda>s. Timeout)"
| "mark_iter (Suc n) m cur prev = (case cur of None \<Rightarrow> ret prev
     | Some elem \<Rightarrow> bindM (heapM (get_next elem)) (\<lambda>nx.
          thenM (heapM (on_cm elem reset_tracing_counter))
         (thenM (heapM (cm_mark elem m))
                (mark_iter n m nx elem))))"

definition pc_mark_self_and_append :: "nat \<Rightarrow> mark \<Rightarrow> llist \<Rightarrow> usize \<Rightarrow> (pcycles \<times> boxes, unit) prog" where
  "pc_mark_self_and_append fuel m to_append to_append_size =
     thenM (bindM pc_get_first (\<lambda>f. case f of
        Some first \<Rightarrow> bindM (mark_iter fuel m (Some first) first) (\<lambda>prev. case ll_first to_append of
            Some ptr \<Rightarrow> thenM (heapM (set_next prev (Some ptr))) (heapM (set_prev ptr (Some prev)))
          | None \<Rightarrow> ret ())
      | None \<Rightarrow> pc_set_first (ll_first to_append)))
     (bindM pc_get_size (\<lambda>n. bindM (checked_add n to_append_size) pc_set_size))"

lemma pc_swap_list_ok:
  assumes "pc_repr l h ps" "ll_repr k h ns" "unat n = length ns"
  shows "\<exists>l' k'. pc_swap_list n k (l, h) = Done k' (l', h) \<and> pc_repr l' h ns \<and> ll_repr k' h ps"
  using assms by (auto simp: pc_swap_list_def pc_set_size_def pc_get_first_def pc_set_first_def
      pc_repr_def ll_repr_def)

subsection \<open>Marking along the list\<close>

definition remark :: "addr set \<Rightarrow> mark \<Rightarrow> boxes \<Rightarrow> boxes" where
  "remark S m h = (\<lambda>q. if q \<in> S then map_option (\<lambda>b. b\<lparr>b_cm := mark m (tc_zero (b_cm b))\<rparr>) (h q) else h q)"

lemma links_remark [simp]: "links (remark S m h) q = links h q"
  by (simp add: links_def remark_def option.map_comp comp_def)

lemma remark_insert: "x \<notin> S \<Longrightarrow> remark S m (remark {x} m h) = remark (insert x S) m h"
  by (rule ext) (auto simp: remark_def)

lemma mark_iter_ok:
  "dseg h pv f xs e None \<Longrightarrow> distinct xs \<Longrightarrow> length xs < fuel \<Longrightarrow>
   (\<And>x b. x \<in> set xs \<Longrightarrow> h x = Some b \<Longrightarrow> v_tc (view (b_cm b)) < 16383) \<Longrightarrow>
   mark_iter fuel m f prev (l, h) = Done (if xs = [] then prev else last xs) (l, remark (set xs) m h)"
proof (induction xs arbitrary: h pv f fuel prev)
  case Nil
  then obtain n where "fuel = Suc n" by (cases fuel) auto
  with Nil show ?case by (auto simp: remark_def)
next
  case (Cons x xs)
  then obtain n where n: "fuel = Suc n" "length xs < n" by (cases fuel) auto
  from Cons.prems(1) obtain nx where f: "f = Some x" and x: "links h x = Some (nx, pv)"
    and d: "dseg h (Some x) nx xs e None" by auto
  from x obtain b where b: "h x = Some b" "b_next b = nx" by (auto simp: links_Some)
  have tc: "v_tc (view (b_cm b)) < 16383" using Cons.prems(4) [of x b] b by simp
  let ?h = "remark {x} m h"
  have "on_cm x reset_tracing_counter h = Done () (upd x (\<lambda>d. d\<lparr>b_cm := tc_zero (b_cm b)\<rparr>) h)"
    using on_cm_Done [of h x b reset_tracing_counter] b reset_tracing_counter_eval [OF tc] by simp
  moreover have "cm_mark x m (upd x (\<lambda>d. d\<lparr>b_cm := tc_zero (b_cm b)\<rparr>) h) = Done () ?h"
  proof -
    have "cm_mark x m (upd x (\<lambda>d. d\<lparr>b_cm := tc_zero (b_cm b)\<rparr>) h)
       = Done () (upd x (\<lambda>d. d\<lparr>b_cm := mark m (b_cm d)\<rparr>) (upd x (\<lambda>d. d\<lparr>b_cm := tc_zero (b_cm b)\<rparr>) h))"
      using b by (intro cm_mark_Some) simp
    also have "upd x (\<lambda>d. d\<lparr>b_cm := mark m (b_cm d)\<rparr>) (upd x (\<lambda>d. d\<lparr>b_cm := tc_zero (b_cm b)\<rparr>) h) = ?h"
      using b by (intro ext) (auto simp: upd_apply remark_def)
    finally show ?thesis .
  qed
  moreover have "mark_iter n m nx x (l, ?h) = Done (if xs = [] then x else last xs) (l, remark (set xs) m ?h)"
  proof (rule Cons.IH)
    show "dseg ?h (Some x) nx xs e None" using d by (subst dseg_cong [of xs ?h h]) auto
    show "v_tc (view (b_cm c)) < 16383" if "y \<in> set xs" "?h y = Some c" for y c
      using that Cons.prems(2,4) by (auto simp: remark_def split: if_splits)
  qed (use Cons.prems n in auto)
  ultimately show ?case
    using b f n Cons.prems(2) by (simp add: heapM_def zoom_def get_next_def bindM_def thenM_def remark_insert)
qed

subsection \<open>Joining two segments\<close>

lemma dseg_join:
  assumes a: "dseg h None f (xs @ [x]) e None" and b: "dseg h None (Some y) (y # ys) e' None"
    and dist: "distinct (xs @ [x] @ y # ys)"
  shows "dseg (upd y (\<lambda>b. b\<lparr>b_prev := Some x\<rparr>) (upd x (\<lambda>b. b\<lparr>b_next := Some y\<rparr>) h)) None f (xs @ [x] @ y # ys) e' None"
proof -
  let ?h1 = "upd x (\<lambda>b. b\<lparr>b_next := Some y\<rparr>) h" and ?h = "upd y (\<lambda>b. b\<lparr>b_prev := Some x\<rparr>) (upd x (\<lambda>b. b\<lparr>b_next := Some y\<rparr>) h)"
  have e: "e = Some x" using dseg_last [OF a] by simp
  have "dseg ?h1 None f (xs @ [x]) e (Some y)" using a dist by (intro dseg_set_next) auto
  then have 1: "dseg ?h None f (xs @ [x]) (Some x) (Some y)"
    unfolding e using dist by (subst dseg_cong [of _ ?h ?h1]) auto
  have "dseg ?h1 None (Some y) (y # ys) e' None"
    using b dist by (subst dseg_cong [of "y # ys" ?h1 h]) auto
  then have "dseg ?h (Some x) (Some y) (y # ys) e' None" using dist by (intro dseg_set_prev) auto
  with 1 have "dseg ?h None f ((xs @ [x]) @ y # ys) e' None" unfolding dseg_append by blast
  then show ?thesis by simp
qed

lemma pc_mark_self_and_append_ok:
  assumes pc: "pc_repr l h ns" and ll: "ll_repr k h ps" and dis: "set ns \<inter> set ps = {}"
    and n: "unat sz = length ps" "length ns + length ps < 2 ^ 64" and fuel: "length ns < fuel"
    and tc: "\<And>x b. x \<in> set ns \<Longrightarrow> h x = Some b \<Longrightarrow> v_tc (view (b_cm b)) < 16383"
  shows "\<exists>l' h'. pc_mark_self_and_append fuel m k sz (l, h) = Done () (l', h') \<and> pc_repr l' h' (ns @ ps)
    \<and> frame (set ns \<union> set ps) (remark (set ns) m h) h'"
proof -
  from pc obtain e where d: "dseg h None (pc_first l) ns e None" "distinct ns" "unat (pc_size l) = length ns"
    by (auto simp: pc_repr_def)
  from ll obtain e' where d': "dseg h None (ll_first k) ps e' None" "distinct ps" by (auto simp: ll_repr_def)
  have size: "unat (pc_size l + sz) = length (ns @ ps)" and lt: "unat (pc_size l) + unat sz < 2 ^ 64"
    using d(3) n by (simp_all add: unat_word_ariths)
  show ?thesis
  proof (cases "ns = []")
    case True
    with d(1) have "pc_first l = None" by simp
    then have "pc_mark_self_and_append fuel m k sz (l, h) = Done () (l\<lparr>pc_first := ll_first k, pc_size := pc_size l + sz\<rparr>, h)"
      using lt by (simp add: pc_mark_self_and_append_def pc_get_first_def pc_set_first_def pc_get_size_def pc_set_size_def)
    with True d' size show ?thesis by (auto simp: pc_repr_def remark_def)
  next
    case False
    then obtain xs x where ns: "ns = xs @ [x]" by (cases ns rule: rev_cases) auto
    from False d(1) obtain first where first: "pc_first l = Some first" by (cases ns) auto
    let ?h1 = "remark (set ns) m h"
    have iter: "mark_iter fuel m (Some first) first (l, h) = Done x (l, ?h1)"
      using mark_iter_ok [OF d(1,2) fuel tc, where m = m and prev = first and l = l] first ns by simp
    have d1: "dseg ?h1 None (pc_first l) ns e None" using d(1) by (subst dseg_cong [of ns ?h1 h]) auto
    have d1': "dseg ?h1 None (ll_first k) ps e' None" using d'(1) by (subst dseg_cong [of ps ?h1 h]) auto
    let ?l = "l\<lparr>pc_size := pc_size l + sz\<rparr>"
    show ?thesis
    proof (cases ps)
      case Nil
      with d'(1) have "ll_first k = None" by simp
      then have "pc_mark_self_and_append fuel m k sz (l, h) = Done () (?l, ?h1)"
        using lt iter first by (simp add: pc_mark_self_and_append_def pc_get_first_def pc_get_size_def pc_set_size_def)
      with Nil d1 d(2) size show ?thesis by (auto simp: pc_repr_def)
    next
      case (Cons y ys)
      with d1' have y: "ll_first k = Some y" by simp
      let ?h2 = "upd y (\<lambda>b. b\<lparr>b_prev := Some x\<rparr>) (upd x (\<lambda>b. b\<lparr>b_next := Some y\<rparr>) ?h1)"
      obtain bx where bx: "?h1 x = Some bx" using dseg_live [OF d1, of x] ns by auto
      obtain "by" where "by": "?h1 y = Some by" using dseg_live [OF d1', of y] Cons by auto
      have xy: "x \<noteq> y" using dis ns Cons by auto
      have "pc_mark_self_and_append fuel m k sz (l, h) = Done () (?l, ?h2)"
        using lt iter first y bx "by" xy
        by (simp add: pc_mark_self_and_append_def pc_get_first_def pc_get_size_def pc_set_size_def
            heapM_def zoom_def set_next_def set_prev_def bindM_def thenM_def)
      moreover have "dseg ?h2 None (pc_first l) (xs @ [x] @ y # ys) e' None"
        using d1 d1' d(2) d'(2) dis by (intro dseg_join) (auto simp: ns Cons y)
      then have "pc_repr ?l ?h2 (ns @ ps)" using size d(2) d'(2) dis by (auto simp: pc_repr_def ns Cons)
      moreover have "frame (set ns \<union> set ps) ?h1 ?h2"
      proof -
        have "frame (set ns \<union> set ps) ?h1 (upd x (\<lambda>b. b\<lparr>b_next := Some y\<rparr>) ?h1)"
          "frame (set ns \<union> set ps) (upd x (\<lambda>b. b\<lparr>b_next := Some y\<rparr>) ?h1) ?h2"
          by (rule frame_upd_link; simp add: ns Cons)+
        from frame_trans_same [OF this] show ?thesis .
      qed
      ultimately show ?thesis by blast
    qed
  qed
qed

text \<open>
  Taking a box out of \<open>PossibleCycles\<close>, wherever it is in the list, and adding it again: the
  representation is the list without it, and then the list with it in front; the size is right.
\<close>

lemma buffer_remove_add:
  assumes "pc_repr l h xs" "p \<in> set xs"
  shows "\<exists>l1 h1 l2 h2. pc_remove p (l, h) = Done () (l1, h1) \<and> pc_repr l1 h1 (remove1 p xs) \<and> isolated h1 p \<and>
    pc_add p (l1, h1) = Done () (l2, h2) \<and> pc_repr l2 h2 (p # remove1 p xs) \<and>
    (\<forall>q. q \<notin> set xs \<longrightarrow> h2 q = h q)"
proof -
  from pc.remove_ok [OF assms] obtain l1 h1 where
    1: "pc_remove p (l, h) = Done () (l1, h1)" "pc_repr l1 h1 (remove1 p xs)" "isolated h1 p" "frame (set xs) h h1" by blast
  have d: "distinct xs" using assms(1) by (rule pc.repr_distinct)
  then have np: "p \<notin> set (remove1 p xs)" by simp
  have n: "length (remove1 p xs) + 1 < 2 ^ 64"
  proof -
    have "unat (pc_size l) < 2 ^ 64" using unsigned_less [of "pc_size l", where 'a = nat] by simp
    then have "length xs < 2 ^ 64" using assms(1) by (auto simp: pc_repr_def)
    with assms(2) show ?thesis by (simp add: length_remove1)
  qed
  from pc.add_ok [OF 1(2) np 1(3) n] obtain l2 h2 where
    2: "pc_add p (l1, h1) = Done () (l2, h2)" "pc_repr l2 h2 (p # remove1 p xs)" "frame (insert p (set (remove1 p xs))) h1 h2" by blast
  have "h2 q = h q" if "q \<notin> set xs" for q
    using that assms(2) frame_out [OF 1(4) that] frame_out [OF 2(3), of q] by (auto dest: notin_set_remove1)
  with 1 2 show ?thesis by blast
qed

text \<open>
  \<open>swap_list\<close> and \<open>mark_self_and_append\<close> together put a list back into the buffer: the buffer is
  the list followed by the old buffer, the boxes of the list are marked and their tracing counters
  are zero.
\<close>

lemma put_back_appends:
  assumes "pc_repr l h ps" "ll_repr k h ns" "set ns \<inter> set ps = {}" "length ns + length ps < 2 ^ 64"
    and "unat n = length ns" "unat old = length ps" "length ns < fuel"
    and "\<And>x b. x \<in> set ns \<Longrightarrow> h x = Some b \<Longrightarrow> v_tc (view (b_cm b)) < 16383"
  shows "\<exists>k' l1 l' h'. pc_swap_list n k (l, h) = Done k' (l1, h) \<and>
    pc_mark_self_and_append fuel m k' old (l1, h) = Done () (l', h') \<and> pc_repr l' h' (ns @ ps) \<and>
    frame (set ns \<union> set ps) (remark (set ns) m h) h'"
proof -
  from pc_swap_list_ok [OF assms(1,2,5)] obtain l1 k' where
    1: "pc_swap_list n k (l, h) = Done k' (l1, h)" "pc_repr l1 h ns" "ll_repr k' h ps" by blast
  have "\<exists>l' h'. pc_mark_self_and_append fuel m k' old (l1, h) = Done () (l', h') \<and> pc_repr l' h' (ns @ ps) \<and>
      frame (set ns \<union> set ps) (remark (set ns) m h) h'"
    by (rule pc_mark_self_and_append_ok [OF 1(2,3) assms(3,6,4,7)]) (rule assms(8))
  with 1(1) show ?thesis by blast
qed

end
