(* ===== verification/Collect.thy ===== *)
theory Collect
  imports Cc_Drop Lists_Append Tracing
begin

text \<open>
  The collection itself: \<open>collect_cycles\<close>, \<open>trigger_collection\<close>, \<open>collect\<close>, \<open>__collect\<close> and
  \<open>deallocate_list\<close> of \<open>src/src/lib.rs\<close>, and \<open>Cc::new\<close> of \<open>src/src/cc.rs\<close>, which may start one.
  One fuel bounds all loops of a collection and the depth of the destructors it runs.
\<close>

subsection \<open>Iterating over a list\<close>

text \<open>
  \<open>Iter::next\<close> with the iterator's pointer as an argument; the new pointer is returned with the
  element. It is read before the body runs, so the body may free the element.
\<close>

definition iter_step :: "addr option \<Rightarrow> ('f, (addr \<times> addr option) option) gc" where
  "iter_step cur = zoom (\<lambda>w. (cur, w_boxes w)) (\<lambda>(_, h) w. w\<lparr>w_boxes := h\<rparr>)
     (bindM iter_next (\<lambda>r. bindM (getM fst) (\<lambda>nx. ret (map_option (\<lambda>p. (p, nx)) r))))"

fun iter_fold :: "nat \<Rightarrow> (addr \<Rightarrow> 'a \<Rightarrow> ('f, 'a) gc) \<Rightarrow> addr option \<Rightarrow> 'a \<Rightarrow> ('f, 'a) gc" where
  "iter_fold 0 body cur acc = (\<lambda>w. Timeout)"
| "iter_fold (Suc n) body cur acc = bindM (iter_step cur) (\<lambda>r. case r of
     None \<Rightarrow> ret acc
   | Some (p, nx) \<Rightarrow> bindM (body p acc) (iter_fold n body nx))"

definition iter_for_each :: "nat \<Rightarrow> (addr \<Rightarrow> ('f, unit) gc) \<Rightarrow> addr option \<Rightarrow> ('f, unit) gc" where
  "iter_for_each fuel body cur = iter_fold fuel (\<lambda>p _. body p) cur ()"

text \<open>A list owned by a local variable, and its destructor.\<close>

definition on_list :: "llist \<Rightarrow> (llist \<times> boxes, 'a) prog \<Rightarrow> ('f, 'a) gc" where
  "on_list l m = zoom (\<lambda>w. (l, w_boxes w)) (\<lambda>(_, h) w. w\<lparr>w_boxes := h\<rparr>) m"

subsection \<open>Deallocation\<close>

definition drop_inner :: "'f user_code \<Rightarrow> nat \<Rightarrow> addr \<Rightarrow> ('f, unit) gc" where
  "drop_inner uc fuel ptr = thenM (on_boxes (on_cm ptr (modifyM (set_dropped True))))
     (bindM (get_traceable ptr) (\<lambda>obj. drop_elem (drop_one uc fuel) obj))"

text \<open>The destructor of \<open>ToDropList\<close>, which runs when a destructor panics.\<close>

definition to_drop_list_drop :: "nat \<Rightarrow> llist \<Rightarrow> ('f, unit) gc" where
  "to_drop_list_drop fuel l = on_list l (while_let fuel ll_remove_first
     (\<lambda>ptr. heapM (on_cm ptr (modifyM (set_dropped True)))))"

definition dealloc_one :: "addr \<Rightarrow> ('f, unit) gc" where
  "dealloc_one ptr = bindM (box_layout ptr) (\<lambda>layout. thenM (drop_metadata ptr) (cc_dealloc ptr layout))"

definition deallocate_list :: "'f user_code \<Rightarrow> nat \<Rightarrow> llist \<Rightarrow> ('f, unit) gc" where
  "deallocate_list uc fuel to_deallocate_list =
     with_field FieldDropping True
       (thenM (on_unwind
          (iter_for_each fuel (\<lambda>ptr.
             thenM (bindM (on_boxes (cm_test ptr is_in_list)) debug_assert) (drop_inner uc fuel ptr))
             (ll_first to_deallocate_list))
          (to_drop_list_drop fuel to_deallocate_list))
       (iter_for_each fuel dealloc_one (ll_first to_deallocate_list)))"

subsection \<open>Finalization\<close>

definition finalize_inner :: "'f user_code \<Rightarrow> addr \<Rightarrow> ('f, bool) gc" where
  "finalize_inner uc ptr = bindM (on_boxes (cm_test ptr needs_finalization)) (\<lambda>b. if b then
       thenM (on_boxes (on_cm ptr (modifyM (set_finalized True))))
      (bindM (get_traceable ptr) (\<lambda>obj. thenM (run_finalizer uc obj) (ret True)))
     else ret False)"

definition finalize_list :: "'f user_code \<Rightarrow> nat \<Rightarrow> llist \<Rightarrow> ('f, usize \<times> bool) gc" where
  "finalize_list uc fuel non_root_list =
     with_field FieldFinalizing True
       (iter_fold fuel (\<lambda>ptr (size, has_finalized).
          bindM (checked_add size 1) (\<lambda>size'.
          bindM (finalize_inner uc ptr) (\<lambda>r. ret (size', r \<or> has_finalized))))
        (ll_first non_root_list) (0, False))"

subsection \<open>One round\<close>

text \<open>
  The tracing half on the memory and the buffer of the world. The lists are locals; the ones that
  are still needed are returned.
\<close>

definition run_trace :: "nat \<Rightarrow> ('f, llist) gc" where
  "run_trace fuel = zoom
     (\<lambda>w. \<lparr>t_heap = w_boxes w, t_meta = w_meta w, t_pc = w_pc w, t_root = ll_new, t_nonroot = ll_new, t_queue = lq_new\<rparr>)
     (\<lambda>s w. w\<lparr>w_boxes := t_heap s, w_pc := t_pc s\<rparr>)
     (bindM (collect_trace fuel) (\<lambda>_. getM t_nonroot))"

definition put_back :: "nat \<Rightarrow> llist \<Rightarrow> usize \<Rightarrow> ('f, unit) gc" where
  "put_back fuel non_root_list non_root_list_size =
     bindM (getM (\<lambda>w. pc_size (w_pc w))) (\<lambda>old_size.
     bindM (on_possible_cycles (pc_swap_list non_root_list_size non_root_list)) (\<lambda>swapped.
       on_unwind (on_possible_cycles (pc_mark_self_and_append fuel PossibleCycles swapped old_size))
         (on_list swapped (ll_drop fuel))))"

definition collect_once :: "'f user_code \<Rightarrow> nat \<Rightarrow> ('f, unit) gc" where
  "collect_once uc fuel = bindM (run_trace fuel) (\<lambda>non_root_list.
     if ll_is_empty non_root_list then ret () else
     bindM (on_unwind (finalize_list uc fuel non_root_list) (on_list non_root_list (ll_drop fuel)))
       (\<lambda>(non_root_list_size, has_finalized).
        if \<not> has_finalized then deallocate_list uc fuel non_root_list
        else put_back fuel non_root_list non_root_list_size))"

subsection \<open>The entry points\<close>

fun collect_rounds :: "'f user_code \<Rightarrow> nat \<Rightarrow> nat \<Rightarrow> ('f, unit) gc" where
  "collect_rounds uc fuel 0 = ret ()"
| "collect_rounds uc fuel (Suc n) = bindM (getM (\<lambda>w. pc_is_empty (w_pc w))) (\<lambda>b.
     if b then ret () else thenM (collect_once uc fuel) (collect_rounds uc fuel n))"

definition collect :: "'f user_code \<Rightarrow> nat \<Rightarrow> ('f, unit) gc" where
  "collect uc fuel =
     thenM (on_state (modifyM (set_collecting True)))
    (thenM (on_state increment_executions_count)
     (with_guard (collect_rounds uc fuel 10) (\<lambda>w. w\<lparr>w_state := set_collecting False (w_state w)\<rparr>)))"

text \<open>
  \<open>config(f)\<close> fails when the thread local is gone or the configuration is already borrowed; the
  borrow ends when \<open>f\<close> returns or panics.
\<close>

datatype config_access_error = ConfigAccessError | ConcurrentAccessError

definition access_config :: "('f, 'a) gc \<Rightarrow> ('f, config_access_error + 'a) gc" where
  "access_config f = bindM (getM (\<lambda>w. (w_config_alive w, w_config_borrowed w))) (\<lambda>(alive, borrowed).
     if \<not> alive then ret (Inl ConfigAccessError)
     else if borrowed then ret (Inl ConcurrentAccessError)
     else thenM (modifyM (\<lambda>w. w\<lparr>w_config_borrowed := True\<rparr>))
         (with_guard (bindM f (\<lambda>r. ret (Inr r))) (\<lambda>w. w\<lparr>w_config_borrowed := False\<rparr>)))"

text \<open>The loop of \<open>adjust\<close> may run for ever.\<close>

definition config_adjust :: "'f f64_ops \<Rightarrow> ('f, unit) gc" where
  "config_adjust fl = (\<lambda>w. case adjust fl (w_state w) (w_config w) of
     None \<Rightarrow> Timeout | Some cf \<Rightarrow> Done () (w\<lparr>w_config := cf\<rparr>))"

definition adjust_trigger_point :: "'f f64_ops \<Rightarrow> ('f, unit) gc" where
  "adjust_trigger_point fl = bindM (access_config (config_adjust fl)) (\<lambda>_. ret ())"

definition config_should_collect :: "('f, bool) gc" where
  "config_should_collect =
     bindM (access_config (getM (\<lambda>w. should_collect (w_config w) (w_state w) (pc_size (w_pc w))))) (\<lambda>r.
     ret (case r of Inl _ \<Rightarrow> False | Inr b \<Rightarrow> b))"

definition trigger_collection :: "'f f64_ops \<Rightarrow> 'f user_code \<Rightarrow> nat \<Rightarrow> ('f, unit) gc" where
  "trigger_collection fl uc fuel = bindM (getM (\<lambda>w. st_collecting (w_state w))) (\<lambda>b. if b then ret () else
     try_pc (bindM config_should_collect
       (\<lambda>c. if c then thenM (collect uc fuel) (adjust_trigger_point fl) else ret ())))"

definition collect_cycles :: "'f f64_ops \<Rightarrow> 'f user_code \<Rightarrow> nat \<Rightarrow> ('f, unit) gc" where
  "collect_cycles fl uc fuel = bindM (try_state
     (bindM (getM (\<lambda>w. st_collecting (w_state w))) (\<lambda>b. if b then ret () else
        thenM (try_pc (collect uc fuel)) (adjust_trigger_point fl)))) (\<lambda>_. ret ())"

text \<open>
  \<open>Cc::new\<close>; when it panics its argument is dropped. The size of the box is a parameter. The
  argument is None when it is the \<open>NewCyclicWrapper\<close> of \<open>new_cyclic\<close>, whose destructor reads the
  value it wraps; it is not initialised yet, so that dropping the argument is undefined behaviour.
\<close>

definition drop_arg :: "'f user_code \<Rightarrow> nat \<Rightarrow> tval option \<Rightarrow> ('f, unit) gc" where
  "drop_arg uc fuel t = (case t of None \<Rightarrow> (\<lambda>w. UB) | Some v \<Rightarrow> drop_seq (drop_one uc fuel) (drop_glue v))"

definition cc_new :: "'f f64_ops \<Rightarrow> 'f user_code \<Rightarrow> nat \<Rightarrow> allocator \<Rightarrow> usize \<Rightarrow> tval option \<Rightarrow> ('f, addr) gc" where
  "cc_new fl uc fuel al layout t = on_unwind
     (with_state (bindM (getM (\<lambda>w. is_tracing (w_state w))) (\<lambda>b.
        if b then panicM (PanicMsg ''Cannot create a new Cc while tracing!'')
        else thenM (trigger_collection fl uc fuel) (ccbox_new al layout t))))
     (drop_arg uc fuel t)"

end
