(* ===== verification/Cleaners.thy ===== *)
theory Cleaners
  imports Collect
begin

text \<open>
  Cleaners: \<open>src/src/cleaners/mod.rs\<close>. A \<open>Cleaner\<close> owns, once an action has been registered, a \<open>Cc\<close>
  to a box with a \<open>CleanerMap\<close>, a \<open>RefCell\<close> around a \<open>SlotMap\<close> of actions; a \<open>Cleanable\<close> holds a weak
  pointer to that box and the key of its action. The actions and the operations of \<open>SlotMap\<close> are
  parameters (\<open>user_code\<close>). The destructor of the box runs the actions that are left: it is the part
  \<open>DropMap\<close> of the drop glue.
\<close>

record cleaner =
  cleaner_map :: "addr option"

record cleanable =
  cl_cleaner_map :: weak_ptr
  cl_key :: nat

definition cleaner_new :: cleaner where
  "cleaner_new = \<lparr>cleaner_map = None\<rparr>"

definition cleaner_default :: cleaner where
  "cleaner_default = cleaner_new"

subsection \<open>The RefCell of a CleanerMap\<close>

text \<open>
  \<open>cc.map\<close> goes through the \<open>Deref\<close> of \<open>Cc\<close>. The box of a \<open>Cleaner\<close> never holds anything else than a
  \<open>CleanerMap\<close>.
\<close>

definition cell_of :: "addr \<Rightarrow> ('f, borrow_state \<times> slotmap) gc" where
  "cell_of cc = bindM (cc_deref cc) (\<lambda>v. case v of CleanerMapT flag m \<Rightarrow> ret (flag, m) | _ \<Rightarrow> (\<lambda>w. UB))"

definition set_cell :: "addr \<Rightarrow> borrow_state \<Rightarrow> slotmap \<Rightarrow> ('f, unit) gc" where
  "set_cell cc flag m = on_boxes (store cc (\<lambda>b. b\<lparr>b_elem := Some (CleanerMapT flag m)\<rparr>))"

text \<open>The end of a \<open>RefMut\<close>: the map is borrowed no more.\<close>

definition ref_mut_drop :: "addr \<Rightarrow> ('f, unit) gc" where
  "ref_mut_drop cc = bindM (get_elem cc) (\<lambda>v. case v of
     CleanerMapT _ m \<Rightarrow> set_cell cc Unborrowed m | _ \<Rightarrow> (\<lambda>w. UB))"

text \<open>\<open>try_borrow_mut\<close>, with what is done if it fails and what is done under the borrow.\<close>

definition try_borrow_mut :: "addr \<Rightarrow> ('f, 'a) gc \<Rightarrow> (slotmap \<Rightarrow> ('f, 'a) gc) \<Rightarrow> ('f, 'a) gc" where
  "try_borrow_mut cc fails body = bindM (cell_of cc) (\<lambda>(flag, m). if flag \<noteq> Unborrowed then fails else
     thenM (set_cell cc MutBorrow m) (with_local (ref_mut_drop cc) (body m)))"

subsection \<open>register\<close>

text \<open>The state is the \<open>Cleaner\<close> itself beside the world.\<close>

definition on_world :: "('f, 'a) gc \<Rightarrow> (cleaner \<times> 'f world, 'a) prog" where
  "on_world m = zoom snd (\<lambda>w (c, _). (c, w)) m"

definition get_or_insert_map ::
  "'f f64_ops \<Rightarrow> 'f user_code \<Rightarrow> nat \<Rightarrow> allocator \<Rightarrow> usize \<Rightarrow> (cleaner \<times> 'f world, addr) prog" where
  "get_or_insert_map fl uc fuel al layout = bindM (getM (\<lambda>(c, _). cleaner_map c)) (\<lambda>u. case u of
     Some p \<Rightarrow> ret p
   | None \<Rightarrow> bindM (on_world (cc_new fl uc fuel al layout (Some (CleanerMapT Unborrowed (sm_new (uc_slotmap uc)))))) (\<lambda>p.
       thenM (modifyM (\<lambda>(c, w). (c\<lparr>cleaner_map := Some p\<rparr>, w))) (ret p)))"

text \<open>An \<open>insert\<close> that panics drops the \<open>CleaningAction\<close> it was given, which runs the action.\<close>

definition insert_action :: "'f user_code \<Rightarrow> addr \<Rightarrow> nat \<Rightarrow> ('f, nat) gc" where
  "insert_action uc cc action = try_borrow_mut cc (panicM (PanicMsg ''already borrowed''))
     (\<lambda>m. case sm_insert (uc_slotmap uc) action m of
        Some (key, m') \<Rightarrow> thenM (set_cell cc MutBorrow m') (ret key)
      | None \<Rightarrow> on_unwind (panicM (PanicMsg ''SlotMap number of elements overflow'')) (cleaning_action_drop uc action))"

definition cleaner_register ::
  "'f f64_ops \<Rightarrow> 'f user_code \<Rightarrow> nat \<Rightarrow> allocator \<Rightarrow> usize \<Rightarrow> nat \<Rightarrow> (cleaner \<times> 'f world, cleanable) prog" where
  "cleaner_register fl uc fuel al layout action =
     bindM (get_or_insert_map fl uc fuel al layout) (\<lambda>cc.
     bindM (on_world (insert_action uc cc action)) (\<lambda>map_key.
     bindM (on_world (downgrade al cc)) (\<lambda>weak.
     ret \<lparr>cl_cleaner_map = weak, cl_key = map_key\<rparr>)))"

text \<open>The drop glue of a \<open>Cleaner\<close>.\<close>

definition cleaner_drop :: "'f user_code \<Rightarrow> nat \<Rightarrow> cleaner \<Rightarrow> ('f, unit) gc" where
  "cleaner_drop uc fuel c = drop_seq (drop_one uc fuel) (drop_glue (CleanerT (cleaner_map c)))"

subsection \<open>clean\<close>

text \<open>The value that \<open>remove\<close> returns is dropped at once, while the map is still borrowed.\<close>

definition remove_action :: "'f user_code \<Rightarrow> addr \<Rightarrow> nat \<Rightarrow> slotmap \<Rightarrow> ('f, unit) gc" where
  "remove_action uc cc key m = (case sm_remove (uc_slotmap uc) key m of (r, m') \<Rightarrow>
     thenM (set_cell cc MutBorrow m') (case r of None \<Rightarrow> ret () | Some action \<Rightarrow> cleaning_action_drop uc action))"

definition clean :: "'f user_code \<Rightarrow> nat \<Rightarrow> cleanable \<Rightarrow> ('f, unit) gc" where
  "clean uc fuel this = bindM (weak_upgrade (cl_cleaner_map this)) (\<lambda>r. case r of None \<Rightarrow> ret ()
     | Some cc \<Rightarrow> with_local (cc_drop uc fuel cc)
         (try_borrow_mut cc (ret ()) (remove_action uc cc (cl_key this))))"

end
