(* ===== verification/Iteration.thy ===== *)
theory Iteration
  imports Collect
begin

text \<open>The rule for the loops over a list: every round may free the element it is at.\<close>

definition head :: "'a list \<Rightarrow> 'a option" where
  "head xs = (if xs = [] then None else Some (hd xs))"

lemma head_simps [simp]: "head [] = None" "head (x # xs) = Some x"
  by (simp_all add: head_def)

lemma head_dseg: "dseg h pv f xs e None \<Longrightarrow> f = head xs"
  using dseg_first [of h pv f xs e None] by (simp add: head_def)

lemma next_dseg: "dseg h None f (as @ x # bs) e None \<Longrightarrow> \<exists>b. h x = Some b \<and> b_next b = head bs"
  using dseg_middle [of h f as x bs e] by (auto simp: links_Some head_def)

lemma iter_step_None [simp]: "iter_step None w = Done None w"
  by (simp add: iter_step_def zoom_def iter_next_def bindM_def)

lemma iter_step_Some: "w_boxes w p = Some b \<Longrightarrow> iter_step (Some p) w = Done (Some (p, b_next b)) w"
  by (simp add: iter_step_def zoom_def iter_next_def bindM_def thenM_def heapM_def get_next_def)

lemma wp_iter_fold:
  assumes "I xs acc w" "length xs < fuel"
    and link: "\<And>x xs a w. I (x # xs) a w \<Longrightarrow> \<exists>b. w_boxes w x = Some b \<and> b_next b = head xs"
    and step: "\<And>x xs a w. I (x # xs) a w \<Longrightarrow> wp (body x a) (I xs) E w"
  shows "wp (iter_fold fuel body (head xs) acc) (I []) E w"
  using assms(1,2)
proof (induction xs arbitrary: fuel acc w)
  case Nil
  then obtain n where "fuel = Suc n" by (cases fuel) auto
  then have "iter_fold fuel body (head []) acc w = Done acc w" by simp
  with Nil show ?case by (simp add: wp_Done)
next
  case (Cons x xs)
  then obtain n where n: "fuel = Suc n" "length xs < n" by (cases fuel) auto
  from link [OF Cons.prems(1)] obtain b where b: "w_boxes w x = Some b" "b_next b = head xs" by blast
  have "wp (body x acc) (\<lambda>a. wp (iter_fold n body (head xs) a) (I []) E) E w"
    using step [OF Cons.prems(1)] by (rule wp_conseq) (use Cons.IH n in auto)
  then have "wp (bindM (body x acc) (iter_fold n body (head xs))) (I []) E w" by (simp add: wp_bindM)
  moreover have "iter_fold fuel body (head (x # xs)) acc w = bindM (body x acc) (iter_fold n body (head xs)) w"
    using b by (simp add: n(1) iter_step_Some)
  ultimately show ?case by (subst wp_cong)
qed

lemma wp_iter_for_each:
  assumes "I xs w" "length xs < fuel"
    and "\<And>x xs w. I (x # xs) w \<Longrightarrow> \<exists>b. w_boxes w x = Some b \<and> b_next b = head xs"
    and "\<And>x xs w. I (x # xs) w \<Longrightarrow> wp (body x) (\<lambda>_. I xs) E w"
  shows "wp (iter_for_each fuel body (head xs)) (\<lambda>_. I []) E w"
  unfolding iter_for_each_def
  by (rule wp_iter_fold [where I = "\<lambda>xs _. I xs", OF assms(1,2)]) (use assms(3,4) in auto)

end
