(* ===== verification/Drop_Steps.thy ===== *)
theory Drop_Steps
  imports Cc_Drop
begin

text \<open>
  What dropping the parts of a value does when none of them is the last reference to its box: the
  reference counters go down, the boxes become possible cycles, the weak counters go down, and
  nothing else happens. This is the situation of the destructors that run in a collection.
\<close>

subsection \<open>The invariant\<close>

text \<open>\<open>N\<close> are the boxes that are in a list of the collector other than \<open>POSSIBLE_CYCLES\<close>.\<close>

definition in_collector :: "ccbox \<Rightarrow> bool" where
  "in_collector b \<longleftrightarrow> v_mark (view (b_cm b)) = InList \<or> v_mark (view (b_cm b)) = InQueue"

definition drop_inv :: "addr set \<Rightarrow> addr list \<Rightarrow> weak_ptr multiset \<Rightarrow> 'f world \<Rightarrow> bool" where
  "drop_inv N ps W w \<longleftrightarrow> buffered ps w \<and> weak_inv W w \<and> calm w \<and>
     finite (dom (w_boxes w)) \<and> card (dom (w_boxes w)) < 2 ^ 64 \<and>
     (\<forall>p b. w_boxes w p = Some b \<longrightarrow> (in_collector b \<longleftrightarrow> p \<in> N) \<and> (p \<in> set ps \<longrightarrow> v_tc (view (b_cm b)) = 0))"

lemma drop_invD:
  assumes "drop_inv N ps W w"
  shows "buffered ps w" "weak_inv W w" "calm w" "finite (dom (w_boxes w))" "card (dom (w_boxes w)) < 2 ^ 64"
    "w_boxes w p = Some b \<Longrightarrow> in_collector b \<longleftrightarrow> p \<in> N"
    "w_boxes w p = Some b \<Longrightarrow> p \<in> set ps \<Longrightarrow> v_tc (view (b_cm b)) = 0"
  using assms unfolding drop_inv_def by blast+

lemma repr_live: "pc_repr l h ps \<Longrightarrow> p \<in> set ps \<Longrightarrow> p \<in> dom h"
  unfolding pc_repr_def using dseg_live by blast

lemma buffer_room:
  assumes "drop_inv N ps W w" "w_boxes w p = Some b" "p \<notin> set ps"
  shows "length ps + 1 < 2 ^ 64"
proof -
  note d = drop_invD [OF assms(1)]
  have "set (p # ps) \<subseteq> dom (w_boxes w)" "distinct (p # ps)"
    using repr_live [OF buffered_repr [OF d(1)]] buffered_repr [OF d(1)] assms(2,3) by (auto simp: pc_repr_def)
  then have "length (p # ps) \<le> card (dom (w_boxes w))" using d(4) by (metis card_mono distinct_card)
  with d(5) show ?thesis by simp
qed

text \<open>Writing what the invariant does not read.\<close>

lemma drop_inv_upd:
  assumes inv: "drop_inv N ps W w"
    and f: "\<And>b. w_boxes w p = Some b \<Longrightarrow> b_next (f b) = b_next b \<and> b_prev (f b) = b_prev b \<and>
      v_mark (view (b_cm (f b))) = v_mark (view (b_cm b)) \<and> box_meta (f b) = box_meta b
      \<and> (p \<in> set ps \<longrightarrow> v_tc (view (b_cm (f b))) = v_tc (view (b_cm b)))"
  shows "drop_inv N ps W (w\<lparr>w_boxes := upd p f (w_boxes w)\<rparr>)"
proof -
  note d = drop_invD [OF inv]
  have links: "links (upd p f (w_boxes w)) q = links (w_boxes w) q" for q
    using f by (cases "w_boxes w p") (auto simp: links_def upd_apply)
  have mk: "\<exists>c. w_boxes w q = Some c \<and> v_mark (view (b_cm c)) = v_mark (view (b_cm b))"
    if "upd p f (w_boxes w) q = Some b" for q b
    using that f by (cases "q = p") auto
  have "buffered ps (w\<lparr>w_boxes := upd p f (w_boxes w)\<rparr>)"
    unfolding buffered_def
  proof (intro conjI allI impI)
    let ?w = "w\<lparr>w_boxes := upd p f (w_boxes w)\<rparr>"
    show "pc_repr (w_pc ?w) (w_boxes ?w) ps"
      using buffered_repr [OF d(1)] links by (auto intro: pc_repr_cong)
    fix q b assume "w_boxes ?w q = Some b"
    with mk obtain c where c: "w_boxes w q = Some c" "v_mark (view (b_cm c)) = v_mark (view (b_cm b))" by auto
    show "v_mark (view (b_cm b)) = PossibleCycles \<longleftrightarrow> q \<in> set ps"
      using buffered_mark [OF d(1) c(1)] c(2) by simp
    show "isolated (w_boxes ?w) q" if "v_mark (view (b_cm b)) = NonMarked"
      using buffered_isolated [OF d(1) c(1)] c(2) that links by (simp add: isolated_def)
  qed
  moreover have "weak_inv W (w\<lparr>w_boxes := upd p f (w_boxes w)\<rparr>)"
    by (rule weak_inv_cong [OF d(2)]) (use f in \<open>auto simp: upd_apply option.map_comp comp_def intro!: option.map_cong0\<close>)
  moreover have col: "(in_collector b \<longleftrightarrow> q \<in> N) \<and> (q \<in> set ps \<longrightarrow> v_tc (view (b_cm b)) = 0)"
    if "upd p f (w_boxes w) q = Some b" for q b
  proof -
    from mk [OF that] obtain c where c: "w_boxes w q = Some c" "v_mark (view (b_cm c)) = v_mark (view (b_cm b))" by blast
    moreover have "q \<in> set ps \<Longrightarrow> v_tc (view (b_cm b)) = v_tc (view (b_cm c))"
      using that f c(1) by (cases "q = p") auto
    ultimately show ?thesis using d(6,7) [OF c(1)] by (simp add: in_collector_def)
  qed
  moreover have "dom (upd p f (w_boxes w)) = dom (w_boxes w)" by (auto simp: upd_apply split: if_splits)
  moreover have "calm (w\<lparr>w_boxes := upd p f (w_boxes w)\<rparr>)" using d(3) by (simp add: calm_def)
  ultimately show ?thesis
    using d(4,5) col by (simp add: drop_inv_def)
qed

subsection \<open>The effect\<close>

definition box_lowered :: "nat \<Rightarrow> ccbox \<Rightarrow> ccbox \<Rightarrow> bool" where
  "box_lowered n b c \<longleftrightarrow> b_elem c = b_elem b \<and> b_metadata c = b_metadata b \<and>
     v_meta (view (b_cm c)) = v_meta (view (b_cm b)) \<and> v_fin (view (b_cm c)) = v_fin (view (b_cm b)) \<and>
     v_rc (view (b_cm b)) = v_rc (view (b_cm c)) + n \<and> v_tc (view (b_cm c)) \<in> {0, v_tc (view (b_cm b))}"

definition list_part :: "ccbox \<Rightarrow> addr option \<times> addr option \<times> mark \<times> nat" where
  "list_part b = (b_next b, b_prev b, v_mark (view (b_cm b)), v_tc (view (b_cm b)))"

definition lowered :: "addr set \<Rightarrow> (addr \<Rightarrow> nat) \<Rightarrow> 'f world \<Rightarrow> 'f world \<Rightarrow> bool" where
  "lowered N r w w' \<longleftrightarrow> (\<exists>h l M. w' = w\<lparr>w_boxes := h, w_pc := l, w_meta := M\<rparr>) \<and>
     metas_kept (w_meta w) (w_meta w') \<and>
     (\<forall>p. rel_option (box_lowered (r p)) (w_boxes w p) (w_boxes w' p)) \<and>
     (\<forall>p \<in> N. map_option list_part (w_boxes w' p) = map_option list_part (w_boxes w p))"

lemma lowered_refl: "lowered N (\<lambda>_. 0) w w"
proof -
  have "w = w\<lparr>w_boxes := w_boxes w, w_pc := w_pc w, w_meta := w_meta w\<rparr>" by simp
  then have "\<exists>h l M. w = w\<lparr>w_boxes := h, w_pc := l, w_meta := M\<rparr>" by blast
  then show ?thesis by (auto simp: lowered_def box_lowered_def intro: option.rel_refl)
qed

lemma box_lowered_trans: "box_lowered m b c \<Longrightarrow> box_lowered n c d \<Longrightarrow> box_lowered (m + n) b d"
  by (auto simp: box_lowered_def)

lemma lowered_trans:
  assumes "lowered N r u v" "lowered N s v w"
  shows "lowered N (\<lambda>p. r p + s p) u w"
  unfolding lowered_def
proof (intro conjI allI ballI)
  from assms obtain h l M h' l' M' where v: "v = u\<lparr>w_boxes := h, w_pc := l, w_meta := M\<rparr>"
    and w: "w = v\<lparr>w_boxes := h', w_pc := l', w_meta := M'\<rparr>" unfolding lowered_def by blast
  show "\<exists>h l M. w = u\<lparr>w_boxes := h, w_pc := l, w_meta := M\<rparr>"
    unfolding w v by (intro exI [of _ h'] exI [of _ l'] exI [of _ M']) simp
  show "metas_kept (w_meta u) (w_meta w)" using assms unfolding lowered_def by (blast intro: metas_kept_trans)
  fix p
  from assms have "rel_option (box_lowered (r p)) (w_boxes u p) (w_boxes v p)"
    "rel_option (box_lowered (s p)) (w_boxes v p) (w_boxes w p)" unfolding lowered_def by blast+
  then show "rel_option (box_lowered (r p + s p)) (w_boxes u p) (w_boxes w p)"
    by (cases "w_boxes u p"; cases "w_boxes v p"; cases "w_boxes w p") (auto intro: box_lowered_trans)
  assume "p \<in> N"
  with assms show "map_option list_part (w_boxes w p) = map_option list_part (w_boxes u p)"
    unfolding lowered_def by metis
qed

lemma loweredD:
  assumes "lowered N r w w'" "w_boxes w p = Some b"
  obtains c where "w_boxes w' p = Some c" "box_lowered (r p) b c"
    "p \<in> N \<Longrightarrow> list_part c = list_part b"
proof -
  from assms(1) have "rel_option (box_lowered (r p)) (w_boxes w p) (w_boxes w' p)" by (auto simp: lowered_def)
  with assms(2) have "rel_option (box_lowered (r p)) (Some b) (w_boxes w' p)" by simp
  then obtain c where "w_boxes w' p = Some c" "box_lowered (r p) b c" by (auto simp: option_rel_Some1)
  moreover from assms this(1) have "p \<in> N \<Longrightarrow> list_part c = list_part b"
    by (auto simp: lowered_def dest!: bspec [of _ _ p])
  ultimately show ?thesis by (rule that)
qed

subsection \<open>One Cc\<close>

text \<open>The world after \<open>decrement_counter\<close>.\<close>

abbreviation dec_world :: "addr \<Rightarrow> 'f world \<Rightarrow> 'f world" where
  "dec_world q w \<equiv> w\<lparr>w_boxes := upd q (\<lambda>b. b\<lparr>b_cm := rc_minus_one (b_cm b)\<rparr>) (w_boxes w)\<rparr>"

lemma decrement_rc_ok:
  assumes "w_boxes w q = Some b" "0 < v_rc (view (b_cm b))" "v_rc (view (b_cm b)) < 16383"
  shows "decrement_rc q w = Done () (dec_world q w)"
proof -
  have "on_cm q decrement_counter (w_boxes w) = Done (Inr ()) (upd q (\<lambda>c. c\<lparr>b_cm := rc_minus_one (b_cm b)\<rparr>) (w_boxes w))"
    using on_cm_Done [of "w_boxes w" q b decrement_counter] assms decrement_counter_eval [of "b_cm b"] by simp
  moreover have "upd q (\<lambda>c. c\<lparr>b_cm := rc_minus_one (b_cm b)\<rparr>) (w_boxes w) = upd q (\<lambda>b. b\<lparr>b_cm := rc_minus_one (b_cm b)\<rparr>) (w_boxes w)"
    using assms(1) by (intro ext) (simp add: upd_apply)
  ultimately show ?thesis by (simp add: decrement_rc_def on_boxes_def zoom_def bindM_def)
qed

lemma dec_world_inv:
  assumes "drop_inv N ps W w" "w_boxes w q = Some b" "0 < v_rc (view (b_cm b))" "v_rc (view (b_cm b)) < 16383"
  shows "drop_inv N ps W (dec_world q w)" "lowered N ((\<lambda>_. 0)(q := 1)) w (dec_world q w)"
proof -
  show "drop_inv N ps W (dec_world q w)"
    by (rule drop_inv_upd [OF assms(1)]) (use assms(2-) in \<open>simp add: cm_upd box_meta_def\<close>)
  have "\<exists>h l M. dec_world q w = w\<lparr>w_boxes := h, w_pc := l, w_meta := M\<rparr>"
    by (intro exI [of _ "upd q (\<lambda>b. b\<lparr>b_cm := rc_minus_one (b_cm b)\<rparr>) (w_boxes w)"] exI [of _ "w_pc w"] exI [of _ "w_meta w"]) simp
  moreover have "rel_option (box_lowered (((\<lambda>_. 0)(q := 1)) p)) (w_boxes w p) (w_boxes (dec_world q w) p)" for p
    using assms(2-) by (cases "w_boxes w p") (auto simp: upd_apply box_lowered_def cm_upd)
  moreover have "map_option list_part (w_boxes (dec_world q w) p) = map_option list_part (w_boxes w p)" for p
    using assms(2-) by (cases "p = q") (auto simp: upd_apply list_part_def cm_upd)
  ultimately show "lowered N ((\<lambda>_. 0)(q := 1)) w (dec_world q w)" by (simp add: lowered_def)
qed

lemma add_to_list_inv:
  assumes inv: "drop_inv N ps W w" and q: "w_boxes w q = Some b" "q \<notin> N" "v_tc (view (b_cm b)) < 16383"
  shows "\<exists>w' qs. add_to_list q w = Done () w' \<and> drop_inv N qs W w' \<and> lowered N (\<lambda>_. 0) w w' \<and> set qs = insert q (set ps)"
proof (cases "q \<in> set ps")
  case True
  with add_to_list_noop [OF drop_invD(1) [OF inv] True q(1)] inv lowered_refl show ?thesis
    by (intro exI [of _ w] exI [of _ ps]) auto
next
  case False
  note d = drop_invD [OF inv]
  have nm: "v_mark (view (b_cm b)) = NonMarked"
    using d(6) [OF q(1)] buffered_mark [OF d(1) q(1)] False q(2)
    by (cases "v_mark (view (b_cm b))") (auto simp: in_collector_def)
  from d(3) have alive: "w_pc_alive w" by (simp add: calm_def)
  from add_to_list_ok [OF d(1) q(1) nm q(3) buffer_room [OF inv q(1) False] alive] obtain w' b' where
    1: "add_to_list q w = Done () w'" "buffered (q # ps) w'" "same_but_buffer w w'"
    "w_boxes w' q = Some b'" "v_tc (view (b_cm b')) = 0"
    "\<And>p. p \<noteq> q \<Longrightarrow> map_option payload (w_boxes w' p) = map_option payload (w_boxes w p)"
    "\<And>p. p \<notin> set (q # ps) \<Longrightarrow> w_boxes w' p = w_boxes w p" by blast
  have unb: "map_option unbuffered_part (w_boxes w' p) = map_option unbuffered_part (w_boxes w p)" for p
    using 1(3) by (simp add: same_but_buffer_def)
  have eq: "w' = w\<lparr>w_boxes := w_boxes w', w_pc := w_pc w'\<rparr>" using 1(3) by (simp add: same_but_buffer_def)
  have dom: "dom (w_boxes w') = dom (w_boxes w)"
  proof (rule set_eqI)
    fix p show "p \<in> dom (w_boxes w') \<longleftrightarrow> p \<in> dom (w_boxes w)"
      using unb [of p] by (cases "w_boxes w p"; cases "w_boxes w' p") auto
  qed
  have N: "p \<in> N \<Longrightarrow> p \<notin> set (q # ps)" for p
    using q(2) d(6) buffered_mark [OF d(1)] repr_live [OF buffered_repr [OF d(1)]]
    by (fastforce simp: in_collector_def)
  have inv': "drop_inv N (q # ps) W w'"
    unfolding drop_inv_def
  proof (intro conjI allI impI)
    show "buffered (q # ps) w'" by (rule 1(2))
    show "weak_inv W w'" by (rule weak_inv_buffer [OF d(2) 1(3)])
    show "calm w'" using d(3) by (subst eq) (simp add: calm_def)
    show "finite (dom (w_boxes w'))" "card (dom (w_boxes w')) < 2 ^ 64" using d(4,5) dom by simp_all
    fix p b assume p: "w_boxes w' p = Some b"
    show "in_collector b \<longleftrightarrow> p \<in> N"
    proof (cases "p \<in> set (q # ps)")
      case True
      with buffered_mark [OF 1(2) p] N show ?thesis by (auto simp: in_collector_def)
    next
      case False
      with 1(7) p d(6) show ?thesis by simp
    qed
    assume m: "p \<in> set (q # ps)"
    show "v_tc (view (b_cm b)) = 0"
    proof (cases "p = q")
      case True
      with 1(4,5) p show ?thesis by simp
    next
      case False
      with 1(6) have "map_option payload (w_boxes w p) = Some (payload b)" by (metis p option.simps(9))
      then obtain c where "w_boxes w p = Some c" "payload c = payload b" by auto
      with d(7) [of p c] m False show ?thesis by (simp add: payload_def)
    qed
  qed
  have "rel_option (box_lowered 0) (w_boxes w p) (w_boxes w' p)" for p
  proof (cases "p = q")
    case True
    with unb [of q] q(1) 1(4,5) show ?thesis by (auto simp: box_lowered_def unbuffered_part_def)
  next
    case False
    with 1(6) have "map_option payload (w_boxes w' p) = map_option payload (w_boxes w p)" by blast
    then show ?thesis
      by (cases "w_boxes w p"; cases "w_boxes w' p") (auto simp: box_lowered_def payload_def)
  qed
  moreover have "\<exists>h l M. w' = w\<lparr>w_boxes := h, w_pc := l, w_meta := M\<rparr>"
    by (intro exI [of _ "w_boxes w'"] exI [of _ "w_pc w'"] exI [of _ "w_meta w"]) (subst (1) eq, simp)
  moreover have "metas_kept (w_meta w) (w_meta w')" by (subst eq) simp
  moreover have "map_option list_part (w_boxes w' p) = map_option list_part (w_boxes w p)" if "p \<in> N" for p
    using 1(7) [OF N [OF that]] by simp
  ultimately have "lowered N (\<lambda>_. 0) w w'" by (simp add: lowered_def)
  with 1(1) inv' show ?thesis by auto
qed

text \<open>
  Dropping a \<open>Cc\<close> that is not the last one, outside of a tracing phase.
\<close>

lemma handle_shared:
  assumes inv: "drop_inv N ps W w" and q: "w_boxes w q = Some b" "v_rc (view (b_cm b)) < 16383" "q \<notin> N"
    and rc: "1 < v_rc (view (b_cm b))" "v_tc (view (b_cm b)) < 16383"
  shows "\<exists>w' qs. handle_possible_cycle q w = Done () w' \<and> drop_inv N qs W w' \<and>
    lowered N ((\<lambda>_. 0)(q := 1)) w w' \<and> set qs = insert q (set ps)"
proof -
  have pos: "0 < v_rc (view (b_cm b))" using rc by simp
  note dec = decrement_rc_ok [OF q(1) pos q(2)] and dw = dec_world_inv [OF inv q(1) pos q(2)]
  have q': "w_boxes (dec_world q w) q = Some (b\<lparr>b_cm := rc_minus_one (b_cm b)\<rparr>)" using q(1) by simp
  have tc: "v_tc (view (b_cm (b\<lparr>b_cm := rc_minus_one (b_cm b)\<rparr>))) < 16383" using rc pos by (simp add: cm_upd)
  from add_to_list_inv [OF dw(1) q' q(3) tc] obtain w' qs where
    1: "add_to_list q (dec_world q w) = Done () w'" "drop_inv N qs W w'" "lowered N (\<lambda>_. 0) (dec_world q w) w'"
    "set qs = insert q (set ps)" by blast
  have "handle_possible_cycle q w = Done () w'" using dec 1(1) by (simp add: handle_possible_cycle_def)
  moreover have "lowered N ((\<lambda>_. 0)(q := 1)) w w'" using lowered_trans [OF dw(2) 1(3)] by (simp add: fun_upd_def)
  ultimately show ?thesis using 1(2,4) by blast
qed

lemma cc_drop_shared:
  assumes inv: "drop_inv N ps W w" and q: "w_boxes w q = Some b" "v_rc (view (b_cm b)) < 16383"
    and rc: "if q \<in> N then 0 < v_rc (view (b_cm b)) else 1 < v_rc (view (b_cm b)) \<and> v_tc (view (b_cm b)) < 16383"
  shows "\<exists>w' qs. cc_drop uc (Suc n) q w = Done () w' \<and> drop_inv N qs W w' \<and>
    lowered N ((\<lambda>_. 0)(q := 1)) w w' \<and> set qs = set ps \<union> ({q} - N)"
proof -
  note d = drop_invD [OF inv]
  have test: "on_boxes (cm_test q is_in_list_or_queue) w = Done (q \<in> N) w"
    using q(1) d(6) [OF q(1)] by (simp add: on_boxes_def zoom_def cm_tests in_collector_def)
  have cnt: "on_boxes (on_cm q counter) w = Done (word_of_nat (v_rc (view (b_cm b)))) w"
    using on_cm_read [of "w_boxes w" q b counter] q by (simp add: on_boxes_def zoom_def)
  show ?thesis
  proof (cases "q \<in> N")
    case True
    with rc have pos: "0 < v_rc (view (b_cm b))" by simp
    note dec = decrement_rc_ok [OF q(1) pos q(2)] and dw = dec_world_inv [OF inv q(1) pos q(2)]
    have "cc_drop uc (Suc n) q w = Done () (dec_world q w)" using True d(3) test dec by simp
    with True dw show ?thesis by blast
  next
    case False
    with rc have more: "1 < v_rc (view (b_cm b))" "v_tc (view (b_cm b)) < 16383" by simp_all
    then have ne: "(word_of_nat (v_rc (view (b_cm b))) :: u16) \<noteq> 1"
      using q(2) word_of_nat_u16_numeral by (auto simp: word_unat_eq_iff unat_of_nat)
    from handle_shared [OF inv q False more] obtain w' qs where
      1: "handle_possible_cycle q w = Done () w'" "drop_inv N qs W w'" "lowered N ((\<lambda>_. 0)(q := 1)) w w'" "set qs = insert q (set ps)" by blast
    have "cc_drop uc (Suc n) q w = Done () w'" using d(3) test False cnt ne 1(1) by simp
    with 1(2-4) False show ?thesis by (intro exI [of _ w'] exI [of _ qs]) auto
  qed
qed

subsection \<open>The parts of a value\<close>

fun dropped_weaks :: "drop_call list \<Rightarrow> weak_ptr list" where
  "dropped_weaks [] = []"
| "dropped_weaks (DropCc p # ds) = dropped_weaks ds"
| "dropped_weaks (DropWeak m p # ds) = \<lparr>wk_metadata = m, wk_cc = p\<rparr> # dropped_weaks ds"
| "dropped_weaks (DropUser n # ds) = dropped_weaks ds"
| "dropped_weaks (DropMap sm # ds) = dropped_weaks ds"

lemma dropped_weaks_append [simp]: "dropped_weaks (as @ bs) = dropped_weaks as @ dropped_weaks bs"
  by (induction as rule: dropped_weaks.induct) auto

text \<open>
  What the world has to provide: the counters count the references that are dropped. No code from
  outside the crate is among the drops.
\<close>

definition covered :: "addr set \<Rightarrow> weak_ptr multiset \<Rightarrow> drop_call list \<Rightarrow> 'f world \<Rightarrow> bool" where
  "covered N W ds w \<longleftrightarrow> plain_glue ds \<and> mset (dropped_weaks ds) \<subseteq># W \<and>
     (\<forall>q \<in> set (dropped_ccs ds). \<exists>b. w_boxes w q = Some b \<and> v_rc (view (b_cm b)) < 16383 \<and>
        (if q \<in> N then count_list (dropped_ccs ds) q \<le> v_rc (view (b_cm b))
         else count_list (dropped_ccs ds) q < v_rc (view (b_cm b)) \<and> v_tc (view (b_cm b)) < 16383))"

lemma coveredD:
  assumes "covered N W ds w" "q \<in> set (dropped_ccs ds)"
  obtains b where "w_boxes w q = Some b" "v_rc (view (b_cm b)) < 16383"
    "if q \<in> N then count_list (dropped_ccs ds) q \<le> v_rc (view (b_cm b))
     else count_list (dropped_ccs ds) q < v_rc (view (b_cm b)) \<and> v_tc (view (b_cm b)) < 16383"
  using assms unfolding covered_def by blast

lemma covered_step:
  assumes c: "covered N W (as @ ds) w" and l: "lowered N (count_list (dropped_ccs as)) w w'"
  shows "covered N (W - mset (dropped_weaks as)) ds w'"
  unfolding covered_def
proof (intro conjI ballI)
  show "plain_glue ds" using c by (simp add: covered_def)
  show "mset (dropped_weaks ds) \<subseteq># W - mset (dropped_weaks as)"
  proof -
    have "mset (dropped_weaks as) + mset (dropped_weaks ds) \<subseteq># W" using c by (simp add: covered_def)
    then show ?thesis by (auto simp: mset_subset_eq_exists_conv)
  qed
  fix q assume q: "q \<in> set (dropped_ccs ds)"
  then have "q \<in> set (dropped_ccs (as @ ds))" by simp
  from coveredD [OF c this] obtain b where b: "w_boxes w q = Some b" "v_rc (view (b_cm b)) < 16383"
    "if q \<in> N then count_list (dropped_ccs (as @ ds)) q \<le> v_rc (view (b_cm b))
     else count_list (dropped_ccs (as @ ds)) q < v_rc (view (b_cm b)) \<and> v_tc (view (b_cm b)) < 16383" .
  from loweredD [OF l b(1)] obtain c where "w_boxes w' q = Some c" "box_lowered (count_list (dropped_ccs as) q) b c" .
  with b show "\<exists>b. w_boxes w' q = Some b \<and> v_rc (view (b_cm b)) < 16383 \<and>
        (if q \<in> N then count_list (dropped_ccs ds) q \<le> v_rc (view (b_cm b))
         else count_list (dropped_ccs ds) q < v_rc (view (b_cm b)) \<and> v_tc (view (b_cm b)) < 16383)"
    by (auto simp: box_lowered_def split: if_splits)
qed

lemma drop_one_ok:
  assumes inv: "drop_inv N ps W w" and c: "covered N W (d # ds) w"
  shows "\<exists>w' qs. drop_one uc (Suc n) d w = Done () w' \<and> drop_inv N qs (W - mset (dropped_weaks [d])) w' \<and>
    lowered N (count_list (dropped_ccs [d])) w w' \<and> set qs = set ps \<union> (set (dropped_ccs [d]) - N)"
proof (cases d)
  case (DropCc q)
  then have "q \<in> set (dropped_ccs (d # ds))" by simp
  from coveredD [OF c this] obtain b where b: "w_boxes w q = Some b" "v_rc (view (b_cm b)) < 16383"
    "if q \<in> N then count_list (dropped_ccs (d # ds)) q \<le> v_rc (view (b_cm b))
     else count_list (dropped_ccs (d # ds)) q < v_rc (view (b_cm b)) \<and> v_tc (view (b_cm b)) < 16383" .
  then have "if q \<in> N then 0 < v_rc (view (b_cm b)) else 1 < v_rc (view (b_cm b)) \<and> v_tc (view (b_cm b)) < 16383"
    by (auto simp: DropCc split: if_splits)
  from cc_drop_shared [OF inv b(1,2) this, of uc n] obtain w' qs where
    "cc_drop uc (Suc n) q w = Done () w'" "drop_inv N qs W w'" "lowered N ((\<lambda>_. 0)(q := 1)) w w'"
    "set qs = set ps \<union> ({q} - N)" by blast
  moreover have "count_list (dropped_ccs [d]) = (\<lambda>_. 0)(q := 1)" by (auto simp: DropCc)
  ultimately show ?thesis by (auto simp: drop_one_def DropCc simp del: cc_drop.simps)
next
  case (DropWeak m q)
  let ?k = "\<lparr>wk_metadata = m, wk_cc = q\<rparr>"
  note d = drop_invD [OF inv]
  from c have "?k \<in># W" by (auto simp: covered_def DropWeak dest: mset_subset_eqD)
  from weak_drop_ok [OF d(2) this] obtain M where
    1: "weak_drop ?k w = Done () (w\<lparr>w_meta := M\<rparr>)" "weak_inv (W - {#?k#}) (w\<lparr>w_meta := M\<rparr>)" "metas_kept (w_meta w) M" by blast
  have "drop_inv N ps (W - {#?k#}) (w\<lparr>w_meta := M\<rparr>)"
    using d 1(2) by (auto simp: drop_inv_def buffered_def calm_def)
  moreover have "\<exists>h l M'. w\<lparr>w_meta := M\<rparr> = w\<lparr>w_boxes := h, w_pc := l, w_meta := M'\<rparr>"
    by (intro exI [of _ "w_boxes w"] exI [of _ "w_pc w"] exI [of _ M]) simp
  then have "lowered N (\<lambda>_. 0) w (w\<lparr>w_meta := M\<rparr>)"
    using 1(3) by (auto simp: lowered_def box_lowered_def intro: option.rel_refl)
  moreover have "count_list (dropped_ccs [d]) = (\<lambda>_. 0)" by (auto simp: DropWeak)
  ultimately show ?thesis using 1(1) by (auto simp: drop_one_def DropWeak)
qed (use c in \<open>auto simp: covered_def\<close>)

lemma drop_seq_ok:
  assumes "drop_inv N ps W w" "covered N W ds w"
  shows "\<exists>w' qs. drop_seq (drop_one uc (Suc n)) ds w = Done () w' \<and> drop_inv N qs (W - mset (dropped_weaks ds)) w' \<and>
    lowered N (count_list (dropped_ccs ds)) w w' \<and> set qs = set ps \<union> (set (dropped_ccs ds) - N)"
  using assms
proof (induction ds arbitrary: ps W w)
  case Nil
  have "count_list (dropped_ccs []) = (\<lambda>_. 0)" by auto
  with Nil lowered_refl show ?case by (intro exI [of _ w] exI [of _ ps]) auto
next
  case (Cons d ds)
  from drop_one_ok [OF Cons.prems, of uc n] obtain v rs where
    1: "drop_one uc (Suc n) d w = Done () v" "drop_inv N rs (W - mset (dropped_weaks [d])) v"
    "lowered N (count_list (dropped_ccs [d])) w v" "set rs = set ps \<union> (set (dropped_ccs [d]) - N)" by blast
  have "covered N W ([d] @ ds) w" using Cons.prems(2) by simp
  from Cons.IH [OF 1(2) covered_step [OF this 1(3)]] obtain w' qs where
    2: "drop_seq (drop_one uc (Suc n)) ds v = Done () w'"
    "drop_inv N qs (W - mset (dropped_weaks [d]) - mset (dropped_weaks ds)) w'"
    "lowered N (count_list (dropped_ccs ds)) v w'" "set qs = set rs \<union> (set (dropped_ccs ds) - N)" by blast
  have cnt: "(\<lambda>p. count_list (dropped_ccs [d]) p + count_list (dropped_ccs ds) p) = count_list (dropped_ccs (d # ds))"
    by (cases d) auto
  have sets: "set (dropped_ccs (d # ds)) = set (dropped_ccs [d]) \<union> set (dropped_ccs ds)"
    "mset (dropped_weaks (d # ds)) = mset (dropped_weaks [d]) + mset (dropped_weaks ds)" by (cases d; simp)+
  have "drop_seq (drop_one uc (Suc n)) (d # ds) w = Done () w'" using 1(1) 2(1) by simp
  moreover have "drop_inv N qs (W - mset (dropped_weaks (d # ds))) w'" using 2(2) sets(2) by (simp add: diff_diff_add)
  moreover have "lowered N (count_list (dropped_ccs (d # ds))) w w'" using lowered_trans [OF 1(3) 2(3)] cnt by simp
  moreover have "set qs = set ps \<union> (set (dropped_ccs (d # ds)) - N)" using 1(4) 2(4) sets(1) by auto
  ultimately show ?case by blast
qed

end
