(* ===== verification/Destroy.thy ===== *)
theory Destroy
  imports Iteration Drop_Steps
begin

text \<open>
  The first pass of \<open>deallocate_list\<close>: the elements of all boxes of the list are dropped while the
  boxes stay allocated, so that the destructors may still access each other's boxes.
\<close>

definition glue_of :: "boxes \<Rightarrow> addr \<Rightarrow> drop_call list" where
  "glue_of h x = (case h x of None \<Rightarrow> [] | Some b \<Rightarrow> (case b_elem b of None \<Rightarrow> [] | Some v \<Rightarrow> drop_glue v))"

definition glues :: "boxes \<Rightarrow> addr list \<Rightarrow> drop_call list" where
  "glues h xs = concat (map (glue_of h) xs)"

lemma glues_simps [simp]: "glues h [] = []" "glues h (x # xs) = glue_of h x @ glues h xs"
  "glues h (xs @ ys) = glues h xs @ glues h ys"
  by (simp_all add: glues_def)

text \<open>A box after the pass; \<open>d\<close> says that its element has been dropped, \<open>n\<close> counts the lost references.\<close>

definition box_after :: "bool \<Rightarrow> nat \<Rightarrow> ccbox \<Rightarrow> ccbox \<Rightarrow> bool" where
  "box_after d n b c \<longleftrightarrow> b_elem c = (if d then None else b_elem b) \<and> b_metadata c = b_metadata b \<and>
     v_meta (view (b_cm c)) = v_meta (view (b_cm b)) \<and> v_fin (view (b_cm c)) = v_fin (view (b_cm b)) \<and>
     v_rc (view (b_cm b)) = v_rc (view (b_cm c)) + n \<and>
     (if d then v_tc (view (b_cm c)) = 16383 else v_tc (view (b_cm c)) \<in> {0, v_tc (view (b_cm b))})"

definition link_mark :: "ccbox \<Rightarrow> addr option \<times> addr option \<times> mark" where
  "link_mark b = (b_next b, b_prev b, v_mark (view (b_cm b)))"

definition destroyed :: "addr set \<Rightarrow> addr list \<Rightarrow> weak_ptr multiset \<Rightarrow> 'f world \<Rightarrow> addr list \<Rightarrow> 'f world \<Rightarrow> bool" where
  "destroyed N ps W w0 xs w \<longleftrightarrow> (let ds = glues (w_boxes w0) xs in
     (\<exists>qs. drop_inv N qs (W - mset (dropped_weaks ds)) w \<and> set qs = set ps \<union> (set (dropped_ccs ds) - N)) \<and>
     (\<exists>h l M. w = w0\<lparr>w_boxes := h, w_pc := l, w_meta := M\<rparr>) \<and> metas_kept (w_meta w0) (w_meta w) \<and>
     (\<forall>p. rel_option (box_after (p \<in> set xs) (count_list (dropped_ccs ds) p)) (w_boxes w0 p) (w_boxes w p)) \<and>
     (\<forall>p \<in> N. map_option link_mark (w_boxes w p) = map_option link_mark (w_boxes w0 p)))"

lemma destroyed_start:
  assumes "drop_inv N ps W w"
  shows "destroyed N ps W w [] w"
proof -
  have "\<exists>h l M. w = w\<lparr>w_boxes := h, w_pc := l, w_meta := M\<rparr>"
    by (intro exI [of _ "w_boxes w"] exI [of _ "w_pc w"] exI [of _ "w_meta w"]) simp
  with assms show ?thesis by (auto simp: destroyed_def box_after_def intro: option.rel_refl)
qed

lemma destroyedD:
  assumes "destroyed N ps W w0 xs w" "w_boxes w0 p = Some b"
  obtains c where "w_boxes w p = Some c" "box_after (p \<in> set xs) (count_list (dropped_ccs (glues (w_boxes w0) xs)) p) b c"
    "p \<in> N \<Longrightarrow> link_mark c = link_mark b"
proof -
  from assms(1) have "rel_option (box_after (p \<in> set xs) (count_list (dropped_ccs (glues (w_boxes w0) xs)) p)) (w_boxes w0 p) (w_boxes w p)"
    and N: "p \<in> N \<Longrightarrow> map_option link_mark (w_boxes w p) = map_option link_mark (w_boxes w0 p)"
    by (simp_all add: destroyed_def Let_def)
  with assms(2) obtain c where c: "w_boxes w p = Some c"
    "box_after (p \<in> set xs) (count_list (dropped_ccs (glues (w_boxes w0) xs)) p) b c" by (auto simp: option_rel_Some1)
  show ?thesis by (rule that [OF c]) (use N c(1) assms(2) in auto)
qed

lemma covered_prefix: "covered N W (as @ bs) w \<Longrightarrow> covered N W as w"
  by (fastforce simp: covered_def count_notin dest: mset_subset_eq_add_left [THEN subset_mset.order_trans] split: if_splits)

lemma covered_after:
  assumes c: "covered N W (glues (w_boxes w0) xs @ ds) w0" and d: "destroyed N ps W w0 xs w" and N: "set xs \<subseteq> N"
  shows "covered N (W - mset (dropped_weaks (glues (w_boxes w0) xs))) ds w"
  unfolding covered_def
proof (intro conjI ballI)
  let ?as = "glues (w_boxes w0) xs"
  show "plain_glue ds" using c by (simp add: covered_def)
  have "mset (dropped_weaks ?as) + mset (dropped_weaks ds) \<subseteq># W" using c by (simp add: covered_def)
  then show "mset (dropped_weaks ds) \<subseteq># W - mset (dropped_weaks ?as)" by (auto simp: mset_subset_eq_exists_conv)
  fix q assume q: "q \<in> set (dropped_ccs ds)"
  then have "q \<in> set (dropped_ccs (?as @ ds))" by simp
  from coveredD [OF c this] obtain b where b: "w_boxes w0 q = Some b" "v_rc (view (b_cm b)) < 16383"
    "if q \<in> N then count_list (dropped_ccs (?as @ ds)) q \<le> v_rc (view (b_cm b))
     else count_list (dropped_ccs (?as @ ds)) q < v_rc (view (b_cm b)) \<and> v_tc (view (b_cm b)) < 16383" .
  from destroyedD [OF d b(1)] obtain c where "w_boxes w q = Some c" "box_after (q \<in> set xs) (count_list (dropped_ccs ?as) q) b c" .
  with b N show "\<exists>b. w_boxes w q = Some b \<and> v_rc (view (b_cm b)) < 16383 \<and>
        (if q \<in> N then count_list (dropped_ccs ds) q \<le> v_rc (view (b_cm b))
         else count_list (dropped_ccs ds) q < v_rc (view (b_cm b)) \<and> v_tc (view (b_cm b)) < 16383)"
    by (intro exI [of _ c]) (auto simp: box_after_def split: if_splits)
qed

subsection \<open>One element\<close>

abbreviation gone_world :: "addr \<Rightarrow> 'f world \<Rightarrow> 'f world" where
  "gone_world x w \<equiv> w\<lparr>w_boxes := upd x (\<lambda>b. b\<lparr>b_cm := set_dropped True (b_cm b), b_elem := None\<rparr>) (w_boxes w)\<rparr>"

text \<open>
  The element of a box is marked and dropped in \<open>CcBox::drop_inner\<close>, which reaches it through the vtable,
  and in \<open>Cc::drop\<close>, which has its type.
\<close>

definition drop_marked :: "'f user_code \<Rightarrow> nat \<Rightarrow> addr \<Rightarrow> ('f, unit) gc" where
  "drop_marked uc n x = thenM (on_boxes (on_cm x (modifyM (set_dropped True)))) (drop_elem (drop_one uc n) x)"

lemma drop_inner_marked:
  assumes "weak_inv W w" "w_boxes w x = Some b"
  shows "drop_inner uc n x w = drop_marked uc n x w"
proof -
  let ?v = "w\<lparr>w_boxes := upd x (\<lambda>d. d\<lparr>b_cm := set_dropped True (b_cm b)\<rparr>) (w_boxes w)\<rparr>"
  have "on_boxes (on_cm x (modifyM (set_dropped True))) w = Done () ?v"
    using on_cm_Done [of "w_boxes w" x b "modifyM (set_dropped True)"] assms(2) by (simp add: on_boxes_def zoom_def)
  moreover have "get_traceable x ?v = Done x ?v"
    by (rule get_traceable_box [where b = "b\<lparr>b_cm := set_dropped True (b_cm b)\<rparr>"])
      (use assms(2) weak_inv_has_vtable [OF assms] in \<open>simp_all add: cm_upd\<close>)
  ultimately show ?thesis by (simp add: drop_inner_def drop_marked_def)
qed

lemma drop_marked_eval:
  assumes x: "w_boxes w x = Some b" "b_elem b = Some v"
  shows "drop_marked uc n x w = drop_seq (drop_one uc n) (drop_glue v) (gone_world x w)"
proof -
  let ?v = "w\<lparr>w_boxes := upd x (\<lambda>d. d\<lparr>b_cm := set_dropped True (b_cm b)\<rparr>) (w_boxes w)\<rparr>"
  have "on_boxes (on_cm x (modifyM (set_dropped True))) w = Done () ?v"
    using on_cm_Done [of "w_boxes w" x b "modifyM (set_dropped True)"] x(1) by (simp add: on_boxes_def zoom_def)
  moreover have "get_elem x ?v = Done v ?v"
    using x by (simp add: get_elem_def on_boxes_def zoom_def bindM_def)
  moreover have "on_boxes (store x (\<lambda>b. b\<lparr>b_elem := None\<rparr>)) ?v = Done () (gone_world x w)"
  proof -
    have "upd x (\<lambda>c. c\<lparr>b_cm := set_dropped True (b_cm b), b_elem := None\<rparr>) (w_boxes w)
        = upd x (\<lambda>b. b\<lparr>b_cm := set_dropped True (b_cm b), b_elem := None\<rparr>) (w_boxes w)"
      using x by (intro ext) (simp add: upd_apply)
    then show ?thesis using x by (simp add: on_boxes_def zoom_def)
  qed
  ultimately show ?thesis by (simp add: drop_marked_def drop_elem_def)
qed

lemma drop_marked_gen:
  assumes inv: "drop_inv N ps W w" and x: "w_boxes w x = Some b" "b_elem b = Some v" "x \<notin> set ps"
    and xN: "x \<in> N \<or> x \<notin> set (dropped_ccs (drop_glue v))" and c: "covered N W (drop_glue v) w"
  shows "\<exists>w' qs. drop_marked uc (Suc n) x w = Done () w' \<and> drop_inv N qs (W - mset (dropped_weaks (drop_glue v))) w' \<and>
    lowered N (count_list (dropped_ccs (drop_glue v))) (gone_world x w) w' \<and> set qs = set ps \<union> (set (dropped_ccs (drop_glue v)) - N)"
proof -
  have inv1: "drop_inv N ps W (gone_world x w)"
    by (rule drop_inv_upd [OF inv]) (use x(3) in \<open>simp add: cm_upd box_meta_def\<close>)
  have "covered N W (drop_glue v) (gone_world x w)"
    unfolding covered_def
  proof (intro conjI ballI)
    show "plain_glue (drop_glue v)" "mset (dropped_weaks (drop_glue v)) \<subseteq># W" using c by (simp_all add: covered_def)
    fix q assume q: "q \<in> set (dropped_ccs (drop_glue v))"
    from coveredD [OF c this] obtain b' where "w_boxes w q = Some b'" "v_rc (view (b_cm b')) < 16383"
      "if q \<in> N then count_list (dropped_ccs (drop_glue v)) q \<le> v_rc (view (b_cm b'))
       else count_list (dropped_ccs (drop_glue v)) q < v_rc (view (b_cm b')) \<and> v_tc (view (b_cm b')) < 16383" .
    with xN q show "\<exists>b'. w_boxes (gone_world x w) q = Some b' \<and> v_rc (view (b_cm b')) < 16383 \<and>
        (if q \<in> N then count_list (dropped_ccs (drop_glue v)) q \<le> v_rc (view (b_cm b'))
         else count_list (dropped_ccs (drop_glue v)) q < v_rc (view (b_cm b')) \<and> v_tc (view (b_cm b')) < 16383)"
      by (cases "q = x") (auto simp: cm_upd)
  qed
  from drop_seq_ok [OF inv1 this, of uc n] obtain w' qs where
    1: "drop_seq (drop_one uc (Suc n)) (drop_glue v) (gone_world x w) = Done () w'"
    "drop_inv N qs (W - mset (dropped_weaks (drop_glue v))) w'"
    "lowered N (count_list (dropped_ccs (drop_glue v))) (gone_world x w) w'"
    "set qs = set ps \<union> (set (dropped_ccs (drop_glue v)) - N)" by blast
  with drop_marked_eval [OF x(1,2)] have "drop_marked uc (Suc n) x w = Done () w'" by simp
  with 1 show ?thesis by blast
qed

lemma drop_inner_ok:
  assumes inv: "drop_inv N ps W w" and x: "w_boxes w x = Some b" "b_elem b = Some v" "x \<in> N"
    and c: "covered N W (drop_glue v) w"
  shows "\<exists>w' qs. drop_inner uc (Suc n) x w = Done () w' \<and> drop_inv N qs (W - mset (dropped_weaks (drop_glue v))) w' \<and>
    lowered N (count_list (dropped_ccs (drop_glue v))) (gone_world x w) w' \<and> set qs = set ps \<union> (set (dropped_ccs (drop_glue v)) - N)"
  unfolding drop_inner_marked [OF drop_invD(2) [OF inv] x(1)]
proof (rule drop_marked_gen [OF inv x(1,2) _ _ c])
  show "x \<notin> set ps"
    using drop_invD(6) [OF inv x(1)] x(3) buffered_mark [OF drop_invD(1) [OF inv] x(1)] by (auto simp: in_collector_def)
qed (use x(3) in simp)

lemma destroyed_step:
  assumes d: "destroyed N ps W w0 xs w" and x: "x \<in> N" "x \<notin> set xs" "w_boxes w0 x = Some b" "b_elem b = Some v"
    and N: "set xs \<subseteq> N" and c: "covered N W (glues (w_boxes w0) (xs @ [x])) w0"
  shows "\<exists>w'. drop_inner uc (Suc n) x w = Done () w' \<and> destroyed N ps W w0 (xs @ [x]) w'"
proof -
  let ?as = "glues (w_boxes w0) xs" and ?ds = "drop_glue v"
  have g: "glue_of (w_boxes w0) x = ?ds" using x by (simp add: glue_of_def)
  from d obtain qs where inv: "drop_inv N qs (W - mset (dropped_weaks ?as)) w"
    and qs: "set qs = set ps \<union> (set (dropped_ccs ?as) - N)" by (auto simp: destroyed_def Let_def)
  from destroyedD [OF d x(3)] obtain b1 where b1: "w_boxes w x = Some b1"
    "box_after (x \<in> set xs) (count_list (dropped_ccs ?as) x) b b1" by blast
  with x have el: "b_elem b1 = Some v" by (simp add: box_after_def)
  have cov: "covered N (W - mset (dropped_weaks ?as)) ?ds w"
    using covered_after [OF _ d N, of ?ds] c g by simp
  from drop_inner_ok [OF inv b1(1) el x(1) cov, of uc n] obtain w' rs where
    1: "drop_inner uc (Suc n) x w = Done () w'" "drop_inv N rs (W - mset (dropped_weaks ?as) - mset (dropped_weaks ?ds)) w'"
    "lowered N (count_list (dropped_ccs ?ds)) (gone_world x w) w'" "set rs = set qs \<union> (set (dropped_ccs ?ds) - N)" by blast
  have "destroyed N ps W w0 (xs @ [x]) w'"
    unfolding destroyed_def Let_def
  proof (intro conjI allI ballI)
    show "\<exists>qs. drop_inv N qs (W - mset (dropped_weaks (glues (w_boxes w0) (xs @ [x])))) w' \<and>
        set qs = set ps \<union> (set (dropped_ccs (glues (w_boxes w0) (xs @ [x]))) - N)"
      by (intro exI [of _ rs]) (use 1(2,4) qs g in \<open>auto simp: diff_diff_add\<close>)
    from d obtain h l M where "w = w0\<lparr>w_boxes := h, w_pc := l, w_meta := M\<rparr>" by (auto simp: destroyed_def Let_def)
    moreover from 1(3) obtain h' l' M' where "w' = (gone_world x w)\<lparr>w_boxes := h', w_pc := l', w_meta := M'\<rparr>"
      by (auto simp: lowered_def)
    ultimately show "\<exists>h l M. w' = w0\<lparr>w_boxes := h, w_pc := l, w_meta := M\<rparr>"
      by (intro exI [of _ h'] exI [of _ l'] exI [of _ M']) simp
    show "metas_kept (w_meta w0) (w_meta w')"
      using d 1(3) by (auto simp: destroyed_def Let_def lowered_def intro: metas_kept_trans)
    fix p
    show "rel_option (box_after (p \<in> set (xs @ [x])) (count_list (dropped_ccs (glues (w_boxes w0) (xs @ [x]))) p)) (w_boxes w0 p) (w_boxes w' p)"
    proof (cases "w_boxes w0 p")
      case None
      with d have "w_boxes w p = None" by (auto simp: destroyed_def Let_def option_rel_Some1 dest!: spec [of _ p])
      moreover from this b1 have "p \<noteq> x" by auto
      ultimately have "w_boxes w' p = None" using 1(3) by (auto simp: lowered_def dest!: spec [of _ p])
      with None show ?thesis by simp
    next
      case (Some b0)
      from destroyedD [OF d Some] obtain c where c: "w_boxes w p = Some c"
        "box_after (p \<in> set xs) (count_list (dropped_ccs ?as) p) b0 c" by blast
      let ?c = "if p = x then c\<lparr>b_cm := set_dropped True (b_cm c), b_elem := None\<rparr> else c"
      have c': "w_boxes (gone_world x w) p = Some ?c" using c(1) by (cases "p = x") auto
      from loweredD [OF 1(3) c'] obtain e where e: "w_boxes w' p = Some e"
        "box_lowered (count_list (dropped_ccs ?ds) p) ?c e" "p \<in> N \<Longrightarrow> list_part e = list_part ?c" by blast
      show ?thesis
      proof (cases "p = x")
        case True
        with Some c(2) e x(1) g show ?thesis by (simp add: box_after_def box_lowered_def list_part_def cm_upd)
      next
        case False
        moreover from False have "p \<in> set xs \<Longrightarrow> v_tc (view (b_cm e)) = v_tc (view (b_cm c))"
          using e(3) N by (auto simp: list_part_def)
        ultimately show ?thesis using Some c(2) e(1,2) g by (auto simp: box_after_def box_lowered_def)
      qed
    qed
    assume "p \<in> N"
    then have "map_option list_part (w_boxes w' p) = map_option list_part (w_boxes (gone_world x w) p)"
      using 1(3) unfolding lowered_def by blast
    then have "map_option link_mark (w_boxes w' p) = map_option link_mark (w_boxes (gone_world x w) p)"
      by (cases "w_boxes w' p"; cases "w_boxes (gone_world x w) p") (auto simp: list_part_def link_mark_def)
    also have "\<dots> = map_option link_mark (w_boxes w p)"
      by (cases "w_boxes w p") (auto simp: upd_apply link_mark_def cm_upd)
    also have "\<dots> = map_option link_mark (w_boxes w0 p)" using d \<open>p \<in> N\<close> by (simp add: destroyed_def Let_def)
    finally show "map_option link_mark (w_boxes w' p) = map_option link_mark (w_boxes w0 p)" .
  qed
  with 1(1) show ?thesis by blast
qed

end
