(* ===== verification/Dealloc.thy ===== *)
theory Dealloc
  imports Destroy
begin

text \<open>
  The second pass of \<open>deallocate_list\<close>, which frees the boxes and settles the accounts, and the
  contract of the whole function.
\<close>

subsection \<open>Layouts\<close>

definition size_of :: "'f world \<Rightarrow> addr \<Rightarrow> nat" where
  "size_of w p = (case w_boxes w p of None \<Rightarrow> 0 | Some b \<Rightarrow> (case b_metadata b of
      MetaVTable vt \<Rightarrow> unat (vt_size vt)
    | MetaBoxed m \<Rightarrow> (case w_meta w m of None \<Rightarrow> 0 | Some bm \<Rightarrow> unat (vt_size (bm_vtable bm)))))"

lemma box_layout_ok:
  assumes inv: "weak_inv W w" and p: "w_boxes w p = Some b"
  shows "\<exists>n. box_layout p w = Done n w \<and> unat n = size_of w p"
proof (cases "v_meta (view (b_cm b))")
  case True
  with weak_invD(1) [OF inv] p obtain m where m: "b_metadata b = MetaBoxed m" unfolding union_ok_def by metis
  with p True have "owner w p m" by (simp add: owner_def)
  from weak_invD(2) [OF inv this] obtain bm where bm: "w_meta w m = Some bm" by blast
  with True p m show ?thesis
    by (simp add: box_layout_def box_vtable_unfold get_metadata_unchecked_def deref_meta_def on_boxes_def zoom_def
        bindM_def cm_tests size_of_def)
next
  case False
  with weak_invD(1) [OF inv] p obtain vt where m: "b_metadata b = MetaVTable vt" unfolding union_ok_def by metis
  with False p show ?thesis
    by (simp add: box_layout_def box_vtable_unfold union_vtable_def on_boxes_def zoom_def bindM_def cm_tests size_of_def)
qed

lemma size_of_kept:
  assumes inv: "weak_inv W w'" and kept: "metas_kept (w_meta w) (w_meta w')"
    and p: "w_boxes w p = Some b" "w_boxes w' p = Some c" "box_meta c = box_meta b"
  shows "size_of w' p = size_of w p"
proof (cases "v_meta (view (b_cm c))")
  case True
  with weak_invD(1) [OF inv] p obtain m where m: "b_metadata c = MetaBoxed m" unfolding union_ok_def by metis
  with p True have "owner w' p m" by (simp add: owner_def)
  from weak_invD(2) [OF inv this] obtain bm where bm: "w_meta w' m = Some bm" by blast
  with kept obtain bm0 where "w_meta w m = Some bm0" "bm_vtable bm = bm_vtable bm0" by (auto simp: metas_kept_def)
  moreover from p(3) m have "b_metadata b = MetaBoxed m" by (simp add: box_meta_def)
  ultimately show ?thesis using bm p(1,2) m by (simp add: size_of_def)
next
  case False
  with weak_invD(1) [OF inv] p obtain vt where "b_metadata c = MetaVTable vt" unfolding union_ok_def by metis
  moreover from this p(3) have "b_metadata b = MetaVTable vt" by (simp add: box_meta_def)
  ultimately show ?thesis using p(1,2) by (simp add: size_of_def)
qed

subsection \<open>Freeing\<close>

definition freed :: "weak_ptr multiset \<Rightarrow> 'f world \<Rightarrow> addr list \<Rightarrow> 'f world \<Rightarrow> bool" where
  "freed W w1 xs w \<longleftrightarrow> weak_inv W w \<and> metas_kept (w_meta w1) (w_meta w) \<and>
     (\<exists>M a. w = w1\<lparr>w_boxes := (\<lambda>p. if p \<in> set xs then None else w_boxes w1 p), w_meta := M,
        w_state := (w_state w1)\<lparr>st_allocated_bytes := a\<rparr>\<rparr>
      \<and> unat a + (\<Sum>x\<leftarrow>xs. size_of w1 x) = unat (st_allocated_bytes (w_state w1)))"

lemma freed_start: "weak_inv W w \<Longrightarrow> freed W w [] w"
  unfolding freed_def by (intro conjI exI [of _ "w_meta w"] exI [of _ "st_allocated_bytes (w_state w)"]) simp_all

lemma freed_step:
  assumes f: "freed W w1 xs w" and x: "w_boxes w1 x = Some b" "x \<notin> set xs"
    and bytes: "(\<Sum>y\<leftarrow>xs @ [x]. size_of w1 y) \<le> unat (st_allocated_bytes (w_state w1))"
  shows "\<exists>w'. dealloc_one x w = Done () w' \<and> freed W w1 (xs @ [x]) w'"
proof -
  from f obtain M a where w: "w = w1\<lparr>w_boxes := (\<lambda>p. if p \<in> set xs then None else w_boxes w1 p), w_meta := M,
        w_state := (w_state w1)\<lparr>st_allocated_bytes := a\<rparr>\<rparr>"
    and a: "unat a + (\<Sum>x\<leftarrow>xs. size_of w1 x) = unat (st_allocated_bytes (w_state w1))"
    and inv: "weak_inv W w" and kept: "metas_kept (w_meta w1) (w_meta w)" by (auto simp: freed_def)
  have xw: "w_boxes w x = Some b" using x by (simp add: w)
  from box_layout_ok [OF inv xw] obtain n where n: "box_layout x w = Done n w" "unat n = size_of w x" by blast
  have size: "size_of w x = size_of w1 x" by (rule size_of_kept [OF inv kept x(1) xw refl])
  have le: "unat n \<le> unat a" using a bytes n(2) size by simp
  then have "unat n \<le> unat (st_allocated_bytes (w_state w))" by (simp add: w)
  from free_box_ok [OF inv xw this] obtain M' w' where
    1: "thenM (drop_metadata x) (cc_dealloc x n) w = Done () w'" "weak_inv W w'" "metas_kept (w_meta w) M'"
    and w': "w' = w\<lparr>w_meta := M', w_state := (w_state w)\<lparr>st_allocated_bytes := st_allocated_bytes (w_state w) - n\<rparr>,
           w_boxes := (w_boxes w)(x := None)\<rparr>" by blast
  have "unat (a - n) = unat a - unat n" using le by (simp add: unat_sub word_le_nat_alt)
  then have "unat (a - n) + (\<Sum>y\<leftarrow>xs @ [x]. size_of w1 y) = unat (st_allocated_bytes (w_state w1))"
    using a n(2) size le by simp
  moreover have "w' = w1\<lparr>w_boxes := (\<lambda>p. if p \<in> set (xs @ [x]) then None else w_boxes w1 p), w_meta := M',
        w_state := (w_state w1)\<lparr>st_allocated_bytes := a - n\<rparr>\<rparr>"
  proof -
    have "(\<lambda>p. if p \<in> set xs then None else w_boxes w1 p)(x := None) = (\<lambda>p. if p \<in> set (xs @ [x]) then None else w_boxes w1 p)"
      by auto
    then show ?thesis unfolding w' w by simp
  qed
  moreover have "metas_kept (w_meta w1) (w_meta w')" using kept 1(3) by (auto simp: w' intro: metas_kept_trans)
  ultimately have "freed W w1 (xs @ [x]) w'" using 1(2) unfolding freed_def by blast
  moreover have "dealloc_one x w = Done () w'" using n(1) 1(1) by (simp add: dealloc_one_def)
  ultimately show ?thesis by blast
qed

subsection \<open>deallocate_list\<close>

text \<open>
  The boxes of the list are freed, the references their elements held are given back, and nothing
  else changes. \<open>ps\<close> is what the buffer holds, \<open>qs\<close> what it holds afterwards.
\<close>

definition deallocated :: "addr list \<Rightarrow> addr list \<Rightarrow> weak_ptr multiset \<Rightarrow> 'f world \<Rightarrow> 'f world \<Rightarrow> bool" where
  "deallocated ns ps W w w' \<longleftrightarrow> (let ds = glues (w_boxes w) ns in
     (\<exists>qs. buffered qs w' \<and> set qs = set ps \<union> (set (dropped_ccs ds) - set ns) \<and>
        (\<forall>p b. w_boxes w' p = Some b \<longrightarrow> \<not> in_collector b \<and> (p \<in> set qs \<longrightarrow> v_tc (view (b_cm b)) = 0))) \<and>
     weak_inv (W - mset (dropped_weaks ds)) w' \<and> metas_kept (w_meta w) (w_meta w') \<and>
     (\<forall>p \<in> set ns. w_boxes w' p = None) \<and>
     (\<forall>p. p \<notin> set ns \<longrightarrow> rel_option (box_after False (count_list (dropped_ccs ds) p)) (w_boxes w p) (w_boxes w' p)) \<and>
     (\<exists>h l M a. w' = w\<lparr>w_boxes := h, w_pc := l, w_meta := M, w_state := (w_state w)\<lparr>st_allocated_bytes := a\<rparr>\<rparr> \<and>
        unat a + (\<Sum>x\<leftarrow>ns. size_of w x) = unat (st_allocated_bytes (w_state w))))"

lemma buffered_free:
  assumes buf: "buffered qs w" and out: "set qs \<inter> S = {}"
    and w': "w_boxes w' = (\<lambda>p. if p \<in> S then None else w_boxes w p)" "w_pc w' = w_pc w"
  shows "buffered qs w'"
  unfolding buffered_def
proof (intro conjI allI impI)
  have links: "p \<notin> S \<Longrightarrow> links (w_boxes w') p = links (w_boxes w) p" for p by (simp add: w'(1) links_def)
  show "pc_repr (w_pc w') (w_boxes w') qs"
    unfolding w'(2) by (rule pc_repr_cong [OF buffered_repr [OF buf]]) (use links out in auto)
  fix p b assume p: "w_boxes w' p = Some b"
  then have pS: "p \<notin> S" "w_boxes w p = Some b" by (auto simp: w'(1) split: if_splits)
  show "v_mark (view (b_cm b)) = PossibleCycles \<longleftrightarrow> p \<in> set qs" by (rule buffered_mark [OF buf pS(2)])
  assume "v_mark (view (b_cm b)) = NonMarked"
  with buffered_isolated [OF buf pS(2)] links [OF pS(1)] show "isolated (w_boxes w') p" by (simp add: isolated_def)
qed

lemma with_field_Done:
  "m (w\<lparr>w_state := field_set f v (w_state w)\<rparr>) = Done a t \<Longrightarrow>
   with_field f v m w = Done a (t\<lparr>w_state := field_set f (field_get f (w_state w)) (w_state t)\<rparr>)"
  by (simp add: with_field_def replace_state_field_def)

lemma dropping_restored:
  "field_set FieldDropping (field_get FieldDropping s) ((field_set FieldDropping True s)\<lparr>st_allocated_bytes := a\<rparr>)
   = s\<lparr>st_allocated_bytes := a\<rparr>"
  by (simp add: set_dropping_def)

lemma first_pass_ok:
  assumes inv: "drop_inv (set ns) ps W w0" and l: "ll_repr l (w_boxes w0) ns" and fuel: "length ns < Suc n"
    and el: "\<And>x. x \<in> set ns \<Longrightarrow> \<exists>b v. w_boxes w0 x = Some b \<and> b_elem b = Some v \<and> v_mark (view (b_cm b)) = InList"
    and c: "covered (set ns) W (glues (w_boxes w0) ns) w0"
  shows "\<exists>w1. iter_for_each (Suc n) (\<lambda>ptr. thenM (bindM (on_boxes (cm_test ptr is_in_list)) debug_assert)
      (drop_inner uc (Suc n) ptr)) (ll_first l) w0 = Done () w1 \<and> destroyed (set ns) ps W w0 ns w1"
proof -
  let ?I = "\<lambda>ys w. \<exists>xs. ns = xs @ ys \<and> destroyed (set ns) ps W w0 xs w"
  let ?body = "\<lambda>ptr. thenM (bindM (on_boxes (cm_test ptr is_in_list)) debug_assert) (drop_inner uc (Suc n) ptr)"
  from l obtain e where d: "dseg (w_boxes w0) None (ll_first l) ns e None" "distinct ns" by (auto simp: ll_repr_def)
  have box: "\<exists>b. w_boxes w x = Some b \<and> b_next b = head ys \<and> v_mark (view (b_cm b)) = InList"
    if I: "?I (x # ys) w" for x ys w
  proof -
    from I obtain xs where xs: "ns = xs @ x # ys" "destroyed (set ns) ps W w0 xs w" by blast
    from next_dseg [of "w_boxes w0" "ll_first l" xs x ys e] d(1) xs(1) obtain b where
      b: "w_boxes w0 x = Some b" "b_next b = head ys" by auto
    with el [of x] xs(1) have m: "v_mark (view (b_cm b)) = InList" by auto
    from destroyedD [OF xs(2) b(1)] obtain c where "w_boxes w x = Some c" "x \<in> set ns \<Longrightarrow> link_mark c = link_mark b" by blast
    with b(2) m xs(1) show ?thesis by (simp add: link_mark_def)
  qed
  have "wp (iter_for_each (Suc n) ?body (head ns)) (\<lambda>_. ?I []) (\<lambda>_ _. False) w0"
  proof (rule wp_iter_for_each [where I = ?I])
    show "?I ns w0" using destroyed_start [OF inv] by auto
    show "length ns < Suc n" by (rule fuel)
    fix x ys w assume I: "?I (x # ys) w"
    from box [OF I] obtain b1 where b1: "w_boxes w x = Some b1" "b_next b1 = head ys" "v_mark (view (b_cm b1)) = InList" by blast
    then show "\<exists>b. w_boxes w x = Some b \<and> b_next b = head ys" by blast
    from I obtain xs where xs: "ns = xs @ x # ys" "destroyed (set ns) ps W w0 xs w" by blast
    from el [of x] xs(1) obtain b v where b: "w_boxes w0 x = Some b" "b_elem b = Some v" by auto
    have "covered (set ns) W (glues (w_boxes w0) (xs @ [x])) w0"
      by (rule covered_prefix [of _ _ _ "glues (w_boxes w0) ys"]) (use c xs(1) in simp)
    moreover have "x \<in> set ns" "x \<notin> set xs" "set xs \<subseteq> set ns" using xs(1) d(2) by auto
    ultimately obtain w' where 1: "drop_inner uc (Suc n) x w = Done () w'" "destroyed (set ns) ps W w0 (xs @ [x]) w'"
      using destroyed_step [OF xs(2) _ _ b, of uc n] by blast
    have "on_boxes (cm_test x is_in_list) w = Done True w"
      using b1 by (simp add: on_boxes_def zoom_def cm_tests)
    with 1(1) have "?body x w = Done () w'" by (simp add: thenM_def bindM_def)
    moreover have "?I ys w'" by (rule exI [of _ "xs @ [x]"]) (use xs(1) 1(2) in simp)
    ultimately show "wp (?body x) (\<lambda>_. ?I ys) (\<lambda>_ _. False) w" by (simp add: wp_def)
  qed
  then show ?thesis using head_dseg [OF d(1)] by (simp add: wp_no_panic)
qed

lemma second_pass_ok:
  assumes inv: "weak_inv V w1" and l: "dseg (w_boxes w1) None f ns e None" "distinct ns" and fuel: "length ns < n"
    and bytes: "(\<Sum>x\<leftarrow>ns. size_of w1 x) \<le> unat (st_allocated_bytes (w_state w1))"
  shows "\<exists>w2. iter_for_each n dealloc_one f w1 = Done () w2 \<and> freed V w1 ns w2"
proof -
  let ?I = "\<lambda>ys w. \<exists>xs. ns = xs @ ys \<and> freed V w1 xs w"
  have "wp (iter_for_each n dealloc_one (head ns)) (\<lambda>_. ?I []) (\<lambda>_ _. False) w1"
  proof (rule wp_iter_for_each [where I = ?I])
    show "?I ns w1" using freed_start [OF inv] by auto
    show "length ns < n" by (rule fuel)
    fix x ys w assume "?I (x # ys) w"
    then obtain xs where xs: "ns = xs @ x # ys" "freed V w1 xs w" by blast
    with l(2) have nx: "x \<notin> set xs" by auto
    from next_dseg [of "w_boxes w1" f xs x ys e] l(1) xs(1) obtain b where
      b: "w_boxes w1 x = Some b" "b_next b = head ys" by auto
    moreover have "w_boxes w x = w_boxes w1 x" using xs(2) nx by (auto simp: freed_def)
    ultimately show "\<exists>b. w_boxes w x = Some b \<and> b_next b = head ys" by simp
    have "(\<Sum>y\<leftarrow>xs @ [x]. size_of w1 y) \<le> unat (st_allocated_bytes (w_state w1))" using bytes xs(1) by simp
    from freed_step [OF xs(2) b(1) nx this] xs(1) show "wp (dealloc_one x) (\<lambda>_. ?I ys) (\<lambda>_ _. False) w"
      by (auto simp: wp_no_panic)
  qed
  then show ?thesis using head_dseg [OF l(1)] by (simp add: wp_no_panic)
qed

lemma deallocate_list_ok:
  assumes inv: "drop_inv (set ns) ps W (w\<lparr>w_state := field_set FieldDropping True (w_state w)\<rparr>)"
    and l: "ll_repr l (w_boxes w) ns" and fuel: "length ns < Suc n"
    and el: "\<And>x. x \<in> set ns \<Longrightarrow> \<exists>b v. w_boxes w x = Some b \<and> b_elem b = Some v \<and> v_mark (view (b_cm b)) = InList"
    and c: "covered (set ns) W (glues (w_boxes w) ns) w"
    and bytes: "(\<Sum>x\<leftarrow>ns. size_of w x) \<le> unat (st_allocated_bytes (w_state w))"
  shows "\<exists>w'. deallocate_list uc (Suc n) l w = Done () w' \<and> deallocated ns ps W w w'"
proof -
  let ?w0 = "w\<lparr>w_state := field_set FieldDropping True (w_state w)\<rparr>" and ?ds = "glues (w_boxes w) ns"
  have c0: "covered (set ns) W (glues (w_boxes ?w0) ns) ?w0" using c by (simp add: covered_def)
  have l0: "ll_repr l (w_boxes ?w0) ns" using l by simp
  have el0: "x \<in> set ns \<Longrightarrow> \<exists>b v. w_boxes ?w0 x = Some b \<and> b_elem b = Some v \<and> v_mark (view (b_cm b)) = InList" for x
    using el by simp
  from first_pass_ok [OF inv l0 fuel el0 c0, of uc] obtain w1 where
    1: "iter_for_each (Suc n) (\<lambda>ptr. thenM (bindM (on_boxes (cm_test ptr is_in_list)) debug_assert)
      (drop_inner uc (Suc n) ptr)) (ll_first l) ?w0 = Done () w1" "destroyed (set ns) ps W ?w0 ns w1" by blast
  from 1(2) obtain qs where inv1: "drop_inv (set ns) qs (W - mset (dropped_weaks ?ds)) w1"
    and qs: "set qs = set ps \<union> (set (dropped_ccs ?ds) - set ns)" by (auto simp: destroyed_def Let_def)
  from 1(2) obtain h k M where w1: "w1 = ?w0\<lparr>w_boxes := h, w_pc := k, w_meta := M\<rparr>" by (auto simp: destroyed_def Let_def)
  from l obtain e where d: "dseg (w_boxes w) None (ll_first l) ns e None" "distinct ns" by (auto simp: ll_repr_def)
  have kept: "metas_kept (w_meta w) (w_meta w1)" using 1(2) by (simp add: destroyed_def Let_def)
  have box1: "\<exists>c. w_boxes w1 x = Some c \<and> links (w_boxes w1) x = links (w_boxes w) x \<and> size_of w1 x = size_of w x" if "x \<in> set ns" for x
  proof -
    from el [OF that] obtain b where b: "w_boxes w x = Some b" by blast
    then have "w_boxes ?w0 x = Some b" by simp
    from destroyedD [OF 1(2) this] that obtain c where
      c: "w_boxes w1 x = Some c" "box_meta c = box_meta b" "link_mark c = link_mark b" by (auto simp: box_after_def box_meta_def)
    with b size_of_kept [OF drop_invD(2) [OF inv1] kept b c(1,2)] show ?thesis by (simp add: links_def link_mark_def)
  qed
  have d1: "dseg (w_boxes w1) None (ll_first l) ns e None"
    using d(1) box1 by (subst dseg_cong [of ns "w_boxes w1" "w_boxes w"]) auto
  have sizes: "(\<Sum>x\<leftarrow>ns. size_of w1 x) = (\<Sum>x\<leftarrow>ns. size_of w x)"
    using box1 by (intro arg_cong [of _ _ sum_list] map_cong) auto
  have bytes1: "(\<Sum>x\<leftarrow>ns. size_of w1 x) \<le> unat (st_allocated_bytes (w_state w1))"
    using bytes sizes by (simp add: w1 set_dropping_def)
  from second_pass_ok [OF drop_invD(2) [OF inv1] d1 d(2) fuel bytes1] obtain w2 where
    2: "iter_for_each (Suc n) dealloc_one (ll_first l) w1 = Done () w2" "freed (W - mset (dropped_weaks ?ds)) w1 ns w2" by blast
  from 2(2) obtain M2 a where w2: "w2 = w1\<lparr>w_boxes := (\<lambda>p. if p \<in> set ns then None else w_boxes w1 p), w_meta := M2,
      w_state := (w_state w1)\<lparr>st_allocated_bytes := a\<rparr>\<rparr>"
    and a: "unat a + (\<Sum>x\<leftarrow>ns. size_of w1 x) = unat (st_allocated_bytes (w_state w1))" by (auto simp: freed_def)
  let ?w' = "w2\<lparr>w_state := field_set FieldDropping (field_get FieldDropping (w_state w)) (w_state w2)\<rparr>"
  have "deallocate_list uc (Suc n) l w = Done () ?w'"
    unfolding deallocate_list_def by (rule with_field_Done) (use 1(1) 2(1) in simp)
  moreover have "deallocated ns ps W w ?w'"
    unfolding deallocated_def Let_def
  proof (intro conjI allI ballI impI)
    have "set qs \<inter> set ns = {}"
    proof -
      have False if "x \<in> set qs" "x \<in> set ns" for x
      proof -
        from box1 [OF that(2)] obtain c where "w_boxes w1 x = Some c" by blast
        with buffered_mark [OF drop_invD(1) [OF inv1] this] drop_invD(6) [OF inv1 this] that
        show False by (auto simp: in_collector_def)
      qed
      then show ?thesis by blast
    qed
    from buffered_free [OF drop_invD(1) [OF inv1] this, of ?w'] have "buffered qs ?w'" by (simp add: w2)
    moreover have "\<not> in_collector b \<and> (p \<in> set qs \<longrightarrow> v_tc (view (b_cm b)) = 0)" if "w_boxes ?w' p = Some b" for p b
    proof -
      from that have "w_boxes w1 p = Some b" "p \<notin> set ns" by (auto simp: w2 split: if_splits)
      with drop_invD(6,7) [OF inv1 this(1)] show ?thesis by blast
    qed
    ultimately show "\<exists>qs. buffered qs ?w' \<and> set qs = set ps \<union> (set (dropped_ccs ?ds) - set ns) \<and>
        (\<forall>p b. w_boxes ?w' p = Some b \<longrightarrow> \<not> in_collector b \<and> (p \<in> set qs \<longrightarrow> v_tc (view (b_cm b)) = 0))"
      using qs by blast
    have "weak_inv (W - mset (dropped_weaks ?ds)) w2" using 2(2) by (simp add: freed_def)
    then show "weak_inv (W - mset (dropped_weaks ?ds)) ?w'" by (rule weak_inv_cong) simp_all
    have "metas_kept (w_meta w1) (w_meta w2)" using 2(2) by (simp add: freed_def)
    with kept show "metas_kept (w_meta w) (w_meta ?w')" by (auto intro: metas_kept_trans)
    show "w_boxes ?w' p = None" if "p \<in> set ns" for p using that by (simp add: w2)
    show "rel_option (box_after False (count_list (dropped_ccs ?ds) p)) (w_boxes w p) (w_boxes ?w' p)" if "p \<notin> set ns" for p
      using that 1(2) by (auto simp: w2 destroyed_def Let_def dest!: spec [of _ p])
    have "unat a + (\<Sum>x\<leftarrow>ns. size_of w x) = unat (st_allocated_bytes (w_state w))"
      using a sizes by (simp add: w1 set_dropping_def)
    moreover have "?w' = w\<lparr>w_boxes := w_boxes w2, w_pc := k, w_meta := M2, w_state := (w_state w)\<lparr>st_allocated_bytes := a\<rparr>\<rparr>"
      using dropping_restored [of "w_state w" a] by (simp add: w2 w1)
    ultimately show "\<exists>h l M a. ?w' = w\<lparr>w_boxes := h, w_pc := l, w_meta := M, w_state := (w_state w)\<lparr>st_allocated_bytes := a\<rparr>\<rparr> \<and>
        unat a + (\<Sum>x\<leftarrow>ns. size_of w x) = unat (st_allocated_bytes (w_state w))" by blast
  qed
  ultimately show ?thesis by blast
qed

end
