(* ===== verification/Collect_Graph.thy ===== *)
theory Collect_Graph
  imports Trace_Graph
begin

text \<open>
  What the garbage of a memory becomes: it is its own garbage when a collection starts from it, and
  once it has been freed, a collection that starts from its neighbours finds nothing.
\<close>

lemma refs_from_Un:
  "finite A \<Longrightarrow> finite B \<Longrightarrow> A \<inter> B = {} \<Longrightarrow> refs_from h (A \<union> B) y = refs_from h A y + refs_from h B y"
  by (simp add: refs_from_def sum.union_disjoint)

lemma refs_from_cong: "(\<And>x. x \<in> A \<Longrightarrow> targets g x = targets h x) \<Longrightarrow> refs_from g A y = refs_from h A y"
  by (simp add: refs_from_def)

text \<open>A change of the memory that keeps what is reported and counted.\<close>

definition same_graph :: "addr set \<Rightarrow> boxes \<Rightarrow> boxes \<Rightarrow> bool" where
  "same_graph R h g \<longleftrightarrow> (\<forall>x \<in> R. targets g x = targets h x \<and> rc_of g x = rc_of h x)"

lemma reach_cong:
  assumes "\<And>x. x \<in> reach h A \<Longrightarrow> targets g x = targets h x"
  shows "reach g A = reach h A"
proof (rule reach_eqI)
  show "A \<subseteq> reach h A" by (auto intro: reach_start)
  show "reach h A \<subseteq> reach g A"
  proof
    fix x assume "x \<in> reach h A"
    then show "x \<in> reach g A"
      by induction (use assms in \<open>auto intro: reach_start reach_step\<close>)
  qed
  show "y \<in> reach h A" if "x \<in> reach h A" "y \<in> set (targets g x)" for x y
    using that assms [of x] by (auto intro: reach_step)
qed

lemma garbage_cong:
  assumes "same_graph (reach h A) h g"
  shows "reach g A = reach h A" "garbage g A = garbage h A" "\<And>G. G \<subseteq> reach h A \<Longrightarrow> refs_from g G y = refs_from h G y"
proof -
  note t = assms [unfolded same_graph_def]
  show r: "reach g A = reach h A" by (rule reach_cong) (use t in blast)
  show f: "refs_from g G y = refs_from h G y" if "G \<subseteq> reach h A" for G y
    by (rule refs_from_cong) (use that t in blast)
  have "ext_roots g A = ext_roots h A"
    using t f [of "reach h A"] by (auto simp: ext_roots_def r)
  moreover have "reach g (ext_roots h A) = reach h (ext_roots h A)"
    by (rule reach_cong) (use t ext_roots_subset reach_mono_start [of "ext_roots h A" h A] in blast)
  ultimately show "garbage g A = garbage h A" by (simp add: garbage_def r)
qed

lemma traceable_cong:
  assumes "traceable h A" "same_graph (reach h A) h g"
    and "\<And>p. p \<in> reach h A \<Longrightarrow> \<exists>b v. g p = Some b \<and> b_elem b = Some v"
  shows "traceable g A"
  using assms garbage_cong(1,3) [OF assms(2)] by (auto simp: traceable_def same_graph_def)

lemma traceable_subset: "traceable h A \<Longrightarrow> B \<subseteq> reach h A \<Longrightarrow> traceable h B"
proof -
  assume t: "traceable h A" and B: "B \<subseteq> reach h A"
  have r: "reach h B \<subseteq> reach h A" by (rule reach_mono_start [OF B])
  note d = traceableD [OF t]
  have "refs_from h (reach h B) p \<le> rc_of h p" if "p \<in> reach h B" for p
    using refs_from_mono [OF d(1) r, of h p] d(4) [of p] r that by force
  moreover have "finite (reach h B)" using d(1) r finite_subset by blast
  ultimately show ?thesis using t r unfolding traceable_def by blast
qed

lemma garbage_of_garbage:
  assumes t: "traceable h A"
  shows "garbage h (garbage h A) = garbage h A"
proof
  let ?G = "garbage h A"
  note tG = traceable_subset [OF t garbage_subset]
  have "?G \<subseteq> reach h ?G" by (auto intro: reach_start)
  then show "?G \<subseteq> garbage h ?G" by (rule garbage_greatest [OF tG]) (rule garbage_refs [OF t])
  have "garbage h ?G \<subseteq> reach h A"
    using garbage_subset [of h ?G] reach_mono_start [OF garbage_subset [of h A]] by blast
  then show "garbage h ?G \<subseteq> ?G" by (rule garbage_greatest [OF t]) (rule garbage_refs [OF tG])
qed

text \<open>A box that survives has a reference from outside the garbage.\<close>

lemma survivor_refs:
  assumes t: "traceable h A" and s: "s \<in> reach h A" "s \<notin> garbage h A"
  shows "refs_from h (garbage h A) s < rc_of h s"
proof (rule ccontr)
  let ?G = "garbage h A"
  note d = traceableD [OF t]
  have sub: "insert s ?G \<subseteq> reach h A" using s garbage_subset by auto
  have fin: "finite ?G" using d(1) garbage_subset finite_subset by metis
  assume "\<not> refs_from h ?G s < rc_of h s"
  then have ge: "rc_of h s \<le> refs_from h ?G s" by simp
  have "refs_from h (insert s ?G) y = rc_of h y" if y: "y \<in> insert s ?G" for y
  proof -
    have "rc_of h y \<le> refs_from h ?G y" using y ge garbage_refs [OF t, of y] by auto
    moreover have "refs_from h ?G y \<le> refs_from h (insert s ?G) y" using fin by (intro refs_from_mono) auto
    moreover have "refs_from h (insert s ?G) y \<le> rc_of h y"
      using refs_from_mono [OF d(1) sub, of h y] d(4) [of y] y sub by force
    ultimately show ?thesis by simp
  qed
  from garbage_greatest [OF t sub this] s show False by blast
qed

text \<open>
  The memory \<open>g\<close> is \<open>h\<close> without its garbage \<open>G\<close>: the references that \<open>G\<close> held have been given back.
\<close>

lemma after_sweep:
  assumes t: "traceable h A" and G: "G = garbage h A" and B: "B \<subseteq> reach h A - G"
    and g: "\<And>x. x \<in> reach h A - G \<Longrightarrow> targets g x = targets h x \<and> rc_of h x = rc_of g x + refs_from h G x
      \<and> (\<exists>b v. g x = Some b \<and> b_elem b = Some v)"
  shows "reach g B \<subseteq> reach h A - G" "traceable g B" "garbage g B = {}"
proof -
  let ?R = "reach g B"
  note d = traceableD [OF t]
  have finG: "finite G" using d(1) garbage_subset [of h A] G finite_subset by metis
  show R: "?R \<subseteq> reach h A - G"
  proof (rule reach_closed [OF B])
    fix x y assume x: "x \<in> reach h A - G" "y \<in> set (targets g x)"
    with g [OF x(1)] survivors_closed [of x h A y] show "y \<in> reach h A - G" by (simp add: G)
  qed
  have finR: "finite ?R" using d(1) R finite_subset by blast
  have refs: "refs_from g H y = refs_from h H y" if "H \<subseteq> ?R" for H y
    by (rule refs_from_cong) (use that R g in blast)
  have Gsub: "G \<subseteq> reach h A" using garbage_subset G by simp
  have total: "refs_from h G p + refs_from h H p \<le> rc_of h p" if "H \<subseteq> ?R" "p \<in> reach h A" for H p
  proof -
    have "finite H" "G \<inter> H = {}" "G \<union> H \<subseteq> reach h A" using that(1) finR R Gsub finite_subset by auto
    then have "refs_from h G p + refs_from h H p = refs_from h (G \<union> H) p" using finG by (simp add: refs_from_Un)
    also have "\<dots> \<le> rc_of h p" using refs_from_mono [OF d(1) \<open>G \<union> H \<subseteq> reach h A\<close>, of h p] d(4) [OF that(2)] by simp
    finally show ?thesis .
  qed
  show tB: "traceable g B"
    unfolding traceable_def
  proof (intro conjI ballI)
    fix p assume p: "p \<in> ?R"
    with R have pA: "p \<in> reach h A - G" by blast
    note gp = g [OF this]
    show "\<exists>b v. g p = Some b \<and> b_elem b = Some v" using gp by blast
    show "rc_of g p < 16383" using gp d(3) [of p] pA by simp
    show "refs_from g ?R p \<le> rc_of g p" using total [OF order.refl, of p] gp pA refs [OF order.refl] by simp
  qed (rule finR)
  let ?H = "garbage g B"
  have H: "?H \<subseteq> ?R" by (rule garbage_subset)
  have HA: "G \<union> ?H \<subseteq> reach h A" using H R Gsub by blast
  have split: "refs_from h (G \<union> ?H) y = refs_from h G y + refs_from h ?H y" for y
    using finG finR H R by (intro refs_from_Un) (auto intro: finite_subset)
  have "refs_from h (G \<union> ?H) y = rc_of h y" if y: "y \<in> G \<union> ?H" for y
  proof (cases "y \<in> G")
    case True
    then have "refs_from h G y = rc_of h y" using garbage_refs [OF t] G by simp
    moreover have "refs_from h (G \<union> ?H) y \<le> rc_of h y"
      using refs_from_mono [OF d(1) HA, of h y] d(4) [of y] y HA by force
    ultimately show ?thesis using split [of y] by simp
  next
    case False
    with y have yH: "y \<in> ?H" by blast
    then have "y \<in> reach h A - G" using H R by blast
    with g [OF this] garbage_refs [OF tB yH] refs [OF H] split [of y] show ?thesis by simp
  qed
  from garbage_greatest [OF t HA this] G H R show "?H = {}" by blast
qed

end
