(* ===== verification/Collect_Round.thy ===== *)
theory Collect_Round
  imports Dealloc Trace_Correct Collect_Graph
begin

text \<open>
  One round of a collection, \<open>__collect\<close>, when no user code interferes: no finalizer has code to
  run, no \<open>trace\<close> panics, and the values report all \<open>Cc\<close>s they hold. A round traces, and then it
  either frees the garbage, or finalizes it and puts it back into the buffer, or finds none.
\<close>

subsection \<open>The invariant\<close>

definition gc_inv :: "addr list \<Rightarrow> weak_ptr multiset \<Rightarrow> 'f world \<Rightarrow> bool" where
  "gc_inv ps W w \<longleftrightarrow> buffered ps w \<and> weak_inv W w \<and> w_state_alive w \<and> w_pc_alive w \<and>
     finite (dom (w_boxes w)) \<and> card (dom (w_boxes w)) < 2 ^ 64 \<and> traceable (w_boxes w) (set ps) \<and>
     (\<forall>p b. w_boxes w p = Some b \<longrightarrow> \<not> in_collector b) \<and>
     (\<forall>p \<in> reach (w_boxes w) (set ps). tc_of (w_boxes w) p < 16383) \<and>
     (\<forall>p \<in> set ps. tc_of (w_boxes w) p = 0)"

lemma gc_invD:
  assumes "gc_inv ps W w"
  shows "buffered ps w" "weak_inv W w" "w_state_alive w" "w_pc_alive w" "finite (dom (w_boxes w))"
    "card (dom (w_boxes w)) < 2 ^ 64" "traceable (w_boxes w) (set ps)"
    "w_boxes w p = Some b \<Longrightarrow> \<not> in_collector b"
    "p \<in> reach (w_boxes w) (set ps) \<Longrightarrow> tc_of (w_boxes w) p < 16383"
    "p \<in> set ps \<Longrightarrow> tc_of (w_boxes w) p = 0"
  using assms unfolding gc_inv_def by blast+

text \<open>The bytes that are accounted for are those of the boxes that exist; likewise the weak pointers.\<close>

definition accounted :: "weak_ptr multiset \<Rightarrow> 'f world \<Rightarrow> bool" where
  "accounted W w \<longleftrightarrow> (\<Sum>p \<in> dom (w_boxes w). size_of w p) = unat (st_allocated_bytes (w_state w)) \<and>
     (\<Sum>p \<in> dom (w_boxes w). mset (dropped_weaks (glue_of (w_boxes w) p))) \<subseteq># W"

text \<open>
  The weak pointers that are gone are those that the values held that are gone, and no other tracing
  counter has become the mark of a dropped box.
\<close>

definition weaks_in :: "boxes \<Rightarrow> weak_ptr multiset" where
  "weaks_in h = (\<Sum>p \<in> dom h. mset (dropped_weaks (glue_of h p)))"

definition settled :: "weak_ptr multiset \<Rightarrow> 'f world \<Rightarrow> weak_ptr multiset \<Rightarrow> 'f world \<Rightarrow> bool" where
  "settled W w V w' \<longleftrightarrow> V + weaks_in (w_boxes w) = W + weaks_in (w_boxes w') \<and>
     (\<forall>p. tc_of (w_boxes w) p < 16383 \<longrightarrow> tc_of (w_boxes w') p < 16383)"

lemma settled_refl: "settled W w W w"
  by (simp add: settled_def)

lemma settled_trans: "settled W w V v \<Longrightarrow> settled V v U u \<Longrightarrow> settled W w U u"
proof -
  assume s: "settled W w V v" "settled V v U u"
  have "(U + weaks_in (w_boxes w)) + weaks_in (w_boxes v) = (U + weaks_in (w_boxes v)) + weaks_in (w_boxes w)"
    by (simp only: ac_simps)
  also have "\<dots> = (V + weaks_in (w_boxes w)) + weaks_in (w_boxes u)" using s(2) by (simp add: settled_def ac_simps)
  also have "\<dots> = (W + weaks_in (w_boxes u)) + weaks_in (w_boxes v)" using s(1) by (simp add: settled_def ac_simps)
  finally have "U + weaks_in (w_boxes w) = W + weaks_in (w_boxes u)" by (rule add_right_imp_eq)
  with s show ?thesis by (simp add: settled_def)
qed

text \<open>So the weak pointers outside of the values are still counted.\<close>

lemma settled_counts: "settled W w V w' \<Longrightarrow> K + weaks_in (w_boxes w) \<subseteq># W \<Longrightarrow> K + weaks_in (w_boxes w') \<subseteq># V"
proof -
  assume "settled W w V w'" "K + weaks_in (w_boxes w) \<subseteq># W"
  then have "K + weaks_in (w_boxes w') + weaks_in (w_boxes w) \<subseteq># V + weaks_in (w_boxes w)"
    by (simp add: settled_def ac_simps)
  then show ?thesis by simp
qed

text \<open>
  No user code interferes: no \<open>trace\<close> the collection runs panics, and a value that is garbage owns
  exactly the \<open>Cc\<close>s it traces, has no finalizer that is still to run and no destructor of its own. The values that are
  reached and survive may have any.
\<close>

definition quiet_garbage :: "boxes \<Rightarrow> addr set \<Rightarrow> bool" where
  "quiet_garbage h A \<longleftrightarrow> (\<forall>x \<in> garbage h A. plain_glue (glue_of h x) \<and> mset (dropped_ccs (glue_of h x)) = mset (targets h x) \<and>
     (\<forall>b v. h x = Some b \<longrightarrow> b_elem b = Some v \<longrightarrow> v_fin (view (b_cm b)) \<or> finalize_val v = []))"

definition quiet :: "boxes \<Rightarrow> addr set \<Rightarrow> bool" where
  "quiet h A \<longleftrightarrow> (\<forall>x \<in> reach h A. \<not> panics (calls_of h x)) \<and>
   (\<forall>x \<in> garbage h A. plain_glue (glue_of h x) \<and> mset (dropped_ccs (glue_of h x)) = mset (targets h x) \<and>
     (\<forall>b v. h x = Some b \<longrightarrow> b_elem b = Some v \<longrightarrow> v_fin (view (b_cm b)) \<or> finalize_val v = []))"

definition world_tstate :: "'f world \<Rightarrow> tstate" where
  "world_tstate w = \<lparr>t_heap = w_boxes w, t_meta = w_meta w, t_pc = w_pc w, t_root = ll_new, t_nonroot = ll_new, t_queue = lq_new\<rparr>"

lemma unmarked:
  assumes "buffered ps w" "w_boxes w p = Some b" "\<not> in_collector b" "p \<notin> set ps"
  shows "v_mark (view (b_cm b)) = NonMarked" "isolated (w_boxes w) p"
proof -
  show m: "v_mark (view (b_cm b)) = NonMarked"
    using buffered_mark [OF assms(1,2)] assms(3,4) by (cases "v_mark (view (b_cm b))") (auto simp: in_collector_def)
  show "isolated (w_boxes w) p" by (rule buffered_isolated [OF assms(1,2) m])
qed

lemma gc_inv_ready:
  assumes inv: "gc_inv ps W w"
  shows "ready ps (world_tstate w)"
proof -
  note d = gc_invD [OF inv]
  have "isolated (w_boxes w) p \<and> mark_of (w_boxes w) p = NonMarked" if "p \<in> dom (w_boxes w) - set ps" for p
  proof -
    from that obtain b where b: "w_boxes w p = Some b" "p \<notin> set ps" by auto
    from unmarked [OF d(1) b(1) d(8) [OF b(1)] b(2)] b(1) show ?thesis by (simp add: mark_of_def)
  qed
  moreover have "mark_of (w_boxes w) p = PossibleCycles" if "p \<in> set ps" for p
  proof -
    from repr_live [OF buffered_repr [OF d(1)] that] obtain b where "w_boxes w p = Some b" by blast
    with buffered_mark [OF d(1) this] that show ?thesis by (simp add: mark_of_def)
  qed
  moreover from calculation(1) have "mark_of (w_boxes w) p = NonMarked" if "p \<in> reach (w_boxes w) (set ps) - set ps" for p
    using that traceableD(2) [OF d(7), of p] by blast
  moreover have "vtables_ok (w_meta w) (w_boxes w)"
    using weak_inv_has_vtable [OF d(2)] by (simp add: vtables_ok_def)
  ultimately show ?thesis
    using d(7,9,10) buffered_repr [OF d(1)] unfolding ready_def Let_def world_tstate_def by simp
qed

subsection \<open>Tracing\<close>

definition after_trace :: "addr list \<Rightarrow> addr list \<Rightarrow> 'f world \<Rightarrow> 'f world \<Rightarrow> bool" where
  "after_trace ps ns w w1 \<longleftrightarrow> set ns = garbage (w_boxes w) (set ps) \<and> distinct ns \<and>
     (\<exists>h l. w1 = w\<lparr>w_boxes := h, w_pc := l\<rparr>) \<and> buffered [] w1 \<and>
     (\<forall>p. map_option static (w_boxes w1 p) = map_option static (w_boxes w p)) \<and>
     (\<forall>p b. w_boxes w1 p = Some b \<longrightarrow> v_mark (view (b_cm b)) = (if p \<in> set ns then InList else NonMarked)) \<and>
     (\<forall>p \<in> reach (w_boxes w) (set ps). tc_of (w_boxes w1) p < 16383) \<and>
     (\<forall>p. tc_of (w_boxes w) p < 16383 \<longrightarrow> tc_of (w_boxes w1) p < 16383)"

lemma after_traceD:
  assumes "after_trace ps ns w w1"
  shows "set ns = garbage (w_boxes w) (set ps)" "distinct ns" "\<exists>h l. w1 = w\<lparr>w_boxes := h, w_pc := l\<rparr>" "buffered [] w1"
    "map_option static (w_boxes w1 p) = map_option static (w_boxes w p)"
    "w_boxes w1 p = Some b \<Longrightarrow> v_mark (view (b_cm b)) = (if p \<in> set ns then InList else NonMarked)"
    "p \<in> reach (w_boxes w) (set ps) \<Longrightarrow> tc_of (w_boxes w1) p < 16383"
    "tc_of (w_boxes w) p < 16383 \<Longrightarrow> tc_of (w_boxes w1) p < 16383"
  using assms unfolding after_trace_def by blast+

lemma collected_after_trace:
  assumes inv: "gc_inv ps W w" and s': "collect_trace fuel (world_tstate w) = Done () s'" "collected (w_boxes w) ps s'"
  shows "\<exists>l w1 ns. run_trace fuel w = Done l w1 \<and> ll_repr l (w_boxes w1) ns \<and> after_trace ps ns w w1"
proof -
  let ?h = "w_boxes w" and ?s = "world_tstate w"
  note d = gc_invD [OF inv]
  from s'(2) obtain ns where ns: "ll_repr (t_nonroot s') (t_heap s') ns" "set ns = garbage ?h (set ps)"
    and pc: "pc_repr (t_pc s') (t_heap s') []"
    and st: "\<And>p. map_option static (t_heap s' p) = map_option static (?h p)"
    and iso: "\<And>p. p \<in> dom ?h - set ns \<Longrightarrow> isolated (t_heap s') p"
    and mk: "\<And>p. p \<in> reach ?h (set ps) \<Longrightarrow> mark_of (t_heap s') p = (if p \<in> set ns then InList else NonMarked)
      \<and> tc_of (t_heap s') p = refs_from ?h (reach ?h (set ps)) p"
    and other: "\<And>p. p \<in> dom ?h - reach ?h (set ps) \<Longrightarrow> mark_of (t_heap s') p = mark_of ?h p \<and> tc_of (t_heap s') p = tc_of ?h p"
    unfolding collected_def by blast
  let ?w1 = "w\<lparr>w_boxes := t_heap s', w_pc := t_pc s'\<rparr>"
  have dom: "p \<in> dom ?h" if "t_heap s' p = Some b" for p b using st [of p] that by (cases "?h p") auto
  have sub: "set ns \<subseteq> reach ?h (set ps)" using garbage_subset ns(2) by simp
  have mark: "v_mark (view (b_cm b)) = (if p \<in> set ns then InList else NonMarked)" if b: "t_heap s' p = Some b" for p b
  proof (cases "p \<in> reach ?h (set ps)")
    case True
    with mk [OF True] b show ?thesis by (simp add: mark_of_def)
  next
    case False
    from dom [OF b] obtain c where c: "?h p = Some c" by blast
    have "p \<notin> set ps" "p \<notin> set ns" using False sub by (auto intro: reach_start)
    with other [of p] False c b unmarked(1) [OF d(1) c d(8) [OF c]] show ?thesis by (auto simp: mark_of_def)
  qed
  have "buffered [] ?w1"
    unfolding buffered_def using pc iso dom by (auto simp: mark)
  moreover have "tc_of (t_heap s') p < 16383" if "p \<in> reach ?h (set ps)" for p
    using mk [OF that] traceableD(3,4) [OF d(7) that] by simp
  moreover from this have "tc_of (t_heap s') p < 16383" if "tc_of ?h p < 16383" for p
    using that other [of p] st [of p] by (cases "p \<in> reach ?h (set ps)"; cases "?h p") (auto simp: tc_of_def domIff)
  moreover have "\<exists>h l. ?w1 = w\<lparr>w_boxes := h, w_pc := l\<rparr>" by blast
  moreover have "distinct ns" using ns(1) by (simp add: ll_repr_def)
  ultimately have "after_trace ps ns w ?w1"
    unfolding after_trace_def using ns(2) st mark by simp
  moreover have "run_trace fuel w = Done (t_nonroot s') ?w1"
    using s'(1) by (simp add: run_trace_def zoom_def world_tstate_def)
  ultimately show ?thesis using ns(1) by (intro exI [of _ "t_nonroot s'"] exI [of _ ?w1] exI [of _ ns]) simp
qed

text \<open>Tracing returns if no \<open>trace\<close> of a reached box panics, and otherwise it panics.\<close>

lemma run_trace_total:
  assumes inv: "gc_inv ps W w" and n: "card (reach (w_boxes w) (set ps)) < fuel"
  shows "if \<exists>x \<in> reach (w_boxes w) (set ps). panics (calls_of (w_boxes w) x)
    then \<exists>msg w1. run_trace fuel w = Panicked (PanicMsg msg) w1
    else \<exists>l w1 ns. run_trace fuel w = Done l w1 \<and> ll_repr l (w_boxes w1) ns \<and> after_trace ps ns w w1"
proof -
  let ?s = "world_tstate w"
  have h: "t_heap ?s = w_boxes w" by (simp add: world_tstate_def)
  note t = collect_trace_ok [OF gc_inv_ready [OF inv], unfolded h, OF n]
  show ?thesis
  proof (cases "collect_trace fuel ?s")
    case (Done u s')
    with t have "collected (w_boxes w) ps s'" by (simp add: wp_def)
    with collected_after_trace [OF inv _ this] Done show ?thesis by (auto simp: collected_def)
  next
    case (Panicked e s')
    with t have a: "aborted (w_boxes w) ps e s'" by (simp add: wp_def)
    then obtain msg where "e = PanicMsg msg" by (auto simp: aborted_def)
    with Panicked have "run_trace fuel w = Panicked (PanicMsg msg) (w\<lparr>w_boxes := t_heap s', w_pc := t_pc s'\<rparr>)"
      by (simp add: run_trace_def zoom_def world_tstate_def bindM_def)
    with aborted_panics [OF a] show ?thesis by auto
  qed (use t in \<open>simp_all add: wp_def\<close>)
qed

lemma run_trace_ok:
  assumes inv: "gc_inv ps W w" and q: "\<forall>x \<in> reach (w_boxes w) (set ps). \<not> panics (calls_of (w_boxes w) x)"
    and n: "card (reach (w_boxes w) (set ps)) < fuel"
  shows "\<exists>l w1 ns. run_trace fuel w = Done l w1 \<and> ll_repr l (w_boxes w1) ns \<and> after_trace ps ns w w1"
  using run_trace_total [OF inv n] q by auto

lemma quiet_split: "quiet h A \<longleftrightarrow> (\<forall>x \<in> reach h A. \<not> panics (calls_of h x)) \<and> quiet_garbage h A"
  by (simp add: quiet_def quiet_garbage_def)

lemma quiet_trace: "quiet h A \<Longrightarrow> \<forall>x \<in> reach h A. \<not> panics (calls_of h x)"
  by (simp add: quiet_def)

subsection \<open>Finalization\<close>

text \<open>Setting the finalized flag of a set of boxes, as a function of the memory.\<close>

definition fin_marked :: "addr set \<Rightarrow> boxes \<Rightarrow> boxes" where
  "fin_marked S h = (\<lambda>q. if q \<in> S then map_option (\<lambda>b. b\<lparr>b_cm := set_finalized True (b_cm b)\<rparr>) (h q) else h q)"

lemma fin_marked_empty [simp]: "fin_marked {} h = h"
  by (rule ext) (simp add: fin_marked_def)

lemma links_fin_marked [simp]: "links (fin_marked S h) p = links h p"
  by (simp add: links_def fin_marked_def option.map_comp comp_def)

lemma fin_marked_Some: "h p = Some b \<Longrightarrow> fin_marked S h p = Some (if p \<in> S then b\<lparr>b_cm := set_finalized True (b_cm b)\<rparr> else b)"
  by (simp add: fin_marked_def)

lemma finalize_inner_quiet:
  assumes x: "w_boxes w x = Some b" "b_elem b = Some v" "v_fin (view (b_cm b)) \<or> finalize_val v = []"
    and vt: "has_vtable (w_meta w) (b_metadata b) (v_meta (view (b_cm b)))"
  shows "finalize_inner uc x w = Done (\<not> v_fin (view (b_cm b))) (w\<lparr>w_boxes := fin_marked {x} (w_boxes w)\<rparr>)"
proof (cases "v_fin (view (b_cm b))")
  case True
  then have "fin_marked {x} (w_boxes w) = w_boxes w"
    using x(1) by (intro ext) (simp add: fin_marked_def set_finalized_again)
  with True x(1) show ?thesis by (simp add: finalize_inner_def on_boxes_def zoom_def bindM_def cm_tests)
next
  case False
  let ?w = "w\<lparr>w_boxes := fin_marked {x} (w_boxes w)\<rparr>"
  have "upd x (\<lambda>d. d\<lparr>b_cm := set_finalized True (b_cm b)\<rparr>) (w_boxes w) = fin_marked {x} (w_boxes w)"
    using x(1) by (intro ext) (simp add: fin_marked_def upd_apply)
  then have "on_boxes (on_cm x (modifyM (set_finalized True))) w = Done () ?w"
    using on_cm_Done [of "w_boxes w" x b "modifyM (set_finalized True)"] x(1) by (simp add: on_boxes_def zoom_def)
  moreover have "run_finalizer uc x ?w = Done () ?w"
    using x False by (simp add: run_finalizer_def get_elem_def on_boxes_def zoom_def bindM_def fin_marked_Some)
  moreover have "on_boxes (cm_test x needs_finalization) w = Done True w"
    using x(1) False by (simp add: on_boxes_def zoom_def cm_tests)
  moreover have "get_traceable x ?w = Done x ?w"
    by (rule get_traceable_box [where b = "b\<lparr>b_cm := set_finalized True (b_cm b)\<rparr>"]) (use x(1) vt in \<open>simp_all add: fin_marked_Some cm_upd\<close>)
  ultimately show ?thesis using False by (simp add: finalize_inner_def)
qed

lemma finalize_list_quiet:
  assumes l: "ll_repr l (w_boxes w) ns" and n: "length ns < fuel" "length ns < 2 ^ 64"
    and x: "\<And>x. x \<in> set ns \<Longrightarrow> \<exists>b v. w_boxes w x = Some b \<and> b_elem b = Some v \<and> (v_fin (view (b_cm b)) \<or> finalize_val v = [])"
    and inv: "weak_inv W w"
  shows "\<exists>sz. finalize_list uc fuel l w = Done (sz, \<exists>x \<in> set ns. \<exists>b. w_boxes w x = Some b \<and> \<not> v_fin (view (b_cm b)))
    (w\<lparr>w_boxes := fin_marked (set ns) (w_boxes w)\<rparr>) \<and> unat sz = length ns"
proof -
  let ?unfin = "\<lambda>x. \<exists>b. w_boxes w x = Some b \<and> \<not> v_fin (view (b_cm b))"
  let ?w0 = "w\<lparr>w_state := field_set FieldFinalizing True (w_state w)\<rparr>"
  let ?I = "\<lambda>ys (sz, hf) u. \<exists>xs. ns = xs @ ys \<and> u = ?w0\<lparr>w_boxes := fin_marked (set xs) (w_boxes w)\<rparr>
     \<and> unat (sz :: usize) = length xs \<and> hf = (\<exists>x \<in> set xs. ?unfin x)"
  let ?body = "\<lambda>ptr (size, has_finalized). bindM (checked_add size 1) (\<lambda>size'.
     bindM (finalize_inner uc ptr) (\<lambda>r. ret (size', r \<or> has_finalized)))"
  from l obtain e where d: "dseg (w_boxes w) None (ll_first l) ns e None" "distinct ns" by (auto simp: ll_repr_def)
  have "wp (iter_fold fuel ?body (head ns) (0, False)) (?I []) (\<lambda>_ _. False) ?w0"
  proof (rule wp_iter_fold [where I = ?I])
    have "?w0 = ?w0\<lparr>w_boxes := fin_marked (set []) (w_boxes w)\<rparr>" by simp
    then show "?I ns (0, False) ?w0" by fastforce
    show "length ns < fuel" by (rule n)
    fix y ys a u assume "?I (y # ys) a u"
    then obtain xs sz hf where xs: "ns = xs @ y # ys" "a = (sz, hf)"
      and u: "u = ?w0\<lparr>w_boxes := fin_marked (set xs) (w_boxes w)\<rparr>"
      and sz: "unat sz = length xs" and hf: "hf = (\<exists>x \<in> set xs. ?unfin x)" by (cases a) auto
    from d(2) xs(1) have new: "y \<notin> set xs" by simp
    from x [of y] xs(1) obtain b v where b: "w_boxes w y = Some b" "b_elem b = Some v" "v_fin (view (b_cm b)) \<or> finalize_val v = []" by auto
    from next_dseg [of "w_boxes w" "ll_first l" xs y ys e] d(1) xs(1) b(1) have nx: "b_next b = head ys" by simp
    have uy: "w_boxes u y = Some b" using b(1) new by (simp add: u fin_marked_Some)
    then show "\<exists>b. w_boxes u y = Some b \<and> b_next b = head ys" using nx by blast
    have vt: "has_vtable (w_meta u) (b_metadata b) (v_meta (view (b_cm b)))"
      using weak_inv_has_vtable [OF inv b(1)] by (simp add: u)
    have lt: "unat sz + 1 < 2 ^ 64" using sz n(2) xs(1) by simp
    let ?u = "u\<lparr>w_boxes := fin_marked {y} (w_boxes u)\<rparr>"
    have "fin_marked {y} (w_boxes u) = fin_marked (set (xs @ [y])) (w_boxes w)"
      using new by (intro ext) (auto simp: u fin_marked_def)
    then have u': "?u = ?w0\<lparr>w_boxes := fin_marked (set (xs @ [y])) (w_boxes w)\<rparr>" by (simp add: u)
    have "?body y a u = Done (sz + 1, \<not> v_fin (view (b_cm b)) \<or> hf) ?u"
      using lt finalize_inner_quiet [OF uy b(2,3), of uc] vt by (simp add: xs(2))
    moreover have "?I ys (sz + 1, \<not> v_fin (view (b_cm b)) \<or> hf) ?u"
      unfolding split by (rule exI [of _ "xs @ [y]"]) (use xs(1) u' sz lt hf b(1) in \<open>auto simp: unat_word_ariths\<close>)
    ultimately show "wp (?body y a) (?I ys) (\<lambda>_ _. False) u" by (simp add: wp_def)
  qed
  then obtain a u where au: "iter_fold fuel ?body (head ns) (0, False) ?w0 = Done a u" "?I [] a u"
    unfolding wp_no_panic by blast
  obtain sz hf where a: "a = (sz, hf)" by (cases a)
  have 1: "iter_fold fuel ?body (head ns) (0, False) ?w0 = Done (sz, \<exists>x \<in> set ns. ?unfin x) u"
    "u = ?w0\<lparr>w_boxes := fin_marked (set ns) (w_boxes w)\<rparr>" "unat sz = length ns"
    using au by (auto simp: a)
  have "finalize_list uc fuel l w = Done (sz, \<exists>x \<in> set ns. ?unfin x)
      (u\<lparr>w_state := field_set FieldFinalizing (field_get FieldFinalizing (w_state w)) (w_state u)\<rparr>)"
    unfolding finalize_list_def by (rule with_field_Done) (use 1(1) head_dseg [OF d(1)] in simp)
  moreover have "u\<lparr>w_state := field_set FieldFinalizing (field_get FieldFinalizing (w_state w)) (w_state u)\<rparr>
      = w\<lparr>w_boxes := fin_marked (set ns) (w_boxes w)\<rparr>"
    by (simp add: 1(2) set_finalizing_def)
  ultimately show ?thesis using 1(3) by auto
qed

end
