(* ===== verification/Collect_Once.thy ===== *)
theory Collect_Once
  imports Collect_Round
begin

text \<open>The three outcomes of a round, and that each keeps the invariant.\<close>

lemma static_graph:
  assumes "map_option static (g p) = map_option static (h p)"
  shows "calls_of g p = calls_of h p" "targets g p = targets h p" "rc_of g p = rc_of h p" "glue_of g p = glue_of h p"
proof -
  show c: "calls_of g p = calls_of h p" using assms by (cases "g p"; cases "h p") (auto simp: calls_of_def static_def)
  then show "targets g p = targets h p" by (simp add: targets_def)
  show "rc_of g p = rc_of h p" using assms by (cases "g p"; cases "h p") (auto simp: rc_of_def static_def)
  show "glue_of g p = glue_of h p" using assms by (cases "g p"; cases "h p") (auto simp: glue_of_def static_def)
qed

lemma static_dom: "(\<And>p. map_option static (g p) = map_option static (h p)) \<Longrightarrow> dom g = dom h"
proof (rule set_eqI)
  fix p assume "\<And>p. map_option static (g p) = map_option static (h p)"
  from this [of p] show "p \<in> dom g \<longleftrightarrow> p \<in> dom h" by (cases "g p"; cases "h p") auto
qed

lemma static_Some: "map_option static (g p) = map_option static (h p) \<Longrightarrow> h p = Some b \<Longrightarrow>
   \<exists>c. g p = Some c \<and> b_elem c = b_elem b \<and> box_meta c = box_meta b \<and> v_fin (view (b_cm c)) = v_fin (view (b_cm b))
     \<and> v_rc (view (b_cm c)) = v_rc (view (b_cm b))"
  by (cases "g p") (auto simp: static_def box_meta_def)

lemma static_size: 
  assumes "map_option static (w_boxes w' p) = map_option static (w_boxes w p)" "w_meta w' = w_meta w"
  shows "size_of w' p = size_of w p"
  using assms by (cases "w_boxes w p"; cases "w_boxes w' p") (auto simp: size_of_def static_def split: metadata.split)

lemma after_trace_kept:
  assumes inv: "gc_inv ps W w" and tr: "after_trace ps ns w w1"
  shows "weak_inv W w1" "dom (w_boxes w1) = dom (w_boxes w)" "w_state w1 = w_state w" "w_meta w1 = w_meta w"
    "w_state_alive w1" "w_pc_alive w1"
proof -
  note d = gc_invD [OF inv] and t = after_traceD [OF tr]
  from t(3) obtain h l where w1: "w1 = w\<lparr>w_boxes := h, w_pc := l\<rparr>" by blast
  then show "w_state w1 = w_state w" "w_meta w1 = w_meta w" "w_state_alive w1" "w_pc_alive w1" using d(3,4) by simp_all
  show "dom (w_boxes w1) = dom (w_boxes w)" by (rule static_dom) (rule t(5))
  show "weak_inv W w1"
  proof (rule weak_inv_cong [OF d(2)])
    show "map_option box_meta (w_boxes w1 p) = map_option box_meta (w_boxes w p)" for p
      using t(5) [of p] by (cases "w_boxes w1 p"; cases "w_boxes w p") (auto simp: static_def box_meta_def)
  qed (simp add: w1)
qed

subsection \<open>Counting what the garbage holds\<close>

lemma glues_count:
  assumes "distinct ns" "\<And>x. x \<in> set ns \<Longrightarrow> mset (dropped_ccs (glue_of h x)) = mset (targets h x)"
  shows "count_list (dropped_ccs (glues h ns)) q = refs_from h (set ns) q"
  using assms
proof (induction ns)
  case (Cons x ns)
  have "count_list (dropped_ccs (glue_of h x)) q = count_list (targets h x) q"
    using Cons.prems(2) [of x] by (metis count_mset list.set_intros(1))
  with Cons show ?case by simp
qed simp

lemma glues_weaks:
  "distinct ns \<Longrightarrow> mset (dropped_weaks (glues h ns)) = (\<Sum>x \<in> set ns. mset (dropped_weaks (glue_of h x)))"
  by (induction ns) simp_all

lemma glues_cong: "(\<And>x. glue_of g x = glue_of h x) \<Longrightarrow> glues g ns = glues h ns"
proof -
  assume "\<And>x. glue_of g x = glue_of h x"
  then have "glue_of g = glue_of h" by (rule ext)
  then show ?thesis by (simp add: glues_def)
qed

subsection \<open>The round that frees\<close>

definition survives :: "nat \<Rightarrow> ccbox \<Rightarrow> ccbox \<Rightarrow> bool" where
  "survives n b c \<longleftrightarrow> b_elem c = b_elem b \<and> b_metadata c = b_metadata b \<and>
     v_meta (view (b_cm c)) = v_meta (view (b_cm b)) \<and> v_fin (view (b_cm c)) = v_fin (view (b_cm b)) \<and>
     v_rc (view (b_cm b)) = v_rc (view (b_cm c)) + n"

text \<open>Only the memory, the buffer and the number of allocated bytes changed, and no bytes were added.\<close>

definition shrunk :: "'f world \<Rightarrow> 'f world \<Rightarrow> bool" where
  "shrunk w w' \<longleftrightarrow> (\<exists>h l M a. w' = w\<lparr>w_boxes := h, w_pc := l, w_meta := M, w_state := (w_state w)\<lparr>st_allocated_bytes := a\<rparr>\<rparr>
     \<and> unat a \<le> unat (st_allocated_bytes (w_state w)) \<and> metas_kept (w_meta w) M)"

lemma shrunkI:
  "w' = w\<lparr>w_boxes := h, w_pc := l, w_meta := M, w_state := (w_state w)\<lparr>st_allocated_bytes := a\<rparr>\<rparr> \<Longrightarrow>
   unat a \<le> unat (st_allocated_bytes (w_state w)) \<Longrightarrow> metas_kept (w_meta w) M \<Longrightarrow> shrunk w w'"
  unfolding shrunk_def by blast

lemma shrunk_buffer: "shrunk w (w\<lparr>w_boxes := h, w_pc := l\<rparr>)"
  by (rule shrunkI [where M = "w_meta w" and a = "st_allocated_bytes (w_state w)"]) simp_all

lemma shrunk_trans:
  assumes "shrunk w v" "shrunk v u"
  shows "shrunk w u"
proof -
  from assms(1) obtain h l M a where v: "v = w\<lparr>w_boxes := h, w_pc := l, w_meta := M, w_state := (w_state w)\<lparr>st_allocated_bytes := a\<rparr>\<rparr>"
    and a: "unat a \<le> unat (st_allocated_bytes (w_state w))" "metas_kept (w_meta w) M" unfolding shrunk_def by blast
  from assms(2) obtain h' l' M' a' where "u = v\<lparr>w_boxes := h', w_pc := l', w_meta := M', w_state := (w_state v)\<lparr>st_allocated_bytes := a'\<rparr>\<rparr>"
    and "unat a' \<le> unat (st_allocated_bytes (w_state v))" "metas_kept (w_meta v) M'" unfolding shrunk_def by blast
  with v a metas_kept_trans [of "w_meta w" M M'] show ?thesis by (intro shrunkI [where h = h' and l = l' and M = M' and a = a']) simp_all
qed

text \<open>The world without the boxes \<open>G\<close>; the other boxes only lose the references that \<open>G\<close> held.\<close>

definition swept :: "addr set \<Rightarrow> 'f world \<Rightarrow> 'f world \<Rightarrow> bool" where
  "swept G w w' \<longleftrightarrow> (\<forall>p \<in> G. w_boxes w' p = None) \<and>
     (\<forall>p. p \<notin> G \<longrightarrow> rel_option (survives (refs_from (w_boxes w) G p)) (w_boxes w p) (w_boxes w' p)) \<and> shrunk w w'"

lemma sweep_covered:
  assumes inv: "gc_inv ps W w" and acc: "accounted W w" and q: "quiet (w_boxes w) (set ps)" and tr: "after_trace ps ns w w1"
  shows "covered (set ns) W (glues (w_boxes w1) ns) w1"
  unfolding covered_def
proof (intro conjI ballI)
  let ?h = "w_boxes w" and ?G = "set ns"
  note d = gc_invD [OF inv] and t = after_traceD [OF tr]
  have sub: "?G \<subseteq> reach ?h (set ps)" using garbage_subset t(1) by simp
  have gl: "glues (w_boxes w1) ns = glues ?h ns" by (rule glues_cong) (rule static_graph [OF t(5)])
  have own: "x \<in> ?G \<Longrightarrow> mset (dropped_ccs (glue_of ?h x)) = mset (targets ?h x)" for x
    using q t(1) unfolding quiet_def by blast
  note cnt = glues_count [OF t(2) own]
  have "plain_glue (glue_of ?h x)" if "x \<in> ?G" for x using q t(1) that unfolding quiet_def by blast
  then have "plain_glue (glues ?h ns)" unfolding glues_def by (auto simp: plain_glue_def list_all_iff)
  then show "plain_glue (glues (w_boxes w1) ns)" unfolding gl .
  show "mset (dropped_weaks (glues (w_boxes w1) ns)) \<subseteq># W"
  proof -
    have "?G \<subseteq> dom ?h" using sub traceableD(2) [OF d(7)] by blast
    then have "(\<Sum>x \<in> ?G. mset (dropped_weaks (glue_of ?h x))) \<subseteq># (\<Sum>x \<in> dom ?h. mset (dropped_weaks (glue_of ?h x)))"
      using d(5) by (simp add: sum.subset_diff [of ?G "dom ?h"])
    with acc show ?thesis unfolding gl glues_weaks [OF t(2)] accounted_def by (meson subset_mset.order_trans)
  qed
  fix p assume "p \<in> set (dropped_ccs (glues (w_boxes w1) ns))"
  then have "p \<in> set (dropped_ccs (glues ?h ns))" unfolding gl .
  then have "refs_from ?h ?G p \<noteq> 0" using cnt [of p] by (metis count_list_0_iff)
  then obtain x where x: "x \<in> ?G" "p \<in> set (targets ?h x)" by (auto simp: refs_from_zero)
  then have p: "p \<in> reach ?h (set ps)" using sub by (auto intro: reach_step)
  from traceableD(2) [OF d(7) p] obtain b where "?h p = Some b" by blast
  from static_Some [of "w_boxes w1" p "w_boxes w" b, OF t(5) this] this obtain c where c: "w_boxes w1 p = Some c" "v_rc (view (b_cm c)) = rc_of ?h p"
    by (auto simp: rc_of_def)
  have "count_list (dropped_ccs (glues (w_boxes w1) ns)) p = refs_from ?h ?G p" unfolding gl by (rule cnt)
  moreover have "refs_from ?h ?G p = rc_of ?h p" if "p \<in> ?G"
    using garbage_refs [OF d(7), of p] that t(1) by simp
  moreover have "refs_from ?h ?G p < rc_of ?h p" if "p \<notin> ?G"
    using survivor_refs [OF d(7) p] that t(1) by simp
  moreover have "v_tc (view (b_cm c)) < 16383" using t(7) [OF p] c(1) by (simp add: tc_of_def)
  ultimately show "\<exists>b. w_boxes w1 p = Some b \<and> v_rc (view (b_cm b)) < 16383 \<and>
        (if p \<in> ?G then count_list (dropped_ccs (glues (w_boxes w1) ns)) p \<le> v_rc (view (b_cm b))
         else count_list (dropped_ccs (glues (w_boxes w1) ns)) p < v_rc (view (b_cm b)) \<and> v_tc (view (b_cm b)) < 16383)"
    using c traceableD(3) [OF d(7) p] by simp
qed

lemma sweep_dealloc:
  assumes inv: "gc_inv ps W w" and acc: "accounted W w" and q: "quiet (w_boxes w) (set ps)" and tr: "after_trace ps ns w w1"
    and l: "ll_repr l (w_boxes w1) ns" and n: "length ns < Suc n"
  shows "\<exists>w'. deallocate_list uc (Suc n) l w1 = Done () w' \<and> deallocated ns [] W w1 w'"
proof (rule deallocate_list_ok [OF _ l n _ sweep_covered [OF inv acc q tr]])
  let ?h = "w_boxes w" and ?G = "set ns"
  note d = gc_invD [OF inv] and t = after_traceD [OF tr] and k = after_trace_kept [OF inv tr]
  have sub: "?G \<subseteq> reach ?h (set ps)" using garbage_subset t(1) by simp
  let ?w0 = "w1\<lparr>w_state := field_set FieldDropping True (w_state w1)\<rparr>"
  have "calm ?w0" using k(5,6) by (simp add: calm_def is_tracing_def set_dropping_def)
  moreover have "buffered [] ?w0" using t(4) by (simp add: buffered_def)
  moreover have "weak_inv W ?w0" by (rule weak_inv_cong [OF k(1)]) simp_all
  moreover have "in_collector b \<longleftrightarrow> p \<in> ?G" if "w_boxes w1 p = Some b" for p b
    using t(6) [OF that] by (simp add: in_collector_def)
  ultimately show "drop_inv ?G [] W ?w0" using d(5,6) k(2) by (simp add: drop_inv_def)
  show "\<exists>b v. w_boxes w1 x = Some b \<and> b_elem b = Some v \<and> v_mark (view (b_cm b)) = InList" if x: "x \<in> ?G" for x
  proof -
    from d(7) sub x obtain b v where b: "?h x = Some b" "b_elem b = Some v" unfolding traceable_def by blast
    from static_Some [of "w_boxes w1" x "w_boxes w" b, OF t(5) b(1)] b(2) obtain c where
      "w_boxes w1 x = Some c" "b_elem c = Some v" by auto
    with t(6) [OF this(1)] x show ?thesis by simp
  qed
  have "(\<Sum>x\<leftarrow>ns. size_of w1 x) = (\<Sum>x \<in> ?G. size_of w x)"
    using t(2) static_size [OF t(5) k(4)] by (simp add: sum_list_distinct_conv_sum_set)
  also have "\<dots> \<le> (\<Sum>x \<in> dom ?h. size_of w x)"
    using d(5) sub traceableD(2) [OF d(7)] by (intro sum_mono2) auto
  also have "\<dots> = unat (st_allocated_bytes (w_state w1))" using acc k(3) by (simp add: accounted_def)
  finally show "(\<Sum>x\<leftarrow>ns. size_of w1 x) \<le> unat (st_allocated_bytes (w_state w1))" .
qed

lemma deallocated_swept:
  assumes inv: "gc_inv ps W w" and q: "quiet (w_boxes w) (set ps)" and tr: "after_trace ps ns w w1"
    and de: "deallocated ns [] W w1 w'"
  shows "swept (set ns) w w'"
  unfolding swept_def
proof (intro conjI ballI allI impI)
  let ?h = "w_boxes w" and ?G = "set ns"
  note d = gc_invD [OF inv] and t = after_traceD [OF tr]
  show "w_boxes w' p = None" if "p \<in> ?G" for p using de that by (simp add: deallocated_def Let_def)
  from t(3) obtain h l where "w1 = w\<lparr>w_boxes := h, w_pc := l\<rparr>" by blast
  then have 1: "shrunk w w1" by (simp add: shrunk_buffer)
  from de obtain h' l' M a where
    w': "w' = w1\<lparr>w_boxes := h', w_pc := l', w_meta := M, w_state := (w_state w1)\<lparr>st_allocated_bytes := a\<rparr>\<rparr>"
    and a: "unat a + (\<Sum>x\<leftarrow>ns. size_of w1 x) = unat (st_allocated_bytes (w_state w1))"
    unfolding deallocated_def Let_def by blast
  have "metas_kept (w_meta w1) M" using de w' unfolding deallocated_def Let_def by simp
  with a have "shrunk w1 w'" by (intro shrunkI [OF w']) simp_all
  with 1 show "shrunk w w'" by (rule shrunk_trans)
  fix p assume p: "p \<notin> ?G"
  have "x \<in> ?G \<Longrightarrow> mset (dropped_ccs (glue_of ?h x)) = mset (targets ?h x)" for x
    using q garbage_subset [of ?h "set ps"] t(1) unfolding quiet_def by blast
  from glues_count [OF t(2) this]
  have cnt: "count_list (dropped_ccs (glues (w_boxes w1) ns)) p = refs_from ?h ?G p"
    using glues_cong [of "w_boxes w1" ?h ns, OF static_graph(4) [OF t(5)]] by simp
  from de p have "rel_option (box_after False (count_list (dropped_ccs (glues (w_boxes w1) ns)) p)) (w_boxes w1 p) (w_boxes w' p)"
    unfolding deallocated_def Let_def by blast
  then have "rel_option (box_after False (refs_from ?h ?G p)) (w_boxes w1 p) (w_boxes w' p)" unfolding cnt .
  with t(5) [of p] show "rel_option (survives (refs_from ?h ?G p)) (?h p) (w_boxes w' p)"
    by (cases "?h p"; cases "w_boxes w1 p"; cases "w_boxes w' p") (auto simp: box_after_def survives_def static_def)
qed

text \<open>What is left: no garbage, and the invariant.\<close>

lemma swept_Some:
  assumes "swept G w w'" "p \<notin> G" "w_boxes w p = Some b"
  obtains c where "w_boxes w' p = Some c" "survives (refs_from (w_boxes w) G p) b c"
proof -
  from assms(1,2) have "rel_option (survives (refs_from (w_boxes w) G p)) (w_boxes w p) (w_boxes w' p)"
    by (simp add: swept_def)
  with assms(3) that show thesis by (auto simp: option_rel_Some1)
qed

lemma swept_dom: "swept G w w' \<Longrightarrow> dom (w_boxes w') = dom (w_boxes w) - G"
proof (rule set_eqI)
  fix p assume s: "swept G w w'"
  show "p \<in> dom (w_boxes w') \<longleftrightarrow> p \<in> dom (w_boxes w) - G"
  proof (cases "p \<in> G")
    case True
    with s show ?thesis by (simp add: swept_def domIff)
  next
    case False
    with s have "rel_option (survives (refs_from (w_boxes w) G p)) (w_boxes w p) (w_boxes w' p)" by (simp add: swept_def)
    with False show ?thesis by (cases "w_boxes w p"; cases "w_boxes w' p") auto
  qed
qed

lemma survives_graph:
  assumes "swept G w w'" "p \<notin> G" "w_boxes w p = Some b"
  shows "calls_of (w_boxes w') p = calls_of (w_boxes w) p" "targets (w_boxes w') p = targets (w_boxes w) p"
    "rc_of (w_boxes w) p = rc_of (w_boxes w') p + refs_from (w_boxes w) G p"
    "glue_of (w_boxes w') p = glue_of (w_boxes w) p"
proof -
  from swept_Some [OF assms] obtain c where c: "w_boxes w' p = Some c" "survives (refs_from (w_boxes w) G p) b c" .
  then show 1: "calls_of (w_boxes w') p = calls_of (w_boxes w) p" using assms(3) by (simp add: calls_of_def survives_def)
  then show "targets (w_boxes w') p = targets (w_boxes w) p" by (simp add: targets_def)
  show "rc_of (w_boxes w) p = rc_of (w_boxes w') p + refs_from (w_boxes w) G p"
    using c assms(3) by (simp add: rc_of_def survives_def)
  show "glue_of (w_boxes w') p = glue_of (w_boxes w) p" using c assms(3) by (simp add: glue_of_def survives_def)
qed

lemma swept_inv:
  assumes inv: "gc_inv ps W w" and acc: "accounted W w" and q: "quiet (w_boxes w) (set ps)" and tr: "after_trace ps ns w w1"
    and de: "deallocated ns [] W w1 w'"
  shows "\<exists>qs V. gc_inv qs V w' \<and> accounted V w' \<and> settled W w V w' \<and> quiet (w_boxes w') (set qs) \<and> garbage (w_boxes w') (set qs) = {}
    \<and> reach (w_boxes w') (set qs) \<subseteq> reach (w_boxes w) (set ps)"
proof -
  let ?h = "w_boxes w" and ?G = "set ns" and ?A = "reach (w_boxes w) (set ps)" and ?g = "w_boxes w'"
  note d = gc_invD [OF inv] and t = after_traceD [OF tr] and k = after_trace_kept [OF inv tr]
  note sw = deallocated_swept [OF inv q tr de]
  have G: "?G = garbage ?h (set ps)" by (rule t(1))
  have GA: "?G \<subseteq> ?A" using garbage_subset G by simp
  have gl: "glues (w_boxes w1) ns = glues ?h ns" by (rule glues_cong) (rule static_graph [OF t(5)])
  have own: "x \<in> ?G \<Longrightarrow> mset (dropped_ccs (glue_of ?h x)) = mset (targets ?h x)" for x using q G unfolding quiet_def by blast
  let ?V = "W - mset (dropped_weaks (glues ?h ns))"
  from de obtain qs where qs: "buffered qs w'" "set qs = set (dropped_ccs (glues ?h ns)) - ?G"
    "\<And>p b. ?g p = Some b \<Longrightarrow> \<not> in_collector b \<and> (p \<in> set qs \<longrightarrow> v_tc (view (b_cm b)) = 0)"
    unfolding deallocated_def Let_def gl by auto
  from de have weak: "weak_inv ?V w'" and kept: "metas_kept (w_meta w) (w_meta w')"
    unfolding deallocated_def Let_def gl using k(4) by auto
  have B: "set qs \<subseteq> ?A - ?G"
  proof
    fix p assume "p \<in> set qs"
    then have p: "p \<in> set (dropped_ccs (glues ?h ns))" "p \<notin> ?G" using qs(2) by auto
    from p(1) have "count_list (dropped_ccs (glues ?h ns)) p \<noteq> 0" by (simp add: count_list_0_iff)
    moreover have "count_list (dropped_ccs (glues ?h ns)) p = refs_from ?h ?G p"
      by (rule glues_count [OF t(2) own])
    ultimately have "refs_from ?h ?G p \<noteq> 0" by simp
    then obtain x where "x \<in> ?G" "p \<in> set (targets ?h x)" by (auto simp: refs_from_zero)
    with GA p(2) show "p \<in> ?A - ?G" by (auto intro: reach_step)
  qed
  have surv: "targets ?g x = targets ?h x \<and> rc_of ?h x = rc_of ?g x + refs_from ?h ?G x
      \<and> (\<exists>b v. ?g x = Some b \<and> b_elem b = Some v)" if x: "x \<in> ?A - ?G" for x
  proof -
    from x d(7) obtain b v where b: "?h x = Some b" "b_elem b = Some v" unfolding traceable_def by blast
    from x have nx: "x \<notin> ?G" by blast
    from swept_Some [OF sw nx b(1)] b(2) obtain c where "?g x = Some c" "b_elem c = Some v" by (auto simp: survives_def)
    with survives_graph [OF sw nx b(1)] show ?thesis by blast
  qed
  note after = after_sweep [OF d(7) G B surv]
  have tc: "tc_of ?g p < 16383" if p: "p \<in> ?A - ?G" for p
  proof -
    from p d(7) obtain b where b: "?h p = Some b" unfolding traceable_def by blast
    from static_Some [of "w_boxes w1" p "w_boxes w" b, OF t(5) b] obtain b1 where b1: "w_boxes w1 p = Some b1" by blast
    from de p have "rel_option (box_after False (count_list (dropped_ccs (glues (w_boxes w1) ns)) p)) (w_boxes w1 p) (?g p)"
      unfolding deallocated_def Let_def by blast
    with b1 obtain c where "?g p = Some c" "v_tc (view (b_cm c)) \<in> {0, v_tc (view (b_cm b1))}"
      by (auto simp: option_rel_Some1 box_after_def)
    with t(7) [of p] p b1 show ?thesis by (auto simp: tc_of_def)
  qed
  have dom: "dom ?g = dom ?h - ?G" by (rule swept_dom [OF sw])
  have alive: "w_state_alive w' \<and> w_pc_alive w'" using sw d(3,4) by (auto simp: swept_def shrunk_def)
  have "gc_inv qs ?V w'"
    unfolding gc_inv_def
  proof (intro conjI allI impI ballI)
    show "buffered qs w'" "weak_inv ?V w'" "w_state_alive w'" "w_pc_alive w'" using qs(1) weak alive by auto
    show "finite (dom ?g)" using d(5) dom by simp
    have "card (dom ?g) \<le> card (dom ?h)" using d(5) dom by (intro card_mono) auto
    then show "card (dom ?g) < 2 ^ 64" using d(6) by simp
    show "traceable ?g (set qs)" by (rule after(2))
    show "\<not> in_collector b" if "?g p = Some b" for p b using qs(3) [OF that] by simp
    show "tc_of ?g p < 16383" if "p \<in> reach ?g (set qs)" for p using tc after(1) that by blast
    show "tc_of ?g p = 0" if "p \<in> set qs" for p using qs(3) that by (auto simp: tc_of_def split: option.split)
  qed
  moreover have "quiet ?g (set qs)"
    unfolding quiet_def
  proof (intro conjI ballI)
    fix x assume "x \<in> reach ?g (set qs)"
    then have x: "x \<in> ?A" "x \<notin> ?G" using after(1) by auto
    with d(7) obtain b v where b: "?h x = Some b" "b_elem b = Some v" unfolding traceable_def by blast
    from q x have "\<not> panics (calls_of ?h x)" unfolding quiet_def by blast
    then show "\<not> panics (calls_of ?g x)" using survives_graph [OF sw x(2) b(1)] by simp
  qed (use after(3) in blast)+
  moreover have tcs: "tc_of ?g p < 16383" if p: "tc_of ?h p < 16383" for p
  proof (cases "p \<in> ?G")
    case True
    with sw show ?thesis by (simp add: swept_def tc_of_def)
  next
    case False
    with de have "rel_option (box_after False (count_list (dropped_ccs (glues (w_boxes w1) ns)) p)) (w_boxes w1 p) (?g p)"
      unfolding deallocated_def Let_def by blast
    with t(8) [OF p] show ?thesis by (cases "w_boxes w1 p"; cases "?g p") (auto simp: tc_of_def box_after_def)
  qed
  moreover have "accounted ?V w' \<and> settled W w ?V w'"
  proof -
    have sizes: "size_of w' p = size_of w p" if p: "p \<in> dom ?g" for p
    proof -
      from p dom obtain b where b: "?h p = Some b" "p \<notin> ?G" by auto
      from swept_Some [OF sw b(2,1)] obtain c where "?g p = Some c" "box_meta c = box_meta b"
        by (auto simp: survives_def box_meta_def)
      with size_of_kept [OF weak kept b(1)] show ?thesis by blast
    qed
    have Gd: "?G \<subseteq> dom ?h" using GA traceableD(2) [OF d(7)] by blast
    from de obtain a where a: "w_state w' = (w_state w1)\<lparr>st_allocated_bytes := a\<rparr>"
      "unat a + (\<Sum>x\<leftarrow>ns. size_of w1 x) = unat (st_allocated_bytes (w_state w1))" by (auto simp: deallocated_def Let_def)
    have "(\<Sum>x\<leftarrow>ns. size_of w1 x) = (\<Sum>x \<in> ?G. size_of w x)"
      using t(2) static_size [OF t(5) k(4)] by (simp add: sum_list_distinct_conv_sum_set)
    moreover have "(\<Sum>p \<in> dom ?h. size_of w p) = (\<Sum>p \<in> dom ?g. size_of w p) + (\<Sum>p \<in> ?G. size_of w p)"
      unfolding dom by (rule sum.subset_diff [OF Gd d(5)])
    ultimately have 1: "(\<Sum>p \<in> dom ?g. size_of w' p) = unat (st_allocated_bytes (w_state w'))"
      using a acc k(3) sizes by (simp add: accounted_def)
    have "glue_of ?g p = glue_of ?h p" if "p \<in> dom ?g" for p
    proof -
      from that dom obtain b where "?h p = Some b" "p \<notin> ?G" by auto
      with survives_graph(4) [OF sw] show ?thesis by blast
    qed
    then have "(\<Sum>p \<in> dom ?g. mset (dropped_weaks (glue_of ?g p))) = (\<Sum>p \<in> dom ?g. mset (dropped_weaks (glue_of ?h p)))"
      by (intro sum.cong) auto
    moreover have "(\<Sum>p \<in> dom ?h. mset (dropped_weaks (glue_of ?h p))) =
        (\<Sum>p \<in> dom ?g. mset (dropped_weaks (glue_of ?h p))) + mset (dropped_weaks (glues ?h ns))"
      unfolding dom glues_weaks [OF t(2)] by (rule sum.subset_diff [OF Gd d(5)])
    ultimately have eq: "weaks_in ?h = weaks_in ?g + mset (dropped_weaks (glues ?h ns))" by (simp add: weaks_in_def)
    then have sub: "weaks_in ?g + mset (dropped_weaks (glues ?h ns)) \<subseteq># W" using acc by (simp add: accounted_def weaks_in_def)
    then obtain U where "W = weaks_in ?g + mset (dropped_weaks (glues ?h ns)) + U" by (auto simp: mset_subset_eq_exists_conv)
    then have "?V = weaks_in ?g + U" by simp
    with eq \<open>W = _\<close> have "settled W w ?V w'" "weaks_in ?g \<subseteq># ?V"
      using tcs by (simp_all add: settled_def ac_simps)
    with 1 show ?thesis by (simp add: accounted_def weaks_in_def)
  qed
  ultimately show ?thesis using after(1,3) by blast
qed

end
