(* ===== verification/Collect_Correct.thy ===== *)
theory Collect_Correct
  imports Collect_Once
begin

text \<open>
  A whole collection when no user code interferes: it returns, exactly the garbage has been freed,
  everything else is as before, the buffer is empty and the accounts are settled.
\<close>

subsection \<open>The round that finalizes\<close>

definition finalized_only :: "addr set \<Rightarrow> addr \<Rightarrow> ccbox \<Rightarrow> ccbox \<Rightarrow> bool" where
  "finalized_only G p b c \<longleftrightarrow> b_elem c = b_elem b \<and> b_metadata c = b_metadata b \<and>
     v_meta (view (b_cm c)) = v_meta (view (b_cm b)) \<and> v_rc (view (b_cm c)) = v_rc (view (b_cm b)) \<and>
     v_fin (view (b_cm c)) = (v_fin (view (b_cm b)) \<or> p \<in> G)"

definition rebuffered :: "addr set \<Rightarrow> 'f world \<Rightarrow> 'f world \<Rightarrow> bool" where
  "rebuffered G w w' \<longleftrightarrow> (\<exists>h l. w' = w\<lparr>w_boxes := h, w_pc := l\<rparr>) \<and>
     (\<forall>p. rel_option (finalized_only G p) (w_boxes w p) (w_boxes w' p)) \<and>
     (\<forall>p. tc_of (w_boxes w) p < 16383 \<longrightarrow> tc_of (w_boxes w') p < 16383)"

lemma rebuffered_Some:
  assumes "rebuffered G w w'" "w_boxes w p = Some b"
  obtains c where "w_boxes w' p = Some c" "finalized_only G p b c"
proof -
  from assms(1) have "rel_option (finalized_only G p) (w_boxes w p) (w_boxes w' p)" by (simp add: rebuffered_def)
  with assms(2) that show thesis by (auto simp: option_rel_Some1)
qed

lemma rebuffered_graph:
  assumes "rebuffered G w w'"
  shows "calls_of (w_boxes w') p = calls_of (w_boxes w) p" "targets (w_boxes w') p = targets (w_boxes w) p"
    "rc_of (w_boxes w') p = rc_of (w_boxes w) p" "glue_of (w_boxes w') p = glue_of (w_boxes w) p"
    "size_of w' p = size_of w p" "dom (w_boxes w') = dom (w_boxes w)"
proof -
  from assms have r: "rel_option (finalized_only G p) (w_boxes w p) (w_boxes w' p)" for p by (simp add: rebuffered_def)
  from assms have m: "w_meta w' = w_meta w" by (auto simp: rebuffered_def)
  show c: "calls_of (w_boxes w') p = calls_of (w_boxes w) p"
    using r [of p] by (cases "w_boxes w p"; cases "w_boxes w' p") (auto simp: calls_of_def finalized_only_def)
  then show "targets (w_boxes w') p = targets (w_boxes w) p" by (simp add: targets_def)
  show "rc_of (w_boxes w') p = rc_of (w_boxes w) p"
    using r [of p] by (cases "w_boxes w p"; cases "w_boxes w' p") (auto simp: rc_of_def finalized_only_def)
  show "glue_of (w_boxes w') p = glue_of (w_boxes w) p"
    using r [of p] by (cases "w_boxes w p"; cases "w_boxes w' p") (auto simp: glue_of_def finalized_only_def)
  show "size_of w' p = size_of w p"
    using r [of p] m by (cases "w_boxes w p"; cases "w_boxes w' p") (auto simp: size_of_def finalized_only_def split: metadata.split)
  show "dom (w_boxes w') = dom (w_boxes w)"
  proof (rule set_eqI)
    fix q show "q \<in> dom (w_boxes w') \<longleftrightarrow> q \<in> dom (w_boxes w)"
      using r [of q] by (cases "w_boxes w q"; cases "w_boxes w' q") auto
  qed
qed

lemma put_back_ok:
  assumes inv: "gc_inv ps W w" and tr: "after_trace ps ns w w1" and l: "ll_repr l (w_boxes w1) ns"
    and sz: "unat sz = length ns" and n: "length ns < fuel" "length ns < 2 ^ 64"
  shows "\<exists>w'. put_back fuel l sz (w1\<lparr>w_boxes := fin_marked (set ns) (w_boxes w1)\<rparr>) = Done () w' \<and>
    rebuffered (set ns) w w' \<and> buffered ns w' \<and>
    (\<forall>p b. w_boxes w' p = Some b \<longrightarrow> \<not> in_collector b \<and> (p \<in> set ns \<longrightarrow> v_tc (view (b_cm b)) = 0)) \<and>
    (\<forall>p \<in> reach (w_boxes w) (set ps). tc_of (w_boxes w') p < 16383)"
proof -
  let ?G = "set ns" and ?h = "fin_marked (set ns) (w_boxes w1)"
  let ?w2 = "w1\<lparr>w_boxes := ?h\<rparr>"
  note d = gc_invD [OF inv] and t = after_traceD [OF tr]
  have sub: "?G \<subseteq> reach (w_boxes w) (set ps)" using garbage_subset t(1) by simp
  have l2: "ll_repr l ?h ns" using l dseg_cong [of ns ?h "w_boxes w1"] by (simp add: ll_repr_def)
  have p2: "pc_repr (w_pc w1) ?h []" using buffered_repr [OF t(4)] by (simp add: pc_repr_def)
  from pc_swap_list_ok [OF p2 l2 sz] obtain pl k where
    1: "pc_swap_list sz l (w_pc w1, ?h) = Done k (pl, ?h)" "pc_repr pl ?h ns" "ll_repr k ?h []" by blast
  have zero: "unat (pc_size (w_pc w1)) = length ([] :: addr list)" using p2 by (simp add: pc_repr_def)
  have tc: "v_tc (view (b_cm b)) < 16383" if "x \<in> ?G" "?h x = Some b" for x b
  proof -
    from that obtain c where c: "w_boxes w1 x = Some c" "b = c\<lparr>b_cm := set_finalized True (b_cm c)\<rparr>" by (auto simp: fin_marked_def)
    with t(7) [of x] sub that(1) show ?thesis by (auto simp: tc_of_def cm_upd)
  qed
  have "\<exists>pl' h'. pc_mark_self_and_append fuel PossibleCycles k (pc_size (w_pc w1)) (pl, ?h) = Done () (pl', h') \<and>
    pc_repr pl' h' (ns @ []) \<and> frame (?G \<union> set []) (remark ?G PossibleCycles ?h) h'"
    by (rule pc_mark_self_and_append_ok [OF 1(2,3) _ zero _ n(1)]) (use n(2) tc in auto)
  then obtain pl' h' where
    2: "pc_mark_self_and_append fuel PossibleCycles k (pc_size (w_pc w1)) (pl, ?h) = Done () (pl', h')"
    "pc_repr pl' h' ns" "frame ?G (remark ?G PossibleCycles ?h) h'" by auto
  let ?w' = "w1\<lparr>w_boxes := h', w_pc := pl'\<rparr>"
  have run: "put_back fuel l sz ?w2 = Done () ?w'"
  proof -
    have "on_possible_cycles (pc_swap_list sz l) ?w2 = Done k (?w2\<lparr>w_pc := pl\<rparr>)"
      using 1(1) by (simp add: on_possible_cycles_def zoom_def)
    moreover have "on_possible_cycles (pc_mark_self_and_append fuel PossibleCycles k (pc_size (w_pc w1))) (?w2\<lparr>w_pc := pl\<rparr>) = Done () ?w'"
      using 2(1) by (simp add: on_possible_cycles_def zoom_def)
    ultimately show ?thesis by (simp add: put_back_def)
  qed
  have out: "h' p = w_boxes w1 p" if "p \<notin> ?G" for p
    using frame_out [OF 2(3) that] that by (simp add: remark_def fin_marked_def)
  have inG: "\<exists>b c. w_boxes w1 p = Some b \<and> h' p = Some c \<and> payload c = payload (b\<lparr>b_cm := mark PossibleCycles (tc_zero (set_finalized True (b_cm b)))\<rparr>)"
    if p: "p \<in> ?G" for p
  proof -
    from l obtain e where "dseg (w_boxes w1) None (ll_first l) ns e None" by (auto simp: ll_repr_def)
    from dseg_live [OF this p] obtain b where b: "w_boxes w1 p = Some b" by blast
    with frame_payload [OF 2(3), of p] p show ?thesis by (auto simp: remark_def fin_marked_def)
  qed
  have sh: "isolated (w_boxes w1) p" "v_mark (view (b_cm b)) = NonMarked" if "w_boxes w1 p = Some b" "p \<notin> ?G" for p b
    using t(6) [OF that(1)] that(2) buffered_isolated [OF t(4) that(1)] by auto
  have marks: "v_mark (view (b_cm c)) = (if p \<in> ?G then PossibleCycles else NonMarked) \<and> (p \<in> ?G \<longrightarrow> v_tc (view (b_cm c)) = 0)"
    if "h' p = Some c" for p c
  proof (cases "p \<in> ?G")
    case True
    from inG [OF True] that show ?thesis using True by (auto simp: payload_def cm_upd)
  next
    case False
    with sh(2) [of p c] out [OF False] that show ?thesis by simp
  qed
  have "buffered ns ?w'"
    unfolding buffered_def
  proof (intro conjI allI impI)
    show "pc_repr (w_pc ?w') (w_boxes ?w') ns" using 2(2) by simp
    fix p c assume c: "w_boxes ?w' p = Some c"
    show "v_mark (view (b_cm c)) = PossibleCycles \<longleftrightarrow> p \<in> ?G" using marks [of p c] c by simp
    assume "v_mark (view (b_cm c)) = NonMarked"
    then have p: "p \<notin> ?G" using marks [of p c] c by auto
    with c have "w_boxes w1 p = Some c" using out by simp
    from sh(1) [OF this p] out [OF p] show "isolated (w_boxes ?w') p" by (simp add: isolated_def links_def)
  qed
  moreover have "rebuffered ?G w ?w'"
    unfolding rebuffered_def
  proof (intro conjI allI impI)
    from t(3) obtain h1 l1 where "w1 = w\<lparr>w_boxes := h1, w_pc := l1\<rparr>" by blast
    then show "\<exists>h l. ?w' = w\<lparr>w_boxes := h, w_pc := l\<rparr>" by (intro exI [of _ h'] exI [of _ pl']) simp
    fix p
    show "rel_option (finalized_only ?G p) (w_boxes w p) (w_boxes ?w' p)"
    proof (cases "p \<in> ?G")
      case True
      from inG [OF True] obtain b c where bc: "w_boxes w1 p = Some b" "h' p = Some c"
        "payload c = payload (b\<lparr>b_cm := mark PossibleCycles (tc_zero (set_finalized True (b_cm b)))\<rparr>)" by blast
      from t(5) [of p] bc(1) obtain a where "w_boxes w p = Some a" "static b = static a" by (cases "w_boxes w p") auto
      with bc(2,3) True show ?thesis by (auto simp: finalized_only_def payload_def static_def cm_upd)
    next
      case False
      with t(5) [of p] out [OF False] show ?thesis
        by (cases "w_boxes w p"; cases "w_boxes w1 p") (auto simp: finalized_only_def static_def)
    qed
    assume "tc_of (w_boxes w) p < 16383"
    with t(8) [of p] marks [of p] out [of p] show "tc_of (w_boxes ?w') p < 16383"
      by (cases "p \<in> ?G") (auto simp: tc_of_def split: option.split)
  qed
  moreover have un: "\<forall>p b. w_boxes ?w' p = Some b \<longrightarrow> \<not> in_collector b \<and> (p \<in> ?G \<longrightarrow> v_tc (view (b_cm b)) = 0)"
    using marks by (auto simp: in_collector_def)
  moreover have "tc_of (w_boxes ?w') p < 16383" if "p \<in> reach (w_boxes w) (set ps)" for p
  proof (cases "p \<in> ?G")
    case True
    with marks show ?thesis by (auto simp: tc_of_def split: option.split)
  next
    case False
    with t(7) [OF that] out [OF False] show ?thesis by (simp add: tc_of_def)
  qed
  ultimately show ?thesis using run by blast
qed

text \<open>Putting the garbage back keeps the invariant, and what is garbage.\<close>

lemma rebuffered_inv:
  assumes inv: "gc_inv ps W w" and acc: "accounted W w" and q: "quiet (w_boxes w) (set ps)" and tr: "after_trace ps ns w w1"
    and re: "rebuffered (set ns) w w'" and buf: "buffered ns w'"
    and un: "\<forall>p b. w_boxes w' p = Some b \<longrightarrow> \<not> in_collector b \<and> (p \<in> set ns \<longrightarrow> v_tc (view (b_cm b)) = 0)"
    and tc: "\<forall>p \<in> reach (w_boxes w) (set ps). tc_of (w_boxes w') p < 16383"
  shows "gc_inv ns W w'" "accounted W w'" "quiet (w_boxes w') (set ns)" "garbage (w_boxes w') (set ns) = set ns"
    "\<And>p. refs_from (w_boxes w') (set ns) p = refs_from (w_boxes w) (set ns) p"
    "reach (w_boxes w') (set ns) \<subseteq> reach (w_boxes w) (set ps)"
proof -
  let ?h = "w_boxes w" and ?g = "w_boxes w'"
  note d = gc_invD [OF inv] and t = after_traceD [OF tr] and r = rebuffered_graph [OF re]
  have sub: "set ns \<subseteq> reach ?h (set ps)" using garbage_subset t(1) by simp
  have sg: "same_graph S ?h ?g" for S using r by (simp add: same_graph_def)
  have reach: "reach ?g (set ns) = reach ?h (set ns)" by (rule garbage_cong(1) [OF sg])
  have rs: "reach ?h (set ns) \<subseteq> reach ?h (set ps)" by (rule reach_mono_start [OF sub])
  have garbage_again: "garbage ?g (set ns) = set ns"
    using garbage_cong(2) [OF sg] garbage_of_garbage [OF d(7)] t(1) by simp
  then show "garbage ?g (set ns) = set ns" .
  show "refs_from ?g (set ns) p = refs_from ?h (set ns) p" for p by (rule refs_from_cong) (rule r(2))
  show "reach ?g (set ns) \<subseteq> reach ?h (set ps)" using reach rs by simp
  have el: "\<exists>b v. ?g p = Some b \<and> b_elem b = Some v" if p: "p \<in> reach ?h (set ns)" for p
  proof -
    from p rs d(7) obtain b v where "?h p = Some b" "b_elem b = Some v" unfolding traceable_def by blast
    with rebuffered_Some [OF re this(1)] show ?thesis by (auto simp: finalized_only_def)
  qed
  have tg: "traceable ?g (set ns)" by (rule traceable_cong [OF traceable_subset [OF d(7) sub] sg]) (rule el)
  have "weak_inv W w'"
  proof (rule weak_inv_cong [OF d(2)])
    show "w_meta w' = w_meta w" using re by (auto simp: rebuffered_def)
    show "map_option box_meta (?g p) = map_option box_meta (?h p)" for p
    proof -
      have "rel_option (finalized_only (set ns) p) (?h p) (?g p)" using re by (simp add: rebuffered_def)
      then show ?thesis by (cases "?h p"; cases "?g p") (auto simp: finalized_only_def box_meta_def)
    qed
  qed
  moreover have "w_state_alive w'" "w_pc_alive w'" "w_state w' = w_state w" using re d(3,4) by (auto simp: rebuffered_def)
  moreover have "tc_of ?g p = 0" if "p \<in> set ns" for p using un that by (auto simp: tc_of_def split: option.split)
  moreover have "tc_of ?g p < 16383" if "p \<in> reach ?g (set ns)" for p using tc that reach rs by blast
  ultimately show "gc_inv ns W w'" using buf d(5,6) r(6) tg un unfolding gc_inv_def by auto
  show "accounted W w'" using acc r \<open>w_state w' = w_state w\<close> unfolding accounted_def by simp
  show "quiet ?g (set ns)"
    unfolding quiet_def
  proof (intro conjI ballI allI impI)
    fix x assume "x \<in> reach ?g (set ns)"
    then have "x \<in> reach ?h (set ps)" using reach rs by blast
    with q have "\<not> panics (calls_of ?h x)" unfolding quiet_def by blast
    then show "\<not> panics (calls_of ?g x)" by (simp add: r)
  next
    fix x assume "x \<in> garbage ?g (set ns)"
    then have x: "x \<in> garbage ?h (set ps)" using garbage_again t(1) by simp
    with q have "plain_glue (glue_of ?h x) \<and> mset (dropped_ccs (glue_of ?h x)) = mset (targets ?h x)"
      unfolding quiet_def by blast
    then show "plain_glue (glue_of ?g x)" "mset (dropped_ccs (glue_of ?g x)) = mset (targets ?g x)" by (simp_all add: r)
    fix c v assume c: "?g x = Some c" "b_elem c = Some v"
    from x garbage_subset d(7) obtain b u where b: "?h x = Some b" "b_elem b = Some u" unfolding traceable_def by blast
    from rebuffered_Some [OF re b(1)] b(2) c have u: "u = v" "v_fin (view (b_cm b)) \<longrightarrow> v_fin (view (b_cm c))"
      by (auto simp: finalized_only_def)
    from q x b have "v_fin (view (b_cm b)) \<or> finalize_val u = []" unfolding quiet_def by blast
    with u show "v_fin (view (b_cm c)) \<or> finalize_val v = []" by blast
  qed
qed

subsection \<open>The three outcomes of a round\<close>

lemma empty_list: "ll_repr l h ns \<Longrightarrow> ll_is_empty l \<longleftrightarrow> ns = []"
  by (cases ns) (auto simp: ll_repr_def ll_is_empty_def)

lemma garbage_length:
  assumes "gc_inv ps W w" "after_trace ps ns w w1" "card (reach (w_boxes w) (set ps)) < fuel"
  shows "length ns < fuel" "length ns < 2 ^ 64"
proof -
  note d = gc_invD [OF assms(1)] and t = after_traceD [OF assms(2)]
  have "set ns \<subseteq> reach (w_boxes w) (set ps)" using garbage_subset t(1) by simp
  moreover have "reach (w_boxes w) (set ps) \<subseteq> dom (w_boxes w)" using traceableD(2) [OF d(7)] by blast
  ultimately have "card (set ns) \<le> card (reach (w_boxes w) (set ps))" "card (set ns) \<le> card (dom (w_boxes w))"
    using traceableD(1) [OF d(7)] d(5) by (auto intro!: card_mono)
  then show "length ns < fuel" "length ns < 2 ^ 64" using assms(3) d(6) distinct_card [OF t(2)] by simp_all
qed

lemma round_idle:
  assumes inv: "gc_inv ps W w" and q: "\<forall>x \<in> reach (w_boxes w) (set ps). \<not> panics (calls_of (w_boxes w) x)" and n: "card (reach (w_boxes w) (set ps)) < fuel"
    and G: "garbage (w_boxes w) (set ps) = {}"
  shows "\<exists>w'. collect_once uc fuel w = Done () w' \<and> rebuffered {} w w' \<and> gc_inv [] W w'"
proof -
  from run_trace_ok [OF inv q n] obtain l w1 ns where
    1: "run_trace fuel w = Done l w1" "ll_repr l (w_boxes w1) ns" and tr: "after_trace ps ns w w1" by blast
  note d = gc_invD [OF inv] and t = after_traceD [OF tr] and k = after_trace_kept [OF inv tr]
  have ns: "ns = []" using t(1) G by simp
  have "collect_once uc fuel w = Done () w1" using 1 empty_list [OF 1(2)] ns by (simp add: collect_once_def)
  moreover have "rebuffered {} w w1"
    unfolding rebuffered_def
  proof (intro conjI allI impI)
    show "rel_option (finalized_only {} p) (w_boxes w p) (w_boxes w1 p)" for p
      using t(5) [of p] by (cases "w_boxes w p"; cases "w_boxes w1 p") (auto simp: finalized_only_def static_def)
  qed (rule t(3) t(8), assumption?)+
  moreover have "reach (w_boxes w1) {} = {}" using reach_closed [of "{}" "{}" "w_boxes w1"] by auto
  then have "gc_inv [] W w1"
    using t(4) k d(5,6) t(6) unfolding gc_inv_def by (auto simp: traceable_def in_collector_def ns)
  ultimately show ?thesis by blast
qed

lemma unfinished_flag:
  assumes "after_trace ps ns w w1" "gc_inv ps W w"
  shows "(\<exists>x \<in> set ns. \<exists>b. w_boxes w1 x = Some b \<and> \<not> v_fin (view (b_cm b))) \<longleftrightarrow>
    (\<exists>x \<in> set ns. \<exists>b. w_boxes w x = Some b \<and> \<not> v_fin (view (b_cm b)))"
proof -
  have "(\<exists>b. w_boxes w1 x = Some b \<and> \<not> v_fin (view (b_cm b))) \<longleftrightarrow> (\<exists>b. w_boxes w x = Some b \<and> \<not> v_fin (view (b_cm b)))" for x
    using after_traceD(5) [OF assms(1), of x] by (cases "w_boxes w1 x"; cases "w_boxes w x") (auto simp: static_def)
  then show ?thesis by simp
qed

lemma round_finalize:
  assumes inv: "gc_inv ps W w" and q: "quiet (w_boxes w) (set ps)" and n: "card (reach (w_boxes w) (set ps)) < fuel"
    and G: "garbage (w_boxes w) (set ps) \<noteq> {}"
  shows "\<exists>l w1 ns sz. after_trace ps ns w w1 \<and> ll_repr l (w_boxes w1) ns \<and> unat sz = length ns \<and>
    collect_once uc fuel w = (if \<exists>x \<in> set ns. \<exists>b. w_boxes w x = Some b \<and> \<not> v_fin (view (b_cm b))
      then put_back fuel l sz (w1\<lparr>w_boxes := fin_marked (set ns) (w_boxes w1)\<rparr>)
      else deallocate_list uc fuel l w1)"
proof -
  from run_trace_ok [OF inv quiet_trace [OF q] n] obtain l w1 ns where
    1: "run_trace fuel w = Done l w1" "ll_repr l (w_boxes w1) ns" and tr: "after_trace ps ns w w1" by blast
  note d = gc_invD [OF inv] and t = after_traceD [OF tr]
  have sub: "set ns \<subseteq> reach (w_boxes w) (set ps)" using garbage_subset t(1) by simp
  have ne: "\<not> ll_is_empty l" using empty_list [OF 1(2)] t(1) G by auto
  have el: "\<exists>b v. w_boxes w1 x = Some b \<and> b_elem b = Some v \<and> (v_fin (view (b_cm b)) \<or> finalize_val v = [])" if x: "x \<in> set ns" for x
  proof -
    from x sub d(7) obtain b v where b: "w_boxes w x = Some b" "b_elem b = Some v" unfolding traceable_def by blast
    with q x t(1) have "v_fin (view (b_cm b)) \<or> finalize_val v = []" unfolding quiet_def by blast
    with static_Some [of "w_boxes w1" x "w_boxes w" b, OF t(5) b(1)] b(2) show ?thesis by auto
  qed
  from finalize_list_quiet [OF 1(2) garbage_length [OF inv tr n] el after_trace_kept(1) [OF inv tr], of uc] obtain sz where
    2: "finalize_list uc fuel l w1 = Done (sz, \<exists>x \<in> set ns. \<exists>b. w_boxes w1 x = Some b \<and> \<not> v_fin (view (b_cm b)))
      (w1\<lparr>w_boxes := fin_marked (set ns) (w_boxes w1)\<rparr>)" "unat sz = length ns" by blast
  have id: "fin_marked (set ns) (w_boxes w1) = w_boxes w1"
    if "\<not> (\<exists>x \<in> set ns. \<exists>b. w_boxes w1 x = Some b \<and> \<not> v_fin (view (b_cm b)))"
  proof (rule ext)
    fix p show "fin_marked (set ns) (w_boxes w1) p = w_boxes w1 p"
      using that by (cases "w_boxes w1 p") (auto simp: fin_marked_def set_finalized_again)
  qed
  define hf where "hf = (\<exists>x \<in> set ns. \<exists>b. w_boxes w1 x = Some b \<and> \<not> v_fin (view (b_cm b)))"
  have fl: "finalize_list uc fuel l w1 = Done (sz, hf) (w1\<lparr>w_boxes := fin_marked (set ns) (w_boxes w1)\<rparr>)"
    using 2(1) by (simp only: hf_def)
  have "\<not> hf \<Longrightarrow> w1\<lparr>w_boxes := fin_marked (set ns) (w_boxes w1)\<rparr> = w1" using id unfolding hf_def by simp
  then have "collect_once uc fuel w = (if hf then put_back fuel l sz (w1\<lparr>w_boxes := fin_marked (set ns) (w_boxes w1)\<rparr>)
      else deallocate_list uc fuel l w1)"
    using 1(1) ne fl by (cases hf) (simp_all add: collect_once_def)
  then have "collect_once uc fuel w = (if \<exists>x \<in> set ns. \<exists>b. w_boxes w1 x = Some b \<and> \<not> v_fin (view (b_cm b))
      then put_back fuel l sz (w1\<lparr>w_boxes := fin_marked (set ns) (w_boxes w1)\<rparr>)
      else deallocate_list uc fuel l w1)" by (simp only: hf_def)
  with tr 1(2) 2(2) show ?thesis unfolding unfinished_flag [OF tr inv] by blast
qed

subsection \<open>The loop\<close>

lemma rebuffered_shrunk: "rebuffered G w w' \<Longrightarrow> shrunk w w'"
  unfolding rebuffered_def using shrunk_buffer by blast

lemma swept_of_rebuffered: "rebuffered {} w w' \<Longrightarrow> swept {} w w'"
proof -
  assume r: "rebuffered {} w w'"
  have "rel_option (survives (refs_from (w_boxes w) {} p)) (w_boxes w p) (w_boxes w' p)" for p
  proof -
    have "rel_option (finalized_only {} p) (w_boxes w p) (w_boxes w' p)" using r by (simp add: rebuffered_def)
    then show ?thesis by (cases "w_boxes w p"; cases "w_boxes w' p") (auto simp: finalized_only_def survives_def)
  qed
  moreover have "shrunk w w'" by (rule rebuffered_shrunk [OF r])
  ultimately show ?thesis by (simp add: swept_def)
qed

lemma swept_then_idle:
  assumes s: "swept G w w1" and r: "rebuffered {} w1 w'"
  shows "swept G w w'"
  unfolding swept_def
proof (intro conjI ballI allI impI)
  have rp: "rel_option (finalized_only {} p) (w_boxes w1 p) (w_boxes w' p)" for p using r by (simp add: rebuffered_def)
  show "w_boxes w' p = None" if "p \<in> G" for p
    using s that rp [of p] by (auto simp: swept_def)
  show "rel_option (survives (refs_from (w_boxes w) G p)) (w_boxes w p) (w_boxes w' p)" if "p \<notin> G" for p
  proof -
    have "rel_option (survives (refs_from (w_boxes w) G p)) (w_boxes w p) (w_boxes w1 p)" using s that by (simp add: swept_def)
    with rp [of p] show ?thesis
      by (cases "w_boxes w p"; cases "w_boxes w1 p"; cases "w_boxes w' p") (auto simp: finalized_only_def survives_def)
  qed
  show "shrunk w w'" using s rebuffered_shrunk [OF r] shrunk_trans unfolding swept_def by blast
qed

lemma finalized_then_swept:
  assumes r: "rebuffered G w w1" and s: "swept G w1 w'"
  shows "swept G w w'"
  unfolding swept_def
proof (intro conjI ballI allI impI)
  show "w_boxes w' p = None" if "p \<in> G" for p using s that by (simp add: swept_def)
  show "rel_option (survives (refs_from (w_boxes w) G p)) (w_boxes w p) (w_boxes w' p)" if p: "p \<notin> G" for p
  proof -
    have f: "refs_from (w_boxes w1) G p = refs_from (w_boxes w) G p" by (rule refs_from_cong) (rule rebuffered_graph [OF r])
    have "rel_option (survives (refs_from (w_boxes w1) G p)) (w_boxes w1 p) (w_boxes w' p)" using s p by (simp add: swept_def)
    moreover have "rel_option (finalized_only G p) (w_boxes w p) (w_boxes w1 p)" using r by (simp add: rebuffered_def)
    ultimately show ?thesis
      using p f by (cases "w_boxes w p"; cases "w_boxes w1 p"; cases "w_boxes w' p") (auto simp: finalized_only_def survives_def)
  qed
  show "shrunk w w'" using s rebuffered_shrunk [OF r] shrunk_trans unfolding swept_def by blast
qed

lemma buffer_empty: "gc_inv ps W w \<Longrightarrow> pc_is_empty (w_pc w) \<longleftrightarrow> ps = []"
  using buffered_repr [of ps w] by (cases ps) (auto simp: gc_inv_def pc_repr_def pc_is_empty_def)

lemma idle_settled: "rebuffered G w w' \<Longrightarrow> settled W w W w'"
  by (simp add: settled_def weaks_in_def rebuffered_graph) (simp add: rebuffered_def)

lemma idle_accounted: "accounted W w \<Longrightarrow> rebuffered G w w' \<Longrightarrow> accounted W w'"
proof -
  assume a: "accounted W w" and r: "rebuffered G w w'"
  have "w_state w' = w_state w" using r by (auto simp: rebuffered_def)
  with a rebuffered_graph [OF r] show ?thesis by (simp add: accounted_def)
qed

text \<open>No garbage: at most one round has something to do.\<close>

lemma rounds_idle:
  assumes inv: "gc_inv ps W w" and acc: "accounted W w" and q: "quiet (w_boxes w) (set ps)"
    and n: "card (reach (w_boxes w) (set ps)) < fuel" and G: "garbage (w_boxes w) (set ps) = {}"
  shows "\<exists>w'. collect_rounds uc fuel (Suc k) w = Done () w' \<and> rebuffered {} w w' \<and> gc_inv [] W w' \<and> accounted W w'"
proof (cases "ps = []")
  case True
  have "rebuffered {} w w"
  proof -
    have "w = w\<lparr>w_boxes := w_boxes w, w_pc := w_pc w\<rparr>" by simp
    then have "\<exists>h l. w = w\<lparr>w_boxes := h, w_pc := l\<rparr>" by blast
    then show ?thesis by (auto simp: rebuffered_def finalized_only_def intro: option.rel_refl)
  qed
  with True buffer_empty [OF inv] inv acc show ?thesis by (intro exI [of _ w]) simp
next
  case False
  from round_idle [OF inv quiet_trace [OF q] n G, of uc] obtain w1 where
    1: "collect_once uc fuel w = Done () w1" "rebuffered {} w w1" "gc_inv [] W w1" by blast
  have "collect_rounds uc fuel k w1 = Done () w1" using buffer_empty [OF 1(3)] by (cases k) simp_all
  with 1 False buffer_empty [OF inv] have "collect_rounds uc fuel (Suc k) w = Done () w1" by simp
  with 1(2,3) idle_accounted [OF acc 1(2)] show ?thesis by blast
qed

lemma rounds_free:
  assumes inv: "gc_inv ps W w" and acc: "accounted W w" and q: "quiet (w_boxes w) (set ps)"
    and n: "card (reach (w_boxes w) (set ps)) < Suc n" and G: "garbage (w_boxes w) (set ps) \<noteq> {}"
    and fin: "\<forall>x \<in> garbage (w_boxes w) (set ps). \<forall>b. w_boxes w x = Some b \<longrightarrow> v_fin (view (b_cm b))"
  shows "\<exists>w' V. collect_rounds uc (Suc n) (Suc (Suc k)) w = Done () w' \<and> swept (garbage (w_boxes w) (set ps)) w w'
    \<and> gc_inv [] V w' \<and> accounted V w' \<and> settled W w V w'"
proof -
  from round_finalize [OF inv q n G, of uc] obtain l w1 ns sz where
    tr: "after_trace ps ns w w1" and l: "ll_repr l (w_boxes w1) ns" and
    1: "collect_once uc (Suc n) w = (if \<exists>x \<in> set ns. \<exists>b. w_boxes w x = Some b \<and> \<not> v_fin (view (b_cm b))
      then put_back (Suc n) l sz (w1\<lparr>w_boxes := fin_marked (set ns) (w_boxes w1)\<rparr>)
      else deallocate_list uc (Suc n) l w1)" by blast
  have ns: "set ns = garbage (w_boxes w) (set ps)" by (rule after_traceD(1) [OF tr])
  from sweep_dealloc [OF inv acc q tr l garbage_length(1) [OF inv tr n], of uc] obtain w2 where
    2: "deallocate_list uc (Suc n) l w1 = Done () w2" "deallocated ns [] W w1 w2" by blast
  have "\<not> (\<exists>x \<in> set ns. \<exists>b. w_boxes w x = Some b \<and> \<not> v_fin (view (b_cm b)))" using fin ns by blast
  with 1 2(1) have once: "collect_once uc (Suc n) w = Done () w2" by simp
  note sw = deallocated_swept [OF inv q tr 2(2), unfolded ns]
  from swept_inv [OF inv acc q tr 2(2)] obtain qs V where
    3: "gc_inv qs V w2" "accounted V w2" and se: "settled W w V w2" and 5: "quiet (w_boxes w2) (set qs)" "garbage (w_boxes w2) (set qs) = {}"
    "reach (w_boxes w2) (set qs) \<subseteq> reach (w_boxes w) (set ps)" by blast
  have "card (reach (w_boxes w2) (set qs)) < Suc n"
    using card_mono [OF traceableD(1) [OF gc_invD(7) [OF inv]] 5(3)] n by simp
  from rounds_idle [OF 3 5(1) this 5(2), of uc k] obtain w' where
    4: "collect_rounds uc (Suc n) (Suc k) w2 = Done () w'" "rebuffered {} w2 w'" "gc_inv [] V w'" "accounted V w'" by blast
  have "ps \<noteq> []" using G garbage_subset [of "w_boxes w" "set ps"] reach_closed [of "{}" "{}" "w_boxes w"] by auto
  then have "collect_rounds uc (Suc n) (Suc (Suc k)) w = collect_rounds uc (Suc n) (Suc k) w2"
    using once buffer_empty [OF inv] by (simp del: collect_rounds.simps add: collect_rounds.simps(2) [of _ _ "Suc k"])
  with 4 swept_then_idle [OF sw 4(2)] settled_trans [OF se idle_settled [OF 4(2)]] show ?thesis by auto
qed

lemma rounds_ok:
  assumes inv: "gc_inv ps W w" and acc: "accounted W w" and q: "quiet (w_boxes w) (set ps)"
    and n: "card (reach (w_boxes w) (set ps)) < Suc n"
  shows "\<exists>w' V. collect_rounds uc (Suc n) (Suc (Suc (Suc k))) w = Done () w' \<and> swept (garbage (w_boxes w) (set ps)) w w'
    \<and> gc_inv [] V w' \<and> accounted V w' \<and> settled W w V w'"
proof (cases "garbage (w_boxes w) (set ps) = {}")
  case True
  from rounds_idle [OF inv acc q n True, of uc "Suc (Suc k)"] swept_of_rebuffered idle_settled show ?thesis
    unfolding True by blast
next
  case G: False
  show ?thesis
  proof (cases "\<forall>x \<in> garbage (w_boxes w) (set ps). \<forall>b. w_boxes w x = Some b \<longrightarrow> v_fin (view (b_cm b))")
    case True
    show ?thesis by (rule rounds_free [OF inv acc q n G True])
  next
    case False
    from round_finalize [OF inv q n G, of uc] obtain l w1 ns sz where
      tr: "after_trace ps ns w w1" and l: "ll_repr l (w_boxes w1) ns" and sz: "unat sz = length ns" and
      1: "collect_once uc (Suc n) w = (if \<exists>x \<in> set ns. \<exists>b. w_boxes w x = Some b \<and> \<not> v_fin (view (b_cm b))
        then put_back (Suc n) l sz (w1\<lparr>w_boxes := fin_marked (set ns) (w_boxes w1)\<rparr>)
        else deallocate_list uc (Suc n) l w1)" by blast
    have ns: "set ns = garbage (w_boxes w) (set ps)" by (rule after_traceD(1) [OF tr])
    from put_back_ok [OF inv tr l sz garbage_length [OF inv tr n]] obtain w2 where
      2: "put_back (Suc n) l sz (w1\<lparr>w_boxes := fin_marked (set ns) (w_boxes w1)\<rparr>) = Done () w2" and
      re: "rebuffered (set ns) w w2" "buffered ns w2"
        "\<forall>p b. w_boxes w2 p = Some b \<longrightarrow> \<not> in_collector b \<and> (p \<in> set ns \<longrightarrow> v_tc (view (b_cm b)) = 0)"
        "\<forall>p \<in> reach (w_boxes w) (set ps). tc_of (w_boxes w2) p < 16383" by blast
    have "\<exists>x \<in> set ns. \<exists>b. w_boxes w x = Some b \<and> \<not> v_fin (view (b_cm b))" using False ns by blast
    then have once: "collect_once uc (Suc n) w = Done () w2" using 1 2 by simp
    note i = rebuffered_inv [OF inv acc q tr re]
    have fin: "v_fin (view (b_cm c))" if "x \<in> set ns" "w_boxes w2 x = Some c" for x c
    proof -
      have "rel_option (finalized_only (set ns) x) (w_boxes w x) (w_boxes w2 x)" using re(1) by (simp add: rebuffered_def)
      with that show ?thesis by (auto simp: option_rel_Some2 finalized_only_def)
    qed
    have "garbage (w_boxes w2) (set ns) \<noteq> {}" using i(4) ns G by simp
    moreover have "\<forall>x \<in> garbage (w_boxes w2) (set ns). \<forall>b. w_boxes w2 x = Some b \<longrightarrow> v_fin (view (b_cm b))"
      unfolding i(4) using fin by blast
    moreover have "card (reach (w_boxes w2) (set ns)) < Suc n"
      using card_mono [OF traceableD(1) [OF gc_invD(7) [OF inv]] i(6)] n by simp
    ultimately obtain w' V where
      3: "collect_rounds uc (Suc n) (Suc (Suc k)) w2 = Done () w'" "swept (set ns) w2 w'" "gc_inv [] V w'" "accounted V w'" "settled W w2 V w'"
      using rounds_free [OF i(1,2,3), of n uc k] unfolding i(4) by blast
    have "ps \<noteq> []" using G garbage_subset [of "w_boxes w" "set ps"] reach_closed [of "{}" "{}" "w_boxes w"] by auto
    then have "collect_rounds uc (Suc n) (Suc (Suc (Suc k))) w = collect_rounds uc (Suc n) (Suc (Suc k)) w2"
      using once buffer_empty [OF inv] by (simp del: collect_rounds.simps add: collect_rounds.simps(2) [of _ _ "Suc (Suc k)"])
    with 3 finalized_then_swept [OF re(1) 3(2)] settled_trans [OF idle_settled [OF re(1)] 3(5)] ns show ?thesis by auto
  qed
qed

end
