(* ===== verification/Collect_Entry.thy ===== *)
theory Collect_Entry
  imports Collect_Correct
begin

text \<open>
  The entry points of a collection in \<open>src/src/lib.rs\<close>: what \<open>collect\<close>, \<open>collect_cycles\<close> and
  \<open>trigger_collection\<close> leave behind, when they do nothing, and what their guard restores.
\<close>

subsection \<open>The flags and the counter of the state\<close>

lemma gc_inv_state [simp]: "gc_inv ps W (w\<lparr>w_state := s\<rparr>) = gc_inv ps W w"
  by (simp add: gc_inv_def buffered_def weak_inv_def owner_def union_ok_def)

lemma gc_inv_config [simp]: "gc_inv ps W (w\<lparr>w_config := cf\<rparr>) = gc_inv ps W w"
  by (simp add: gc_inv_def buffered_def weak_inv_def owner_def union_ok_def)

lemma size_of_frame: "w_boxes v = w_boxes w \<Longrightarrow> w_meta v = w_meta w \<Longrightarrow> size_of v p = size_of w p"
  unfolding size_of_def by (simp only:)

lemma accounted_state [simp]:
  "st_allocated_bytes s = st_allocated_bytes (w_state w) \<Longrightarrow> accounted W (w\<lparr>w_state := s\<rparr>) = accounted W w"
  using size_of_frame [of "w\<lparr>w_state := s\<rparr>" w] by (simp add: accounted_def)

lemma accounted_config [simp]: "accounted W (w\<lparr>w_config := cf\<rparr>) = accounted W w"
  using size_of_frame [of "w\<lparr>w_config := cf\<rparr>" w] by (simp add: accounted_def)

text \<open>
  The world after a collection that freed \<open>G\<close>: the boxes of \<open>G\<close> are gone, the others only lost the
  references \<open>G\<close> held, and the state says that one more collection ran and none is running.
\<close>

definition collected_world :: "addr set \<Rightarrow> 'f world \<Rightarrow> 'f world \<Rightarrow> bool" where
  "collected_world G w w' \<longleftrightarrow> (\<forall>p \<in> G. w_boxes w' p = None) \<and>
     (\<forall>p. p \<notin> G \<longrightarrow> rel_option (survives (refs_from (w_boxes w) G p)) (w_boxes w p) (w_boxes w' p)) \<and>
     (\<exists>h l M a. w' = w\<lparr>w_boxes := h, w_pc := l, w_meta := M, w_state := (w_state w)\<lparr>st_collecting := False,
        st_executions_counter := st_executions_counter (w_state w) + 1, st_allocated_bytes := a\<rparr>\<rparr>
      \<and> unat a \<le> unat (st_allocated_bytes (w_state w)) \<and> metas_kept (w_meta w) M)"

lemma collect_ok:
  assumes inv: "gc_inv ps W w" and acc: "accounted W w" and q: "quiet (w_boxes w) (set ps)"
    and n: "card (reach (w_boxes w) (set ps)) < Suc n"
    and e: "unat (st_executions_counter (w_state w)) + 1 < 2 ^ 64"
  shows "\<exists>w' V. collect uc (Suc n) w = Done () w' \<and> collected_world (garbage (w_boxes w) (set ps)) w w'
    \<and> gc_inv [] V w' \<and> accounted V w' \<and> settled W w V w'"
proof -
  let ?s = "(w_state w)\<lparr>st_collecting := True, st_executions_counter := st_executions_counter (w_state w) + 1\<rparr>"
  let ?w = "w\<lparr>w_state := ?s\<rparr>"
  have "gc_inv ps W ?w" "accounted W ?w" "quiet (w_boxes ?w) (set ps)" "card (reach (w_boxes ?w) (set ps)) < Suc n"
    using inv acc q n by simp_all
  from rounds_ok [OF this, of uc 7] obtain w' V where
    1: "collect_rounds uc (Suc n) 10 ?w = Done () w'" "swept (garbage (w_boxes w) (set ps)) ?w w'" "gc_inv [] V w'" "accounted V w'" "settled W ?w V w'"
    by (auto simp del: collect_rounds.simps simp: numeral_eq_Suc)
  let ?v = "w'\<lparr>w_state := set_collecting False (w_state w')\<rparr>"
  have "collect uc (Suc n) w = Done () ?v"
    using 1(1) e by (simp add: collect_def on_state_def zoom_def increment_executions_count_def set_collecting_def
        checked_add_def bindM_def del: collect_rounds.simps)
  moreover from 1(2) have "collected_world (garbage (w_boxes w) (set ps)) w ?v"
  proof -
    from 1(2) obtain h l M a where w': "w' = ?w\<lparr>w_boxes := h, w_pc := l, w_meta := M, w_state := ?s\<lparr>st_allocated_bytes := a\<rparr>\<rparr>"
      and a: "unat a \<le> unat (st_allocated_bytes (w_state w))" "metas_kept (w_meta w) M"
      unfolding swept_def shrunk_def by auto
    then have v: "?v = w\<lparr>w_boxes := h, w_pc := l, w_meta := M, w_state := (w_state w)\<lparr>st_collecting := False,
        st_executions_counter := st_executions_counter (w_state w) + 1, st_allocated_bytes := a\<rparr>\<rparr>"
      by (simp add: set_collecting_def)
    have "\<forall>p \<in> garbage (w_boxes w) (set ps). w_boxes ?v p = None"
      "\<forall>p. p \<notin> garbage (w_boxes w) (set ps) \<longrightarrow>
        rel_option (survives (refs_from (w_boxes w) (garbage (w_boxes w) (set ps)) p)) (w_boxes w p) (w_boxes ?v p)"
      using 1(2) by (simp_all add: swept_def)
    with v a show ?thesis unfolding collected_world_def by blast
  qed
  moreover have "gc_inv [] V ?v" "accounted V ?v" "settled W w V ?v" using 1(3-5) by (simp_all add: set_collecting_def settled_def)
  ultimately show ?thesis by blast
qed

text \<open>
  What becomes of a collection whose first tracing panics, and of any collection whose garbage runs
  no user code: it panics exactly when a reached \<open>trace\<close> does.
\<close>

lemma collect_once_panics:
  assumes "run_trace fuel w = Panicked e w1"
  shows "collect_once uc fuel w = Panicked e w1"
  using assms by (simp add: collect_once_def bindM_def)

lemma collect_total:
  assumes inv: "gc_inv ps W w" and acc: "accounted W w" and q: "quiet_garbage (w_boxes w) (set ps)"
    and n: "card (reach (w_boxes w) (set ps)) < Suc n" and e: "unat (st_executions_counter (w_state w)) + 1 < 2 ^ 64"
  shows "if \<exists>x \<in> reach (w_boxes w) (set ps). panics (calls_of (w_boxes w) x)
    then \<exists>msg w'. collect uc (Suc n) w = Panicked (PanicMsg msg) w' else \<exists>w'. collect uc (Suc n) w = Done () w'"
proof (cases "\<exists>x \<in> reach (w_boxes w) (set ps). panics (calls_of (w_boxes w) x)")
  case False
  with q have "quiet (w_boxes w) (set ps)" by (simp add: quiet_split)
  from collect_ok [OF inv acc this n e] False show ?thesis by auto
next
  case True
  let ?w = "w\<lparr>w_state := (w_state w)\<lparr>st_collecting := True, st_executions_counter := st_executions_counter (w_state w) + 1\<rparr>\<rparr>"
  have inv': "gc_inv ps W ?w" using inv by simp
  from run_trace_total [OF inv', of "Suc n"] n True obtain msg w1 where
    "run_trace (Suc n) ?w = Panicked (PanicMsg msg) w1" by auto
  note once = collect_once_panics [OF this, of uc]
  have "ps \<noteq> []" using True by (auto simp: reach_none)
  then have "\<not> pc_is_empty (w_pc ?w)"
    using buffered_repr [OF gc_invD(1) [OF inv]] by (auto simp: pc_repr_def pc_is_empty_def neq_Nil_conv)
  with once have "collect_rounds uc (Suc n) (Suc 9) ?w = Panicked (PanicMsg msg) w1"
    by (subst collect_rounds.simps(2)) (simp add: bindM_def thenM_def del: collect_rounds.simps)
  with e have "\<exists>w'. collect uc (Suc n) w = Panicked (PanicMsg msg) w'"
    by (simp add: collect_def on_state_def zoom_def increment_executions_count_def set_collecting_def
        checked_add_def bindM_def thenM_def with_guard_def del: collect_rounds.simps)
  with True show ?thesis by auto
qed

text \<open>The guard of \<open>collect\<close>: however the collection ends, the flag is down again.\<close>

lemma collect_flag_down:
  assumes "unat (st_executions_counter (w_state w)) + 1 < 2 ^ 64"
  shows "wp (collect uc fuel) (\<lambda>_ w'. \<not> st_collecting (w_state w')) (\<lambda>e w'. \<not> st_collecting (w_state w')) w \<or>
    collect uc fuel w = UB \<or> collect uc fuel w = Timeout"
  using assms
  by (cases "collect_rounds uc fuel 10 (w\<lparr>w_state := (w_state w)\<lparr>st_collecting := True,
      st_executions_counter := st_executions_counter (w_state w) + 1\<rparr>\<rparr>)")
    (simp_all add: collect_def on_state_def zoom_def increment_executions_count_def set_collecting_def
        checked_add_def bindM_def thenM_def with_guard_def wp_def del: collect_rounds.simps)

subsection \<open>The entry points\<close>

lemma collect_cycles_nested:
  "w_state_alive w \<Longrightarrow> st_collecting (w_state w) \<Longrightarrow> collect_cycles fl uc fuel w = Done () w"
  by (simp add: collect_cycles_def try_state_def bindM_def)

lemma trigger_collection_nested:
  "st_collecting (w_state w) \<Longrightarrow> trigger_collection fl uc fuel w = Done () w"
  by (simp add: trigger_collection_def bindM_def)

lemma access_config_error:
  "\<not> w_config_alive w \<Longrightarrow> access_config m w = Done (Inl ConfigAccessError) w"
  "w_config_alive w \<Longrightarrow> w_config_borrowed w \<Longrightarrow> access_config m w = Done (Inl ConcurrentAccessError) w"
  by (simp_all add: access_config_def bindM_def)

lemma nested_config_access:
  assumes "w_config_alive w" "\<not> w_config_borrowed w"
  shows "access_config (access_config m) w = Done (Inr (Inl ConcurrentAccessError)) w"
proof -
  let ?w = "w\<lparr>w_config_borrowed := True\<rparr>"
  have "access_config m ?w = Done (Inl ConcurrentAccessError) ?w"
    by (rule access_config_error(2)) (use assms in simp_all)
  moreover have "w\<lparr>w_config_borrowed := False\<rparr> = w" using assms(2) by (cases w) simp
  ultimately show ?thesis
    using assms by (simp add: access_config_def [of "access_config m"] bindM_def thenM_def with_guard_def)
qed

lemma adjust_trigger_point_ok:
  assumes "w_config_alive w \<longrightarrow> \<not> w_config_borrowed w \<longrightarrow> adjust fl (w_state w) (w_config w) \<noteq> None"
  shows "\<exists>cf. adjust_trigger_point fl w = Done () (w\<lparr>w_config := cf\<rparr>)"
proof (cases "w_config_alive w \<and> \<not> w_config_borrowed w")
  case True
  with assms obtain cf where "adjust fl (w_state w) (w_config w) = Some cf" by auto
  with True show ?thesis
    by (intro exI [of _ cf]) (simp add: adjust_trigger_point_def access_config_def config_adjust_def bindM_def thenM_def with_guard_def)
next
  case False
  then have "adjust_trigger_point fl w = Done () (w\<lparr>w_config := w_config w\<rparr>)"
    by (cases "w_config_alive w") (simp_all add: adjust_trigger_point_def access_config_error)
  then show ?thesis by blast
qed

text \<open>After an adjustment of an accessible configuration no collection is due for the allocated bytes.\<close>

definition trigger_ready :: "'f world \<Rightarrow> bool" where
  "trigger_ready w \<longleftrightarrow> (w_config_alive w \<longrightarrow> \<not> w_config_borrowed w \<longrightarrow>
     DEFAULT_BYTES_THRESHOLD \<le> cf_bytes_threshold (w_config w) \<and> unat (st_allocated_bytes (w_state w)) < 2 ^ 63)"

definition config_adjusted :: "'f world \<Rightarrow> 'f config \<Rightarrow> bool" where
  "config_adjusted w cf \<longleftrightarrow> cf = (w_config w)\<lparr>cf_bytes_threshold := cf_bytes_threshold cf\<rparr> \<and>
     (w_config_alive w \<longrightarrow> \<not> w_config_borrowed w \<longrightarrow> DEFAULT_BYTES_THRESHOLD \<le> cf_bytes_threshold cf
       \<and> st_allocated_bytes (w_state w) < cf_bytes_threshold cf)"

lemma adjust_trigger_point_ready:
  assumes "trigger_ready w"
  shows "\<exists>cf. adjust_trigger_point fl w = Done () (w\<lparr>w_config := cf\<rparr>) \<and> config_adjusted w cf"
proof (cases "w_config_alive w \<and> \<not> w_config_borrowed w")
  case True
  with assms adjust_ok [of "w_config w" "w_state w" fl] obtain cf where
    cf: "adjust fl (w_state w) (w_config w) = Some cf" "config_adjusted w cf"
    unfolding trigger_ready_def config_adjusted_def by blast
  have "w\<lparr>w_config_borrowed := False\<rparr> = w" using True by (cases w) simp
  then have "w\<lparr>w_config := cf, w_config_borrowed := False\<rparr> = w\<lparr>w_config := cf\<rparr>" by (cases w) simp
  with True cf show ?thesis
    by (intro exI [of _ cf]) (simp add: adjust_trigger_point_def access_config_def config_adjust_def bindM_def thenM_def with_guard_def)
next
  case False
  then have "adjust_trigger_point fl w = Done () (w\<lparr>w_config := w_config w\<rparr>)"
    by (cases "w_config_alive w") (simp_all add: adjust_trigger_point_def access_config_error)
  moreover have "config_adjusted w (w_config w)" using False by (auto simp: config_adjusted_def)
  ultimately show ?thesis by blast
qed

lemma collected_world_rest:
  assumes "collected_world G w w'"
  shows "w_config_alive w' = w_config_alive w" "w_config_borrowed w' = w_config_borrowed w" "w_config w' = w_config w"
    "w_state_alive w' = w_state_alive w" "w_pc_alive w' = w_pc_alive w" "st_finalizing (w_state w') = st_finalizing (w_state w)"
    "st_dropping (w_state w') = st_dropping (w_state w)" "\<not> st_collecting (w_state w')"
    "unat (st_allocated_bytes (w_state w')) \<le> unat (st_allocated_bytes (w_state w))" "metas_kept (w_meta w) (w_meta w')"
  using assms unfolding collected_world_def by auto

lemma collect_and_adjust_ok:
  assumes inv: "gc_inv ps W w" and acc: "accounted W w" and q: "quiet (w_boxes w) (set ps)"
    and n: "card (reach (w_boxes w) (set ps)) < Suc n" and e: "unat (st_executions_counter (w_state w)) + 1 < 2 ^ 64"
    and t: "trigger_ready w"
  shows "\<exists>w' cf V. thenM (collect uc (Suc n)) (adjust_trigger_point fl) w = Done () (w'\<lparr>w_config := cf\<rparr>)
    \<and> collected_world (garbage (w_boxes w) (set ps)) w w' \<and> config_adjusted w' cf \<and> gc_inv [] V w' \<and> accounted V w' \<and> settled W w V w'"
proof -
  from collect_ok [OF inv acc q n e, of uc] obtain w' V where
    1: "collect uc (Suc n) w = Done () w'" "collected_world (garbage (w_boxes w) (set ps)) w w'" "gc_inv [] V w'" "accounted V w'" "settled W w V w'" by blast
  have "trigger_ready w'"
    using t collected_world_rest [OF 1(2)] by (auto simp: trigger_ready_def)
  from adjust_trigger_point_ready [OF this, of fl] 1 show ?thesis by fastforce
qed

lemma collect_cycles_ok:
  assumes inv: "gc_inv ps W w" and acc: "accounted W w" and q: "quiet (w_boxes w) (set ps)"
    and n: "card (reach (w_boxes w) (set ps)) < Suc n" and e: "unat (st_executions_counter (w_state w)) + 1 < 2 ^ 64"
    and t: "trigger_ready w" and "\<not> st_collecting (w_state w)"
  shows "\<exists>w' cf V. collect_cycles fl uc (Suc n) w = Done () (w'\<lparr>w_config := cf\<rparr>)
    \<and> collected_world (garbage (w_boxes w) (set ps)) w w' \<and> config_adjusted w' cf \<and> gc_inv [] V w' \<and> accounted V w' \<and> settled W w V w'"
proof -
  have "collect_cycles fl uc (Suc n) w = thenM (collect uc (Suc n)) (adjust_trigger_point fl) w"
    using assms(7) gc_invD(3,4) [OF inv]
    by (cases "collect uc (Suc n) w"; cases "thenM (collect uc (Suc n)) (adjust_trigger_point fl) w")
      (simp_all add: collect_cycles_def try_state_def try_pc_def bindM_def thenM_def split: outcome.splits)
  with collect_and_adjust_ok [OF inv acc q n e t, of uc fl] show ?thesis by simp
qed

text \<open>An automatic collection: it runs when the configuration can be read and says so.\<close>

definition due :: "'f world \<Rightarrow> bool" where
  "due w \<longleftrightarrow> \<not> st_collecting (w_state w) \<and> w_config_alive w \<and> \<not> w_config_borrowed w \<and>
     should_collect (w_config w) (w_state w) (pc_size (w_pc w))"

lemma config_should_collect_eval:
  "config_should_collect w = Done (w_config_alive w \<and> \<not> w_config_borrowed w \<and>
     should_collect (w_config w) (w_state w) (pc_size (w_pc w))) w"
proof (cases "w_config_alive w \<and> \<not> w_config_borrowed w")
  case True
  then have "w\<lparr>w_config_borrowed := False\<rparr> = w" by (cases w) simp
  with True show ?thesis
    by (simp add: config_should_collect_def access_config_def bindM_def thenM_def with_guard_def)
next
  case False
  then show ?thesis
    by (cases "w_config_alive w") (simp_all add: config_should_collect_def access_config_error)
qed

lemma trigger_collection_eval:
  assumes "w_pc_alive w"
  shows "trigger_collection fl uc fuel w = (if due w then thenM (collect uc fuel) (adjust_trigger_point fl) w else Done () w)"
  using assms by (simp add: trigger_collection_def try_pc_def bindM_def config_should_collect_eval due_def)

text \<open>The world after \<open>trigger_collection\<close>.\<close>

definition triggered :: "addr list \<Rightarrow> 'f world \<Rightarrow> 'f world \<Rightarrow> bool" where
  "triggered ps w w1 \<longleftrightarrow> (if due w then \<exists>w' cf. collected_world (garbage (w_boxes w) (set ps)) w w' \<and>
     config_adjusted w' cf \<and> w1 = w'\<lparr>w_config := cf\<rparr> else w1 = w)"

lemma trigger_collection_ok:
  assumes inv: "gc_inv ps W w" and acc: "accounted W w" and q: "quiet (w_boxes w) (set ps)"
    and n: "card (reach (w_boxes w) (set ps)) < Suc n" and e: "unat (st_executions_counter (w_state w)) + 1 < 2 ^ 64"
    and t: "trigger_ready w"
  shows "\<exists>w1 qs V. trigger_collection fl uc (Suc n) w = Done () w1 \<and> triggered ps w w1 \<and> gc_inv qs V w1 \<and> accounted V w1 \<and> settled W w V w1"
proof (cases "due w")
  case True
  from collect_and_adjust_ok [OF inv acc q n e t, of uc fl] obtain w' cf V where
    1: "thenM (collect uc (Suc n)) (adjust_trigger_point fl) w = Done () (w'\<lparr>w_config := cf\<rparr>)"
    "collected_world (garbage (w_boxes w) (set ps)) w w'" "config_adjusted w' cf" "gc_inv [] V w'" "accounted V w'" "settled W w V w'" by blast
  with True trigger_collection_eval [OF gc_invD(4) [OF inv], of fl uc "Suc n"] show ?thesis
    by (intro exI [of _ "w'\<lparr>w_config := cf\<rparr>"] exI [of _ "[]"] exI [of _ V]) (auto simp: triggered_def settled_def)
next
  case False
  with trigger_collection_eval [OF gc_invD(4) [OF inv], of fl uc "Suc n"] inv acc settled_refl [of W w] show ?thesis
    by (auto simp: triggered_def)
qed

lemma collected_world_dom:
  assumes c: "collected_world G w w'"
  shows "dom (w_boxes w') \<subseteq> dom (w_boxes w)"
proof
  fix p assume "p \<in> dom (w_boxes w')"
  then have p: "w_boxes w' p \<noteq> None" by blast
  then have "p \<notin> G" using c by (auto simp: collected_world_def)
  with c have "rel_option (survives (refs_from (w_boxes w) G p)) (w_boxes w p) (w_boxes w' p)"
    by (simp add: collected_world_def)
  with p show "p \<in> dom (w_boxes w)" by (cases "w_boxes w p") auto
qed

lemma triggered_rest:
  assumes "triggered ps w w1"
  shows "w_state_alive w1 = w_state_alive w" "w_pc_alive w1 = w_pc_alive w"
    "st_finalizing (w_state w1) = st_finalizing (w_state w)" "st_dropping (w_state w1) = st_dropping (w_state w)"
    "is_tracing (w_state w1) \<Longrightarrow> is_tracing (w_state w)" "dom (w_boxes w1) \<subseteq> dom (w_boxes w)"
    "unat (st_allocated_bytes (w_state w1)) \<le> unat (st_allocated_bytes (w_state w))" "metas_kept (w_meta w) (w_meta w1)"
proof -
  have "w_state_alive w1 = w_state_alive w \<and> w_pc_alive w1 = w_pc_alive w \<and>
    st_finalizing (w_state w1) = st_finalizing (w_state w) \<and> st_dropping (w_state w1) = st_dropping (w_state w) \<and>
    (is_tracing (w_state w1) \<longrightarrow> is_tracing (w_state w)) \<and> dom (w_boxes w1) \<subseteq> dom (w_boxes w) \<and>
    unat (st_allocated_bytes (w_state w1)) \<le> unat (st_allocated_bytes (w_state w)) \<and> metas_kept (w_meta w) (w_meta w1)"
  proof (cases "due w")
    case True
    with assms obtain w' cf where 1: "collected_world (garbage (w_boxes w) (set ps)) w w'" "w1 = w'\<lparr>w_config := cf\<rparr>"
      unfolding triggered_def by auto
    from collected_world_rest [OF 1(1)] collected_world_dom [OF 1(1)] show ?thesis by (simp add: 1(2) is_tracing_def)
  next
    case False
    with assms show ?thesis by (simp add: triggered_def)
  qed
  then show "w_state_alive w1 = w_state_alive w" "w_pc_alive w1 = w_pc_alive w"
    "st_finalizing (w_state w1) = st_finalizing (w_state w)" "st_dropping (w_state w1) = st_dropping (w_state w)"
    "is_tracing (w_state w1) \<Longrightarrow> is_tracing (w_state w)" "dom (w_boxes w1) \<subseteq> dom (w_boxes w)"
    "unat (st_allocated_bytes (w_state w1)) \<le> unat (st_allocated_bytes (w_state w))" "metas_kept (w_meta w) (w_meta w1)"
    by blast+
qed

end
