(* ===== verification/New_Box.thy ===== *)
theory New_Box
  imports Collect_Entry
begin

text \<open>
  \<open>Cc::new\<close>: it may run a collection, and then it adds a box to the memory. The new box is in no
  list and has a reference counter of one; the invariants of the collector hold again.
\<close>

definition fresh_box :: "usize \<Rightarrow> bool \<Rightarrow> tval option \<Rightarrow> ccbox" where
  "fresh_box layout fin t = \<lparr>b_next = None, b_prev = None, b_metadata = MetaVTable \<lparr>vt_size = layout\<rparr>,
     b_cm = new_with_counter_to_one fin, b_elem = t\<rparr>"

definition with_box :: "addr \<Rightarrow> usize \<Rightarrow> tval option \<Rightarrow> 'f world \<Rightarrow> 'f world" where
  "with_box p layout t w = w\<lparr>w_boxes := (w_boxes w)(p \<mapsto> fresh_box layout (st_finalizing (w_state w)) t),
     w_state := (w_state w)\<lparr>st_allocated_bytes := st_allocated_bytes (w_state w) + layout\<rparr>\<rparr>"

lemma ccbox_new_eval:
  assumes "unat (st_allocated_bytes (w_state w)) + unat layout < 2 ^ 64"
  shows "ccbox_new al layout t w = Done (al_box al (w_boxes w)) (with_box (al_box al (w_boxes w)) layout t w)"
  using assms by (simp add: ccbox_new_def cc_alloc_def on_state_def zoom_def record_allocation_eval bindM_def thenM_def
      with_box_def fresh_box_def)

lemma ccbox_new_overflow:
  assumes "2 ^ 64 \<le> unat (st_allocated_bytes (w_state w)) + unat layout"
  shows "ccbox_new al layout t w = Panicked ArithOverflow w"
  using assms by (simp add: ccbox_new_def cc_alloc_def on_state_def zoom_def record_allocation_eval bindM_def thenM_def)

lemma fresh_box_view [simp]:
  "view (b_cm (fresh_box layout fin t)) = \<lparr>v_mark = NonMarked, v_tc = 1, v_meta = False, v_fin = fin, v_rc = 1\<rparr>"
  "b_metadata (fresh_box layout fin t) = MetaVTable \<lparr>vt_size = layout\<rparr>" "b_elem (fresh_box layout fin t) = t"
  "b_next (fresh_box layout fin t) = None" "b_prev (fresh_box layout fin t) = None"
  by (simp_all add: fresh_box_def view_new)

lemma with_box_sel [simp]:
  "w_boxes (with_box p layout t w) = (w_boxes w)(p \<mapsto> fresh_box layout (st_finalizing (w_state w)) t)"
  "w_meta (with_box p layout t w) = w_meta w" "w_pc (with_box p layout t w) = w_pc w"
  "w_state_alive (with_box p layout t w) = w_state_alive w" "w_pc_alive (with_box p layout t w) = w_pc_alive w"
  "st_collecting (w_state (with_box p layout t w)) = st_collecting (w_state w)"
  "st_finalizing (w_state (with_box p layout t w)) = st_finalizing (w_state w)"
  "st_dropping (w_state (with_box p layout t w)) = st_dropping (w_state w)"
  "st_allocated_bytes (w_state (with_box p layout t w)) = st_allocated_bytes (w_state w) + layout"
  by (simp_all add: with_box_def)

subsection \<open>The invariants\<close>

lemma with_box_buffered:
  assumes buf: "buffered ps w" and new: "w_boxes w p = None"
  shows "buffered ps (with_box p layout t w)"
proof -
  have out: "p \<notin> set ps" using repr_live [OF buffered_repr [OF buf], of p] new by auto
  let ?h = "w_boxes (with_box p layout t w)"
  have l: "links ?h q = links (w_boxes w) q" if "q \<noteq> p" for q using that by (simp add: links_def)
  have lp: "links ?h p = Some (None, None)" by (simp add: links_def)
  have "pc_repr (w_pc w) ?h ps"
    by (rule pc_repr_cong [OF buffered_repr [OF buf]]) (use out l in metis)
  moreover have "isolated ?h q" if "w_boxes w q = Some b" "q \<noteq> p" "v_mark (view (b_cm b)) = NonMarked" for q b
    using buffered_isolated [OF buf that(1,3)] l [OF that(2)] by (simp add: isolated_def)
  moreover have "isolated ?h p" using lp by (simp add: isolated_def)
  ultimately show ?thesis
    using out buffered_mark [OF buf] by (auto simp: buffered_def split: if_splits)
qed

lemma with_box_weak:
  assumes inv: "weak_inv W w" and new: "w_boxes w p = None"
  shows "weak_inv W (with_box p layout t w)"
proof -
  have own: "owner (with_box p layout t w) = owner w" using new by (intro ext) (auto simp: owner_def)
  have "union_ok (with_box p layout t w)" using weak_invD(1) [OF inv] by (auto simp: union_ok_def)
  with inv show ?thesis unfolding weak_inv_def own by simp
qed

lemma with_box_graph:
  assumes t: "traceable (w_boxes w) A" and new: "w_boxes w p = None"
  shows "same_graph (reach (w_boxes w) A) (w_boxes w) (w_boxes (with_box p layout v w))" "p \<notin> reach (w_boxes w) A"
    "reach (w_boxes (with_box p layout v w)) A = reach (w_boxes w) A"
    "traceable (w_boxes (with_box p layout v w)) A"
proof -
  show np: "p \<notin> reach (w_boxes w) A" using traceableD(2) [OF t, of p] new by auto
  show s: "same_graph (reach (w_boxes w) A) (w_boxes w) (w_boxes (with_box p layout v w))"
    using np by (auto simp: same_graph_def targets_def calls_of_def rc_of_def)
  show "reach (w_boxes (with_box p layout v w)) A = reach (w_boxes w) A" by (rule garbage_cong(1) [OF s])
  show "traceable (w_boxes (with_box p layout v w)) A"
    by (rule traceable_cong [OF t s]) (use np t in \<open>auto simp: traceable_def\<close>)
qed

lemma with_box_gc_inv:
  assumes inv: "gc_inv ps W w" and new: "w_boxes w p = None" and n: "card (dom (w_boxes w)) + 1 < 2 ^ 64"
  shows "gc_inv ps W (with_box p layout t w)"
proof -
  note d = gc_invD [OF inv]
  note g = with_box_graph [OF d(7) new]
  have dom: "dom (w_boxes (with_box p layout t w)) = insert p (dom (w_boxes w))" by auto
  have "card (dom (w_boxes (with_box p layout t w))) < 2 ^ 64"
    using d(5) new n unfolding dom by (simp add: domIff)
  moreover have "tc_of (w_boxes (with_box p layout t w)) q < 16383" if "q \<in> reach (w_boxes w) (set ps)" for q
    using d(9) [OF that] that g(2) by (auto simp: tc_of_def)
  moreover have "tc_of (w_boxes (with_box p layout t w)) q = 0" if "q \<in> set ps" for q
    using d(10) [OF that] reach_start [OF that] g(2) by (auto simp: tc_of_def)
  moreover have "\<not> in_collector b" if "w_boxes (with_box p layout t w) q = Some b" for q b
    using that d(8) [of q b] by (auto simp: in_collector_def split: if_splits)
  ultimately show ?thesis
    using with_box_buffered [OF d(1) new] with_box_weak [OF d(2) new] d(3,4,5) g(3,4)
    unfolding gc_inv_def dom by simp
qed

text \<open>The weak pointers that a value holds, which are among those that are counted.\<close>

definition weaks_of :: "tval option \<Rightarrow> weak_ptr multiset" where
  "weaks_of t = (case t of None \<Rightarrow> {#} | Some v \<Rightarrow> mset (dropped_weaks (drop_glue v)))"

lemma weaks_of_simps [simp]: "weaks_of None = {#}" "weaks_of (Some v) = mset (dropped_weaks (drop_glue v))"
  by (simp_all add: weaks_of_def)

lemma accounted_weaks: "accounted W w \<Longrightarrow> weaks_in (w_boxes w) \<subseteq># W"
  by (simp add: accounted_def weaks_in_def)

lemma with_box_accounted:
  assumes acc: "accounted W w" and fin: "finite (dom (w_boxes w))" and new: "w_boxes w p = None"
    and n: "unat (st_allocated_bytes (w_state w)) + unat layout < 2 ^ 64"
    and v: "weaks_of t + weaks_in (w_boxes w) \<subseteq># W"
  shows "accounted W (with_box p layout t w)"
proof -
  let ?w = "with_box p layout t w"
  have dom: "dom (w_boxes ?w) = insert p (dom (w_boxes w))" by auto
  have np: "p \<notin> dom (w_boxes w)" using new by auto
  have s: "size_of ?w q = size_of w q" "glue_of (w_boxes ?w) q = glue_of (w_boxes w) q" if "q \<noteq> p" for q
    using that unfolding size_of_def glue_of_def by (simp_all only: with_box_sel fun_upd_other if_False not_False_eq_True)
  have sp: "size_of ?w p = unat layout" by (simp add: size_of_def)
  have gp: "mset (dropped_weaks (glue_of (w_boxes ?w) p)) = weaks_of t" by (simp add: glue_of_def split: option.splits)
  have "(\<Sum>q \<in> dom (w_boxes ?w). size_of ?w q) = unat layout + (\<Sum>q \<in> dom (w_boxes w). size_of ?w q)"
    using fin np sp unfolding dom by simp
  also have "(\<Sum>q \<in> dom (w_boxes w). size_of ?w q) = (\<Sum>q \<in> dom (w_boxes w). size_of w q)"
    by (rule sum.cong [OF refl], rule s(1)) (use np in blast)
  also have "\<dots> = unat (st_allocated_bytes (w_state w))" using acc by (simp add: accounted_def)
  finally have 1: "(\<Sum>q \<in> dom (w_boxes ?w). size_of ?w q) = unat (st_allocated_bytes (w_state ?w))"
    unfolding with_box_sel(9) using n by (simp only: unat_word_ariths) simp
  have "weaks_in (w_boxes ?w) = weaks_of t + (\<Sum>q \<in> dom (w_boxes w). mset (dropped_weaks (glue_of (w_boxes ?w) q)))"
    using fin np gp unfolding weaks_in_def dom by simp
  also have "(\<Sum>q \<in> dom (w_boxes w). mset (dropped_weaks (glue_of (w_boxes ?w) q))) = weaks_in (w_boxes w)"
    unfolding weaks_in_def by (rule sum.cong [OF refl]) (use np s(2) in metis)
  finally have "weaks_in (w_boxes ?w) \<subseteq># W" using v by (simp only:)
  with 1 show ?thesis unfolding accounted_def weaks_in_def by blast
qed

subsection \<open>Cc::new\<close>

text \<open>
  What \<open>Cc::new\<close> adds after the collection that it may have run, for a value or for the
  uninitialised wrapper of \<open>new_cyclic\<close>.
\<close>

lemma cc_new_run:
  assumes inv: "gc_inv ps W w" and acc: "accounted W w" and q: "quiet (w_boxes w) (set ps)"
    and n: "card (reach (w_boxes w) (set ps)) < Suc n" and e: "unat (st_executions_counter (w_state w)) + 1 < 2 ^ 64"
    and t: "trigger_ready w" and idle: "\<not> is_tracing (w_state w)" and al: "fresh_allocator al"
    and room: "card (dom (w_boxes w)) + 1 < 2 ^ 64" "unat (st_allocated_bytes (w_state w)) + unat layout < 2 ^ 64"
  shows "\<exists>w1 p qs V. cc_new fl uc (Suc n) al layout x w = Done p (with_box p layout x w1) \<and> triggered ps w w1 \<and>
    w_boxes w1 p = None \<and> unat (st_allocated_bytes (w_state w1)) + unat layout < 2 ^ 64 \<and>
    gc_inv qs V w1 \<and> gc_inv qs V (with_box p layout x w1) \<and> accounted V w1 \<and> settled W w V w1"
proof -
  from trigger_collection_ok [OF inv acc q n e t, of fl uc] obtain w1 qs V where
    1: "trigger_collection fl uc (Suc n) w = Done () w1" "triggered ps w w1" "gc_inv qs V w1" "accounted V w1" "settled W w V w1" by blast
  note r = triggered_rest [OF 1(2)]
  define p where "p = al_box al (w_boxes w1)"
  have new: "w_boxes w1 p = None" using al gc_invD(5) [OF 1(3)] by (simp add: fresh_allocator_def p_def)
  have bytes: "unat (st_allocated_bytes (w_state w1)) + unat layout < 2 ^ 64" using room(2) r(7) by simp
  have "card (dom (w_boxes w1)) + 1 < 2 ^ 64"
    using room(1) card_mono [OF gc_invD(5) [OF inv] r(6)] by simp
  then have "gc_inv qs V (with_box p layout x w1)" by (rule with_box_gc_inv [OF 1(3) new])
  moreover have "cc_new fl uc (Suc n) al layout x w = Done p (with_box p layout x w1)"
    using ccbox_new_eval [OF bytes, of al x] 1(1) idle gc_invD(3) [OF inv]
    by (simp add: cc_new_def with_state_def bindM_def thenM_def p_def)
  ultimately show ?thesis using 1(2-5) new bytes by blast
qed

lemma cc_new_ok:
  assumes inv: "gc_inv ps W w" and acc: "accounted W w" and q: "quiet (w_boxes w) (set ps)"
    and n: "card (reach (w_boxes w) (set ps)) < Suc n" and e: "unat (st_executions_counter (w_state w)) + 1 < 2 ^ 64"
    and t: "trigger_ready w" and idle: "\<not> is_tracing (w_state w)" and al: "fresh_allocator al"
    and room: "card (dom (w_boxes w)) + 1 < 2 ^ 64" "unat (st_allocated_bytes (w_state w)) + unat layout < 2 ^ 64"
    and v: "weaks_of x + weaks_in (w_boxes w) \<subseteq># W"
  shows "\<exists>w1 p qs V. cc_new fl uc (Suc n) al layout x w = Done p (with_box p layout x w1) \<and> triggered ps w w1 \<and>
    w_boxes w1 p = None \<and> gc_inv qs V w1 \<and> gc_inv qs V (with_box p layout x w1) \<and> accounted V (with_box p layout x w1)"
proof -
  from cc_new_run [OF inv acc q n e t idle al room, of fl uc x] obtain w1 p qs V where
    1: "cc_new fl uc (Suc n) al layout x w = Done p (with_box p layout x w1)" "triggered ps w w1" "w_boxes w1 p = None"
    "unat (st_allocated_bytes (w_state w1)) + unat layout < 2 ^ 64" "gc_inv qs V w1"
    "gc_inv qs V (with_box p layout x w1)" "accounted V w1" "settled W w V w1" by blast
  from with_box_accounted [OF 1(7) gc_invD(5) [OF 1(5)] 1(3,4) settled_counts [OF 1(8) v]] 1 show ?thesis by blast
qed

text \<open>While the collector traces, \<open>Cc::new\<close> panics and drops the value.\<close>

lemma cc_new_tracing:
  assumes "w_state_alive w" "is_tracing (w_state w)" "drop_seq (drop_one uc fuel) (drop_glue v) w = Done () w'"
  shows "cc_new fl uc fuel al layout (Some v) w = Panicked (PanicMsg ''Cannot create a new Cc while tracing!'') w'"
  using assms by (simp add: cc_new_def drop_arg_def with_state_def bindM_def on_unwind_def)

end
