(* ===== verification/Last_Drop.thy ===== *)
theory Last_Drop
  imports Dealloc
begin

text \<open>
  Dropping the last \<open>Cc\<close> to a box: the element is finalized if it has not been, its parts are
  dropped, the metadata is released and the box is freed. The finalizer has no code here, and none
  of the parts is itself the last reference to its box.
\<close>

lemma remove_from_list_inv:
  assumes inv: "drop_inv N ps W w" and p: "w_boxes w p = Some b"
  shows "\<exists>w'. remove_from_list p w = Done () w' \<and> drop_inv N (remove1 p ps) W w' \<and> lowered N (\<lambda>_. 0) w w'"
proof (cases "p \<in> set ps")
  case False
  with remove_from_list_noop [OF drop_invD(1) [OF inv] False p] inv lowered_refl show ?thesis
    by (intro exI [of _ w]) (simp add: remove1_idem)
next
  case True
  note d = drop_invD [OF inv]
  from d(3) have alive: "w_pc_alive w" by (simp add: calm_def)
  from remove_from_list_ok [OF d(1) p True alive] obtain w' b' where
    1: "remove_from_list p w = Done () w'" "buffered (remove1 p ps) w'" "same_but_buffer w w'"
    "w_boxes w' p = Some b'" "view (b_cm b') = (view (b_cm b))\<lparr>v_mark := NonMarked\<rparr>"
    "\<And>q. q \<noteq> p \<Longrightarrow> map_option payload (w_boxes w' q) = map_option payload (w_boxes w q)"
    "\<And>q. q \<notin> set ps \<Longrightarrow> w_boxes w' q = w_boxes w q" by blast
  have unb: "map_option unbuffered_part (w_boxes w' q) = map_option unbuffered_part (w_boxes w q)" for q
    using 1(3) by (simp add: same_but_buffer_def)
  have eq: "w' = w\<lparr>w_boxes := w_boxes w', w_pc := w_pc w'\<rparr>" using 1(3) by (simp add: same_but_buffer_def)
  have mem: "q \<in> dom (w_boxes w') \<longleftrightarrow> q \<in> dom (w_boxes w)" for q
    using unb [of q] by (cases "w_boxes w q"; cases "w_boxes w' q") auto
  have dom: "dom (w_boxes w') = dom (w_boxes w)" using mem by (rule set_eqI)
  have N: "q \<in> N \<Longrightarrow> q \<notin> set ps" for q
    using d(6) buffered_mark [OF d(1)] repr_live [OF buffered_repr [OF d(1)]] by (fastforce simp: in_collector_def)
  have col: "(in_collector c \<longleftrightarrow> q \<in> N) \<and> (q \<in> set (remove1 p ps) \<longrightarrow> v_tc (view (b_cm c)) = 0)" if c: "w_boxes w' q = Some c" for q c
  proof (cases "q = p")
    case True
    have "p \<notin> N" using N \<open>p \<in> set ps\<close> by blast
    moreover have "p \<notin> set (remove1 p ps)" using buffered_repr [OF d(1)] by (auto simp: pc_repr_def)
    ultimately show ?thesis using True c 1(4,5) by (simp add: in_collector_def)
  next
    case False
    from 1(6) [OF False] c have "map_option payload (w_boxes w q) = Some (payload c)" by simp
    then obtain e where e: "w_boxes w q = Some e" "payload e = payload c" by auto
    with d(6,7) [OF e(1)] False show ?thesis by (auto simp: payload_def in_collector_def dest: notin_set_remove1)
  qed
  have "calm w'" using d(3) by (subst eq) (simp add: calm_def)
  with d(4,5) dom 1(2) weak_inv_buffer [OF d(2) 1(3)] col have "drop_inv N (remove1 p ps) W w'"
    by (simp add: drop_inv_def)
  moreover have "rel_option (box_lowered 0) (w_boxes w q) (w_boxes w' q)" for q
  proof (cases "q = p")
    case True
    with unb [of p] p 1(4,5) show ?thesis by (auto simp: box_lowered_def unbuffered_part_def)
  next
    case False
    with 1(6) have "map_option payload (w_boxes w' q) = map_option payload (w_boxes w q)" by blast
    then show ?thesis by (cases "w_boxes w q"; cases "w_boxes w' q") (auto simp: box_lowered_def payload_def)
  qed
  moreover have "\<exists>h l M. w' = w\<lparr>w_boxes := h, w_pc := l, w_meta := M\<rparr>"
    by (intro exI [of _ "w_boxes w'"] exI [of _ "w_pc w'"] exI [of _ "w_meta w"]) (subst (1) eq, simp)
  moreover have "metas_kept (w_meta w) (w_meta w')" by (subst eq) simp
  moreover have "map_option list_part (w_boxes w' q) = map_option list_part (w_boxes w q)" if "q \<in> N" for q
    using 1(7) [OF N [OF that]] by simp
  ultimately show ?thesis using 1(1) by (auto simp: lowered_def)
qed

subsection \<open>The end of a box\<close>

text \<open>The part of \<open>Cc::drop\<close> that runs once the counter has reached zero.\<close>

definition destroy_box :: "'f user_code \<Rightarrow> nat \<Rightarrow> addr \<Rightarrow> ('f, unit) gc" where
  "destroy_box uc n p = with_field FieldDropping True (bindM (box_layout p) (\<lambda>layout.
     thenM (drop_marked uc n p) (thenM (drop_metadata p) (cc_dealloc p layout))))"

definition destroyed_box :: "addr \<Rightarrow> drop_call list \<Rightarrow> 'f world \<Rightarrow> 'f world \<Rightarrow> bool" where
  "destroyed_box p ds w w' \<longleftrightarrow> w_boxes w' p = None \<and>
     (\<forall>q. q \<noteq> p \<longrightarrow> rel_option (box_lowered (count_list (dropped_ccs ds) q)) (w_boxes w q) (w_boxes w' q)) \<and>
     (\<exists>h l M a. w' = w\<lparr>w_boxes := h, w_pc := l, w_meta := M, w_state := (w_state w)\<lparr>st_allocated_bytes := a\<rparr>\<rparr>
       \<and> unat a + size_of w p = unat (st_allocated_bytes (w_state w)))"

lemma drop_inv_state:
  "drop_inv N ps W w \<Longrightarrow> \<not> is_tracing s \<Longrightarrow> drop_inv N ps W (w\<lparr>w_state := s\<rparr>)"
  using weak_inv_cong [of W w "w\<lparr>w_state := s\<rparr>"] by (simp add: drop_inv_def buffered_def calm_def)

lemma destroy_box_ok:
  assumes inv: "drop_inv {} ps W w" and p: "w_boxes w p = Some b" "b_elem b = Some v" "p \<notin> set ps"
    and out: "p \<notin> set (dropped_ccs (drop_glue v))" and c: "covered {} W (drop_glue v) w"
    and bytes: "size_of w p \<le> unat (st_allocated_bytes (w_state w))"
  shows "\<exists>w' qs. destroy_box uc (Suc n) p w = Done () w' \<and> drop_inv {} qs (W - mset (dropped_weaks (drop_glue v))) w' \<and>
    destroyed_box p (drop_glue v) w w' \<and> set qs = set ps \<union> set (dropped_ccs (drop_glue v)) \<and>
    (\<forall>k \<in># W - mset (dropped_weaks (drop_glue v)). wk_cc k = p \<longrightarrow> \<not> upgradable k w')"
proof -
  let ?w0 = "w\<lparr>w_state := field_set FieldDropping True (w_state w)\<rparr>" and ?ds = "drop_glue v"
  have inv0: "drop_inv {} ps W ?w0" by (rule drop_inv_state [OF inv]) (simp add: is_tracing_def set_dropping_def)
  have b0: "w_boxes ?w0 p = Some b" using p by simp
  from box_layout_ok [OF drop_invD(2) [OF inv0] b0] obtain l where
    l: "box_layout p ?w0 = Done l ?w0" "unat l = size_of ?w0 p" by blast
  have s0: "size_of ?w0 p = size_of w p" using p by (simp add: size_of_def split: metadata.splits option.splits)
  have c0: "covered {} W ?ds ?w0" using c by (simp add: covered_def)
  from drop_marked_gen [OF inv0 b0 p(2,3) disjI2 [OF out] c0, of uc n] obtain w1 qs where
    1: "drop_marked uc (Suc n) p ?w0 = Done () w1" "drop_inv {} qs (W - mset (dropped_weaks ?ds)) w1"
    "lowered {} (count_list (dropped_ccs ?ds)) (gone_world p ?w0) w1" "set qs = set ps \<union> set (dropped_ccs ?ds)" by auto
  from 1(3) obtain h k M where w1: "w1 = (gone_world p ?w0)\<lparr>w_boxes := h, w_pc := k, w_meta := M\<rparr>"
    unfolding lowered_def by blast
  have "w_boxes (gone_world p ?w0) p = Some (b\<lparr>b_cm := set_dropped True (b_cm b), b_elem := None\<rparr>)" using p by simp
  from loweredD [OF 1(3) this] obtain b1 where b1: "w_boxes w1 p = Some b1" by blast
  have bytes1: "unat l \<le> unat (st_allocated_bytes (w_state w1))"
    using l(2) s0 bytes by (simp add: w1 set_dropping_def)
  from free_box_ok [OF drop_invD(2) [OF 1(2)] b1 bytes1] obtain M2 w2 where
    2: "thenM (drop_metadata p) (cc_dealloc p l) w1 = Done () w2" "weak_inv (W - mset (dropped_weaks ?ds)) w2"
    "w2 = w1\<lparr>w_meta := M2, w_state := (w_state w1)\<lparr>st_allocated_bytes := st_allocated_bytes (w_state w1) - l\<rparr>,
       w_boxes := (w_boxes w1)(p := None)\<rparr>" "metas_kept (w_meta w1) M2"
    "\<forall>k \<in># W - mset (dropped_weaks ?ds). wk_cc k = p \<longrightarrow> \<not> upgradable k w2" by blast
  let ?w' = "w2\<lparr>w_state := field_set FieldDropping (field_get FieldDropping (w_state w)) (w_state w2)\<rparr>"
  have run: "destroy_box uc (Suc n) p w = Done () ?w'"
    unfolding destroy_box_def by (rule with_field_Done) (use l(1) 1(1) 2(1) in simp)
  have st: "w_state ?w' = (w_state w)\<lparr>st_allocated_bytes := st_allocated_bytes (w_state w) - l\<rparr>"
    using dropping_restored [of "w_state w"] by (simp add: 2(3) w1 set_dropping_def)
  have outq: "p \<notin> set qs" using 1(4) p(3) out by simp
  have boxes: "w_boxes ?w' = (\<lambda>q. if q \<in> {p} then None else w_boxes w1 q)" by (auto simp: 2(3))
  note d1 = drop_invD [OF 1(2)]
  have alive: "w_state_alive ?w' = w_state_alive w" "w_pc_alive ?w' = w_pc_alive w" "w_pc ?w' = w_pc w1"
    by (simp_all add: 2(3) w1)
  have "drop_inv {} qs (W - mset (dropped_weaks ?ds)) ?w'"
    unfolding drop_inv_def
  proof (intro conjI allI impI)
    show "buffered qs ?w'" by (rule buffered_free [OF d1(1) _ boxes alive(3)]) (use outq in simp)
    show "weak_inv (W - mset (dropped_weaks ?ds)) ?w'" by (rule weak_inv_cong [OF 2(2)]) simp_all
    show "calm ?w'" using drop_invD(3) [OF inv] alive(1,2) st by (simp add: calm_def is_tracing_def)
    have sub: "dom (w_boxes ?w') \<subseteq> dom (w_boxes w1)" unfolding boxes by (auto split: if_splits)
    show "finite (dom (w_boxes ?w'))" by (rule finite_subset [OF sub d1(4)])
    show "card (dom (w_boxes ?w')) < 2 ^ 64" using card_mono [OF d1(4) sub] d1(5) by simp
    fix q e assume "w_boxes ?w' q = Some e"
    then have e: "w_boxes w1 q = Some e" unfolding boxes by (simp split: if_splits)
    show "in_collector e \<longleftrightarrow> q \<in> {}" using d1(6) [OF e] by simp
    show "v_tc (view (b_cm e)) = 0" if "q \<in> set qs" by (rule d1(7) [OF e that])
  qed
  moreover have "destroyed_box p ?ds w ?w'"
    unfolding destroyed_box_def
  proof (intro conjI allI impI)
    show "w_boxes ?w' p = None" unfolding boxes by simp
    show "rel_option (box_lowered (count_list (dropped_ccs ?ds) q)) (w_boxes w q) (w_boxes ?w' q)" if q: "q \<noteq> p" for q
    proof -
      have "rel_option (box_lowered (count_list (dropped_ccs ?ds) q)) (w_boxes (gone_world p ?w0) q) (w_boxes w1 q)"
        using 1(3) unfolding lowered_def by blast
      then show ?thesis using q unfolding boxes by simp
    qed
    let ?a = "st_allocated_bytes (w_state w) - l"
    have "unat ?a + size_of w p = unat (st_allocated_bytes (w_state w))"
      using bytes l(2) s0 by (simp add: unat_sub word_le_nat_alt)
    moreover have "?w' = w\<lparr>w_boxes := w_boxes ?w', w_pc := k, w_meta := M2, w_state := (w_state w)\<lparr>st_allocated_bytes := ?a\<rparr>\<rparr>"
      using st by (simp add: 2(3) w1)
    ultimately show "\<exists>h l M a. ?w' = w\<lparr>w_boxes := h, w_pc := l, w_meta := M, w_state := (w_state w)\<lparr>st_allocated_bytes := a\<rparr>\<rparr>
       \<and> unat a + size_of w p = unat (st_allocated_bytes (w_state w))"
      by (intro exI [of _ "w_boxes ?w'"] exI [of _ k] exI [of _ M2] exI [of _ ?a]) simp
  qed
  moreover have "\<not> upgradable k ?w'" if "k \<in># W - mset (dropped_weaks ?ds)" "wk_cc k = p" for k
    using that boxes by (simp add: upgradable_def split: option.splits)
  ultimately show ?thesis using run 1(4) by blast
qed

subsection \<open>The whole destructor\<close>

lemma thenM_assoc: "thenM (thenM a b) c = thenM a (thenM b c)"
  by (rule ext) (simp add: thenM_def bindM_def split: outcome.split)

lemma cc_drop_last_eval:
  assumes p: "w_boxes w p = Some b" "v_rc (view (b_cm b)) = 1" "b_elem b = Some v" "finalize_val v = []" "\<not> in_collector b"
    and calm: "calm w"
  defines "w1 \<equiv> w\<lparr>w_boxes := upd p (\<lambda>b. b\<lparr>b_cm := rc_minus_one (set_finalized True (b_cm b))\<rparr>) (w_boxes w)\<rparr>"
  shows "cc_drop uc (Suc n) p w = thenM (remove_from_list p) (destroy_box uc n p) w1"
proof -
  let ?f = "w\<lparr>w_boxes := upd p (\<lambda>b. b\<lparr>b_cm := set_finalized True (b_cm b)\<rparr>) (w_boxes w)\<rparr>"
  have tests: "on_boxes (cm_test p f) w = Done (f (b_cm b)) w" for f using p by (simp add: on_boxes_def zoom_def)
  have cnt: "on_boxes (on_cm p counter) w = Done 1 w"
    using on_cm_read [of "w_boxes w" p b counter] p by (simp add: on_boxes_def zoom_def)
  have fp: "w_boxes ?f p = Some (b\<lparr>b_cm := set_finalized True (b_cm b)\<rparr>)" using p by simp
  have fin: "(if needs_finalization (b_cm b) then
              with_field FieldFinalizing True
                (thenM (on_boxes (on_cm p (modifyM (set_finalized True))))
                (thenM (run_finalizer uc p)
                (bindM (on_boxes (on_cm p counter)) (\<lambda>c2.
                 if c2 \<noteq> 1 then thenM (handle_possible_cycle p) (ret True) else ret False))))
            else ret False) w = Done False ?f"
  proof (cases "v_fin (view (b_cm b))")
    case True
    then have "?f = w" using p(1) set_finalized_again by (simp add: upd_id)
    with True show ?thesis by (simp add: cm_tests)
  next
    case False
    let ?g = "?f\<lparr>w_state := field_set FieldFinalizing True (w_state w)\<rparr>"
    let ?v = "w\<lparr>w_state := field_set FieldFinalizing True (w_state w)\<rparr>"
    have "upd p (\<lambda>c. c\<lparr>b_cm := set_finalized True (b_cm b)\<rparr>) (w_boxes w) = upd p (\<lambda>b. b\<lparr>b_cm := set_finalized True (b_cm b)\<rparr>) (w_boxes w)"
      using p(1) by (intro ext) (simp add: upd_apply)
    then have 1: "on_boxes (on_cm p (modifyM (set_finalized True))) ?v = Done () ?g"
      using on_cm_Done [of "w_boxes w" p b "modifyM (set_finalized True)"] p(1) by (simp add: on_boxes_def zoom_def)
    have 2: "run_finalizer uc p ?g = Done () ?g"
      using p(1,3,4) by (simp add: run_finalizer_def get_elem_def on_boxes_def zoom_def bindM_def)
    have 3: "on_boxes (on_cm p counter) ?g = Done 1 ?g"
      using on_cm_read [of "w_boxes ?f" p "b\<lparr>b_cm := set_finalized True (b_cm b)\<rparr>" counter] fp p(2)
      by (simp add: on_boxes_def zoom_def cm_upd)
    have "with_field FieldFinalizing True (thenM (on_boxes (on_cm p (modifyM (set_finalized True))))
                (thenM (run_finalizer uc p)
                (bindM (on_boxes (on_cm p counter)) (\<lambda>c2.
                 if c2 \<noteq> 1 then thenM (handle_possible_cycle p) (ret True) else ret False)))) w
      = Done False (?g\<lparr>w_state := field_set FieldFinalizing (field_get FieldFinalizing (w_state w)) (w_state ?g)\<rparr>)"
      by (rule with_field_Done) (use 1 2 3 in simp)
    moreover have "?g\<lparr>w_state := field_set FieldFinalizing (field_get FieldFinalizing (w_state w)) (w_state ?g)\<rparr> = ?f"
      by (cases w) (simp add: set_finalizing_def)
    ultimately show ?thesis using False by (simp add: cm_tests)
  qed
  have dec: "decrement_rc p ?f = Done () w1"
  proof -
    have "dec_world p ?f = w1" unfolding w1_def by simp
    moreover have "decrement_rc p ?f = Done () (dec_world p ?f)" by (rule decrement_rc_ok [OF fp]) (use p(2) in \<open>simp_all add: cm_upd\<close>)
    ultimately show ?thesis by simp
  qed
  have one: "drop_by uc (cc_drop uc n) = drop_one uc n" by (simp add: drop_one_def)
  have "cc_drop uc (Suc n) p w = thenM (remove_from_list p)
      (with_field FieldDropping True (bindM (box_layout p) (\<lambda>layout.
              thenM (on_boxes (on_cm p (modifyM (set_dropped True))))
             (thenM (drop_elem (drop_one uc n) p)
             (thenM (drop_metadata p) (cc_dealloc p layout)))))) w1"
    using calm tests [of is_in_list_or_queue] tests [of needs_finalization] cnt fin dec p(5)
    unfolding cc_drop.simps one by (simp add: in_collector_def cm_tests with_state_def calm_def bindM_def)
  then show ?thesis unfolding destroy_box_def drop_marked_def thenM_assoc .
qed

lemma cc_drop_last:
  assumes inv: "drop_inv {} ps W w" and p: "w_boxes w p = Some b" "v_rc (view (b_cm b)) = 1" "b_elem b = Some v"
    and fin: "finalize_val v = []" and c: "covered {} W (drop_glue v) w" "p \<notin> set (dropped_ccs (drop_glue v))"
    and bytes: "size_of w p \<le> unat (st_allocated_bytes (w_state w))"
  shows "\<exists>w' qs. cc_drop uc (Suc (Suc n)) p w = Done () w' \<and> drop_inv {} qs (W - mset (dropped_weaks (drop_glue v))) w' \<and>
    destroyed_box p (drop_glue v) w w' \<and> set qs = set ps - {p} \<union> set (dropped_ccs (drop_glue v)) \<and>
    (\<forall>k \<in># W - mset (dropped_weaks (drop_glue v)). wk_cc k = p \<longrightarrow> \<not> upgradable k w')"
proof -
  let ?g = "\<lambda>b. b\<lparr>b_cm := rc_minus_one (set_finalized True (b_cm b))\<rparr>" and ?ds = "drop_glue v"
  let ?w1 = "w\<lparr>w_boxes := upd p ?g (w_boxes w)\<rparr>"
  have nc: "\<not> in_collector b" using drop_invD(6) [OF inv p(1)] by simp
  have inv1: "drop_inv {} ps W ?w1"
    by (rule drop_inv_upd [OF inv]) (use p(1,2) in \<open>simp add: cm_upd box_meta_def\<close>)
  have b1: "w_boxes ?w1 p = Some (?g b)" using p(1) by simp
  from remove_from_list_inv [OF inv1 b1] obtain w2 where
    2: "remove_from_list p ?w1 = Done () w2" "drop_inv {} (remove1 p ps) W w2" "lowered {} (\<lambda>_. 0) ?w1 w2" by blast
  from loweredD [OF 2(3) b1] obtain b2 where b2: "w_boxes w2 p = Some b2" "box_lowered 0 (?g b) b2" by blast
  from 2(3) obtain h k M where w2: "w2 = ?w1\<lparr>w_boxes := h, w_pc := k, w_meta := M\<rparr>" and kept: "metas_kept (w_meta w) (w_meta w2)"
    unfolding lowered_def by auto
  have other: "rel_option (box_lowered 0) (w_boxes w q) (w_boxes w2 q)" if "q \<noteq> p" for q
  proof -
    from 2(3) have "rel_option (box_lowered 0) (w_boxes ?w1 q) (w_boxes w2 q)" unfolding lowered_def by blast
    with that show ?thesis by simp
  qed
  have size: "size_of w2 p = size_of w p"
    by (rule size_of_kept [OF drop_invD(2) [OF 2(2)] kept p(1) b2(1)])
      (use b2(2) p(2) in \<open>simp add: box_lowered_def box_meta_def cm_upd\<close>)
  have c2: "covered {} W ?ds w2"
    unfolding covered_def
  proof (intro conjI ballI)
    show "plain_glue ?ds" "mset (dropped_weaks ?ds) \<subseteq># W" using c(1) by (simp_all add: covered_def)
    fix q assume q: "q \<in> set (dropped_ccs ?ds)"
    then have "q \<noteq> p" using c(2) by blast
    from coveredD [OF c(1) q] obtain e where e: "w_boxes w q = Some e" "v_rc (view (b_cm e)) < 16383"
      "count_list (dropped_ccs ?ds) q < v_rc (view (b_cm e))" "v_tc (view (b_cm e)) < 16383" by auto
    from other [OF \<open>q \<noteq> p\<close>] e show "\<exists>b. w_boxes w2 q = Some b \<and> v_rc (view (b_cm b)) < 16383 \<and>
        (if q \<in> {} then count_list (dropped_ccs ?ds) q \<le> v_rc (view (b_cm b))
         else count_list (dropped_ccs ?ds) q < v_rc (view (b_cm b)) \<and> v_tc (view (b_cm b)) < 16383)"
      by (auto simp: option_rel_Some1 box_lowered_def)
  qed
  have elem: "b_elem b2 = Some v" using b2(2) p(3) by (simp add: box_lowered_def)
  have np: "p \<notin> set (remove1 p ps)"
    using buffered_repr [OF drop_invD(1) [OF inv]] by (auto simp: pc_repr_def)
  have bytes2: "size_of w2 p \<le> unat (st_allocated_bytes (w_state w2))" using bytes size by (simp add: w2)
  from destroy_box_ok [OF 2(2) b2(1) elem np c(2) c2 bytes2, of uc n] obtain w' qs where
    3: "destroy_box uc (Suc n) p w2 = Done () w'" "drop_inv {} qs (W - mset (dropped_weaks ?ds)) w'"
    "destroyed_box p ?ds w2 w'" "set qs = set (remove1 p ps) \<union> set (dropped_ccs ?ds)"
    "\<forall>k \<in># W - mset (dropped_weaks ?ds). wk_cc k = p \<longrightarrow> \<not> upgradable k w'" by blast
  have "cc_drop uc (Suc (Suc n)) p w = Done () w'"
    using cc_drop_last_eval [OF p(1,2,3) fin nc drop_invD(3) [OF inv], of uc "Suc n"] 2(1) 3(1) by simp
  moreover have "destroyed_box p ?ds w w'"
    unfolding destroyed_box_def
  proof (intro conjI allI impI)
    show "w_boxes w' p = None" using 3(3) by (simp add: destroyed_box_def)
    show "rel_option (box_lowered (count_list (dropped_ccs ?ds) q)) (w_boxes w q) (w_boxes w' q)" if q: "q \<noteq> p" for q
    proof -
      have "rel_option (box_lowered (count_list (dropped_ccs ?ds) q)) (w_boxes w2 q) (w_boxes w' q)"
        using 3(3) q by (simp add: destroyed_box_def)
      with other [OF q] show ?thesis
        by (cases "w_boxes w q"; cases "w_boxes w2 q"; cases "w_boxes w' q") (auto dest: box_lowered_trans)
    qed
    from 3(3) obtain h' l' M' a where "w' = w2\<lparr>w_boxes := h', w_pc := l', w_meta := M', w_state := (w_state w2)\<lparr>st_allocated_bytes := a\<rparr>\<rparr>"
      "unat a + size_of w2 p = unat (st_allocated_bytes (w_state w2))" unfolding destroyed_box_def by blast
    with w2 size show "\<exists>h l M a. w' = w\<lparr>w_boxes := h, w_pc := l, w_meta := M, w_state := (w_state w)\<lparr>st_allocated_bytes := a\<rparr>\<rparr>
       \<and> unat a + size_of w p = unat (st_allocated_bytes (w_state w))"
      by (intro exI [of _ h'] exI [of _ l'] exI [of _ M'] exI [of _ a]) simp
  qed
  moreover have "set (remove1 p ps) = set ps - {p}"
    using buffered_repr [OF drop_invD(1) [OF inv]] by (auto simp: pc_repr_def)
  ultimately show ?thesis using 3(2,4,5) by (intro exI [of _ w'] exI [of _ qs]) simp
qed

end
