(* ===== verification/Cleaner_Correct.thy ===== *)
theory Cleaner_Correct
  imports Cleaners New_Box Last_Drop
begin

text \<open>
  What \<open>clean\<close>, \<open>register\<close> and the destructor of the map do. An action is an arbitrary program: a
  theorem about code that runs one states what it leaves of the map's box.
\<close>

subsection \<open>Upgrading and the map\<close>

abbreviation raised :: "addr \<Rightarrow> 'f world \<Rightarrow> 'f world" where
  "raised p w \<equiv> w\<lparr>w_boxes := upd p (\<lambda>b. b\<lparr>b_cm := rc_plus_one (b_cm b)\<rparr>) (w_boxes w)\<rparr>"

lemma weak_upgrade_inv:
  assumes inv: "drop_inv {} ps W w" and k: "k \<in># W" and up: "upgradable k w"
    and b: "w_boxes w (wk_cc k) = Some b" and n: "v_rc (view (b_cm b)) < 16382"
  shows "\<exists>w'. weak_upgrade k w = Done (Some (wk_cc k)) w' \<and> drop_inv {} (remove1 (wk_cc k) ps) W w' \<and>
    lowered {} (\<lambda>_. 0) (raised (wk_cc k) w) w'"
proof -
  let ?p = "wk_cc k" and ?v = "raised (wk_cc k) w"
  note d = drop_invD [OF inv]
  have rc0: "v_rc (view (b_cm b)) \<noteq> 0" using up b by (auto simp: upgradable_def split: option.splits)
  have "rc_bounded k w" using b n by (simp add: rc_bounded_def)
  with weak_strong_count_eval [OF d(2) k] up b
  have cnt: "weak_strong_count k w = Done (ucast (word_of_nat (v_rc (view (b_cm b))) :: u16)) w" by simp
  have nz: "(ucast (word_of_nat (v_rc (view (b_cm b))) :: u16) :: u32) \<noteq> 0"
    using rc0 n u32_zero [of "v_rc (view (b_cm b))"] by simp
  have eq: "upd ?p (\<lambda>d. d\<lparr>b_cm := rc_plus_one (b_cm b)\<rparr>) (w_boxes w) = upd ?p (\<lambda>b. b\<lparr>b_cm := rc_plus_one (b_cm b)\<rparr>) (w_boxes w)"
    using b by (intro ext) (simp add: upd_apply)
  have "on_cm ?p increment_counter (w_boxes w) = Done (Inr ()) (w_boxes ?v)"
    using on_cm_Done [of "w_boxes w" ?p b increment_counter] b n increment_counter_eval [of "b_cm b"] eq by simp
  then have inc: "on_boxes (on_cm ?p increment_counter) w = Done (Inr ()) ?v" by (simp add: on_boxes_def zoom_def)
  have iv: "drop_inv {} ps W ?v"
    by (rule drop_inv_upd [OF inv]) (use b n in \<open>simp add: cm_upd box_meta_def\<close>)
  have "w_boxes ?v ?p = Some (b\<lparr>b_cm := rc_plus_one (b_cm b)\<rparr>)" using b by simp
  from remove_from_list_inv [OF iv this] obtain w' where
    1: "remove_from_list ?p ?v = Done () w'" "drop_inv {} (remove1 ?p ps) W w'" "lowered {} (\<lambda>_. 0) ?v w'" by blast
  have "weak_upgrade k w = Done (Some ?p) w'"
    using d(3) cnt nz inc 1(1) by (simp add: weak_upgrade_def mark_alive_def bindM_def thenM_def)
  with 1(2,3) show ?thesis by blast
qed

text \<open>\<open>map_in w p n flag m\<close>: the box at \<open>p\<close> holds the map \<open>m\<close> and has \<open>n\<close> references.\<close>

definition map_in :: "'f world \<Rightarrow> addr \<Rightarrow> nat \<Rightarrow> borrow_state \<Rightarrow> slotmap \<Rightarrow> bool" where
  "map_in w p n flag m \<longleftrightarrow> (\<exists>b. w_boxes w p = Some b \<and> b_elem b = Some (CleanerMapT flag m) \<and>
     v_rc (view (b_cm b)) = n \<and> v_tc (view (b_cm b)) < 16383)"

abbreviation celled :: "addr \<Rightarrow> borrow_state \<Rightarrow> slotmap \<Rightarrow> 'f world \<Rightarrow> 'f world" where
  "celled p flag m w \<equiv> w\<lparr>w_boxes := upd p (\<lambda>b. b\<lparr>b_elem := Some (CleanerMapT flag m)\<rparr>) (w_boxes w)\<rparr>"

lemma cell_of_eval: "map_in w p n flag m \<Longrightarrow> calm w \<Longrightarrow> cell_of p w = Done (flag, m) w"
  by (auto simp: map_in_def cell_of_def cc_deref_def get_elem_def on_boxes_def zoom_def bindM_def)

lemma set_cell_eval: "map_in w p n flag m \<Longrightarrow> set_cell p flag' m' w = Done () (celled p flag' m' w)"
  by (auto simp: map_in_def set_cell_def on_boxes_def zoom_def)

lemma ref_mut_drop_eval: "map_in w p n flag m \<Longrightarrow> ref_mut_drop p w = Done () (celled p Unborrowed m w)"
  by (auto simp: map_in_def ref_mut_drop_def get_elem_def set_cell_def on_boxes_def zoom_def bindM_def)

lemma map_in_celled: "map_in w p n flag m \<Longrightarrow> map_in (celled p flag' m' w) p n flag' m'"
  by (auto simp: map_in_def)

lemma celled_inv: "drop_inv N ps W w \<Longrightarrow> drop_inv N ps W (celled p flag m w)"
  by (rule drop_inv_upd) (simp_all add: box_meta_def)

lemma celled_twice [simp]: "celled p f m (celled p f' m' w) = celled p f m w"
  by (simp add: upd_def fun_eq_iff split: option.split)

lemma map_in_lowered:
  assumes "map_in w p n flag m" "lowered N r w w'"
  shows "map_in w' p (n - r p) flag m" "r p \<le> n"
proof -
  from assms(1) obtain b where b: "w_boxes w p = Some b" "b_elem b = Some (CleanerMapT flag m)"
    "v_rc (view (b_cm b)) = n" "v_tc (view (b_cm b)) < 16383" by (auto simp: map_in_def)
  from loweredD [OF assms(2) b(1)] obtain c where c: "w_boxes w' p = Some c" "box_lowered (r p) b c" .
  with b show "map_in w' p (n - r p) flag m" "r p \<le> n"
    unfolding map_in_def by (auto simp: box_lowered_def intro!: exI [of _ c])
qed

lemma map_in_raised:
  assumes "map_in w p n flag m" "n < 16382"
  shows "map_in (raised p w) p (n + 1) flag m"
  using assms by (auto simp: map_in_def cm_upd)

lemma drop_temporary:
  assumes inv: "drop_inv {} ps W w" and p: "map_in w p n flag m" "1 < n" "n < 16383"
  shows "\<exists>w' qs. cc_drop uc (Suc f) p w = Done () w' \<and> drop_inv {} qs W w' \<and>
    lowered {} ((\<lambda>_. 0)(p := 1)) w w' \<and> set qs = insert p (set ps) \<and> map_in w' p (n - 1) flag m"
proof -
  from p(1) obtain b where b: "w_boxes w p = Some b" "v_rc (view (b_cm b)) = n" "v_tc (view (b_cm b)) < 16383"
    by (auto simp: map_in_def)
  have rc: "if p \<in> {} then 0 < v_rc (view (b_cm b)) else 1 < v_rc (view (b_cm b)) \<and> v_tc (view (b_cm b)) < 16383"
    using b p by simp
  have "v_rc (view (b_cm b)) < 16383" using b p by simp
  from cc_drop_shared [OF inv b(1) this rc, of uc f] obtain w' qs where
    "cc_drop uc (Suc f) p w = Done () w'" "drop_inv {} qs W w'" "lowered {} ((\<lambda>_. 0)(p := 1)) w w'" "set qs = set ps \<union> ({p} - {})"
    by blast
  moreover from map_in_lowered(1) [OF p(1) this(3)] have "map_in w' p (n - 1) flag m" by simp
  ultimately show ?thesis by auto
qed

subsection \<open>clean\<close>

text \<open>The world in which \<open>clean\<close> works: the temporary \<open>Cc\<close> exists, and the box is not buffered.\<close>

lemma clean_upgrades:
  assumes inv: "drop_inv {} ps W w" and k: "cl_cleaner_map this \<in># W" "upgradable (cl_cleaner_map this) w"
    and p: "wk_cc (cl_cleaner_map this) = p" "map_in w p n flag m" "n < 16382"
  shows "\<exists>w1. drop_inv {} (remove1 p ps) W w1 \<and> lowered {} (\<lambda>_. 0) (raised p w) w1 \<and> map_in w1 p (n + 1) flag m \<and>
    clean uc f this w = with_local (cc_drop uc f p) (try_borrow_mut p (ret ()) (remove_action uc p (cl_key this))) w1"
proof -
  from p(2) obtain b where b: "w_boxes w p = Some b" "v_rc (view (b_cm b)) = n" by (auto simp: map_in_def)
  have "w_boxes w (wk_cc (cl_cleaner_map this)) = Some b" "v_rc (view (b_cm b)) < 16382" using b p by simp_all
  from weak_upgrade_inv [OF inv k this] obtain w1 where
    1: "weak_upgrade (cl_cleaner_map this) w = Done (Some p) w1" "drop_inv {} (remove1 p ps) W w1"
    "lowered {} (\<lambda>_. 0) (raised p w) w1" unfolding p(1) by blast
  have "map_in w1 p (n + 1) flag m" using map_in_lowered(1) [OF map_in_raised [OF p(2,3)] 1(3)] by simp
  with 1 show ?thesis by (auto simp: clean_def)
qed

lemma clean_dead:
  assumes "drop_inv {} ps W w" "cl_cleaner_map this \<in># W" "rc_bounded (cl_cleaner_map this) w"
    and "\<not> upgradable (cl_cleaner_map this) w"
  shows "clean uc f this w = Done () w"
  using weak_upgrade_none [OF drop_invD(2) [OF assms(1)] assms(2,3) drop_invD(3) [OF assms(1)] assms(4)]
  by (simp add: clean_def)

text \<open>The map is borrowed: an action of the same cleaner is running.\<close>

lemma clean_borrowed:
  assumes inv: "drop_inv {} ps W w" and k: "cl_cleaner_map this \<in># W" "upgradable (cl_cleaner_map this) w"
    and p: "wk_cc (cl_cleaner_map this) = p" "map_in w p n flag m" "0 < n" "n < 16382" and flag: "flag \<noteq> Unborrowed"
  shows "\<exists>w1 w' qs. clean uc (Suc f) this w = Done () w' \<and> drop_inv {} qs W w' \<and> set qs = insert p (set ps) \<and>
    map_in w' p n flag m \<and> lowered {} (\<lambda>_. 0) (raised p w) w1 \<and> lowered {} ((\<lambda>_. 0)(p := 1)) w1 w'"
proof -
  from clean_upgrades [OF inv k p(1,2,4), of uc "Suc f"] obtain w1 where
    1: "drop_inv {} (remove1 p ps) W w1" "lowered {} (\<lambda>_. 0) (raised p w) w1" "map_in w1 p (n + 1) flag m"
    "clean uc (Suc f) this w = with_local (cc_drop uc (Suc f) p) (try_borrow_mut p (ret ()) (remove_action uc p (cl_key this))) w1"
    by blast
  have tried: "try_borrow_mut p (ret ()) (remove_action uc p (cl_key this)) w1 = Done () w1"
    using cell_of_eval [OF 1(3) drop_invD(3) [OF 1(1)]] flag by (simp add: try_borrow_mut_def bindM_def)
  from drop_temporary [OF 1(1,3), of uc f] p obtain w' qs where
    2: "cc_drop uc (Suc f) p w1 = Done () w'" "drop_inv {} qs W w'" "lowered {} ((\<lambda>_. 0)(p := 1)) w1 w'"
    "set qs = insert p (set (remove1 p ps))" "map_in w' p n flag m" by auto
  have "set qs = insert p (set ps)"
    using 2(4) buffered_repr [OF drop_invD(1) [OF inv]] by (auto simp: pc_repr_def)
  moreover have "clean uc (Suc f) this w = Done () w'"
    unfolding 1(4) using tried 2(1) by (rule with_local_Done)
  ultimately show ?thesis using 1(2) 2(2,3,5) by blast
qed

text \<open>The map is free: what the key stands for is taken out, and run if it is an action.\<close>

lemma borrow_free:
  assumes "map_in w p n Unborrowed m" "calm w"
  shows "try_borrow_mut p (ret ()) body w = with_local (ref_mut_drop p) (body m) (celled p MutBorrow m w)"
  using assms by (simp add: try_borrow_mut_def cell_of_eval set_cell_eval bindM_def thenM_def)

lemma clean_absent:
  assumes inv: "drop_inv {} ps W w" and k: "cl_cleaner_map this \<in># W" "upgradable (cl_cleaner_map this) w"
    and p: "wk_cc (cl_cleaner_map this) = p" "map_in w p n Unborrowed m" "0 < n" "n < 16382"
    and rm: "sm_remove (uc_slotmap uc) (cl_key this) m = (None, m')"
  shows "\<exists>w1 w' qs. clean uc (Suc f) this w = Done () w' \<and> drop_inv {} qs W w' \<and> set qs = insert p (set ps) \<and>
    map_in w' p n Unborrowed m' \<and> lowered {} (\<lambda>_. 0) (raised p w) w1 \<and>
    lowered {} ((\<lambda>_. 0)(p := 1)) (celled p Unborrowed m' w1) w'"
proof -
  from clean_upgrades [OF inv k p(1,2,4), of uc "Suc f"] obtain w1 where
    1: "drop_inv {} (remove1 p ps) W w1" "lowered {} (\<lambda>_. 0) (raised p w) w1" "map_in w1 p (n + 1) Unborrowed m"
    "clean uc (Suc f) this w = with_local (cc_drop uc (Suc f) p) (try_borrow_mut p (ret ()) (remove_action uc p (cl_key this))) w1"
    by blast
  have rem: "remove_action uc p (cl_key this) m (celled p MutBorrow m w1) = Done () (celled p MutBorrow m' w1)"
    using rm set_cell_eval [OF map_in_celled [OF 1(3)], of MutBorrow m'] by (simp add: remove_action_def)
  have tried: "try_borrow_mut p (ret ()) (remove_action uc p (cl_key this)) w1 = Done () (celled p Unborrowed m' w1)"
    unfolding borrow_free [OF 1(3) drop_invD(3) [OF 1(1)]]
  proof (rule with_local_Done)
    show "remove_action uc p (cl_key this) m (celled p MutBorrow m w1) = Done () (celled p MutBorrow m' w1)" by (rule rem)
    show "ref_mut_drop p (celled p MutBorrow m' w1) = Done () (celled p Unborrowed m' w1)"
      using ref_mut_drop_eval [OF map_in_celled [OF 1(3)], of MutBorrow m'] by simp
  qed
  have "1 < n + 1" "n + 1 < 16383" using p by simp_all
  from drop_temporary [OF celled_inv [OF 1(1)] map_in_celled [OF 1(3)] this, of uc f Unborrowed m'] obtain w' qs where
    2: "cc_drop uc (Suc f) p (celled p Unborrowed m' w1) = Done () w'" "drop_inv {} qs W w'"
    "lowered {} ((\<lambda>_. 0)(p := 1)) (celled p Unborrowed m' w1) w'"
    "set qs = insert p (set (remove1 p ps))" "map_in w' p n Unborrowed m'" by auto
  have "set qs = insert p (set ps)"
    using 2(4) buffered_repr [OF drop_invD(1) [OF inv]] by (auto simp: pc_repr_def)
  moreover have "clean uc (Suc f) this w = Done () w'"
    unfolding 1(4) using tried 2(1) by (rule with_local_Done)
  ultimately show ?thesis using 1(2) 2(2,3,5) by blast
qed

text \<open>
  The action runs once, with the map borrowed and already without it. It may do anything that leaves
  the invariants and the map, which nobody can change while it is borrowed.
\<close>

definition action_world :: "'f user_code \<Rightarrow> cleanable \<Rightarrow> nat \<Rightarrow> slotmap \<Rightarrow> addr list \<Rightarrow> weak_ptr multiset \<Rightarrow> 'f world \<Rightarrow> 'f world \<Rightarrow> bool" where
  "action_world uc this n m' ps W w v \<longleftrightarrow> (let p = wk_cc (cl_cleaner_map this) in
     drop_inv {} (remove1 p ps) W v \<and> map_in v p (n + 1) MutBorrow m' \<and>
     (\<exists>w1. lowered {} (\<lambda>_. 0) (raised p w) w1 \<and> v = celled p MutBorrow m' w1))"

lemma clean_present:
  assumes inv: "drop_inv {} ps W w" and k: "cl_cleaner_map this \<in># W" "upgradable (cl_cleaner_map this) w"
    and p: "wk_cc (cl_cleaner_map this) = p" "map_in w p n Unborrowed m" "n < 16382"
    and rm: "sm_remove (uc_slotmap uc) (cl_key this) m = (Some a, m')"
  shows "\<exists>v. action_world uc this n m' ps W w v \<and> clean uc f this w = with_local (cc_drop uc f p)
    (with_local (ref_mut_drop p) (uc_action uc a)) v"
proof -
  from clean_upgrades [OF inv k p(1,2,3), of uc f] obtain w1 where
    1: "drop_inv {} (remove1 p ps) W w1" "lowered {} (\<lambda>_. 0) (raised p w) w1" "map_in w1 p (n + 1) Unborrowed m"
    "clean uc f this w = with_local (cc_drop uc f p) (try_borrow_mut p (ret ()) (remove_action uc p (cl_key this))) w1"
    by blast
  let ?v = "celled p MutBorrow m' w1"
  have rem: "remove_action uc p (cl_key this) m (celled p MutBorrow m w1) = uc_action uc a ?v"
    using rm set_cell_eval [OF map_in_celled [OF 1(3)], of MutBorrow m'] by (simp add: remove_action_def cleaning_action_drop_def)
  have "try_borrow_mut p (ret ()) (remove_action uc p (cl_key this)) w1 = with_local (ref_mut_drop p) (uc_action uc a) ?v"
    unfolding borrow_free [OF 1(3) drop_invD(3) [OF 1(1)]] using rem by (simp add: with_local_def on_unwind_def bindM_def)
  then have "clean uc f this w = with_local (cc_drop uc f p) (with_local (ref_mut_drop p) (uc_action uc a)) ?v"
    using 1(4) by (simp add: with_local_def [of "cc_drop uc f p"] on_unwind_def bindM_def)
  moreover have "action_world uc this n m' ps W w ?v"
    unfolding action_world_def Let_def p(1) using celled_inv [OF 1(1)] map_in_celled [OF 1(3)] 1(2) by blast
  ultimately show ?thesis by blast
qed

definition leaves_map :: "'f user_code \<Rightarrow> nat \<Rightarrow> addr \<Rightarrow> slotmap \<Rightarrow> 'f world \<Rightarrow> bool" where
  "leaves_map uc a p m' v \<longleftrightarrow> (\<exists>v' qs V n'. (uc_action uc a v = Done () v' \<or> (\<exists>e. uc_action uc a v = Panicked e v')) \<and>
     drop_inv {} qs V v' \<and> map_in v' p n' MutBorrow m' \<and> 1 < n' \<and> n' < 16383)"

lemma clean_runs:
  assumes inv: "drop_inv {} ps W w" and k: "cl_cleaner_map this \<in># W" "upgradable (cl_cleaner_map this) w"
    and p: "wk_cc (cl_cleaner_map this) = p" "map_in w p n Unborrowed m" "n < 16382"
    and rm: "sm_remove (uc_slotmap uc) (cl_key this) m = (Some a, m')"
    and act: "\<And>v. action_world uc this n m' ps W w v \<Longrightarrow> leaves_map uc a p m' v"
  shows "\<exists>v v' w' r qs V n'. action_world uc this n m' ps W w v \<and>
    uc_action uc a v = r v' \<and> clean uc (Suc f) this w = r w' \<and> (r = Done () \<or> (\<exists>e. r = Panicked e)) \<and>
    lowered {} ((\<lambda>_. 0)(p := 1)) (celled p Unborrowed m' v') w' \<and>
    drop_inv {} qs V w' \<and> map_in w' p n' Unborrowed m' \<and> 0 < n' \<and> n' < 16382"
proof -
  from clean_present [OF inv k p rm, of "Suc f"] obtain v where
    v: "action_world uc this n m' ps W w v"
    "clean uc (Suc f) this w = with_local (cc_drop uc (Suc f) p) (with_local (ref_mut_drop p) (uc_action uc a)) v" by blast
  from act [OF v(1)] obtain v' qs V n' r where
    r: "uc_action uc a v = r v'" "r = Done () \<or> (\<exists>e. r = Panicked e)" and
    2: "drop_inv {} qs V v'" "map_in v' p n' MutBorrow m'" "1 < n'" "n' < 16383" unfolding leaves_map_def by blast
  from drop_temporary [OF celled_inv [OF 2(1)] map_in_celled [OF 2(2)] 2(3,4), of uc f Unborrowed m'] obtain w' rs where
    3: "cc_drop uc (Suc f) p (celled p Unborrowed m' v') = Done () w'" "drop_inv {} rs V w'"
    "lowered {} ((\<lambda>_. 0)(p := 1)) (celled p Unborrowed m' v') w'" "map_in w' p (n' - 1) Unborrowed m'" by blast
  note rel = ref_mut_drop_eval [OF 2(2)]
  have "clean uc (Suc f) this w = r w'"
    unfolding v(2) using r(2)
  proof (elim disjE exE)
    assume r': "r = Done ()"
    then have "with_local (ref_mut_drop p) (uc_action uc a) v = Done () (celled p Unborrowed m' v')"
      using r(1) rel by (intro with_local_Done) simp_all
    then show "with_local (cc_drop uc (Suc f) p) (with_local (ref_mut_drop p) (uc_action uc a)) v = r w'"
      unfolding r' using 3(1) by (rule with_local_Done)
  next
    fix e assume r': "r = Panicked e"
    then have "with_local (ref_mut_drop p) (uc_action uc a) v = Panicked e (celled p Unborrowed m' v')"
      using r(1) rel by (intro with_local_Panicked) simp_all
    then show "with_local (cc_drop uc (Suc f) p) (with_local (ref_mut_drop p) (uc_action uc a)) v = r w'"
      unfolding r' using 3(1) by (rule with_local_Panicked)
  qed
  moreover have "0 < n' - 1" "n' - 1 < 16382" using 2(3,4) by auto
  ultimately show ?thesis using v(1) r 3(2,3,4) by blast
qed

subsection \<open>Once\<close>

text \<open>
  What is used of the crate slotmap: an inserted action is found under its key and nowhere before,
  a removed one is gone, and the values are the actions that were inserted and not removed.
\<close>

definition slotmap_laws :: "slotmap_ops \<Rightarrow> bool" where
  "slotmap_laws ops \<longleftrightarrow> sm_values ops (sm_new ops) = [] \<and>
     (\<forall>a m k m'. sm_insert ops a m = Some (k, m') \<longrightarrow> fst (sm_remove ops k m) = None \<and> fst (sm_remove ops k m') = Some a \<and>
        mset (sm_values ops m') = add_mset a (mset (sm_values ops m))) \<and>
     (\<forall>k m a m'. sm_remove ops k m = (Some a, m') \<longrightarrow> fst (sm_remove ops k m') = None \<and>
        mset (sm_values ops m) = add_mset a (mset (sm_values ops m'))) \<and>
     (\<forall>k m m'. sm_remove ops k m = (None, m') \<longrightarrow> mset (sm_values ops m') = mset (sm_values ops m))"

lemma slotmap_removed:
  assumes "slotmap_laws ops" "sm_remove ops k m = (Some a, m')"
  obtains m'' where "sm_remove ops k m' = (None, m'')"
  using assms by (metis prod.collapse slotmap_laws_def)

lemma slotmap_inserted:
  assumes "slotmap_laws ops" "sm_insert ops a m = Some (k, m')"
  obtains m'' where "sm_remove ops k m' = (Some a, m'')"
  using assms by (metis prod.collapse slotmap_laws_def)

text \<open>
  After an action has run, another \<open>clean\<close> returns whatever the actions are, even if they are
  undefined behaviour: it runs none.
\<close>

lemma clean_again:
  assumes laws: "slotmap_laws (uc_slotmap uc)" and rm: "sm_remove (uc_slotmap uc) (cl_key this) m = (Some a, m')"
    and inv: "drop_inv {} ps W w" and k: "cl_cleaner_map this \<in># W"
    and p: "wk_cc (cl_cleaner_map this) = p" "map_in w p n Unborrowed m'" "0 < n" "n < 16382"
  shows "\<exists>w'. clean (uc\<lparr>uc_action := act\<rparr>) (Suc f) this w = Done () w'"
proof (cases "upgradable (cl_cleaner_map this) w")
  case True
  from slotmap_removed [OF laws rm] obtain m'' where
    "sm_remove (uc_slotmap (uc\<lparr>uc_action := act\<rparr>)) (cl_key this) m' = (None, m'')" by auto
  from clean_absent [OF inv k True p this] show ?thesis by blast
next
  case False
  have "rc_bounded (cl_cleaner_map this) w" using p by (auto simp: rc_bounded_def map_in_def)
  from clean_dead [OF inv k this False] show ?thesis by blast
qed

lemma upgradable_map:
  assumes inv: "drop_inv {} ps W w" and k: "wk_metadata k = Some m" "owner w (wk_cc k) m"
    and p: "map_in w (wk_cc k) n flag sm" "0 < n"
  shows "upgradable k w"
proof -
  note d = drop_invD [OF inv]
  from weak_invD(2) [OF d(2) k(2)] obtain bm where bm: "w_meta w m = Some bm" "w_acc (wview (bm_weak bm))" by blast
  from p obtain b where b: "w_boxes w (wk_cc k) = Some b" "v_rc (view (b_cm b)) = n" "v_tc (view (b_cm b)) < 16383"
    by (auto simp: map_in_def)
  with bm k(1) p(2) d(6) [OF b(1)] show ?thesis by (simp add: upgradable_def in_collector_def)
qed

end
