(* ===== verification/Cleaner_Register.thy ===== *)
theory Cleaner_Register
  imports Cleaner_Correct
begin

text \<open>
  \<open>Cleaner::register\<close>, with the map already there and with a map it creates, and the end of the map,
  which runs the actions that are left.
\<close>

subsection \<open>downgrade under the invariant of the destructors\<close>

text \<open>One more weak pointer to the box can be counted.\<close>

definition weak_room :: "weak_ptr multiset \<Rightarrow> 'f world \<Rightarrow> addr \<Rightarrow> bool" where
  "weak_room W w p \<longleftrightarrow> (\<forall>b m. w_boxes w p = Some b \<longrightarrow> v_meta (view (b_cm b)) \<longrightarrow> b_metadata b = MetaBoxed m \<longrightarrow>
     size (to_meta m W) < 32767)"

text \<open>The box \<open>p\<close> owns a metadata allocation now; nothing else has changed.\<close>

definition grown :: "addr \<Rightarrow> 'f world \<Rightarrow> 'f world \<Rightarrow> bool" where
  "grown p w v \<longleftrightarrow> v = w\<lparr>w_boxes := w_boxes v, w_meta := w_meta v\<rparr> \<and> (\<forall>q. size_of v q = size_of w q) \<and>
     (\<exists>b b1. w_boxes w p = Some b \<and> w_boxes v = (w_boxes w)(p \<mapsto> b1) \<and> b_elem b1 = b_elem b \<and>
        view (b_cm b1) = (view (b_cm b))\<lparr>v_meta := True\<rparr>)"

lemma box_layout_vtable: "box_vtable p w = Done vt w \<Longrightarrow> box_layout p w = Done (vt_size vt) w"
  by (simp add: box_layout_def)

lemma sizes_grown:
  assumes inv: "weak_inv W w" "weak_inv W v" and p: "w_boxes w p = Some b" "w_boxes v = (w_boxes w)(p \<mapsto> c)"
    and m: "\<forall>n. w_meta w n \<noteq> None \<longrightarrow> w_meta v n = w_meta w n"
    and vt: "\<forall>vt. box_vtable p w = Done vt w \<longrightarrow> box_vtable p v = Done vt v"
  shows "size_of v q = size_of w q"
proof (cases "q = p")
  case True
  from box_layout_ok [OF inv(1) p(1)] obtain n where n: "box_layout p w = Done n w" "unat n = size_of w p" by blast
  then obtain vt where vtw: "box_vtable p w = Done vt w" "vt_size vt = n"
    by (auto simp: box_layout_def bindM_eq_Done)
  with vt have "box_layout p v = Done n v" using box_layout_vtable by blast
  moreover have "w_boxes v p = Some c" using p(2) by simp
  from box_layout_ok [OF inv(2) this] obtain k where "box_layout p v = Done k v" "unat k = size_of v p" by blast
  ultimately show ?thesis using n True by simp
next
  case False
  then have eq: "w_boxes v q = w_boxes w q" using p(2) by simp
  have "w_meta v n = w_meta w n" if "w_boxes w q = Some e" "b_metadata e = MetaBoxed n" for e n
  proof -
    from weak_invD(1) [OF inv(1)] that have "v_meta (view (b_cm e))" by (fastforce simp: union_ok_def split: if_splits)
    with that have "owner w q n" by (simp add: owner_def)
    from weak_invD(2) [OF inv(1) this] m show ?thesis by auto
  qed
  with eq show ?thesis by (auto simp: size_of_def split: option.splits metadata.splits)
qed

lemma downgrade_frame:
  assumes inv: "drop_inv {} ps W w" and b: "w_boxes w p = Some b" and al: "fresh_allocator al" "finite (dom (w_meta w))"
    and n: "weak_room W w p"
  shows "\<exists>w' m v. downgrade al p w = Done \<lparr>wk_metadata = Some m, wk_cc = p\<rparr> w' \<and>
    drop_inv {} (remove1 p ps) (add_mset \<lparr>wk_metadata = Some m, wk_cc = p\<rparr> W) w' \<and> grown p w v \<and> lowered {} (\<lambda>_. 0) v w' \<and> owner w' p m"
proof -
  note d = drop_invD [OF inv]
  from get_or_init_metadata_ok [OF d(2) b al] obtain w1 m b1 where
    1: "get_or_init_metadata al p w = Done m w1" "weak_inv W w1" "owner w1 p m" "w_boxes w1 = (w_boxes w)(p \<mapsto> b1)"
    "w1 = w\<lparr>w_boxes := w_boxes w1, w_meta := w_meta w1\<rparr>" "view (b_cm b1) = (view (b_cm b))\<lparr>v_meta := True\<rparr>"
    "links (w_boxes w1) p = links (w_boxes w) p" "b_elem b1 = b_elem b" "v_meta (view (b_cm b)) \<and> b_metadata b = MetaBoxed m \<or> w_meta w m = None"
    "\<forall>vt. box_vtable p w = Done vt w \<longrightarrow> box_vtable p w1 = Done vt w1" "\<forall>n. w_meta w n \<noteq> None \<longrightarrow> w_meta w1 n = w_meta w n" by blast
  have pc: "w_pc w1 = w_pc w" "w_state w1 = w_state w" "w_state_alive w1 = w_state_alive w" "w_pc_alive w1 = w_pc_alive w"
    using 1(5) by (metis world.select_convs world.surjective world.update_convs(1,2))+
  from weak_invD(2) [OF 1(2,3)] obtain bm where bm: "w_meta w1 m = Some bm" "w_acc (wview (bm_weak bm))" by blast
  have "size (to_meta m W) < 32767"
    using 1(9)
  proof
    assume "w_meta w m = None"
    then have "k \<notin># to_meta m W" for k using weak_invD(7) [OF d(2), of k m] by (auto simp: to_meta_mem)
    then have "to_meta m W = {#}" by (meson multiset_nonemptyE)
    then show ?thesis by simp
  qed (use n b in \<open>auto simp: weak_room_def\<close>)
  then have c: "w_count (wview (bm_weak bm)) \<noteq> 32767" using weak_invD(4) [OF 1(2) bm(1)] by simp
  let ?c = "(bm_weak bm)\<lparr>weak_counter_cell := weak_counter_cell (bm_weak bm) + 1\<rparr>"
  let ?w2 = "w1\<lparr>w_meta := (w_meta w1)(m \<mapsto> bm\<lparr>bm_weak := ?c\<rparr>)\<rparr>" and ?k = "\<lparr>wk_metadata = Some m, wk_cc = p\<rparr>"
  have inc: "on_wcm m weak_increment_counter w1 = Done (Inr ()) ?w2"
    using c by (intro on_wcm_Done [OF bm(1)]) (simp add: weak_increment_eval)
  have w2: "weak_inv (add_mset ?k W) ?w2"
    using weak_invD(4) [OF 1(2) bm(1)] weak_inv_owner [OF 1(2) _ _ bm(1)] 1(3) bm(2) wview_plus(2) [OF c]
    by (intro weak_inv_count [OF 1(2) bm(1)]) auto
  moreover have "buffered ps ?w2"
  proof -
    have links: "links (w_boxes w1) q = links (w_boxes w) q" for q
      using 1(4,7) by (cases "q = p") (simp_all add: links_def)
    then show ?thesis
      using d(1) b 1(6) pc by (auto simp: buffered_def 1(4) isolated_def intro: pc_repr_cong split: if_splits)
  qed
  moreover have "calm ?w2" using d(3) pc by (simp add: calm_def)
  moreover have "finite (dom (w_boxes ?w2))" "card (dom (w_boxes ?w2)) < 2 ^ 64"
    using d(4,5) b by (simp_all add: 1(4) insert_absorb domIff)
  moreover have "(in_collector e \<longleftrightarrow> q \<in> {}) \<and> (q \<in> set ps \<longrightarrow> v_tc (view (b_cm e)) = 0)" if "w_boxes ?w2 q = Some e" for q e
    using that d(6,7) [OF b] d(6,7) [of q e] 1(6) by (auto simp: 1(4) in_collector_def split: if_splits)
  ultimately have inv2: "drop_inv {} ps (add_mset ?k W) ?w2" by (simp add: drop_inv_def)
  have p2: "w_boxes ?w2 p = Some b1" using 1(4) by simp
  from remove_from_list_inv [OF inv2 p2] obtain w3 where
    3: "remove_from_list p ?w2 = Done () w3" "drop_inv {} (remove1 p ps) (add_mset ?k W) w3" "lowered {} (\<lambda>_. 0) ?w2 w3" by blast
  have "size_of ?w2 q = size_of w1 q" for q
    using bm(1) by (auto simp: size_of_def split: option.split metadata.split)
  then have "size_of ?w2 q = size_of w q" for q using sizes_grown [OF d(2) 1(2) b 1(4,11,10)] by simp
  moreover have "?w2 = w\<lparr>w_boxes := w_boxes ?w2, w_meta := w_meta ?w2\<rparr>"
  proof -
    have "?w2 = (w\<lparr>w_boxes := w_boxes w1, w_meta := w_meta w1\<rparr>)\<lparr>w_meta := w_meta ?w2\<rparr>" using 1(5) by simp
    then show ?thesis by simp
  qed
  ultimately have "grown p w ?w2" using b 1(4,6,8) unfolding grown_def by auto
  moreover have "owner w3 p m"
  proof -
    from loweredD [OF 3(3) p2] obtain e where "w_boxes w3 p = Some e" "box_lowered 0 b1 e" by blast
    with 1(3,4) show ?thesis by (auto simp: owner_def box_lowered_def)
  qed
  moreover have "downgrade al p w = Done ?k w3"
    using d(3) 1(1) inc 3(1) by (simp add: downgrade_def mark_alive_def)
  ultimately show ?thesis using 3(2,3) by blast
qed

lemma downgrade_inv:
  assumes inv: "drop_inv {} ps W w" and p: "map_in w p r flag sm" and al: "fresh_allocator al" "finite (dom (w_meta w))"
    and n: "weak_room W w p"
  shows "\<exists>w' k. downgrade al p w = Done k w' \<and> wk_cc k = p \<and> drop_inv {} (remove1 p ps) (add_mset k W) w' \<and> map_in w' p r flag sm
    \<and> (0 < r \<longrightarrow> upgradable k w')"
proof -
  from p obtain b where b: "w_boxes w p = Some b" "b_elem b = Some (CleanerMapT flag sm)"
    "v_rc (view (b_cm b)) = r" "v_tc (view (b_cm b)) < 16383" by (auto simp: map_in_def)
  from downgrade_frame [OF inv b(1) al n] obtain w' m v where
    1: "downgrade al p w = Done \<lparr>wk_metadata = Some m, wk_cc = p\<rparr> w'" "grown p w v" "lowered {} (\<lambda>_. 0) v w'" "owner w' p m"
    and 2: "drop_inv {} (remove1 p ps) (add_mset \<lparr>wk_metadata = Some m, wk_cc = p\<rparr> W) w'" by blast
  from 1(2) b have "map_in v p r flag sm" by (auto simp: grown_def map_in_def)
  from map_in_lowered(1) [OF this 1(3)] have map: "map_in w' p r flag sm" by simp
  with 1(4) have "0 < r \<Longrightarrow> upgradable \<lparr>wk_metadata = Some m, wk_cc = p\<rparr> w'"
    using upgradable_map [OF 2, of "\<lparr>wk_metadata = Some m, wk_cc = p\<rparr>" m r flag sm] by simp
  with 1(1) 2 map show ?thesis by force
qed

subsection \<open>register\<close>

lemma on_world_Done: "m w = Done a w' \<Longrightarrow> on_world m (c, w) = Done a (c, w')"
  by (simp add: on_world_def zoom_def)

lemma on_world_Panicked: "m w = Panicked e w' \<Longrightarrow> on_world m (c, w) = Panicked e (c, w')"
  by (simp add: on_world_def zoom_def)

lemma insert_action_ok:
  assumes "map_in w p n Unborrowed m" "calm w" "sm_insert (uc_slotmap uc) a m = Some (key, m')"
  shows "insert_action uc p a w = Done key (celled p Unborrowed m' w)"
proof -
  have "thenM (set_cell p MutBorrow m') (ret key) (celled p MutBorrow m w) = Done key (celled p MutBorrow m' w)"
    using set_cell_eval [OF map_in_celled [OF assms(1)], of MutBorrow m'] by simp
  moreover have "ref_mut_drop p (celled p MutBorrow m' w) = Done () (celled p Unborrowed m' w)"
    using ref_mut_drop_eval [OF map_in_celled [OF assms(1)], of MutBorrow m'] by simp
  ultimately have "with_local (ref_mut_drop p) (thenM (set_cell p MutBorrow m') (ret key)) (celled p MutBorrow m w)
      = Done key (celled p Unborrowed m' w)" by (rule with_local_Done)
  then show ?thesis
    using assms by (simp add: insert_action_def try_borrow_mut_def cell_of_eval set_cell_eval bindM_def thenM_def)
qed

text \<open>The part of \<open>register\<close> after the map has been found or made.\<close>

definition register_in :: "'f user_code \<Rightarrow> allocator \<Rightarrow> addr \<Rightarrow> nat \<Rightarrow> (cleaner \<times> 'f world, cleanable) prog" where
  "register_in uc al p a = bindM (on_world (insert_action uc p a)) (\<lambda>key.
     bindM (on_world (downgrade al p)) (\<lambda>weak. ret \<lparr>cl_cleaner_map = weak, cl_key = key\<rparr>))"

lemma register_split: "cleaner_register fl uc f al layout a = bindM (get_or_insert_map fl uc f al layout) (\<lambda>p. register_in uc al p a)"
  by (simp add: cleaner_register_def register_in_def)

lemma register_in_ok:
  assumes inv: "drop_inv {} ps W w" and p: "map_in w p n Unborrowed m"
    and ins: "sm_insert (uc_slotmap uc) a m = Some (key, m')"
    and al: "fresh_allocator al" "finite (dom (w_meta w))"
    and W: "weak_room W w p"
  shows "\<exists>w' k. register_in uc al p a (c, w) = Done \<lparr>cl_cleaner_map = k, cl_key = key\<rparr> (c, w') \<and>
    wk_cc k = p \<and> drop_inv {} (remove1 p ps) (add_mset k W) w' \<and> map_in w' p n Unborrowed m' \<and> (0 < n \<longrightarrow> upgradable k w')"
proof -
  let ?w = "celled p Unborrowed m' w"
  have 1: "insert_action uc p a w = Done key ?w" by (rule insert_action_ok [where n = n, OF p drop_invD(3) [OF inv] ins])
  have fin: "finite (dom (w_meta ?w))" using al(2) by simp
  have "weak_room W ?w p" using W p by (auto simp: weak_room_def map_in_def)
  from downgrade_inv [OF celled_inv [OF inv] map_in_celled [OF p] al(1) fin this] obtain w' k where
    2: "downgrade al p ?w = Done k w'" "wk_cc k = p" "drop_inv {} (remove1 p ps) (add_mset k W) w'" "map_in w' p n Unborrowed m'"
    "0 < n \<longrightarrow> upgradable k w'" by blast
  have "register_in uc al p a (c, w) = Done \<lparr>cl_cleaner_map = k, cl_key = key\<rparr> (c, w')"
    using on_world_Done [where m = "insert_action uc p a", OF 1] on_world_Done [where m = "downgrade al p", OF 2(1)]
    by (simp add: register_in_def)
  with 2 show ?thesis by blast
qed

lemma register_existing:
  assumes "drop_inv {} ps W w" "cleaner_map c = Some p" "map_in w p n Unborrowed m"
    and "sm_insert (uc_slotmap uc) a m = Some (key, m')"
    and "fresh_allocator al" "finite (dom (w_meta w))" and "weak_room W w p"
  shows "\<exists>w' k. cleaner_register fl uc f al layout a (c, w) = Done \<lparr>cl_cleaner_map = k, cl_key = key\<rparr> (c, w') \<and>
    wk_cc k = p \<and> drop_inv {} (remove1 p ps) (add_mset k W) w' \<and> map_in w' p n Unborrowed m' \<and> (0 < n \<longrightarrow> upgradable k w')"
proof -
  have "get_or_insert_map fl uc f al layout (c, w) = Done p (c, w)" using assms(2) by (simp add: get_or_insert_map_def bindM_def)
  then show ?thesis using register_in_ok [where c = c, OF assms(1,3-7)] by (simp add: register_split)
qed

lemma register_borrowed:
  assumes "cleaner_map c = Some p" "map_in w p n flag m" "calm w" "flag \<noteq> Unborrowed"
  shows "cleaner_register fl uc f al layout a (c, w) = Panicked (PanicMsg ''already borrowed'') (c, w)"
proof -
  have "insert_action uc p a w = Panicked (PanicMsg ''already borrowed'') w"
    using assms(4) cell_of_eval [OF assms(2,3)] by (simp add: insert_action_def try_borrow_mut_def bindM_def)
  from on_world_Panicked [where m = "insert_action uc p a", OF this] assms(1) show ?thesis
    by (simp add: cleaner_register_def get_or_insert_map_def bindM_def)
qed

text \<open>A full map: the action is run by the unwinding, with the map borrowed.\<close>

lemma gc_inv_drop_inv: "gc_inv ps W w \<Longrightarrow> \<not> is_tracing (w_state w) \<Longrightarrow> drop_inv {} ps W w"
  unfolding drop_inv_def by (auto simp: gc_inv_def calm_def tc_of_def)

lemma register_fresh:
  assumes inv: "gc_inv ps W w" and acc: "accounted W w" and q: "quiet (w_boxes w) (set ps)"
    and n: "card (reach (w_boxes w) (set ps)) < Suc f" and e: "unat (st_executions_counter (w_state w)) + 1 < 2 ^ 64"
    and t: "trigger_ready w" and idle: "\<not> is_tracing (w_state w)" and al: "fresh_allocator al" "finite (dom (w_meta w))"
    and room: "card (dom (w_boxes w)) + 1 < 2 ^ 64" "unat (st_allocated_bytes (w_state w)) + unat layout < 2 ^ 64"
    and ins: "sm_insert (uc_slotmap uc) a (sm_new (uc_slotmap uc)) = Some (key, m')"
  shows "\<exists>p k w' qs V. cleaner_register fl uc (Suc f) al layout a (cleaner_new, w)
      = Done \<lparr>cl_cleaner_map = k, cl_key = key\<rparr> (\<lparr>cleaner_map = Some p\<rparr>, w') \<and>
    wk_cc k = p \<and> drop_inv {} qs (add_mset k V) w' \<and> map_in w' p 1 Unborrowed m' \<and> upgradable k w'"
proof -
  let ?t = "CleanerMapT Unborrowed (sm_new (uc_slotmap uc))"
  have "weaks_of (Some ?t) + weaks_in (w_boxes w) \<subseteq># W" using accounted_weaks [OF acc] by simp
  from cc_new_ok [OF inv acc q n e t idle al(1) room this, of fl uc] obtain w1 p qs V where
    1: "cc_new fl uc (Suc f) al layout (Some ?t) w = Done p (with_box p layout (Some ?t) w1)" "triggered ps w w1"
    "gc_inv qs V (with_box p layout (Some ?t) w1)" by blast
  let ?w1 = "with_box p layout (Some ?t) w1" and ?c = "\<lparr>cleaner_map = Some p\<rparr>"
  note r = triggered_rest [OF 1(2)]
  have "\<not> is_tracing (w_state ?w1)" using r(5) idle by (auto simp: is_tracing_def)
  with 1(3) have inv1: "drop_inv {} qs V ?w1" by (rule gc_inv_drop_inv)
  have p: "map_in ?w1 p 1 Unborrowed (sm_new (uc_slotmap uc))" by (simp add: map_in_def)
  have "dom (w_meta w1) \<subseteq> dom (w_meta w)" using r(8) by (auto simp: metas_kept_def)
  then have fin: "finite (dom (w_meta ?w1))" using al(2) by (simp add: finite_subset)
  have "weak_room V ?w1 p" by (simp add: weak_room_def)
  from register_in_ok [where c = "\<lparr>cleaner_map = Some p\<rparr>", OF inv1 p ins al(1) fin this] obtain w' k where
    2: "register_in uc al p a (?c, ?w1) = Done \<lparr>cl_cleaner_map = k, cl_key = key\<rparr> (?c, w')" "wk_cc k = p"
    "drop_inv {} (remove1 p qs) (add_mset k V) w'" "map_in w' p 1 Unborrowed m'" "upgradable k w'" by auto
  have "get_or_insert_map fl uc (Suc f) al layout (cleaner_new, w) = Done p (?c, ?w1)"
    using on_world_Done [where m = "cc_new fl uc (Suc f) al layout (Some ?t)", OF 1(1)]
    by (simp add: get_or_insert_map_def cleaner_new_def bindM_def thenM_def)
  with 2 show ?thesis by (simp add: register_split) blast
qed

end
