(* ===== verification/User_Drop.thy ===== *)
theory User_Drop
  imports Cleaner_Register
begin

text \<open>
  The last \<open>Cc\<close> to a box whose value has a destructor of its own, or is a map of cleaning actions: the
  destructors run once, while the box is still allocated but already marked as dropped, and the box
  is freed afterwards, whatever they have done to the rest of the memory.
\<close>

text \<open>The world in which the parts of the value are dropped.\<close>

definition destroying :: "addr \<Rightarrow> addr list \<Rightarrow> weak_ptr multiset \<Rightarrow> 'f world \<Rightarrow> 'f world \<Rightarrow> bool" where
  "destroying p ps W w v \<longleftrightarrow> drop_inv {} (remove1 p ps) W v \<and>
     (\<exists>h l M. v = w\<lparr>w_boxes := h, w_pc := l, w_meta := M, w_state := set_dropping True (w_state w)\<rparr> \<and> metas_kept (w_meta w) M) \<and>
     (\<exists>b c. w_boxes v p = Some b \<and> b_elem b = None \<and> v_rc (view (b_cm b)) = 0 \<and> v_tc (view (b_cm b)) = 16383 \<and>
        w_boxes w p = Some c \<and> box_meta b = box_meta c) \<and>
     (\<forall>q. q \<noteq> p \<longrightarrow> rel_option (box_lowered 0) (w_boxes w q) (w_boxes v q))"

text \<open>What the destructors have to leave: the weak pointers, the box, and the bytes it takes.\<close>

definition freed_box :: "addr \<Rightarrow> nat \<Rightarrow> bool \<Rightarrow> 'f world \<Rightarrow> 'f world \<Rightarrow> bool" where
  "freed_box p n d v w \<longleftrightarrow> (\<exists>M l. w = v\<lparr>w_meta := M, w_boxes := (w_boxes v)(p := None),
     w_state := set_dropping d ((w_state v)\<lparr>st_allocated_bytes := st_allocated_bytes (w_state v) - l\<rparr>)\<rparr>
     \<and> unat l = n \<and> n \<le> unat (st_allocated_bytes (w_state v)) \<and> metas_kept (w_meta v) M)"

definition box_left :: "addr \<Rightarrow> nat \<Rightarrow> weak_ptr multiset \<Rightarrow> 'f world \<Rightarrow> bool" where
  "box_left p n V v \<longleftrightarrow> weak_inv V v \<and> w_boxes v p \<noteq> None \<and> n \<le> unat (st_allocated_bytes (w_state v))"

lemma box_lowered_rc: "box_lowered n b c \<Longrightarrow> v_rc (view (b_cm b)) = v_rc (view (b_cm c)) + n"
  by (simp add: box_lowered_def)

subsection \<open>The two halves of the destructor\<close>

text \<open>The finalization of the value behind a last reference, which says whether the box lives on.\<close>

definition finalize_last :: "'f user_code \<Rightarrow> addr \<Rightarrow> ('f, bool) gc" where
  "finalize_last uc p = bindM (on_boxes (cm_test p needs_finalization)) (\<lambda>needs. if needs then
     with_field FieldFinalizing True
       (thenM (on_boxes (on_cm p (modifyM (set_finalized True))))
       (thenM (run_finalizer uc p)
       (bindM (on_boxes (on_cm p counter)) (\<lambda>c2.
        if c2 \<noteq> 1 then thenM (handle_possible_cycle p) (ret True) else ret False))))
   else ret False)"

definition destroy_last :: "'f user_code \<Rightarrow> nat \<Rightarrow> addr \<Rightarrow> ('f, unit) gc" where
  "destroy_last uc n p = thenM (decrement_rc p) (thenM (remove_from_list p) (destroy_box uc n p))"

lemma cc_drop_halves:
  assumes p: "w_boxes w p = Some b" "v_rc (view (b_cm b)) = 1" "\<not> in_collector b" and calm: "calm w"
  shows "cc_drop uc (Suc n) p w = bindM (finalize_last uc p) (\<lambda>resurrected. if resurrected then ret () else destroy_last uc n p) w"
proof -
  have tests: "on_boxes (cm_test p f) w = Done (f (b_cm b)) w" for f using p by (simp add: on_boxes_def zoom_def)
  have cnt: "on_boxes (on_cm p counter) w = Done 1 w"
    using on_cm_read [of "w_boxes w" p b counter] p by (simp add: on_boxes_def zoom_def)
  have one: "drop_by uc (cc_drop uc n) = drop_one uc n" by (simp add: drop_one_def)
  show ?thesis
    using calm tests [of is_in_list_or_queue] cnt p(3)
    unfolding cc_drop.simps one
    by (simp add: in_collector_def cm_tests with_state_def calm_def bindM_def finalize_last_def destroy_last_def destroy_box_def
        drop_marked_def thenM_assoc cong: if_cong)
qed

lemma finalize_last_done:
  assumes "w_boxes w p = Some b" "v_fin (view (b_cm b))"
  shows "finalize_last uc p w = Done False w"
  using assms by (simp add: finalize_last_def on_boxes_def zoom_def cm_tests bindM_def)

text \<open>The world in which the finalizers run, and the one after them.\<close>

definition finalizing_world :: "addr \<Rightarrow> 'f world \<Rightarrow> 'f world" where
  "finalizing_world p w = w\<lparr>w_state := set_finalizing True (w_state w),
     w_boxes := upd p (\<lambda>b. b\<lparr>b_cm := set_finalized True (b_cm b)\<rparr>) (w_boxes w)\<rparr>"

definition finalized_world :: "'f world \<Rightarrow> 'f world \<Rightarrow> 'f world" where
  "finalized_world w u = u\<lparr>w_state := set_finalizing (st_finalizing (w_state w)) (w_state u)\<rparr>"

lemma finalize_last_run:
  assumes p: "w_boxes w p = Some b" "b_elem b = Some v" "\<not> v_fin (view (b_cm b))"
    and run: "forM (finalize_val v) (uc_finalize uc) (finalizing_world p w) = Done () u"
    and c: "w_boxes u p = Some c" "v_rc (view (b_cm c)) < 16383"
  shows "v_rc (view (b_cm c)) = 1 \<Longrightarrow> finalize_last uc p w = Done False (finalized_world w u)"
    "v_rc (view (b_cm c)) \<noteq> 1 \<Longrightarrow> handle_possible_cycle p u = Done () u' \<Longrightarrow> finalize_last uc p w = Done True (finalized_world w u')"
proof -
  let ?v = "w\<lparr>w_state := field_set FieldFinalizing True (w_state w)\<rparr>" and ?g = "finalizing_world p w"
  have "upd p (\<lambda>c. c\<lparr>b_cm := set_finalized True (b_cm b)\<rparr>) (w_boxes w) = upd p (\<lambda>b. b\<lparr>b_cm := set_finalized True (b_cm b)\<rparr>) (w_boxes w)"
    using p(1) by (intro ext) (simp add: upd_apply)
  then have 1: "on_boxes (on_cm p (modifyM (set_finalized True))) ?v = Done () ?g"
    using on_cm_Done [of "w_boxes w" p b "modifyM (set_finalized True)"] p(1) by (simp add: on_boxes_def zoom_def finalizing_world_def)
  have 2: "run_finalizer uc p ?g = Done () u"
    using p(1,2) run by (simp add: run_finalizer_def get_elem_def on_boxes_def zoom_def bindM_def finalizing_world_def)
  have 3: "on_boxes (on_cm p counter) u = Done (word_of_nat (v_rc (view (b_cm c)))) u"
    using on_cm_read [of "w_boxes u" p c counter] c by (simp add: on_boxes_def zoom_def)
  let ?body = "thenM (on_boxes (on_cm p (modifyM (set_finalized True)))) (thenM (run_finalizer uc p)
       (bindM (on_boxes (on_cm p counter)) (\<lambda>c2. if c2 \<noteq> 1 then thenM (handle_possible_cycle p) (ret True) else ret False)))"
  have body: "finalize_last uc p w = Done r (finalized_world w t)" if "?body ?v = Done r t" for r t
  proof -
    have "finalize_last uc p w = with_field FieldFinalizing True ?body w"
      using p(1,3) by (simp add: finalize_last_def on_boxes_def zoom_def cm_tests bindM_def)
    also have "\<dots> = Done r (t\<lparr>w_state := field_set FieldFinalizing (field_get FieldFinalizing (w_state w)) (w_state t)\<rparr>)"
      by (rule with_field_Done) (rule that)
    finally show ?thesis by (simp add: finalized_world_def)
  qed
  show "v_rc (view (b_cm c)) = 1 \<Longrightarrow> finalize_last uc p w = Done False (finalized_world w u)"
    by (rule body) (use 1 2 3 in simp)
  assume ne: "v_rc (view (b_cm c)) \<noteq> 1" and h: "handle_possible_cycle p u = Done () u'"
  have "(word_of_nat (v_rc (view (b_cm c))) :: u16) \<noteq> 1"
    using ne c(2) word_of_nat_u16_numeral by (auto simp: word_unat_eq_iff unat_of_nat)
  with 1 2 3 h show "finalize_last uc p w = Done True (finalized_world w u')" by (intro body) simp
qed

subsection \<open>The second half\<close>

lemma destroy_last_frame:
  assumes inv: "drop_inv {} ps W w" and p: "w_boxes w p = Some b" "v_rc (view (b_cm b)) = 1" "b_elem b = Some e"
    and glue: "\<And>v. destroying p ps W w v \<Longrightarrow> \<exists>v' V. drop_seq (drop_one uc n) (drop_glue e) v = Done () v' \<and> box_left p (size_of w p) V v' \<and> Q V v'"
  shows "\<exists>v v' w' V. destroying p ps W w v \<and> drop_seq (drop_one uc n) (drop_glue e) v = Done () v' \<and> Q V v' \<and>
    destroy_last uc n p w = Done () w' \<and> freed_box p (size_of w p) (st_dropping (w_state w)) v' w' \<and> weak_inv V w'"
proof -
  let ?g = "\<lambda>b. b\<lparr>b_cm := rc_minus_one (b_cm b)\<rparr>"
  let ?w1 = "w\<lparr>w_boxes := upd p ?g (w_boxes w)\<rparr>"
  have inv1: "drop_inv {} ps W ?w1"
    by (rule drop_inv_upd [OF inv]) (use p(1,2) in \<open>simp add: cm_upd box_meta_def\<close>)
  have b1: "w_boxes ?w1 p = Some (?g b)" using p(1) by simp
  from remove_from_list_inv [OF inv1 b1] obtain w2 where
    2: "remove_from_list p ?w1 = Done () w2" "drop_inv {} (remove1 p ps) W w2" "lowered {} (\<lambda>_. 0) ?w1 w2" by blast
  from loweredD [OF 2(3) b1] obtain b2 where b2: "w_boxes w2 p = Some b2" "box_lowered 0 (?g b) b2" by blast
  from 2(3) have kept: "metas_kept (w_meta w) (w_meta w2)" unfolding lowered_def by auto
  have size: "size_of w2 p = size_of w p"
    by (rule size_of_kept [OF drop_invD(2) [OF 2(2)] kept p(1) b2(1)])
      (use b2(2) p(2) in \<open>simp add: box_lowered_def box_meta_def cm_upd\<close>)
  have elem: "b_elem b2 = Some e" using b2(2) p(3) by (simp add: box_lowered_def)
  let ?w3 = "w2\<lparr>w_state := field_set FieldDropping True (w_state w2)\<rparr>" and ?v = "gone_world p (w2\<lparr>w_state := field_set FieldDropping True (w_state w2)\<rparr>)"
  have inv3: "drop_inv {} (remove1 p ps) W ?w3" by (rule drop_inv_state [OF 2(2)]) (simp add: is_tracing_def set_dropping_def)
  have np: "p \<notin> set (remove1 p ps)"
    using buffered_repr [OF drop_invD(1) [OF inv]] by (auto simp: pc_repr_def)
  have b3: "w_boxes ?w3 p = Some b2" using b2(1) by simp
  have "size_of ?w3 p = size_of w2 p" using b2(1) by (simp add: size_of_def split: metadata.splits option.splits)
  with box_layout_ok [OF drop_invD(2) [OF inv3] b3] size obtain l where
    l: "box_layout p ?w3 = Done l ?w3" "unat l = size_of w p" by auto
  have "destroying p ps W w ?v"
    unfolding destroying_def
  proof (intro conjI allI impI)
    show "drop_inv {} (remove1 p ps) W ?v" by (rule drop_inv_upd [OF inv3]) (use np in \<open>simp add: cm_upd box_meta_def\<close>)
    from 2(3) obtain h k M where w2: "w2 = ?w1\<lparr>w_boxes := h, w_pc := k, w_meta := M\<rparr>" unfolding lowered_def by blast
    have "?v = w\<lparr>w_boxes := w_boxes ?v, w_pc := k, w_meta := M, w_state := set_dropping True (w_state w)\<rparr>" by (simp add: w2)
    moreover have "metas_kept (w_meta w) M" using kept by (simp add: w2)
    ultimately show "\<exists>h l M. ?v = w\<lparr>w_boxes := h, w_pc := l, w_meta := M, w_state := set_dropping True (w_state w)\<rparr> \<and> metas_kept (w_meta w) M" by blast
    show "\<exists>b c. w_boxes ?v p = Some b \<and> b_elem b = None \<and> v_rc (view (b_cm b)) = 0 \<and> v_tc (view (b_cm b)) = 16383 \<and>
        w_boxes w p = Some c \<and> box_meta b = box_meta c"
      using b2 p(1,2) by (simp add: cm_upd box_lowered_def box_meta_def)
    fix q assume q: "q \<noteq> p"
    from 2(3) have "rel_option (box_lowered 0) (w_boxes ?w1 q) (w_boxes w2 q)" unfolding lowered_def by blast
    with q show "rel_option (box_lowered 0) (w_boxes w q) (w_boxes ?v q)" by simp
  qed
  moreover from glue [OF this] obtain v' V where
    v': "drop_seq (drop_one uc n) (drop_glue e) ?v = Done () v'" "box_left p (size_of w p) V v'" "Q V v'" by blast
  from v'(2) obtain b' where b': "w_boxes v' p = Some b'" "weak_inv V v'" "unat l \<le> unat (st_allocated_bytes (w_state v'))"
    by (auto simp: box_left_def l(2))
  from free_box_ok [OF b'(2,1,3)] obtain M w4 where
    4: "thenM (drop_metadata p) (cc_dealloc p l) v' = Done () w4" "weak_inv V w4"
    "w4 = v'\<lparr>w_meta := M, w_state := (w_state v')\<lparr>st_allocated_bytes := st_allocated_bytes (w_state v') - l\<rparr>,
       w_boxes := (w_boxes v')(p := None)\<rparr>" "metas_kept (w_meta v') M" by blast
  let ?w' = "w4\<lparr>w_state := field_set FieldDropping (field_get FieldDropping (w_state w2)) (w_state w4)\<rparr>"
  have inner: "drop_marked uc n p ?w3 = Done () v'" using drop_marked_eval [OF b3 elem, of uc n] v'(1) by simp
  have run: "destroy_box uc n p w2 = Done () ?w'"
    unfolding destroy_box_def by (rule with_field_Done) (use l(1) inner 4(1) in simp)
  have dec: "decrement_rc p w = Done () ?w1" using decrement_rc_ok [OF p(1)] p(2) by simp
  have "destroy_last uc n p w = Done () ?w'" using dec 2(1) run by (simp add: destroy_last_def)
  moreover have "weak_inv V ?w'" by (rule weak_inv_cong [OF 4(2)]) simp_all
  moreover have "freed_box p (size_of w p) (st_dropping (w_state w)) v' ?w'"
  proof -
    have "st_dropping (w_state w2) = st_dropping (w_state w)" using 2(3) unfolding lowered_def by auto
    then have "?w' = v'\<lparr>w_meta := M, w_boxes := (w_boxes v')(p := None),
        w_state := set_dropping (st_dropping (w_state w)) ((w_state v')\<lparr>st_allocated_bytes := st_allocated_bytes (w_state v') - l\<rparr>)\<rparr>"
      by (simp add: 4(3))
    moreover have "size_of w p \<le> unat (st_allocated_bytes (w_state v'))" using b'(3) l(2) by simp
    ultimately show ?thesis unfolding freed_box_def using l(2) 4(4) by blast
  qed
  ultimately show ?thesis using v'(1,3) by blast
qed

lemma cc_drop_last_frame:
  assumes inv: "drop_inv {} ps W w" and p: "w_boxes w p = Some b" "v_rc (view (b_cm b)) = 1" "b_elem b = Some e"
    and fin: "finalize_val e = []"
    and glue: "\<And>v. destroying p ps W w v \<Longrightarrow> \<exists>v' V. drop_seq (drop_one uc n) (drop_glue e) v = Done () v' \<and> box_left p (size_of w p) V v' \<and> Q V v'"
  shows "\<exists>v v' w' V. destroying p ps W w v \<and> drop_seq (drop_one uc n) (drop_glue e) v = Done () v' \<and> Q V v' \<and>
    cc_drop uc (Suc n) p w = Done () w' \<and> freed_box p (size_of w p) (st_dropping (w_state w)) v' w' \<and> weak_inv V w'"
proof -
  let ?f = "w\<lparr>w_boxes := upd p (\<lambda>b. b\<lparr>b_cm := set_finalized True (b_cm b)\<rparr>) (w_boxes w)\<rparr>"
  let ?b = "b\<lparr>b_cm := set_finalized True (b_cm b)\<rparr>"
  have b: "w_boxes ?f p = Some ?b" "v_rc (view (b_cm ?b)) = 1" "b_elem ?b = Some e" using p by (simp_all add: cm_upd)
  have inv1: "drop_inv {} ps W ?f" by (rule drop_inv_upd [OF inv]) (simp add: cm_upd box_meta_def)
  have size: "size_of ?f p = size_of w p" using p(1) by (simp add: size_of_def split: metadata.splits option.splits)
  have de: "destroying p ps W w v" if v: "destroying p ps W ?f v" for v
  proof -
    from v obtain h l M where "v = ?f\<lparr>w_boxes := h, w_pc := l, w_meta := M, w_state := set_dropping True (w_state ?f)\<rparr>" "metas_kept (w_meta ?f) M"
      unfolding destroying_def by blast
    then have "v = w\<lparr>w_boxes := h, w_pc := l, w_meta := M, w_state := set_dropping True (w_state w)\<rparr>" "metas_kept (w_meta w) M" by simp_all
    moreover have "rel_option (box_lowered 0) (w_boxes w q) (w_boxes v q)" if "q \<noteq> p" for q
    proof -
      from v that have "rel_option (box_lowered 0) (w_boxes ?f q) (w_boxes v q)" unfolding destroying_def by blast
      with that show ?thesis by simp
    qed
    ultimately show ?thesis using v p(1) unfolding destroying_def by (auto simp: box_meta_def cm_upd)
  qed
  have "\<exists>v' V. drop_seq (drop_one uc n) (drop_glue e) v = Done () v' \<and> box_left p (size_of ?f p) V v' \<and> Q V v'"
    if "destroying p ps W ?f v" for v
    unfolding size by (rule glue [OF de [OF that]])
  from destroy_last_frame [where Q = Q, OF inv1 b this] obtain v v' w' V where
    1: "destroying p ps W ?f v" "drop_seq (drop_one uc n) (drop_glue e) v = Done () v'" "Q V v'"
    "destroy_last uc n p ?f = Done () w'" "freed_box p (size_of w p) (st_dropping (w_state w)) v' w'" "weak_inv V w'"
    unfolding size by auto
  have nc: "\<not> in_collector b" using drop_invD(6) [OF inv p(1)] by simp
  have "finalize_last uc p w = Done False ?f"
  proof (cases "v_fin (view (b_cm b))")
    case True
    then have "?f = w" using p(1) set_finalized_again by (simp add: upd_id)
    with finalize_last_done [OF p(1) True] show ?thesis by simp
  next
    case False
    have "forM (finalize_val e) (uc_finalize uc) (finalizing_world p w) = Done () (finalizing_world p w)" by (simp add: fin)
    moreover have "finalized_world w (finalizing_world p w) = ?f"
      by (cases w) (simp add: finalized_world_def finalizing_world_def set_finalizing_def)
    ultimately show ?thesis
      using finalize_last_run(1) [OF p(1,3) False, of uc "finalizing_world p w" ?b] b by (simp add: finalizing_world_def)
  qed
  then have "cc_drop uc (Suc n) p w = Done () w'"
    using cc_drop_halves [OF p(1,2) nc drop_invD(3) [OF inv], of uc n] 1(4) by (simp add: bindM_def del: cc_drop.simps)
  with 1 de show ?thesis by blast
qed

lemma freed_boxD:
  assumes "freed_box p n d v w"
  shows "w_boxes w = (w_boxes v)(p := None)" "w_pc w = w_pc v" "metas_kept (w_meta v) (w_meta w)"
    "unat (st_allocated_bytes (w_state w)) + n = unat (st_allocated_bytes (w_state v))"
    "w_state_alive w = w_state_alive v" "w_pc_alive w = w_pc_alive v" "wk_cc k = p \<Longrightarrow> \<not> upgradable k w"
proof -
  from assms obtain M l where w: "w = v\<lparr>w_meta := M, w_boxes := (w_boxes v)(p := None),
     w_state := set_dropping d ((w_state v)\<lparr>st_allocated_bytes := st_allocated_bytes (w_state v) - l\<rparr>)\<rparr>"
    "unat l = n" "n \<le> unat (st_allocated_bytes (w_state v))" "metas_kept (w_meta v) M" unfolding freed_box_def by blast
  show "w_boxes w = (w_boxes v)(p := None)" "w_pc w = w_pc v" "metas_kept (w_meta v) (w_meta w)"
    "w_state_alive w = w_state_alive v" "w_pc_alive w = w_pc_alive v" using w(4) by (simp_all add: w(1))
  show "unat (st_allocated_bytes (w_state w)) + n = unat (st_allocated_bytes (w_state v))"
    using w(2,3) by (simp add: w(1) set_dropping_def unat_sub word_le_nat_alt)
  have "w_boxes w p = None" by (simp add: w(1))
  then show "wk_cc k = p \<Longrightarrow> \<not> upgradable k w" by (simp add: upgradable_def split: option.splits)
qed

lemma cc_drop_last_user:
  assumes inv: "drop_inv {} ps W w" and p: "w_boxes w p = Some b" "v_rc (view (b_cm b)) = 1" "b_elem b = Some e"
    and fin: "finalize_val e = []"
    and glue: "\<And>v. destroying p ps W w v \<Longrightarrow> \<exists>v' V. drop_seq (drop_one uc n) (drop_glue e) v = Done () v' \<and> box_left p (size_of w p) V v'"
  shows "\<exists>v v' w' V. destroying p ps W w v \<and> drop_seq (drop_one uc n) (drop_glue e) v = Done () v' \<and>
    cc_drop uc (Suc n) p w = Done () w' \<and> w_boxes w' = (w_boxes v')(p := None) \<and> weak_inv V w' \<and>
    unat (st_allocated_bytes (w_state w')) + size_of w p = unat (st_allocated_bytes (w_state v')) \<and>
    (\<forall>k \<in># V. wk_cc k = p \<longrightarrow> \<not> upgradable k w')"
proof -
  have "\<exists>v' V. drop_seq (drop_one uc n) (drop_glue e) v = Done () v' \<and> box_left p (size_of w p) V v' \<and> True" if "destroying p ps W w v" for v
    using glue [OF that] by blast
  from cc_drop_last_frame [where Q = "\<lambda>_ _. True", OF inv p fin this] obtain v v' w' V where
    "destroying p ps W w v" "drop_seq (drop_one uc n) (drop_glue e) v = Done () v'" "cc_drop uc (Suc n) p w = Done () w'"
    "freed_box p (size_of w p) (st_dropping (w_state w)) v' w'" "weak_inv V w'" by blast
  with freed_boxD [OF this(4)] show ?thesis by blast
qed

text \<open>The box of a map: its actions run in the order of the map's values.\<close>

lemma drop_alone: "thenM (on_unwind m (ret ())) (ret ()) = m"
  by (rule ext) (simp add: thenM_def bindM_def on_unwind_def split: outcome.split)

lemma drop_map_glue: "drop_seq (drop_one uc n) (drop_glue (CleanerMapT flag m)) = drop_seq (uc_action uc) (sm_values (uc_slotmap uc) m)"
proof -
  have "cleaning_action_drop uc = uc_action uc" by (rule ext) (simp add: cleaning_action_drop_def)
  then show ?thesis by (simp add: drop_alone drop_one_def)
qed

lemma map_dropped:
  assumes inv: "drop_inv {} ps W w" and p: "w_boxes w p = Some b" "v_rc (view (b_cm b)) = 1" "b_elem b = Some (CleanerMapT flag m)"
    and acts: "\<And>v. destroying p ps W w v \<Longrightarrow> \<exists>v' V. drop_seq (uc_action uc) (sm_values (uc_slotmap uc) m) v = Done () v' \<and>
      box_left p (size_of w p) V v'"
  shows "\<exists>v v' w' V. destroying p ps W w v \<and> drop_seq (uc_action uc) (sm_values (uc_slotmap uc) m) v = Done () v' \<and>
    cc_drop uc (Suc n) p w = Done () w' \<and> w_boxes w' = (w_boxes v')(p := None) \<and> weak_inv V w' \<and>
    unat (st_allocated_bytes (w_state w')) + size_of w p = unat (st_allocated_bytes (w_state v')) \<and>
    (\<forall>k \<in># V. wk_cc k = p \<longrightarrow> \<not> upgradable k w')"
  using cc_drop_last_user [OF inv p, of uc n, unfolded drop_map_glue] acts by (simp add: finalize_default_def del: cc_drop.simps)

end
