(* ===== verification/Ownership.thy ===== *)
theory Ownership
  imports User_Drop
begin

text \<open>
  Ownership: every reference counter counts exactly the \<open>Cc\<close>s that exist, those that the values in
  the boxes own and those (\<open>D\<close>) that the program or the collector holds. \<open>sound\<close> adds to the invariant
  of the destructors that every box is alive with a value, but for the boxes \<open>X\<close>, whose value is
  being dropped, that every other box can be reached from \<open>D\<close> or from the buffer of possible cycles,
  so that a collection can find it, that the weak pointers \<open>K\<close> of the program and those in values are counted, and that
  the allocated bytes are the sizes of the boxes.
\<close>

text \<open>
  A value that traces exactly the \<open>Cc\<close>s it owns and has no code of its own but the finalizers \<open>F\<close>.
\<close>

definition plain_val :: "nat set \<Rightarrow> tval \<Rightarrow> bool" where
  "plain_val F v \<longleftrightarrow> plain_glue (drop_glue v) \<and> set (finalize_val v) \<subseteq> F \<and> \<not> panics (trace_val v) \<and>
     mset (dropped_ccs (drop_glue v)) = mset (called (trace_val v))"

text \<open>What a client sees of the memory: the values.\<close>

definition vals_of :: "'f world \<Rightarrow> addr \<Rightarrow> tval option" where
  "vals_of w p = (case w_boxes w p of None \<Rightarrow> None | Some b \<Rightarrow> b_elem b)"

lemma vals_of_cong: "(\<And>p. map_option b_elem (w_boxes w' p) = map_option b_elem (w_boxes w p)) \<Longrightarrow> vals_of w' = vals_of w"
proof (rule ext)
  fix p assume "\<And>p. map_option b_elem (w_boxes w' p) = map_option b_elem (w_boxes w p)"
  from this [of p] show "vals_of w' p = vals_of w p" by (cases "w_boxes w' p"; cases "w_boxes w p") (auto simp: vals_of_def)
qed

subsection \<open>What the values own\<close>

definition owned :: "(drop_call list \<Rightarrow> 'a list) \<Rightarrow> boxes \<Rightarrow> 'a multiset" where
  "owned f h = (\<Sum>p \<in> dom h. mset (f (glue_of h p)))"

lemma owned_cong:
  assumes "\<And>p. map_option b_elem (g p) = map_option b_elem (h p)"
  shows "owned f g = owned f h"
proof -
  have "p \<in> dom g \<longleftrightarrow> p \<in> dom h" for p using assms [of p] by (cases "g p"; cases "h p") auto
  then have "dom g = dom h" by blast
  moreover have "glue_of g p = glue_of h p" for p
    using assms [of p] by (cases "g p"; cases "h p") (auto simp: glue_of_def)
  ultimately show ?thesis by (simp add: owned_def)
qed

text \<open>The value of one box leaves its box.\<close>

lemma owned_take:
  assumes fin: "finite (dom h)" and p: "h p = Some b" "b_elem b = Some v" and f: "f [] = []"
    and g: "g p = None \<or> (\<exists>c. g p = Some c \<and> b_elem c = None)"
    and other: "\<And>q. q \<noteq> p \<Longrightarrow> map_option b_elem (g q) = map_option b_elem (h q)"
  shows "owned f h = owned f g + mset (f (drop_glue v))"
proof -
  have glue: "q \<noteq> p \<Longrightarrow> glue_of g q = glue_of h q" for q
    using other [of q] by (cases "g q"; cases "h q") (auto simp: glue_of_def)
  have dom: "q \<noteq> p \<Longrightarrow> q \<in> dom g \<longleftrightarrow> q \<in> dom h" for q
    using other [of q] by (cases "g q"; cases "h q") auto
  have gp: "glue_of g p = []" using g by (auto simp: glue_of_def)
  have pd: "p \<in> dom h" using p by blast
  have "owned f h = mset (f (glue_of h p)) + (\<Sum>q \<in> dom h - {p}. mset (f (glue_of h q)))"
    unfolding owned_def by (rule sum.remove [OF fin pd])
  also have "(\<Sum>q \<in> dom h - {p}. mset (f (glue_of h q))) = (\<Sum>q \<in> dom h - {p}. mset (f (glue_of g q)))"
    by (rule sum.cong) (use glue in auto)
  also have "\<dots> = owned f g"
  proof -
    have "dom g \<subseteq> insert p (dom h - {p})" using dom by auto
    then have "finite (dom g)" by (rule finite_subset) (use fin in simp)
    then have "owned f g = (\<Sum>q \<in> dom g - {p}. mset (f (glue_of g q)))"
      unfolding owned_def by (cases "p \<in> dom g") (simp_all add: sum.remove [of "dom g" p] gp f)
    also have "dom g - {p} = dom h - {p}" using dom by blast
    finally show ?thesis by simp
  qed
  finally show ?thesis using p by (simp add: glue_of_def)
qed

lemma owned_mem:
  assumes "finite (dom h)" "h p = Some b" "b_elem b = Some v"
  shows "mset (f (drop_glue v)) \<subseteq># owned f h"
proof -
  have "p \<in> dom h" using assms by blast
  then have "owned f h = mset (f (glue_of h p)) + (\<Sum>q \<in> dom h - {p}. mset (f (glue_of h q)))"
    unfolding owned_def by (rule sum.remove [OF assms(1)])
  with assms show ?thesis by (simp add: glue_of_def)
qed

subsection \<open>No box is lost\<close>

definition no_lost :: "addr set \<Rightarrow> addr set \<Rightarrow> boxes \<Rightarrow> bool" where
  "no_lost X A h \<longleftrightarrow> dom h \<subseteq> X \<union> reach h A"

lemma targets_elem: "map_option b_elem (g p) = map_option b_elem (h p) \<Longrightarrow> targets g p = targets h p"
  by (cases "g p"; cases "h p") (auto simp: targets_def calls_of_def)

lemma targets_value: "h p = Some b \<Longrightarrow> b_elem b = Some v \<Longrightarrow> plain_val F v \<Longrightarrow> set (targets h p) = set (dropped_ccs (drop_glue v))"
  by (auto simp: targets_def calls_of_def plain_val_def dest: mset_eq_setD)

text \<open>The boxes \<open>Z\<close> are taken away, and what they led to is held or buffered.\<close>

lemma no_lost_step:
  assumes nl: "no_lost X A h" and dom: "\<And>p. p \<in> dom g \<Longrightarrow> p \<notin> X' \<Longrightarrow> p \<in> dom h \<and> p \<notin> X \<and> p \<notin> Z"
    and start: "A \<subseteq> Z \<union> reach g B"
    and Z: "\<And>x. x \<in> Z \<Longrightarrow> set (targets h x) \<subseteq> reach g B"
    and step: "\<And>x. x \<notin> Z \<Longrightarrow> x \<in> reach g B \<Longrightarrow> set (targets h x) \<subseteq> reach g B"
  shows "no_lost X' B g"
  unfolding no_lost_def
proof
  let ?R = "reach g B"
  have "reach h A \<subseteq> Z \<union> ?R"
    by (rule reach_closed [OF start]) (use Z step in blast)
  moreover fix p assume p: "p \<in> dom g"
  ultimately show "p \<in> X' \<union> ?R" using nl dom [OF p] unfolding no_lost_def by blast
qed

lemma no_lost_same:
  assumes nl: "no_lost X A h" and dom: "\<And>p. p \<in> dom g \<Longrightarrow> p \<notin> X' \<Longrightarrow> p \<in> dom h \<and> p \<notin> X"
    and same: "\<And>p. targets g p = targets h p" and start: "A \<subseteq> B"
  shows "no_lost X' B g"
proof (rule no_lost_step [OF nl, where Z = "{}"])
  show "p \<in> dom g \<Longrightarrow> p \<notin> X' \<Longrightarrow> p \<in> dom h \<and> p \<notin> X \<and> p \<notin> {}" for p using dom [of p] by simp
  show "A \<subseteq> {} \<union> reach g B" using start by (auto intro: reach_start)
  show "set (targets h x) \<subseteq> reach g B" if "x \<in> reach g B" for x
    using reach_step [OF that] same [of x] by auto
qed simp

text \<open>The value of one box is taken out, and the references that it held are held now.\<close>

lemma no_lost_take:
  assumes nl: "no_lost X A h" and q: "h q = Some b" "b_elem b = Some e" "plain_val F e"
    and dom: "\<And>p. p \<in> dom g \<Longrightarrow> p \<notin> X' \<Longrightarrow> p \<in> dom h \<and> p \<notin> X \<and> p \<noteq> q"
    and same: "\<And>p. p \<noteq> q \<Longrightarrow> targets g p = targets h p"
    and start: "A \<subseteq> insert q B" "set (dropped_ccs (drop_glue e)) \<subseteq> B"
  shows "no_lost X' B g"
proof (rule no_lost_step [OF nl, where Z = "{q}"])
  show "p \<in> dom g \<Longrightarrow> p \<notin> X' \<Longrightarrow> p \<in> dom h \<and> p \<notin> X \<and> p \<notin> {q}" for p using dom [of p] by simp
  show "A \<subseteq> {q} \<union> reach g B" using start(1) by (auto intro: reach_start)
  show "set (targets h x) \<subseteq> reach g B" if "x \<in> {q}" for x
    using that targets_value [of h q b e, OF q] start(2) by (auto intro: reach_start)
  show "set (targets h x) \<subseteq> reach g B" if "x \<notin> {q}" "x \<in> reach g B" for x
    using reach_step [OF that(2)] same [of x] that(1) by auto
qed

subsection \<open>The invariant\<close>

definition box_sound :: "nat set \<Rightarrow> bool \<Rightarrow> ccbox \<Rightarrow> bool" where
  "box_sound F dying b \<longleftrightarrow> v_rc (view (b_cm b)) < 16383 \<and> (if dying then b_elem b = None \<and> v_rc (view (b_cm b)) = 0
     else v_tc (view (b_cm b)) < 16383 \<and> (\<exists>v. b_elem b = Some v \<and> plain_val F v))"

definition sizes :: "'f world \<Rightarrow> nat" where
  "sizes w = (\<Sum>p \<in> dom (w_boxes w). size_of w p)"

definition sound :: "nat set \<Rightarrow> addr set \<Rightarrow> addr set \<Rightarrow> addr multiset \<Rightarrow> weak_ptr multiset \<Rightarrow> addr list \<Rightarrow> weak_ptr multiset \<Rightarrow> 'f world \<Rightarrow> bool" where
  "sound F N X D K ps W w \<longleftrightarrow> drop_inv N ps W w \<and> set ps \<inter> X = {} \<and> X \<subseteq> dom (w_boxes w) \<and> N \<subseteq> dom (w_boxes w) \<and> N \<inter> X = {} \<and>
     (\<forall>p b. w_boxes w p = Some b \<longrightarrow> box_sound F (p \<in> X) b) \<and>
     (\<forall>p. count (D + owned dropped_ccs (w_boxes w)) p = rc_of (w_boxes w) p) \<and>
     no_lost X (set_mset D \<union> set ps \<union> N) (w_boxes w) \<and>
     K + owned dropped_weaks (w_boxes w) \<subseteq># W \<and> sizes w = unat (st_allocated_bytes (w_state w))"

lemma soundD:
  assumes "sound F N X D K ps W w"
  shows "drop_inv N ps W w" "set ps \<inter> X = {}" "X \<subseteq> dom (w_boxes w)" "w_boxes w p = Some b \<Longrightarrow> box_sound F (p \<in> X) b"
    "count D p + count (owned dropped_ccs (w_boxes w)) p = rc_of (w_boxes w) p"
    "K + owned dropped_weaks (w_boxes w) \<subseteq># W" "sizes w = unat (st_allocated_bytes (w_state w))"
    "no_lost X (set_mset D \<union> set ps \<union> N) (w_boxes w)" "N \<subseteq> dom (w_boxes w)" "N \<inter> X = {}"
  using assms unfolding sound_def by simp_all

lemma soundI_in:
  assumes "drop_inv N ps W w" "set ps \<inter> X = {}" "X \<subseteq> dom (w_boxes w)" "\<And>p b. w_boxes w p = Some b \<Longrightarrow> box_sound F (p \<in> X) b"
    and "\<And>p. count D p + count (owned dropped_ccs (w_boxes w)) p = rc_of (w_boxes w) p"
    and "no_lost X (set_mset D \<union> set ps \<union> N) (w_boxes w)" and "K + owned dropped_weaks (w_boxes w) \<subseteq># W" "sizes w = unat (st_allocated_bytes (w_state w))"
    and "N \<subseteq> dom (w_boxes w)" "N \<inter> X = {}"
  shows "sound F N X D K ps W w"
  using assms unfolding sound_def by simp

lemmas soundI = soundI_in [where N = "{}", simplified]

text \<open>A reference that is held points to a box that is alive.\<close>

lemma sound_live:
  assumes "sound F N X D K ps W w" "p \<in># D"
  obtains b v where "w_boxes w p = Some b" "p \<notin> X" "0 < v_rc (view (b_cm b))" "v_rc (view (b_cm b)) < 16383"
    "v_tc (view (b_cm b)) < 16383" "b_elem b = Some v" "plain_val F v"
proof -
  from assms(2) have "0 < rc_of (w_boxes w) p" using soundD(5) [OF assms(1), of p] count_greater_zero_iff [of D p] by linarith
  then obtain b where b: "w_boxes w p = Some b" "0 < v_rc (view (b_cm b))" by (auto simp: rc_of_def split: option.splits)
  from soundD(4) [OF assms(1) b(1)] b that show ?thesis by (auto simp: box_sound_def split: if_splits)
qed

lemma sizes_cong:
  assumes "weak_inv W w'" "metas_kept (w_meta w) (w_meta w')"
    and "\<And>p. map_option box_meta (w_boxes w' p) = map_option box_meta (w_boxes w p)"
  shows "sizes w' = sizes w"
proof -
  have "p \<in> dom (w_boxes w') \<longleftrightarrow> p \<in> dom (w_boxes w)" for p
    using assms(3) [of p] by (cases "w_boxes w' p"; cases "w_boxes w p") auto
  then have "dom (w_boxes w') = dom (w_boxes w)" by blast
  moreover have "size_of w' p = size_of w p" for p
  proof (cases "w_boxes w p")
    case None
    with assms(3) [of p] show ?thesis by (simp add: size_of_def)
  next
    case (Some b)
    with assms(3) [of p] obtain c where "w_boxes w' p = Some c" "box_meta c = box_meta b" by auto
    with size_of_kept [OF assms(1,2) Some] show ?thesis by blast
  qed
  ultimately show ?thesis by (simp add: sizes_def)
qed

end
