(* ===== verification/Cascade.thy ===== *)
theory Cascade
  imports Ownership
begin

text \<open>
  Dropping \<open>Cc\<close>s that may be the last ones to their boxes, whose values may hold the last ones to
  others, and so on: the destructor of \<open>Cc\<close> in general, for values with finalizers and without
  destructors of their own. The invariant of ownership is kept if the finalizers keep it, and more
  fuel than there are boxes is enough.
\<close>

subsection \<open>What a cascade leaves\<close>

text \<open>Only the memory, the buffer, the metadata and the number of allocated bytes changed, and no bytes were added.\<close>

definition same_frame :: "'f world \<Rightarrow> 'f world \<Rightarrow> bool" where
  "same_frame w w' \<longleftrightarrow> (\<exists>h l M a. w' = w\<lparr>w_boxes := h, w_pc := l, w_meta := M, w_state := (w_state w)\<lparr>st_allocated_bytes := a\<rparr>\<rparr>
     \<and> unat a \<le> unat (st_allocated_bytes (w_state w)))"

lemma shrunk_frame: "shrunk w w' \<Longrightarrow> same_frame w w'"
  unfolding shrunk_def same_frame_def by blast

lemma same_frame_refl: "same_frame w w"
  by (rule shrunk_frame) (use shrunk_buffer [where w = w and h = "w_boxes w" and l = "w_pc w"] in simp)

lemma same_frame_trans:
  assumes "same_frame u v" "same_frame v w"
  shows "same_frame u w"
proof -
  from assms(1) obtain h l M a where v: "v = u\<lparr>w_boxes := h, w_pc := l, w_meta := M, w_state := (w_state u)\<lparr>st_allocated_bytes := a\<rparr>\<rparr>"
    "unat a \<le> unat (st_allocated_bytes (w_state u))" unfolding same_frame_def by blast
  from assms(2) obtain h' l' M' a' where w: "w = v\<lparr>w_boxes := h', w_pc := l', w_meta := M', w_state := (w_state v)\<lparr>st_allocated_bytes := a'\<rparr>\<rparr>"
    "unat a' \<le> unat (st_allocated_bytes (w_state v))" unfolding same_frame_def by blast
  have "w = u\<lparr>w_boxes := h', w_pc := l', w_meta := M', w_state := (w_state u)\<lparr>st_allocated_bytes := a'\<rparr>\<rparr>" by (simp add: w(1) v(1))
  moreover have "unat a' \<le> unat (st_allocated_bytes (w_state u))" using w(2) v by simp
  ultimately show ?thesis unfolding same_frame_def by blast
qed

text \<open>What is left: no new boxes, and the boxes \<open>X\<close>, which are about to be freed, have the sizes they had.\<close>

definition left_over :: "addr set \<Rightarrow> 'f world \<Rightarrow> 'f world \<Rightarrow> bool" where
  "left_over X w w' \<longleftrightarrow> same_frame w w' \<and> dom (w_boxes w') \<subseteq> dom (w_boxes w) \<and> (\<forall>p \<in> X. size_of w' p = size_of w p)"

lemma left_over_refl: "left_over X w w"
  by (simp add: left_over_def same_frame_refl)

lemma left_over_trans: "left_over X u v \<Longrightarrow> left_over X v w \<Longrightarrow> left_over X u w"
proof -
  assume l: "left_over X u v" "left_over X v w"
  have "dom (w_boxes w) \<subseteq> dom (w_boxes u)" using l by (meson left_over_def subset_trans)
  with l same_frame_trans [of u v w] show ?thesis by (simp add: left_over_def)
qed

lemma left_over_dom: "left_over X w w' \<Longrightarrow> dom (w_boxes w') \<subseteq> dom (w_boxes w)"
  by (simp add: left_over_def)

lemma left_over_size: "left_over X w w' \<Longrightarrow> p \<in> X \<Longrightarrow> size_of w' p = size_of w p"
  by (simp add: left_over_def)

lemma left_over_state:
  assumes "left_over X w w'"
  shows "w_state_alive w' = w_state_alive w" "w_pc_alive w' = w_pc_alive w" "st_collecting (w_state w') = st_collecting (w_state w)"
    "st_finalizing (w_state w') = st_finalizing (w_state w)" "st_dropping (w_state w') = st_dropping (w_state w)"
    "st_executions_counter (w_state w') = st_executions_counter (w_state w)" "w_config w' = w_config w"
    "w_config_borrowed w' = w_config_borrowed w" "w_config_alive w' = w_config_alive w"
    "unat (st_allocated_bytes (w_state w')) \<le> unat (st_allocated_bytes (w_state w))"
  using assms by (auto simp: left_over_def same_frame_def)

text \<open>Without finalizers the values that are left are those that were there, and no references appear.\<close>

definition kept :: "nat set \<Rightarrow> 'f world \<Rightarrow> 'f world \<Rightarrow> bool" where
  "kept F w w' \<longleftrightarrow> (F = {} \<longrightarrow> vals_of w' \<subseteq>\<^sub>m vals_of w)"

definition gains :: "nat set \<Rightarrow> addr multiset \<Rightarrow> addr multiset \<Rightarrow> bool" where
  "gains F A B \<longleftrightarrow> A \<subseteq># B \<and> (F = {} \<longrightarrow> B = A)"

lemma kept_refl: "kept F w w"
  by (simp add: kept_def)

lemma kept_trans: "kept F u v \<Longrightarrow> kept F v w \<Longrightarrow> kept F u w"
  unfolding kept_def using map_le_trans by blast

lemma kept_same: "vals_of w' = vals_of w \<Longrightarrow> kept F w w'"
  by (simp add: kept_def)

lemma gains_refl: "gains F A A"
  by (simp add: gains_def)

lemma gains_trans: "gains F A B \<Longrightarrow> gains F B C \<Longrightarrow> gains F A C"
  by (auto simp: gains_def)

lemma lowered_left_over:
  assumes l: "lowered N r w w'" and inv: "weak_inv W w'"
  shows "left_over X w w'" "vals_of w' = vals_of w"
proof -
  from l obtain h k M where w': "w' = w\<lparr>w_boxes := h, w_pc := k, w_meta := M\<rparr>" and m: "metas_kept (w_meta w) (w_meta w')"
    unfolding lowered_def by blast
  have rel: "rel_option (box_lowered (r p)) (w_boxes w p) (w_boxes w' p)" for p using l by (simp add: lowered_def)
  have "shrunk w w'"
    by (rule shrunkI [where h = h and l = k and M = M and a = "st_allocated_bytes (w_state w)"]) (use w' m in simp_all)
  moreover have "dom (w_boxes w') \<subseteq> dom (w_boxes w)"
  proof
    fix p assume "p \<in> dom (w_boxes w')"
    with rel [of p] show "p \<in> dom (w_boxes w)" by (cases "w_boxes w p") auto
  qed
  moreover have "size_of w' p = size_of w p" for p
  proof (cases "w_boxes w p")
    case None
    with rel [of p] show ?thesis by (simp add: size_of_def)
  next
    case (Some b)
    with rel [of p] obtain c where "w_boxes w' p = Some c" "box_meta c = box_meta b"
      by (auto simp: option_rel_Some1 box_lowered_def box_meta_def)
    with size_of_kept [OF inv m Some] show ?thesis by blast
  qed
  ultimately show "left_over X w w'" by (simp add: left_over_def shrunk_frame)
  show "vals_of w' = vals_of w"
  proof (rule vals_of_cong)
    fix p show "map_option b_elem (w_boxes w' p) = map_option b_elem (w_boxes w p)"
      using rel [of p] by (cases "w_boxes w p"; cases "w_boxes w' p") (auto simp: box_lowered_def)
  qed
qed

subsection \<open>References that go away\<close>

lemma box_sound_lowered:
  assumes "box_sound F d b" "box_lowered n b c"
  shows "box_sound F d c"
  using assms by (auto simp: box_sound_def box_lowered_def split: if_splits)

lemma lowered_elems:
  assumes "lowered N r w w'"
  shows "map_option b_elem (w_boxes w' p) = map_option b_elem (w_boxes w p)"
    "map_option box_meta (w_boxes w' p) = map_option box_meta (w_boxes w p)"
proof -
  from assms have "rel_option (box_lowered (r p)) (w_boxes w p) (w_boxes w' p)" by (simp add: lowered_def)
  then show "map_option b_elem (w_boxes w' p) = map_option b_elem (w_boxes w p)"
    "map_option box_meta (w_boxes w' p) = map_option box_meta (w_boxes w p)"
    by (cases "w_boxes w p"; cases "w_boxes w' p"; auto simp: box_lowered_def box_meta_def)+
qed

lemma lowered_dom:
  assumes "lowered N r w w'"
  shows "dom (w_boxes w') = dom (w_boxes w)"
proof (rule set_eqI)
  fix p show "p \<in> dom (w_boxes w') \<longleftrightarrow> p \<in> dom (w_boxes w)"
    using lowered_elems(1) [OF assms, of p] by (cases "w_boxes w p"; cases "w_boxes w' p") auto
qed

lemma lowered_rc:
  assumes "lowered N r w w'"
  shows "rc_of (w_boxes w) p = rc_of (w_boxes w') p + (if w_boxes w p = None then 0 else r p)"
proof -
  from assms have "rel_option (box_lowered (r p)) (w_boxes w p) (w_boxes w' p)" by (simp add: lowered_def)
  then show ?thesis by (cases "w_boxes w p"; cases "w_boxes w' p") (auto simp: rc_of_def box_lowered_def)
qed

lemma sound_lowered:
  assumes s: "sound F N X (D + R) K ps W w" and inv: "drop_inv N qs V w'" and low: "lowered N (count R) w w'"
    and qs: "set qs \<inter> X = {}"
    and held: "set_mset R \<union> set ps \<subseteq> set_mset D \<union> set qs" and V: "K' + owned dropped_weaks (w_boxes w) \<subseteq># V"
  shows "sound F N X D K' qs V w'"
proof (rule soundI_in [OF inv qs])
  note d = soundD [OF s]
  have own: "owned f (w_boxes w') = owned f (w_boxes w)" for f :: "drop_call list \<Rightarrow> 'c list"
    by (rule owned_cong) (rule lowered_elems(1) [OF low])
  have rel: "rel_option (box_lowered (count R p)) (w_boxes w p) (w_boxes w' p)" for p using low by (simp add: lowered_def)
  have mem: "p \<in> dom (w_boxes w')" if "p \<in> dom (w_boxes w)" for p
    using that rel [of p] by (cases "w_boxes w' p") auto
  show "X \<subseteq> dom (w_boxes w')" "N \<subseteq> dom (w_boxes w')" "N \<inter> X = {}" using d(3,9,10) mem by blast+
  show "box_sound F (p \<in> X) c" if c: "w_boxes w' p = Some c" for p c
  proof -
    from rel [of p] c obtain b where b: "w_boxes w p = Some b" "box_lowered (count R p) b c" by (auto simp: option_rel_Some2)
    from box_sound_lowered [OF d(4) [OF b(1)] b(2)] show ?thesis .
  qed
  show "no_lost X (set_mset D \<union> set qs \<union> N) (w_boxes w')"
  proof (rule no_lost_same [OF d(8)])
    show "p \<in> dom (w_boxes w) \<and> p \<notin> X" if "p \<in> dom (w_boxes w')" "p \<notin> X" for p
      using that rel [of p] by (cases "w_boxes w p") auto
    show "targets (w_boxes w') p = targets (w_boxes w) p" for p by (rule targets_elem) (rule lowered_elems(1) [OF low])
    show "set_mset (D + R) \<union> set ps \<union> N \<subseteq> set_mset D \<union> set qs \<union> N" using held by auto
  qed
  show "count D p + count (owned dropped_ccs (w_boxes w')) p = rc_of (w_boxes w') p" for p
  proof -
    have "count D p + count R p + count (owned dropped_ccs (w_boxes w)) p = rc_of (w_boxes w) p" using d(5) [of p] by simp
    moreover note lowered_rc [OF low, of p]
    moreover have "w_boxes w p = None \<Longrightarrow> rc_of (w_boxes w) p = 0" by (simp add: rc_of_def)
    ultimately show ?thesis unfolding own by (auto split: if_splits)
  qed
  show "K' + owned dropped_weaks (w_boxes w') \<subseteq># V" using V by (simp add: own)
  have "sizes w' = sizes w"
    by (rule sizes_cong [OF drop_invD(2) [OF inv]]) (use low lowered_elems(2) [OF low] in \<open>simp_all add: lowered_def\<close>)
  moreover have "w_state w' = w_state w" using low by (auto simp: lowered_def)
  ultimately show "sizes w' = unat (st_allocated_bytes (w_state w'))" using d(7) by simp
qed

subsection \<open>A value that is being dropped\<close>

lemma box_lowered_meta: "box_lowered n b c \<Longrightarrow> box_meta c = box_meta b"
  by (simp add: box_lowered_def box_meta_def)

lemma destroying_sound:
  assumes s: "sound F {} X (add_mset q D) K ps W w" and b: "w_boxes w q = Some b" "v_rc (view (b_cm b)) = 1" "b_elem b = Some e"
    and de: "destroying q ps W w v" and plain: "plain_val F e"
  shows "sound F {} (insert q X) (D + mset (dropped_ccs (drop_glue e))) (K + mset (dropped_weaks (drop_glue e))) (remove1 q ps) W v"
    "dom (w_boxes v) = dom (w_boxes w)"
proof -
  note d = soundD [OF s]
  from de obtain h l M where v: "v = w\<lparr>w_boxes := h, w_pc := l, w_meta := M, w_state := set_dropping True (w_state w)\<rparr>"
    "metas_kept (w_meta w) M" unfolding destroying_def by blast
  from de obtain c where c: "w_boxes v q = Some c" "b_elem c = None" "v_rc (view (b_cm c)) = 0" "box_meta c = box_meta b"
    using b(1) unfolding destroying_def by auto
  have rel: "rel_option (box_lowered 0) (w_boxes w p) (w_boxes v p)" if "p \<noteq> q" for p using de that unfolding destroying_def by blast
  have inv: "drop_inv {} (remove1 q ps) W v" using de unfolding destroying_def by blast
  have dist: "distinct ps" using buffered_repr [OF drop_invD(1) [OF d(1)]] by (simp add: pc_repr_def)
  have mem: "p \<in> dom (w_boxes v) \<longleftrightarrow> p \<in> dom (w_boxes w)" for p
    using rel [of p] b(1) c(1) by (cases "p = q"; cases "w_boxes w p"; cases "w_boxes v p") auto
  then show dom: "dom (w_boxes v) = dom (w_boxes w)" by blast
  have elem: "map_option b_elem (w_boxes v p) = map_option b_elem (w_boxes w p)" if "p \<noteq> q" for p
    using rel [OF that] by (cases "w_boxes w p"; cases "w_boxes v p") (auto simp: box_lowered_def)
  have take: "owned f (w_boxes w) = owned f (w_boxes v) + mset (f (drop_glue e))" if "f [] = []" for f :: "drop_call list \<Rightarrow> 'c list"
    by (rule owned_take [where f = f, OF drop_invD(4) [OF d(1)] b(1,3) that]) (use c elem in auto)
  show "sound F {} (insert q X) (D + mset (dropped_ccs (drop_glue e))) (K + mset (dropped_weaks (drop_glue e))) (remove1 q ps) W v"
  proof (rule soundI [OF inv])
    show "set (remove1 q ps) \<inter> insert q X = {}" using d(2) dist by auto
    show "insert q X \<subseteq> dom (w_boxes v)" using d(3) b(1) unfolding dom by auto
    show "box_sound F (p \<in> insert q X) g" if g: "w_boxes v p = Some g" for p g
    proof (cases "p = q")
      case True
      with g c show ?thesis by (simp add: box_sound_def)
    next
      case False
      with rel [of p] g obtain a where a: "w_boxes w p = Some a" "box_lowered 0 a g" by (auto simp: option_rel_Some2)
      from box_sound_lowered [OF d(4) [OF a(1)] a(2)] False show ?thesis by simp
    qed
    show "no_lost (insert q X) (set_mset (D + mset (dropped_ccs (drop_glue e))) \<union> set (remove1 q ps)) (w_boxes v)"
    proof (rule no_lost_take [OF d(8) b(1,3) plain])
      show "p \<in> dom (w_boxes w) \<and> p \<notin> X \<and> p \<noteq> q" if "p \<in> dom (w_boxes v)" "p \<notin> insert q X" for p
        using that unfolding dom by simp
      show "targets (w_boxes v) p = targets (w_boxes w) p" if "p \<noteq> q" for p by (rule targets_elem) (rule elem [OF that])
    qed (use dist in auto)
    show "count (D + mset (dropped_ccs (drop_glue e))) p + count (owned dropped_ccs (w_boxes v)) p = rc_of (w_boxes v) p" for p
    proof (cases "p = q")
      case True
      have "rc_of (w_boxes w) q = 1" using b by (simp add: rc_of_def)
      moreover have "count (add_mset q D) q = Suc (count D q)" by simp
      moreover have "count (owned dropped_ccs (w_boxes w)) q =
          count (owned dropped_ccs (w_boxes v)) q + count (mset (dropped_ccs (drop_glue e))) q" by (simp add: take)
      ultimately have "count (D + mset (dropped_ccs (drop_glue e))) q + count (owned dropped_ccs (w_boxes v)) q = 0"
        using d(5) [of q] by (simp only: count_union)
      with True c show ?thesis by (simp only: count_union) (simp add: rc_of_def)
    next
      case False
      have "rc_of (w_boxes v) p = rc_of (w_boxes w) p"
        using rel [OF False] by (cases "w_boxes w p"; cases "w_boxes v p") (auto simp: rc_of_def box_lowered_def)
      with d(5) [of p] take [of dropped_ccs] False show ?thesis by simp
    qed
    show "K + mset (dropped_weaks (drop_glue e)) + owned dropped_weaks (w_boxes v) \<subseteq># W"
      using d(6) take [of dropped_weaks] by (simp add: ac_simps)
    have "sizes v = sizes w"
    proof (rule sizes_cong [OF drop_invD(2) [OF inv]])
      show "metas_kept (w_meta w) (w_meta v)" using v(2) by (simp add: v(1))
      show "map_option box_meta (w_boxes v p) = map_option box_meta (w_boxes w p)" for p
        using rel [of p] b(1) c(1,4) by (cases "p = q"; cases "w_boxes w p"; cases "w_boxes v p") (auto dest: box_lowered_meta)
    qed
    with d(7) show "sizes v = unat (st_allocated_bytes (w_state v))" by (simp add: v(1) set_dropping_def)
  qed
qed


subsection \<open>A box that is freed\<close>

lemma owned_gone:
  assumes "finite (dom h)" "h p = Some b" "b_elem b = None" "f [] = []"
  shows "owned f (h(p := None)) = owned f h"
proof -
  have "p \<in> dom h" using assms(2) by blast
  then have "owned f h = mset (f (glue_of h p)) + (\<Sum>q \<in> dom h - {p}. mset (f (glue_of h q)))"
    unfolding owned_def by (rule sum.remove [OF assms(1)])
  also have "\<dots> = (\<Sum>q \<in> dom h - {p}. mset (f (glue_of (h(p := None)) q)))"
    using assms by (auto simp: glue_of_def intro!: sum.cong)
  finally show ?thesis by (simp add: owned_def)
qed

lemma sizes_freed:
  assumes fin: "finite (dom (w_boxes v))" and p: "w_boxes v p = Some b" and h: "w_boxes w = (w_boxes v)(p := None)"
    and kept: "metas_kept (w_meta v) (w_meta w)" "weak_inv V w"
  shows "sizes v = sizes w + size_of v p"
proof -
  have "p \<in> dom (w_boxes v)" using p by blast
  then have "sizes v = size_of v p + (\<Sum>q \<in> dom (w_boxes v) - {p}. size_of v q)"
    unfolding sizes_def by (rule sum.remove [OF fin])
  moreover have "(\<Sum>q \<in> dom (w_boxes v) - {p}. size_of v q) = (\<Sum>q \<in> dom (w_boxes v) - {p}. size_of w q)"
  proof (rule sum.cong [OF refl])
    fix q assume "q \<in> dom (w_boxes v) - {p}"
    then obtain c where "w_boxes v q = Some c" "w_boxes w q = Some c" using h by auto
    from size_of_kept [OF kept(2,1) this refl] show "size_of v q = size_of w q" by simp
  qed
  moreover have "dom (w_boxes w) = dom (w_boxes v) - {p}" using h by auto
  ultimately show ?thesis by (simp add: sizes_def)
qed

lemma freed_sound:
  assumes s: "sound F {} (insert q X) D K qs V v" and fr: "freed_box q (size_of v q) d v w" and inv: "weak_inv V w" "calm w" and q: "q \<notin> X"
  shows "sound F {} X D K qs V w"
proof -
  note e = soundD [OF s] and f = freed_boxD [OF fr]
  note d = drop_invD [OF e(1)]
  from e(3) obtain b where b: "w_boxes v q = Some b" by blast
  with e(4) [OF b] have gone: "b_elem b = None" "v_rc (view (b_cm b)) = 0" by (simp_all add: box_sound_def)
  have own: "owned g (w_boxes w) = owned g (w_boxes v)" if "g [] = []" for g :: "drop_call list \<Rightarrow> 'c list"
    unfolding f(1) by (rule owned_gone [OF d(4) b gone(1)]) (rule that)
  have dom: "dom (w_boxes w) = dom (w_boxes v) - {q}" using f(1) by auto
  have "buffered qs w" by (rule buffered_free [OF d(1), of "{q}"]) (use e(2) f(1,2) in auto)
  moreover have "card (dom (w_boxes w)) \<le> card (dom (w_boxes v))" unfolding dom using d(4) by (intro card_mono) auto
  ultimately have "drop_inv {} qs V w"
    using inv d(4,5,6,7) dom f(1) by (auto simp: drop_inv_def split: if_splits)
  then show ?thesis
  proof (rule soundI)
    show "set qs \<inter> X = {}" "X \<subseteq> dom (w_boxes w)" using e(2,3) q dom by auto
    show "box_sound F (p \<in> X) c" if "w_boxes w p = Some c" for p c
      using that e(4) [of p c] f(1) by (auto split: if_splits)
    show "no_lost X (set_mset D \<union> set qs) (w_boxes w)"
    proof (rule no_lost_same [OF e(8)])
      show "p \<in> dom (w_boxes v) \<and> p \<notin> insert q X" if "p \<in> dom (w_boxes w)" "p \<notin> X" for p using that unfolding dom by simp
      show "targets (w_boxes w) p = targets (w_boxes v) p" for p using b gone(1) by (simp add: f(1) targets_def calls_of_def)
    qed simp
    show "count D p + count (owned dropped_ccs (w_boxes w)) p = rc_of (w_boxes w) p" for p
    proof (cases "p = q")
      case True
      have "rc_of (w_boxes v) q = 0" "rc_of (w_boxes w) q = 0" using b gone by (simp_all add: rc_of_def f(1))
      with e(5) [of q] own [of dropped_ccs] True show ?thesis by simp
    next
      case False
      then have "rc_of (w_boxes w) p = rc_of (w_boxes v) p" using f(1) by (simp add: rc_of_def)
      with e(5) [of p] own [of dropped_ccs] show ?thesis by simp
    qed
    show "K + owned dropped_weaks (w_boxes w) \<subseteq># V" using e(6) own [of dropped_weaks] by simp
    show "sizes w = unat (st_allocated_bytes (w_state w))"
      using sizes_freed [OF d(4) b f(1,3) inv(1)] e(7) f(4) by simp
  qed
qed

lemma destroyed_left_over:
  assumes de: "destroying q ps W w v" and l: "left_over (insert q X) v v'" and fr: "freed_box q n (st_dropping (w_state w)) v' w'"
    and inv: "weak_inv V v'" "weak_inv V w'" "X \<subseteq> dom (w_boxes v')" and q: "q \<notin> X"
  shows "left_over X w w'" "size_of v' q = size_of w q"
proof -
  from de obtain h k M where v: "v = w\<lparr>w_boxes := h, w_pc := k, w_meta := M, w_state := set_dropping True (w_state w)\<rparr>"
    "metas_kept (w_meta w) M" unfolding destroying_def by blast
  have wv: "weak_inv W v" using de drop_invD(2) unfolding destroying_def by blast
  have rel: "rel_option (box_lowered 0) (w_boxes w p) (w_boxes v p)" if "p \<noteq> q" for p using de that unfolding destroying_def by blast
  from de obtain b c where q': "w_boxes w q = Some b" "w_boxes v q = Some c" "box_meta c = box_meta b" unfolding destroying_def by auto
  have size: "size_of v p = size_of w p" for p
  proof (cases "w_boxes w p")
    case None
    then show ?thesis using rel [of p] q' by (cases "p = q") (auto simp: size_of_def)
  next
    case (Some a)
    have "\<exists>e. w_boxes v p = Some e \<and> box_meta e = box_meta a"
      using Some rel [of p] q' by (cases "p = q") (auto simp: option_rel_Some1 dest: box_lowered_meta)
    with size_of_kept [OF wv _ Some] v show ?thesis by auto
  qed
  have dom: "dom (w_boxes v) \<subseteq> dom (w_boxes w)"
  proof
    fix p assume "p \<in> dom (w_boxes v)"
    with rel [of p] q' show "p \<in> dom (w_boxes w)" by (cases "p = q"; cases "w_boxes w p") auto
  qed
  from l obtain h' k' M' a where
    v': "v' = v\<lparr>w_boxes := h', w_pc := k', w_meta := M', w_state := (w_state v)\<lparr>st_allocated_bytes := a\<rparr>\<rparr>"
    "unat a \<le> unat (st_allocated_bytes (w_state v))" unfolding left_over_def same_frame_def by blast
  from fr obtain N m where w': "w' = v'\<lparr>w_meta := N, w_boxes := (w_boxes v')(q := None),
     w_state := set_dropping (st_dropping (w_state w)) ((w_state v')\<lparr>st_allocated_bytes := st_allocated_bytes (w_state v') - m\<rparr>)\<rparr>"
     unfolding freed_box_def by blast
  note f = freed_boxD [OF fr]
  show "size_of v' q = size_of w q" using left_over_size [OF l, of q] size by simp
  have "same_frame w w'"
    unfolding same_frame_def
  proof (intro exI conjI)
    show "w' = w\<lparr>w_boxes := w_boxes w', w_pc := w_pc w', w_meta := N, w_state := (w_state w)\<lparr>st_allocated_bytes := st_allocated_bytes (w_state w')\<rparr>\<rparr>"
      by (simp add: w' v'(1) v(1) set_dropping_def)
    have "st_allocated_bytes (w_state v) = st_allocated_bytes (w_state w)" by (simp add: v(1) set_dropping_def)
    then show "unat (st_allocated_bytes (w_state w')) \<le> unat (st_allocated_bytes (w_state w))"
      using f(4) v'(2) by (simp add: v'(1))
  qed
  moreover have "dom (w_boxes w') \<subseteq> dom (w_boxes w)" using left_over_dom [OF l] dom by (auto simp: f(1) split: if_splits)
  moreover have "size_of w' p = size_of w p" if p: "p \<in> X" for p
  proof -
    from p inv(3) obtain e where e: "w_boxes v' p = Some e" by blast
    moreover from this p q have "w_boxes w' p = Some e" by (auto simp: f(1))
    ultimately have "size_of w' p = size_of v' p" using size_of_kept [OF inv(2) f(3)] by blast
    with left_over_size [OF l, of p] p size show ?thesis by simp
  qed
  ultimately show "left_over X w w'" by (simp add: left_over_def)
qed

lemma destroyed_kept:
  assumes de: "destroying q ps W w v" and k: "kept F v v'" and fr: "freed_box q n d v' w'"
  shows "kept F w w'"
proof -
  have "vals_of v \<subseteq>\<^sub>m vals_of w"
    unfolding map_le_def
  proof
    fix p assume p: "p \<in> dom (vals_of v)"
    with de have "p \<noteq> q" by (auto simp: destroying_def vals_of_def)
    with de have "rel_option (box_lowered 0) (w_boxes w p) (w_boxes v p)" unfolding destroying_def by blast
    with p show "vals_of v p = vals_of w p"
      by (cases "w_boxes w p"; cases "w_boxes v p") (auto simp: vals_of_def box_lowered_def)
  qed
  moreover have "vals_of w' \<subseteq>\<^sub>m vals_of v'" by (auto simp: map_le_def vals_of_def freed_boxD(1) [OF fr] split: if_splits)
  ultimately show ?thesis using k unfolding kept_def by (meson map_le_trans)
qed


subsection \<open>Finalizers\<close>

text \<open>
  What is asked of the finalizers \<open>F\<close>: wherever they run, also in the middle of a collection (\<open>N\<close> are
  the boxes in its lists) and inside of destructors (\<open>X\<close>), they return and keep the invariant. They may
  take references (\<open>D'\<close> has what they keep), change values and drop what they take out of them; they
  make no new boxes, and consume none of the references that the program holds.
\<close>

definition same_links :: "addr set \<Rightarrow> 'f world \<Rightarrow> 'f world \<Rightarrow> bool" where
  "same_links N w w' \<longleftrightarrow> (\<forall>p \<in> N. links (w_boxes w') p = links (w_boxes w) p)"

definition keeps_sound :: "nat set \<Rightarrow> 'f user_code \<Rightarrow> bool" where
  "keeps_sound F uc \<longleftrightarrow> (\<forall>k \<in> F. \<forall>N X D K ps W w. sound F N X D K ps W w \<longrightarrow> st_finalizing (w_state w) \<longrightarrow>
     (\<exists>D' qs V w'. uc_finalize uc k w = Done () w' \<and> sound F N X D' K qs V w' \<and> D \<subseteq># D' \<and> left_over X w w' \<and> same_links N w w'))"

lemma no_finalizers [simp]: "keeps_sound {} uc"
  by (simp add: keeps_sound_def)

lemma finalizers_keep:
  assumes k: "keeps_sound F uc" and s: "sound F N X D K ps W w" "st_finalizing (w_state w)"
  shows "set ks \<subseteq> F \<Longrightarrow> \<exists>D' qs V w'. forM ks (uc_finalize uc) w = Done () w' \<and> sound F N X D' K qs V w' \<and>
    D \<subseteq># D' \<and> left_over X w w' \<and> same_links N w w' \<and> (ks = [] \<longrightarrow> w' = w \<and> D' = D)"
  using s
proof (induction ks arbitrary: D ps W w)
  case Nil
  then show ?case using left_over_refl by (fastforce simp: same_links_def)
next
  case (Cons x ks)
  from k Cons.prems obtain D1 qs V v where
    1: "uc_finalize uc x w = Done () v" "sound F N X D1 K qs V v" "D \<subseteq># D1" "left_over X w v" "same_links N w v"
    unfolding keeps_sound_def by (metis insert_subset list.simps(15))
  have "st_finalizing (w_state v)" using left_over_state(4) [OF 1(4)] Cons.prems(3) by simp
  from Cons.IH [OF _ 1(2) this] Cons.prems(1) obtain D' rs U u where
    2: "forM ks (uc_finalize uc) v = Done () u" "sound F N X D' K rs U u" "D1 \<subseteq># D'" "left_over X v u" "same_links N v u" by auto
  have "forM (x # ks) (uc_finalize uc) w = Done () u" using 1(1) 2(1) by simp
  moreover have "left_over X w u" using 1(4) 2(4) by (rule left_over_trans)
  moreover have "same_links N w u" using 1(5) 2(5) by (simp add: same_links_def)
  moreover have "D \<subseteq># D'" using 1(3) 2(3) by (rule subset_mset.trans)
  ultimately show ?case using 2(2) by blast
qed

text \<open>Changes that the invariant does not see: the finalized flag of a box, the flags of the state.\<close>

lemma sound_relisted:
  assumes s: "sound F N X D K ps W w" and inv: "drop_inv N' qs W w'"
    and lists: "set qs \<inter> X = {}" "N' \<subseteq> dom (w_boxes w)" "N' \<inter> X = {}" "no_lost X (set_mset D \<union> set qs \<union> N') (w_boxes w)"
    and st: "st_allocated_bytes (w_state w') = st_allocated_bytes (w_state w)" and meta: "w_meta w' = w_meta w"
    and b: "\<And>p. map_option (\<lambda>b. (b_elem b, box_meta b, v_rc (view (b_cm b)))) (w_boxes w' p) =
      map_option (\<lambda>b. (b_elem b, box_meta b, v_rc (view (b_cm b)))) (w_boxes w p)"
    and tc: "\<And>p a c. w_boxes w p = Some a \<Longrightarrow> w_boxes w' p = Some c \<Longrightarrow> v_tc (view (b_cm a)) < 16383 \<Longrightarrow> v_tc (view (b_cm c)) < 16383"
  shows "sound F N' X D K qs W w'"
proof (rule soundI_in [OF inv lists(1)])
  note d = soundD [OF s]
  have elem: "map_option b_elem (w_boxes w' p) = map_option b_elem (w_boxes w p)" for p
    using b [of p] by (cases "w_boxes w p"; cases "w_boxes w' p") auto
  have own: "owned f (w_boxes w') = owned f (w_boxes w)" for f :: "drop_call list \<Rightarrow> 'c list"
    by (rule owned_cong) (rule elem)
  have mem: "p \<in> dom (w_boxes w') \<longleftrightarrow> p \<in> dom (w_boxes w)" for p
    using b [of p] by (cases "w_boxes w p"; cases "w_boxes w' p") auto
  then have dom: "dom (w_boxes w') = dom (w_boxes w)" by blast
  show "X \<subseteq> dom (w_boxes w')" "N' \<subseteq> dom (w_boxes w')" "N' \<inter> X = {}" using d(3) lists by (simp_all add: dom)
  show "box_sound F (p \<in> X) c" if c: "w_boxes w' p = Some c" for p c
  proof -
    from b [of p] c obtain a where a: "w_boxes w p = Some a" "b_elem c = b_elem a" "v_rc (view (b_cm c)) = v_rc (view (b_cm a))"
      by (cases "w_boxes w p") auto
    from d(4) [OF a(1)] a(2,3) tc [OF a(1) c] show ?thesis by (simp add: box_sound_def)
  qed
  show "count D p + count (owned dropped_ccs (w_boxes w')) p = rc_of (w_boxes w') p" for p
  proof -
    have "rc_of (w_boxes w') p = rc_of (w_boxes w) p"
      using b [of p] by (cases "w_boxes w p"; cases "w_boxes w' p") (auto simp: rc_of_def)
    with d(5) [of p] show ?thesis by (simp add: own)
  qed
  show "no_lost X (set_mset D \<union> set qs \<union> N') (w_boxes w')"
    by (rule no_lost_same [OF lists(4)]) (auto simp: dom intro: targets_elem [OF elem])
  show "K + owned dropped_weaks (w_boxes w') \<subseteq># W" using d(6) by (simp add: own)
  have "sizes w' = sizes w"
  proof (rule sizes_cong [OF drop_invD(2) [OF inv]])
    show "map_option box_meta (w_boxes w' p) = map_option box_meta (w_boxes w p)" for p
      using b [of p] by (cases "w_boxes w p"; cases "w_boxes w' p") auto
  qed (simp add: meta)
  with d(7) st show "sizes w' = unat (st_allocated_bytes (w_state w'))" by simp
qed

lemma sound_seen:
  assumes s: "sound F N X D K ps W w" and inv: "drop_inv N ps W w'"
    and st: "st_allocated_bytes (w_state w') = st_allocated_bytes (w_state w)" and meta: "w_meta w' = w_meta w"
    and b: "\<And>p. map_option (\<lambda>b. (b_elem b, box_meta b, v_rc (view (b_cm b)), v_tc (view (b_cm b)))) (w_boxes w' p) =
      map_option (\<lambda>b. (b_elem b, box_meta b, v_rc (view (b_cm b)), v_tc (view (b_cm b)))) (w_boxes w p)"
  shows "sound F N X D K ps W w'"
proof (rule sound_relisted [OF s inv soundD(2,9,10,8) [OF s] st meta])
  show "map_option (\<lambda>b. (b_elem b, box_meta b, v_rc (view (b_cm b)))) (w_boxes w' p) =
      map_option (\<lambda>b. (b_elem b, box_meta b, v_rc (view (b_cm b)))) (w_boxes w p)" for p
    using b [of p] by (cases "w_boxes w p"; cases "w_boxes w' p") auto
  show "v_tc (view (b_cm c)) < 16383" if "w_boxes w p = Some a" "w_boxes w' p = Some c" "v_tc (view (b_cm a)) < 16383" for p a c
    using b [of p] that by simp
qed

lemma sound_state:
  assumes "sound F N X D K ps W w" "\<not> is_tracing s" "st_allocated_bytes s = st_allocated_bytes (w_state w)"
  shows "sound F N X D K ps W (w\<lparr>w_state := s\<rparr>)"
  by (rule sound_seen [OF assms(1) drop_inv_state [OF soundD(1) [OF assms(1)] assms(2)]]) (simp_all add: assms(3))

lemma vals_of_finalized [simp]: "vals_of (finalized_world w u) = vals_of u"
  by (rule ext) (simp add: vals_of_def finalized_world_def)

lemma left_over_restore: "left_over X v u \<Longrightarrow> left_over X (finalized_world w v) (finalized_world w u)"
  unfolding left_over_def
proof (elim conjE, intro conjI ballI)
  have size: "size_of (finalized_world w u) p = size_of u p" for u :: "'a world" and p
  proof -
    have "w_boxes (finalized_world w u) = w_boxes u" "w_meta (finalized_world w u) = w_meta u" by (simp_all add: finalized_world_def)
    then show ?thesis unfolding size_of_def by (simp only:)
  qed
  show "p \<in> X \<Longrightarrow> \<forall>p \<in> X. size_of u p = size_of v p \<Longrightarrow> size_of (finalized_world w u) p = size_of (finalized_world w v) p" for p
    by (simp add: size)
  assume "same_frame v u"
  then obtain h l M a where u: "u = v\<lparr>w_boxes := h, w_pc := l, w_meta := M, w_state := (w_state v)\<lparr>st_allocated_bytes := a\<rparr>\<rparr>"
    "unat a \<le> unat (st_allocated_bytes (w_state v))" unfolding same_frame_def by blast
  have "finalized_world w u = (finalized_world w v)\<lparr>w_boxes := h, w_pc := l, w_meta := M,
      w_state := (w_state (finalized_world w v))\<lparr>st_allocated_bytes := a\<rparr>\<rparr>"
    by (simp add: u(1) finalized_world_def set_finalizing_def)
  moreover have "unat a \<le> unat (st_allocated_bytes (w_state (finalized_world w v)))"
    using u(2) by (simp add: finalized_world_def set_finalizing_def)
  ultimately show "same_frame (finalized_world w v) (finalized_world w u)" unfolding same_frame_def by blast
qed (simp add: finalized_world_def)

lemma finalizing_sound:
  assumes s: "sound F N X D K ps W w"
  shows "sound F N X D K ps W (finalizing_world p w)" "left_over Y w (finalized_world w (finalizing_world p w))"
    "vals_of (finalizing_world p w) = vals_of w"
proof -
  let ?v = "w\<lparr>w_boxes := upd p (\<lambda>b. b\<lparr>b_cm := set_finalized True (b_cm b)\<rparr>) (w_boxes w)\<rparr>"
  have "drop_inv N ps W ?v" by (rule drop_inv_upd [OF soundD(1) [OF s]]) (simp add: cm_upd box_meta_def)
  then have "sound F N X D K ps W ?v"
    by (rule sound_seen [OF s]) (auto simp: upd_apply cm_upd box_meta_def option.map_comp comp_def split: option.split)
  then have "sound F N X D K ps W (?v\<lparr>w_state := set_finalizing True (w_state w)\<rparr>)"
    by (rule sound_state) (simp_all add: is_tracing_def set_finalizing_def)
  moreover have "?v\<lparr>w_state := set_finalizing True (w_state w)\<rparr> = finalizing_world p w" by (cases w) (simp add: finalizing_world_def)
  ultimately show "sound F N X D K ps W (finalizing_world p w)" by simp
  have size: "size_of ?v q = size_of w q" for q
    by (cases "w_boxes w q") (auto simp: size_of_def upd_apply split: metadata.splits option.splits)
  have eq: "finalized_world w (finalizing_world p w) = ?v"
    by (cases w) (simp add: finalized_world_def finalizing_world_def set_finalizing_def)
  have "shrunk w (w\<lparr>w_boxes := w_boxes ?v, w_pc := w_pc w\<rparr>)" by (rule shrunk_buffer)
  then have "same_frame w ?v" using shrunk_frame by simp
  then show "left_over Y w (finalized_world w (finalizing_world p w))"
    unfolding left_over_def eq using size by (auto simp: upd_apply split: if_splits)
  show "vals_of (finalizing_world p w) = vals_of w"
    by (rule vals_of_cong) (simp add: finalizing_world_def upd_apply option.map_comp comp_def split: option.split)
qed

subsection \<open>The cascade\<close>

lemma left_over_card:
  assumes "left_over Y w w'" "finite (dom (w_boxes w))"
  shows "card (dom (w_boxes w') - X) \<le> card (dom (w_boxes w) - X)"
  by (rule card_mono) (use assms left_over_dom [OF assms(1)] in blast)+

lemma left_over_calm: "left_over X w w' \<Longrightarrow> calm w \<Longrightarrow> calm w'"
  by (simp add: calm_def is_tracing_def left_over_state)

text \<open>What a program of drops has to do.\<close>

definition drops_to :: "nat set \<Rightarrow> addr set \<Rightarrow> addr multiset \<Rightarrow> weak_ptr multiset \<Rightarrow> 'f world \<Rightarrow> 'f world \<Rightarrow> bool" where
  "drops_to F X D K w w' \<longleftrightarrow> (\<exists>D' qs V. sound F {} X D' K qs V w' \<and> gains F D D') \<and> left_over X w w' \<and> kept F w w'"

definition cascades :: "nat set \<Rightarrow> 'f user_code \<Rightarrow> nat \<Rightarrow> addr set \<Rightarrow> drop_call list \<Rightarrow> bool" where
  "cascades F uc n X ds \<longleftrightarrow> (\<forall>D K ps W w. sound F {} X (D + mset (dropped_ccs ds)) (K + mset (dropped_weaks ds)) ps W w \<longrightarrow>
     card (dom (w_boxes w) - X) < n \<longrightarrow> (\<exists>w'. drop_seq (drop_one uc n) ds w = Done () w' \<and> drops_to F X D K w w'))"

lemma cascadesD:
  assumes "cascades F uc n X ds" "sound F {} X (D + mset (dropped_ccs ds)) (K + mset (dropped_weaks ds)) ps W w"
    and "card (dom (w_boxes w) - X) < n"
  shows "\<exists>w'. drop_seq (drop_one uc n) ds w = Done () w' \<and> drops_to F X D K w w'"
  using assms unfolding cascades_def by blast

lemma gains_rest:
  assumes "gains F (D + R) D'"
  obtains E where "D' = E + R" "gains F D E"
proof -
  from assms have "D + R \<subseteq># D'" by (simp add: gains_def)
  then obtain G where "D' = D + R + G" by (auto simp: mset_subset_eq_exists_conv)
  then have "D' = (D + G) + R" by (simp add: ac_simps)
  moreover have "gains F D (D + G)" using assms \<open>D' = D + R + G\<close> by (auto simp: gains_def)
  ultimately show thesis by (rule that)
qed

lemma drops_to_trans:
  assumes "left_over X u v" "kept F u v" "drops_to F X D' K v w" "gains F D D'"
  shows "drops_to F X D K u w"
  using assms left_over_trans [OF assms(1)] kept_trans [OF assms(2)] gains_trans [OF assms(4)]
  unfolding drops_to_def by blast

text \<open>The second half of the destructor, for a value that has been finalized.\<close>

lemma destroy_last_cascade:
  assumes parts: "cascades F uc n (insert q X) (drop_glue e)"
    and s: "sound F {} X (add_mset q D) K ps W w" and n: "card (dom (w_boxes w) - X) < Suc n"
    and b: "w_boxes w q = Some b" "q \<notin> X" "v_rc (view (b_cm b)) = 1" "b_elem b = Some e" "plain_val F e"
  shows "\<exists>w'. destroy_last uc n q w = Done () w' \<and> drops_to F X D K w w'"
proof -
  note d = drop_invD [OF soundD(1) [OF s]]
  let ?Q = "\<lambda>V v'. \<exists>v qs D'. destroying q ps W w v \<and> sound F {} (insert q X) D' K qs V v' \<and> gains F D D' \<and>
    left_over (insert q X) v v' \<and> kept F v v'"
  have "\<exists>v' V. drop_seq (drop_one uc n) (drop_glue e) v = Done () v' \<and> box_left q (size_of w q) V v' \<and> ?Q V v'"
    if de: "destroying q ps W w v" for v
  proof -
    note s1 = destroying_sound [OF s b(1,3,4) de b(5)]
    have "dom (w_boxes w) - insert q X \<subset> dom (w_boxes w) - X" using b(1,2) by blast
    then have "card (dom (w_boxes v) - insert q X) < card (dom (w_boxes w) - X)"
      unfolding s1(2) using d(4) by (simp add: psubset_card_mono)
    with n have "card (dom (w_boxes v) - insert q X) < n" by simp
    from cascadesD [OF parts s1(1) this] obtain v' qs V D' where
      v': "drop_seq (drop_one uc n) (drop_glue e) v = Done () v'" "sound F {} (insert q X) D' K qs V v'" "gains F D D'"
      "left_over (insert q X) v v'" "kept F v v'"
      unfolding drops_to_def by blast
    note e = soundD [OF v'(2)]
    from e(3) obtain c where c: "w_boxes v' q = Some c" by blast
    have "size_of v q = size_of w q"
    proof -
      from de obtain a where a: "w_boxes v q = Some a" "box_meta a = box_meta b" "metas_kept (w_meta w) (w_meta v)" "weak_inv W v"
        using b(1) drop_invD(2) unfolding destroying_def by fastforce
      with size_of_kept [OF a(4,3) b(1) a(1,2)] show ?thesis by simp
    qed
    with left_over_size [OF v'(4), of q] have size: "size_of v' q = size_of w q" by simp
    have "size_of v' q \<le> sizes v'" using c drop_invD(4) [OF e(1)] by (auto simp: sizes_def intro!: member_le_sum)
    then have "box_left q (size_of w q) V v'" using drop_invD(2) [OF e(1)] c e(7) by (simp add: box_left_def size)
    with v' de show ?thesis by blast
  qed
  from destroy_last_frame [where Q = ?Q, OF soundD(1) [OF s] b(1,3,4) this] obtain v u qs w' V D' where
    run: "destroy_last uc n q w = Done () w'" "freed_box q (size_of w q) (st_dropping (w_state w)) u w'" "weak_inv V w'"
    and u: "destroying q ps W w v" "sound F {} (insert q X) D' K qs V u" "gains F D D'" "left_over (insert q X) v u" "kept F v u" by blast
  note e = soundD [OF u(2)]
  have X: "X \<subseteq> dom (w_boxes u)" using e(3) by blast
  note l = destroyed_left_over [OF u(1,4) run(2) drop_invD(2) [OF e(1)] run(3) X b(2)]
  have "sound F {} X D' K qs V w'"
    by (rule freed_sound [OF u(2) _ run(3) left_over_calm [OF l(1) d(3)] b(2)]) (use run(2) l(2) in simp)
  with run(1) u(3) l(1) destroyed_kept [OF u(1,5) run(2)] show ?thesis unfolding drops_to_def by blast
qed

lemma handle_sound:
  assumes s: "sound F {} X (add_mset q D) K ps W w" and b: "w_boxes w q = Some b" "1 < v_rc (view (b_cm b))"
  shows "\<exists>w'. handle_possible_cycle q w = Done () w' \<and> drops_to F X D K w w'"
proof -
  note d = soundD [OF s]
  from sound_live [OF s, of q] b(1) have alive: "q \<notin> X" "v_rc (view (b_cm b)) < 16383" "v_tc (view (b_cm b)) < 16383" by auto
  from handle_shared [OF d(1) b(1) alive(2) _ b(2) alive(3)] obtain w' qs where
    1: "handle_possible_cycle q w = Done () w'" "drop_inv {} qs W w'" "lowered {} ((\<lambda>_. 0)(q := 1)) w w'" "set qs = insert q (set ps)"
    by auto
  have cnt: "count {#q#} = (\<lambda>_. 0)(q := 1)" by (rule ext) simp
  have "sound F {} X (D + {#q#}) K ps W w" using s by simp
  then have "sound F {} X D K qs W w'"
    by (rule sound_lowered [OF _ 1(2)]) (use 1(3,4) alive(1) d(2,6) in \<open>auto simp: cnt\<close>)
  with 1(1) lowered_left_over [OF 1(3) drop_invD(2) [OF 1(2)]] kept_same gains_refl show ?thesis unfolding drops_to_def by blast
qed

lemma cc_drop_shared_sound:
  assumes s: "sound F {} X (add_mset q D) K ps W w" and b: "w_boxes w q = Some b" "1 < v_rc (view (b_cm b))"
  shows "\<exists>w'. cc_drop uc (Suc n) q w = Done () w' \<and> drops_to F X D K w w'"
proof -
  note d = drop_invD [OF soundD(1) [OF s]]
  have test: "on_boxes (cm_test q is_in_list_or_queue) w = Done False w"
    using b(1) d(6) [OF b(1)] by (simp add: on_boxes_def zoom_def cm_tests in_collector_def)
  from sound_live [OF s, of q] b(1) have alive: "v_rc (view (b_cm b)) < 16383" by auto
  then have "on_boxes (on_cm q counter) w = Done (word_of_nat (v_rc (view (b_cm b)))) w"
    using on_cm_read [of "w_boxes w" q b counter] b(1) by (simp add: on_boxes_def zoom_def)
  moreover have "(word_of_nat (v_rc (view (b_cm b))) :: u16) \<noteq> 1"
    using b(2) alive word_of_nat_u16_numeral by (auto simp: word_unat_eq_iff unat_of_nat)
  ultimately have "cc_drop uc (Suc n) q w = handle_possible_cycle q w" using d(3) test by (simp add: bindM_def)
  with handle_sound [OF s b] show ?thesis by (simp del: cc_drop.simps)
qed

text \<open>The finalizer may take references, so that the box lives on.\<close>

lemma cc_drop_last_cascade:
  assumes k: "keeps_sound F uc" and parts: "\<And>e. plain_val F e \<Longrightarrow> cascades F uc n (insert q X) (drop_glue e)"
    and s: "sound F {} X (add_mset q D) K ps W w" and n: "card (dom (w_boxes w) - X) < Suc n"
    and b: "w_boxes w q = Some b" "q \<notin> X" "v_rc (view (b_cm b)) = 1" "b_elem b = Some e" "plain_val F e"
  shows "\<exists>w'. cc_drop uc (Suc n) q w = Done () w' \<and> drops_to F X D K w w'"
proof -
  note d = drop_invD [OF soundD(1) [OF s]]
  have nc: "\<not> in_collector b" using d(6) [OF b(1)] by simp
  note halves = cc_drop_halves [OF b(1,3) nc d(3), of uc n]
  show ?thesis
  proof (cases "v_fin (view (b_cm b))")
    case True
    from halves finalize_last_done [OF b(1) True] have "cc_drop uc (Suc n) q w = destroy_last uc n q w" by (simp add: bindM_def)
    with destroy_last_cascade [OF parts [OF b(5)] s n b] show ?thesis by (simp del: cc_drop.simps)
  next
    case False
    note f = finalizing_sound [OF s, where p = q]
    have "st_finalizing (w_state (finalizing_world q w))" by (simp add: finalizing_world_def set_finalizing_def)
    from finalizers_keep [OF k f(1) this, of "finalize_val e"] b(5) obtain D1 qs V u where
      1: "forM (finalize_val e) (uc_finalize uc) (finalizing_world q w) = Done () u" "sound F {} X D1 K qs V u"
      "add_mset q D \<subseteq># D1" "left_over X (finalizing_world q w) u"
      "finalize_val e = [] \<longrightarrow> u = finalizing_world q w \<and> D1 = add_mset q D" by (auto simp: plain_val_def)
    have "gains F (D + {#q#}) D1" using 1(3,5) b(5) by (auto simp: gains_def plain_val_def)
    then obtain D' where D': "D1 = add_mset q D'" "gains F D D'" by (rule gains_rest) simp
    have kf: "kept F w u"
      using 1(5) b(5) f(3) by (auto simp: kept_def plain_val_def)
    from sound_live [OF 1(2) [unfolded D'(1)], of q] obtain c e' where c: "w_boxes u q = Some c" "0 < v_rc (view (b_cm c))"
      "v_rc (view (b_cm c)) < 16383" "b_elem c = Some e'" "plain_val F e'" by (metis union_single_eq_member)
    have lo: "left_over X w (finalized_world w u)"
      using f(2) left_over_restore [OF 1(4)] by (rule left_over_trans)
    note restore = finalize_last_run [OF b(1,4) False 1(1) c(1,3)]
    show ?thesis
    proof (cases "v_rc (view (b_cm c)) = 1")
      case True
      let ?u = "finalized_world w u"
      have s1: "sound F {} X (add_mset q D') K qs V ?u"
        unfolding finalized_world_def
        by (rule sound_state [OF 1(2) [unfolded D'(1)]])
          (use d(3) left_over_state [OF lo] in \<open>simp_all add: calm_def is_tracing_def finalized_world_def set_finalizing_def\<close>)
      have "card (dom (w_boxes ?u) - X) < Suc n" using left_over_card [OF lo d(4), of X] n by simp
      from destroy_last_cascade [OF parts [OF c(5)] s1 this _ b(2) True c(4,5)] c(1) obtain w' where
        2: "destroy_last uc n q ?u = Done () w'" "drops_to F X D' K ?u w'" by (auto simp: finalized_world_def)
      have "cc_drop uc (Suc n) q w = Done () w'" using halves restore(1) [OF True] 2(1) by (simp add: bindM_def)
      moreover have "kept F w ?u" using kf by (simp add: kept_def)
      ultimately show ?thesis using drops_to_trans [OF lo _ 2(2) D'(2)] by blast
    next
      case shared: False
      with c(2) have "1 < v_rc (view (b_cm c))" by simp
      from handle_sound [OF 1(2) [unfolded D'(1)] c(1) this] obtain u' where
        2: "handle_possible_cycle q u = Done () u'" "drops_to F X D' K u u'" by blast
      let ?u = "finalized_world w u'"
      from 2(2) obtain D2 rs V2 where u': "sound F {} X D2 K rs V2 u'" "gains F D' D2" "left_over X u u'" "kept F u u'"
        unfolding drops_to_def by blast
      have lo': "left_over X w ?u"
        using lo left_over_restore [OF u'(3)] by (rule left_over_trans)
      have "sound F {} X D2 K rs V2 ?u"
        unfolding finalized_world_def
        by (rule sound_state [OF u'(1)])
          (use d(3) left_over_state [OF lo'] in \<open>simp_all add: calm_def is_tracing_def finalized_world_def set_finalizing_def\<close>)
      moreover have "kept F w ?u" using kept_trans [OF kf u'(4)] by (simp add: kept_def)
      moreover have "cc_drop uc (Suc n) q w = Done () ?u"
        using halves restore(2) [OF shared 2(1)] by (simp add: bindM_def)
      ultimately show ?thesis using lo' gains_trans [OF D'(2) u'(2)] unfolding drops_to_def by blast
    qed
  qed
qed

lemma sound_alive:
  assumes "sound F N X (add_mset q D) K ps W w"
  obtains b v where "w_boxes w q = Some b" "q \<notin> X" "0 < v_rc (view (b_cm b))" "v_rc (view (b_cm b)) < 16383"
    "v_tc (view (b_cm b)) < 16383" "b_elem b = Some v" "plain_val F v"
  using sound_live [OF assms, of q] by auto

lemma weak_drop_sound:
  assumes s: "sound F {} X D (add_mset k K) ps W w"
  shows "\<exists>w' V. weak_drop k w = Done () w' \<and> sound F {} X D K ps V w' \<and> left_over X w w' \<and> vals_of w' = vals_of w"
proof -
  note d = soundD [OF s]
  note e = drop_invD [OF d(1)]
  have k: "k \<in># W" using d(6) by (auto dest: mset_subset_eqD)
  from weak_drop_ok [OF e(2) k] obtain M where
    1: "weak_drop k w = Done () (w\<lparr>w_meta := M\<rparr>)" "weak_inv (W - {#k#}) (w\<lparr>w_meta := M\<rparr>)" "metas_kept (w_meta w) M" by blast
  have inv: "drop_inv {} ps (W - {#k#}) (w\<lparr>w_meta := M\<rparr>)"
    using e 1(2) by (auto simp: drop_inv_def buffered_def calm_def)
  have low: "lowered {} (count {#}) w (w\<lparr>w_meta := M\<rparr>)"
  proof -
    have "\<exists>h l M'. w\<lparr>w_meta := M\<rparr> = w\<lparr>w_boxes := h, w_pc := l, w_meta := M'\<rparr>"
      by (intro exI [of _ "w_boxes w"] exI [of _ "w_pc w"] exI [of _ M]) simp
    then show ?thesis using 1(3) by (auto simp: lowered_def box_lowered_def intro: option.rel_refl)
  qed
  have "add_mset k (K + owned dropped_weaks (w_boxes w)) \<subseteq># W" using d(6) by simp
  then have K: "K + owned dropped_weaks (w_boxes w) \<subseteq># W - {#k#}" by (simp add: insert_subset_eq_iff)
  have "sound F {} X (D + {#}) (add_mset k K) ps W w" using s by simp
  then have "sound F {} X D K ps (W - {#k#}) (w\<lparr>w_meta := M\<rparr>)" by (rule sound_lowered [OF _ inv low d(2) _ K]) simp
  with 1(1) lowered_left_over [OF low 1(2)] show ?thesis by blast
qed

lemma drop_one_cascade:
  assumes k: "keeps_sound F uc" and parts: "\<And>q e. plain_glue (drop_glue e) \<Longrightarrow> cascades F uc n (insert q X) (drop_glue e)"
    and s: "sound F {} X (D + mset (dropped_ccs [d])) (K + mset (dropped_weaks [d])) ps W w" and plain: "plain_glue [d]"
    and n: "card (dom (w_boxes w) - X) < Suc n"
  shows "\<exists>w'. drop_one uc (Suc n) d w = Done () w' \<and> drops_to F X D K w w'"
proof (cases d)
  case (DropCc q)
  with s have s: "sound F {} X (add_mset q D) K ps W w" by simp
  from sound_alive [OF s] obtain b v where
    b: "w_boxes w q = Some b" "q \<notin> X" "0 < v_rc (view (b_cm b))" "b_elem b = Some v" "plain_val F v" by metis
  have "\<exists>w'. cc_drop uc (Suc n) q w = Done () w' \<and> drops_to F X D K w w'"
  proof (cases "v_rc (view (b_cm b)) = 1")
    case True
    have "plain_val F e \<Longrightarrow> cascades F uc n (insert q X) (drop_glue e)" for e by (rule parts) (simp add: plain_val_def)
    with cc_drop_last_cascade [OF k _ s n b(1,2) True b(4,5)] show ?thesis by blast
  next
    case False
    with b(3) have "1 < v_rc (view (b_cm b))" by simp
    from cc_drop_shared_sound [OF s b(1) this] show ?thesis by blast
  qed
  then show ?thesis by (simp add: DropCc drop_one_def del: cc_drop.simps)
next
  case (DropWeak m q)
  with s have "sound F {} X D (add_mset \<lparr>wk_metadata = m, wk_cc = q\<rparr> K) ps W w" by simp
  from weak_drop_sound [OF this] kept_same gains_refl show ?thesis
    unfolding DropWeak drop_one_def drops_to_def drop_by_simps by blast
qed (use plain in simp_all)

lemma drops_cascade:
  fixes uc :: "'f user_code"
  assumes k: "keeps_sound F uc" and IH: "\<And>q e. plain_glue (drop_glue e) \<Longrightarrow> cascades F uc n (insert q X) (drop_glue e)"
  shows "plain_glue ds \<Longrightarrow> cascades F uc (Suc n) X ds"
proof (induction ds)
  case Nil
  with left_over_refl kept_refl gains_refl show ?case unfolding cascades_def drops_to_def by fastforce
next
  case (Cons d ds)
  have cs: "mset (dropped_ccs (d # ds)) = mset (dropped_ccs ds) + mset (dropped_ccs [d])"
    "mset (dropped_weaks (d # ds)) = mset (dropped_weaks ds) + mset (dropped_weaks [d])" by (cases d; simp)+
  have p: "plain_glue [d]" "plain_glue ds" using Cons.prems by (simp_all add: plain_glue_def)
  show ?case
    unfolding cascades_def
  proof (intro allI impI)
    fix D K ps W and w :: "'f world" assume s: "sound F {} X (D + mset (dropped_ccs (d # ds))) (K + mset (dropped_weaks (d # ds))) ps W w"
      and n: "card (dom (w_boxes w) - X) < Suc n"
    from s have s': "sound F {} X (D + mset (dropped_ccs ds) + mset (dropped_ccs [d])) (K + mset (dropped_weaks ds) + mset (dropped_weaks [d])) ps W w"
      by (simp only: cs add.assoc)
    from drop_one_cascade [OF k IH s' p(1) n] obtain v where
      1: "drop_one uc (Suc n) d w = Done () v" "drops_to F X (D + mset (dropped_ccs ds)) (K + mset (dropped_weaks ds)) w v" by blast
    then obtain D1 qs V where v: "sound F {} X D1 (K + mset (dropped_weaks ds)) qs V v" "gains F (D + mset (dropped_ccs ds)) D1"
      "left_over X w v" "kept F w v"
      unfolding drops_to_def by blast
    from v(2) obtain E where E: "D1 = E + mset (dropped_ccs ds)" "gains F D E" by (rule gains_rest)
    have "card (dom (w_boxes v) - X) < Suc n"
      using left_over_card [OF v(3) drop_invD(4) [OF soundD(1) [OF s]], of X] n by simp
    from cascadesD [OF Cons.IH [OF p(2)] v(1) [unfolded E(1)] this] obtain w' where
      2: "drop_seq (drop_one uc (Suc n)) ds v = Done () w'" "drops_to F X E K v w'" by blast
    with 1(1) drops_to_trans [OF v(3,4) 2(2) E(2)] show "\<exists>w'. drop_seq (drop_one uc (Suc n)) (d # ds) w = Done () w' \<and> drops_to F X D K w w'"
      by simp
  qed
qed

lemma cascade: "keeps_sound F uc \<Longrightarrow> plain_glue ds \<Longrightarrow> cascades F uc n X ds"
proof (induction n arbitrary: X ds)
  case 0
  then show ?case by (simp add: cascades_def)
next
  case (Suc n)
  then show ?case using drops_cascade by blast
qed

lemma cc_drop_sound:
  assumes k: "keeps_sound F uc" and s: "sound F {} {} (add_mset q D) K ps W w" and n: "card (dom (w_boxes w)) < n"
  shows "\<exists>w'. cc_drop uc n q w = Done () w' \<and> drops_to F {} D K w w'"
proof -
  have "\<exists>w'. drop_seq (drop_one uc n) [DropCc q] w = Done () w' \<and> drops_to F {} D K w w'"
    by (rule cascadesD [OF cascade [OF k], where ps = ps and W = W]) (use s n in simp_all)
  then obtain w' where w': "drop_seq (drop_one uc n) [DropCc q] w = Done () w'" "drops_to F {} D K w w'" by blast
  have "drop_seq (drop_one uc n) [DropCc q] = cc_drop uc n q" by (simp add: drop_one_def drop_alone del: cc_drop.simps)
  with w' show ?thesis by auto
qed

end
