(* ===== verification/Unwrap.thy ===== *)
theory Unwrap
  imports User_Drop
begin

text \<open>
  \<open>Cc::try_unwrap\<close>: it moves the value out of a box that has one reference and frees the box without
  running a destructor; otherwise it hands the \<open>Cc\<close> back and changes nothing.
\<close>

lemma strong_count_eval:
  assumes "w_boxes w p = Some b" "v_rc (view (b_cm b)) < 16383"
  shows "strong_count p w = Done (ucast (word_of_nat (v_rc (view (b_cm b))) :: u16)) w"
  using on_cm_read [of "w_boxes w" p b counter] assms by (simp add: strong_count_def on_boxes_def zoom_def bindM_def)

lemma u32_one: "n < 65536 \<Longrightarrow> (ucast (word_of_nat n :: u16) :: u32) = 1 \<longleftrightarrow> n = 1"
  by (simp add: word_unat_eq_iff unsigned_ucast_eq unat_of_nat take_bit_eq_mod)

lemma try_unwrap_refused:
  assumes p: "w_boxes w p = Some b" "v_rc (view (b_cm b)) < 16383"
    and "v_rc (view (b_cm b)) \<noteq> 1 \<or> \<not> w_state_alive w \<or> st_collecting (w_state w) \<or> st_dropping (w_state w) \<or> st_finalizing (w_state w)"
  shows "try_unwrap p w = Done (Inl p) w"
  using assms u32_one [of "v_rc (view (b_cm b))"] strong_count_eval [OF p]
  by (auto simp: try_unwrap_def try_state_def bindM_def)

lemma try_unwrap_run:
  assumes inv: "drop_inv {} ps W w" and p: "w_boxes w p = Some b" "v_rc (view (b_cm b)) = 1" "b_elem b = Some v"
    and idle: "\<not> st_collecting (w_state w)" "\<not> st_dropping (w_state w)" "\<not> st_finalizing (w_state w)"
    and bytes: "size_of w p \<le> unat (st_allocated_bytes (w_state w))"
  shows "\<exists>w'. try_unwrap p w = Done (Inr v) w' \<and> weak_inv W w' \<and> w_boxes w' p = None \<and>
    (\<forall>q. q \<noteq> p \<longrightarrow> rel_option (box_lowered 0) (w_boxes w q) (w_boxes w' q)) \<and> buffered (remove1 p ps) w' \<and>
    unat (st_allocated_bytes (w_state w')) + size_of w p = unat (st_allocated_bytes (w_state w)) \<and>
    (\<forall>k \<in># W. wk_cc k = p \<longrightarrow> \<not> upgradable k w') \<and> shrunk w w' \<and>
    (\<exists>v. drop_inv {} (remove1 p ps) W v \<and> lowered {} (\<lambda>_. 0) w v \<and> freed_box p (size_of w p) (st_dropping (w_state w)) v w')"
proof -
  note d = drop_invD [OF inv]
  from remove_from_list_inv [OF inv p(1)] obtain w1 where
    1: "remove_from_list p w = Done () w1" "drop_inv {} (remove1 p ps) W w1" "lowered {} (\<lambda>_. 0) w w1" by blast
  note d1 = drop_invD [OF 1(2)]
  from 1(3) obtain h k M where w1: "w1 = w\<lparr>w_boxes := h, w_pc := k, w_meta := M\<rparr>" and kept: "metas_kept (w_meta w) (w_meta w1)"
    unfolding lowered_def by blast
  from loweredD [OF 1(3) p(1)] obtain b1 where b1: "w_boxes w1 p = Some b1" "box_lowered 0 b b1" by blast
  have size: "size_of w1 p = size_of w p"
    by (rule size_of_kept [OF d1(2) kept p(1) b1(1)]) (use b1(2) in \<open>simp add: box_lowered_def box_meta_def\<close>)
  have elem: "get_elem p w1 = Done v w1"
    using b1 p(3) by (simp add: get_elem_def on_boxes_def zoom_def bindM_def box_lowered_def)
  from box_layout_ok [OF d1(2) b1(1)] obtain l where l: "box_layout p w1 = Done l w1" "unat l = size_of w1 p" by blast
  have bytes1: "unat l \<le> unat (st_allocated_bytes (w_state w1))" using bytes size l(2) by (simp add: w1)
  from free_box_ok [OF d1(2) b1(1) bytes1] obtain M2 w2 where
    2: "thenM (drop_metadata p) (cc_dealloc p l) w1 = Done () w2" "weak_inv W w2"
    "w2 = w1\<lparr>w_meta := M2, w_state := (w_state w1)\<lparr>st_allocated_bytes := st_allocated_bytes (w_state w1) - l\<rparr>,
       w_boxes := (w_boxes w1)(p := None)\<rparr>" "\<forall>k \<in># W. wk_cc k = p \<longrightarrow> \<not> upgradable k w2" "metas_kept (w_meta w1) M2" by blast
  have "thenM (drop_metadata p) (thenM (cc_dealloc p l) (ret (Some v))) w1 = Done (Some v) w2"
    using 2(1) by (auto simp: thenM_def bindM_eq_Done)
  then have "try_unwrap p w = Done (Inr v) w2"
    using d(3) idle strong_count_eval [OF p(1)] p(2) 1(1) elem l(1) u32_one [of 1]
    by (simp add: try_unwrap_def try_state_def calm_def bindM_def thenM_def)
  moreover have "buffered (remove1 p ps) w2"
    by (rule buffered_free [OF d1(1), of "{p}"])
      (use buffered_repr [OF d(1)] in \<open>auto simp: 2(3) pc_repr_def\<close>)
  moreover have "rel_option (box_lowered 0) (w_boxes w q) (w_boxes w2 q)" if "q \<noteq> p" for q
    using 1(3) that by (simp add: lowered_def 2(3))
  moreover have "unat (st_allocated_bytes (w_state w1) - l) + unat l = unat (st_allocated_bytes (w_state w1))"
    using bytes1 by (simp add: unat_sub word_le_nat_alt)
  then have "unat (st_allocated_bytes (w_state w2)) + size_of w p = unat (st_allocated_bytes (w_state w))"
    using l(2) size by (simp add: 2(3)) (simp add: w1)
  moreover have "shrunk w w2"
  proof (rule shrunkI [where h = "w_boxes w2" and l = "w_pc w2" and M = M2 and a = "st_allocated_bytes (w_state w2)"])
    show "w2 = w\<lparr>w_boxes := w_boxes w2, w_pc := w_pc w2, w_meta := M2,
        w_state := (w_state w)\<lparr>st_allocated_bytes := st_allocated_bytes (w_state w2)\<rparr>\<rparr>"
      by (simp add: 2(3)) (simp add: w1)
    show "unat (st_allocated_bytes (w_state w2)) \<le> unat (st_allocated_bytes (w_state w))"
      using \<open>unat (st_allocated_bytes (w_state w2)) + size_of w p = _\<close> by simp
    show "metas_kept (w_meta w) M2" using kept 2(5) by (rule metas_kept_trans)
  qed
  moreover have "freed_box p (size_of w p) (st_dropping (w_state w)) w1 w2"
  proof -
    have "w2 = w1\<lparr>w_meta := M2, w_boxes := (w_boxes w1)(p := None),
      w_state := set_dropping (st_dropping (w_state w)) ((w_state w1)\<lparr>st_allocated_bytes := st_allocated_bytes (w_state w1) - l\<rparr>)\<rparr>"
      by (simp add: 2(3) set_dropping_def) (simp add: w1)
    then show ?thesis unfolding freed_box_def using l(2) size bytes1 2(5) by auto
  qed
  moreover have "w_boxes w2 p = None" by (simp add: 2(3))
  ultimately show ?thesis using 2(2,4) 1(2,3) by (intro exI [of _ w2]) blast
qed

lemma try_unwrap_ok:
  assumes "drop_inv {} ps W w" "w_boxes w p = Some b" "v_rc (view (b_cm b)) = 1" "b_elem b = Some v"
    and "\<not> st_collecting (w_state w)" "\<not> st_dropping (w_state w)" "\<not> st_finalizing (w_state w)"
    and "size_of w p \<le> unat (st_allocated_bytes (w_state w))"
  shows "\<exists>w'. try_unwrap p w = Done (Inr v) w' \<and> weak_inv W w' \<and> w_boxes w' p = None \<and>
    (\<forall>q. q \<noteq> p \<longrightarrow> rel_option (box_lowered 0) (w_boxes w q) (w_boxes w' q)) \<and> buffered (remove1 p ps) w' \<and>
    unat (st_allocated_bytes (w_state w')) + size_of w p = unat (st_allocated_bytes (w_state w)) \<and>
    (\<forall>k \<in># W. wk_cc k = p \<longrightarrow> \<not> upgradable k w')"
  using try_unwrap_run [OF assms] by blast

end
