(* ===== verification/Api_Ops.thy ===== *)
theory Api_Ops
  imports Cascade Unwrap
begin

text \<open>
  Every operation of the public interface keeps the invariant of ownership: the reference it returns
  is counted, and what it was given is not counted any more. Where a counter is full it panics and
  leaves the memory as it was.
\<close>

subsection \<open>Writing one box\<close>

lemma sound_upd:
  assumes s: "sound F N X D K ps W w" and p: "w_boxes w p = Some b"
    and f: "b_next (f b) = b_next b" "b_prev (f b) = b_prev b" "v_mark (view (b_cm (f b))) = v_mark (view (b_cm b))"
      "box_meta (f b) = box_meta b" "b_elem (f b) = b_elem b" "v_tc (view (b_cm (f b))) = v_tc (view (b_cm b))"
    and box: "box_sound F (p \<in> X) (f b)"
    and cnt: "\<And>q. count D' q = count D q + (if q = p then v_rc (view (b_cm (f b))) - v_rc (view (b_cm b)) else 0)"
      "v_rc (view (b_cm b)) \<le> v_rc (view (b_cm (f b)))"
  shows "sound F N X D' K ps W (w\<lparr>w_boxes := upd p f (w_boxes w)\<rparr>)"
proof (rule soundI_in)
  note d = soundD [OF s]
  let ?w = "w\<lparr>w_boxes := upd p f (w_boxes w)\<rparr>"
  show inv: "drop_inv N ps W ?w" by (rule drop_inv_upd [OF d(1)]) (use p f in simp)
  show "set ps \<inter> X = {}" "N \<inter> X = {}" by (rule d(2), rule d(10))
  show "X \<subseteq> dom (w_boxes ?w)" "N \<subseteq> dom (w_boxes ?w)" using d(3,9) by (auto simp: upd_apply)
  show "box_sound F (q \<in> X) c" if "w_boxes ?w q = Some c" for q c
    using that d(4) [of q c] p box by (auto simp: upd_apply split: if_splits)
  have elem: "owned g (w_boxes ?w) = owned g (w_boxes w)" for g :: "drop_call list \<Rightarrow> 'c list"
    by (rule owned_cong) (use p f(5) in \<open>auto simp: upd_apply\<close>)
  have "set_mset D \<subseteq> set_mset D'"
  proof
    fix q assume "q \<in># D"
    with cnt(1) [of q] have "count D' q \<noteq> 0" by (auto simp flip: count_greater_zero_iff)
    then show "q \<in># D'" by (simp add: not_in_iff)
  qed
  moreover have "targets (w_boxes ?w) q = targets (w_boxes w) q" for q
    by (rule targets_elem) (use p f(5) in \<open>auto simp: upd_apply\<close>)
  ultimately show "no_lost X (set_mset D' \<union> set ps \<union> N) (w_boxes ?w)"
    by (intro no_lost_same [OF d(8)]) (auto simp: upd_apply split: if_splits)
  show "count D' q + count (owned dropped_ccs (w_boxes ?w)) q = rc_of (w_boxes ?w) q" for q
  proof (cases "q = p")
    case True
    have "rc_of (w_boxes ?w) p = v_rc (view (b_cm (f b)))" "rc_of (w_boxes w) p = v_rc (view (b_cm b))"
      using p by (simp_all add: rc_of_def)
    with d(5) [of p] cnt(1) [of p] cnt(2) True show ?thesis unfolding elem by simp
  next
    case False
    then have "rc_of (w_boxes ?w) q = rc_of (w_boxes w) q" by (simp add: rc_of_def upd_apply)
    with d(5) [of q] cnt(1) [of q] False show ?thesis unfolding elem by simp
  qed
  show "K + owned dropped_weaks (w_boxes ?w) \<subseteq># W" unfolding elem by (rule d(6))
  have "sizes ?w = sizes w"
    by (rule sizes_cong [OF drop_invD(2) [OF inv]]) (use p f(4) in \<open>auto simp: upd_apply\<close>)
  with d(7) show "sizes ?w = unat (st_allocated_bytes (w_state ?w))" by simp
qed

lemma remove1_rest: "set ps \<subseteq> insert p (set (remove1 p ps))"
  by (induction ps) auto

text \<open>What a client does not see: counters, marks, links and the buffer.\<close>

definition unseen :: "addr set \<Rightarrow> addr set \<Rightarrow> 'f world \<Rightarrow> 'f world \<Rightarrow> bool" where
  "unseen N X w w' \<longleftrightarrow> left_over X w w' \<and> same_links N w w' \<and> vals_of w' = vals_of w"

lemma unseen_refl: "unseen N X w w"
  by (simp add: unseen_def left_over_refl same_links_def)

lemma unseen_trans: "unseen N X u v \<Longrightarrow> unseen N X v w \<Longrightarrow> unseen N X u w"
  using left_over_trans [of X u v w] by (simp add: unseen_def same_links_def)

lemma unseen_frame: "unseen N X w w' \<Longrightarrow> same_frame w w'"
  by (simp add: unseen_def left_over_def)

lemma lowered_unseen:
  assumes l: "lowered N r w w'" and inv: "weak_inv W w'"
  shows "unseen N X w w'"
proof -
  have "links (w_boxes w') p = links (w_boxes w) p" if "p \<in> N" for p
  proof -
    from that l have "map_option list_part (w_boxes w' p) = map_option list_part (w_boxes w p)" by (simp add: lowered_def)
    then show ?thesis by (cases "w_boxes w p"; cases "w_boxes w' p") (auto simp: links_def list_part_def)
  qed
  with lowered_left_over [OF l inv] show ?thesis by (simp add: unseen_def same_links_def)
qed

lemma unseen_upd:
  assumes "\<And>b. w_boxes w p = Some b \<Longrightarrow> box_meta (f b) = box_meta b \<and> b_elem (f b) = b_elem b \<and> b_next (f b) = b_next b \<and> b_prev (f b) = b_prev b"
  shows "unseen N X w (w\<lparr>w_boxes := upd p f (w_boxes w)\<rparr>)"
proof -
  let ?w = "w\<lparr>w_boxes := upd p f (w_boxes w)\<rparr>"
  have "shrunk w (w\<lparr>w_boxes := w_boxes ?w, w_pc := w_pc w\<rparr>)" by (rule shrunk_buffer)
  then have "same_frame w ?w" by (simp add: shrunk_frame)
  moreover have "size_of ?w q = size_of w q" for q
    using assms by (cases "w_boxes w p") (auto simp: size_of_def upd_apply box_meta_def split: metadata.splits option.splits)
  moreover have "vals_of ?w = vals_of w"
    by (rule vals_of_cong) (use assms in \<open>cases "w_boxes w p"; auto simp: upd_apply\<close>)
  moreover have "links (w_boxes ?w) q = links (w_boxes w) q" for q
    using assms by (cases "w_boxes w p") (auto simp: links_def upd_apply)
  ultimately show ?thesis by (auto simp: unseen_def left_over_def same_links_def upd_apply split: if_splits)
qed

lemma unlist_sound:
  assumes s: "sound F N X D K ps W w" and p: "w_boxes w p = Some b" "p \<in># D"
  shows "\<exists>w'. remove_from_list p w = Done () w' \<and> sound F N X D K (remove1 p ps) W w' \<and> unseen N X w w'"
proof -
  from remove_from_list_inv [OF soundD(1) [OF s] p(1)] obtain w' where
    1: "remove_from_list p w = Done () w'" "drop_inv N (remove1 p ps) W w'" "lowered N (\<lambda>_. 0) w w'" by blast
  have z: "(\<lambda>_. 0) = count ({#} :: addr multiset)" by (rule ext) simp
  have "sound F N X (D + {#}) K ps W w" using s by simp
  then have "sound F N X D K (remove1 p ps) W w'"
  proof (rule sound_lowered [OF _ 1(2) 1(3) [unfolded z]])
    show "set (remove1 p ps) \<inter> X = {}" using soundD(2) [OF s] set_remove1_subset [of p ps] by blast
    show "set_mset {#} \<union> set ps \<subseteq> set_mset D \<union> set (remove1 p ps)" using p(2) remove1_rest [of ps p] by auto
  qed (rule soundD(6) [OF s])
  with 1(1) lowered_unseen [OF 1(3) drop_invD(2) [OF 1(2)]] show ?thesis by blast
qed

subsection \<open>One more Cc\<close>

lemma increment_ok:
  assumes "w_boxes w p = Some b" "v_rc (view (b_cm b)) < 16382"
  shows "on_boxes (on_cm p increment_counter) w = Done (Inr ()) (raised p w)"
proof -
  have "upd p (\<lambda>d. d\<lparr>b_cm := rc_plus_one (b_cm b)\<rparr>) (w_boxes w) = upd p (\<lambda>b. b\<lparr>b_cm := rc_plus_one (b_cm b)\<rparr>) (w_boxes w)"
    using assms(1) by (intro ext) (simp add: upd_apply)
  then have "on_cm p increment_counter (w_boxes w) = Done (Inr ()) (w_boxes (raised p w))"
    using on_cm_Done [of "w_boxes w" p b increment_counter] assms increment_counter_eval [of "b_cm b"] by simp
  then show ?thesis by (simp add: on_boxes_def zoom_def)
qed

lemma increment_full:
  assumes "w_boxes w p = Some b" "v_rc (view (b_cm b)) = 16382"
  shows "on_boxes (on_cm p increment_counter) w = Done (Inl OverflowError) w"
proof -
  have "on_cm p increment_counter (w_boxes w) = Done (Inl OverflowError) (w_boxes w)"
    using on_cm_read [of "w_boxes w" p b increment_counter] assms increment_counter_eval [of "b_cm b"] by simp
  then show ?thesis by (simp add: on_boxes_def zoom_def)
qed

lemma raised_sound:
  assumes s: "sound F N X D K ps W w" and b: "w_boxes w p = Some b" "v_rc (view (b_cm b)) < 16382" "p \<notin> X"
  shows "sound F N X (add_mset p D) K ps W (raised p w)" "unseen N X w (raised p w)"
proof -
  show "sound F N X (add_mset p D) K ps W (raised p w)"
  proof (rule sound_upd [OF s b(1)])
    show "box_sound F (p \<in> X) (b\<lparr>b_cm := rc_plus_one (b_cm b)\<rparr>)"
      using soundD(4) [OF s b(1)] b(2,3) by (simp add: box_sound_def cm_upd)
  qed (use b(2) in \<open>simp_all add: cm_upd box_meta_def\<close>)
  show "unseen N X w (raised p w)" by (rule unseen_upd) (use b(1,2) in \<open>simp add: cm_upd box_meta_def\<close>)
qed

text \<open>A \<open>Cc\<close> to a box whose counter is not full.\<close>

lemma take_reference:
  assumes s: "sound F N X D K ps W w" and b: "w_boxes w p = Some b" "v_rc (view (b_cm b)) < 16382" "p \<notin> X"
  shows "\<exists>w'. remove_from_list p (raised p w) = Done () w' \<and> sound F N X (add_mset p D) K (remove1 p ps) W w' \<and> unseen N X w w'"
proof -
  have "w_boxes (raised p w) p = Some (b\<lparr>b_cm := rc_plus_one (b_cm b)\<rparr>)" using b(1) by simp
  moreover have "p \<in># add_mset p D" by simp
  ultimately obtain w' where
    1: "remove_from_list p (raised p w) = Done () w'" "sound F N X (add_mset p D) K (remove1 p ps) W w'" "unseen N X (raised p w) w'"
    using unlist_sound [OF raised_sound(1) [OF s b]] by blast
  from unseen_trans [OF raised_sound(2) [OF s b] 1(3)] 1(1,2) show ?thesis by blast
qed

abbreviation too_many_ccs :: panic where
  "too_many_ccs \<equiv> PanicMsg ''Too many references has been created to a single Cc''"

abbreviation too_many_weaks :: panic where
  "too_many_weaks \<equiv> PanicMsg ''Too many references has been created to a single Weak''"

text \<open>They happen only when a counter has its largest value.\<close>

definition ccs_full :: "'f world \<Rightarrow> bool" where
  "ccs_full w \<longleftrightarrow> (\<exists>p b. w_boxes w p = Some b \<and> v_rc (view (b_cm b)) = 16382)"

definition weaks_full :: "'f world \<Rightarrow> bool" where
  "weaks_full w \<longleftrightarrow> (\<exists>m bm. w_meta w m = Some bm \<and> w_count (wview (bm_weak bm)) = 32767)"

lemma clone_sound:
  assumes s: "sound F N X D K ps W w" and p: "w_boxes w p = Some b" "p \<notin> X"
  shows "(\<exists>w' qs. cc_clone p w = Done p w' \<and> v_rc (view (b_cm b)) \<noteq> 16382 \<and> sound F N X (add_mset p D) K qs W w' \<and> unseen N X w w') \<or>
    cc_clone p w = Panicked too_many_ccs w \<and> v_rc (view (b_cm b)) = 16382 \<and> ccs_full w"
proof -
  note calm = drop_invD(3) [OF soundD(1) [OF s]]
  have b: "w_boxes w p = Some b" "v_rc (view (b_cm b)) < 16383" using p soundD(4) [OF s p(1)] by (simp_all add: box_sound_def)
  show ?thesis
  proof (cases "v_rc (view (b_cm b)) < 16382")
    case True
    from take_reference [OF s b(1) True p(2)] obtain w' where
      "remove_from_list p (raised p w) = Done () w'" "sound F N X (add_mset p D) K (remove1 p ps) W w'" "unseen N X w w'" by blast
    with calm increment_ok [OF b(1) True] True show ?thesis by (auto simp: cc_clone_def mark_alive_def)
  next
    case False
    with b(2) have "v_rc (view (b_cm b)) = 16382" by simp
    with cc_clone_overflow [OF b(1) this calm] b(1) this show ?thesis unfolding ccs_full_def by blast
  qed
qed

lemma weak_counted:
  assumes "sound F N X D K ps W w" "k \<in># K"
  shows "k \<in># W"
  using soundD(6) [OF assms(1)] assms(2) by (auto dest: mset_subset_eqD)

lemma upgrade_sound:
  assumes s: "sound F {} {} D K ps W w" and k: "k \<in># K"
  shows "(\<exists>w' qs. weak_upgrade k w = Done (Some (wk_cc k)) w' \<and> sound F {} {} (add_mset (wk_cc k) D) K qs W w' \<and> unseen {} {} w w' \<and>
      vals_of w (wk_cc k) \<noteq> None) \<or>
    weak_upgrade k w = Done None w \<or> weak_upgrade k w = Panicked too_many_ccs w \<and> ccs_full w"
proof -
  note d = drop_invD [OF soundD(1) [OF s]] and kW = weak_counted [OF s k]
  have rc: "rc_bounded k w" using soundD(4) [OF s] by (auto simp: rc_bounded_def box_sound_def)
  show ?thesis
  proof (cases "upgradable k w")
    case False
    from weak_upgrade_none [OF d(2) kW rc d(3) this] show ?thesis by blast
  next
    case True
    then obtain b where b: "w_boxes w (wk_cc k) = Some b" "v_rc (view (b_cm b)) \<noteq> 0" by (auto simp: upgradable_def split: option.splits)
    have cnt: "weak_strong_count k w = Done (ucast (word_of_nat (v_rc (view (b_cm b))) :: u16)) w"
      using weak_strong_count_eval [OF d(2) kW rc] True b by simp
    have n: "v_rc (view (b_cm b)) < 16383" using rc b by (auto simp: rc_bounded_def)
    then have nz: "(ucast (word_of_nat (v_rc (view (b_cm b))) :: u16) :: u32) \<noteq> 0" using b(2) u32_zero [of "v_rc (view (b_cm b))"] by simp
    show ?thesis
    proof (cases "v_rc (view (b_cm b)) < 16382")
      case True
      from take_reference [OF s b(1) True] obtain w' where
        "remove_from_list (wk_cc k) (raised (wk_cc k) w) = Done () w'"
        "sound F {} {} (add_mset (wk_cc k) D) K (remove1 (wk_cc k) ps) W w'" "unseen {} {} w w'" by blast
      moreover have "vals_of w (wk_cc k) \<noteq> None" using soundD(4) [OF s b(1)] b(1) by (auto simp: vals_of_def box_sound_def)
      ultimately show ?thesis using d(3) cnt nz increment_ok [OF b(1) True] by (auto simp: weak_upgrade_def mark_alive_def)
    next
      case False
      with n have rc: "v_rc (view (b_cm b)) = 16382" by simp
      with b(1) have "ccs_full w" unfolding ccs_full_def by blast
      with increment_full [OF b(1) rc] d(3) cnt nz show ?thesis by (simp add: weak_upgrade_def)
    qed
  qed
qed

lemma mark_alive_sound:
  assumes s: "sound F {} {} D K ps W w" and p: "p \<in># D"
  shows "\<exists>w' qs. mark_alive p w = Done () w' \<and> sound F {} {} D K qs W w' \<and> unseen {} {} w w'"
proof -
  from sound_live [OF s p] obtain b where "w_boxes w p = Some b" by metis
  from unlist_sound [OF s this p] show ?thesis by (auto simp: mark_alive_def)
qed

lemma finalize_again_sound:
  assumes s: "sound F {} {} D K ps W w" and p: "p \<in># D"
    and idle: "\<not> st_collecting (w_state w)" "\<not> st_finalizing (w_state w)" "\<not> st_dropping (w_state w)"
  shows "\<exists>w'. finalize_again p w = Done () w' \<and> sound F {} {} D K ps W w' \<and> unseen {} {} w w'"
proof -
  from sound_live [OF s p] obtain b where b: "w_boxes w p = Some b" by metis
  let ?w = "w\<lparr>w_boxes := upd p (\<lambda>b. b\<lparr>b_cm := set_finalized False (b_cm b)\<rparr>) (w_boxes w)\<rparr>"
  have eq: "upd p (\<lambda>d. d\<lparr>b_cm := set_finalized False (b_cm b)\<rparr>) (w_boxes w) = upd p (\<lambda>b. b\<lparr>b_cm := set_finalized False (b_cm b)\<rparr>) (w_boxes w)"
    using b by (intro ext) (simp add: upd_apply)
  have "finalize_again p w = Done () ?w"
    using b idle drop_invD(3) [OF soundD(1) [OF s]] eq
    by (simp add: finalize_again_def with_state_def on_boxes_def zoom_def bindM_def on_cm_Done calm_def)
  moreover have "sound F {} {} D K ps W ?w"
    by (rule sound_upd [OF s b]) (use soundD(4) [OF s b] in \<open>simp_all add: cm_upd box_meta_def box_sound_def\<close>)
  moreover have "unseen {} {} w ?w" by (rule unseen_upd) (simp add: box_meta_def cm_upd)
  ultimately show ?thesis by blast
qed


subsection \<open>Weak pointers\<close>

lemma sound_weaks:
  assumes s: "sound F {} {} D K ps W w" and inv: "weak_inv (add_mset k W) (w\<lparr>w_meta := M\<rparr>)" and kept: "metas_kept (w_meta w) M"
  shows "sound F {} {} D (add_mset k K) ps (add_mset k W) (w\<lparr>w_meta := M\<rparr>)"
proof (rule soundI)
  note d = soundD [OF s]
  note e = drop_invD [OF d(1)]
  show "drop_inv {} ps (add_mset k W) (w\<lparr>w_meta := M\<rparr>)"
    using e inv by (auto simp: drop_inv_def buffered_def calm_def)
  have "sizes (w\<lparr>w_meta := M\<rparr>) = sizes w" by (rule sizes_cong [OF inv]) (simp_all add: kept)
  then show "sizes (w\<lparr>w_meta := M\<rparr>) = unat (st_allocated_bytes (w_state (w\<lparr>w_meta := M\<rparr>)))" using d(7) by simp
  show "add_mset k K + owned dropped_weaks (w_boxes (w\<lparr>w_meta := M\<rparr>)) \<subseteq># add_mset k W" using d(6) by simp
  show "box_sound F (p \<in> {}) b" if "w_boxes (w\<lparr>w_meta := M\<rparr>) p = Some b" for p b using that d(4) [of p b] by simp
  show "no_lost {} (set_mset D \<union> set ps) (w_boxes (w\<lparr>w_meta := M\<rparr>))" using d(8) by simp
  show "count D p + count (owned dropped_ccs (w_boxes (w\<lparr>w_meta := M\<rparr>))) p = rc_of (w_boxes (w\<lparr>w_meta := M\<rparr>)) p" for p
    using d(5) [of p] by simp
qed simp_all

lemma unseen_meta:
  assumes "metas_kept (w_meta w) M" and inv: "weak_inv W (w\<lparr>w_meta := M\<rparr>)"
  shows "unseen N X w (w\<lparr>w_meta := M\<rparr>)"
proof (rule lowered_unseen [where r = "\<lambda>_. 0" and N = N, OF _ inv])
  have "\<exists>h l M'. w\<lparr>w_meta := M\<rparr> = w\<lparr>w_boxes := h, w_pc := l, w_meta := M'\<rparr>"
    by (intro exI [of _ "w_boxes w"] exI [of _ "w_pc w"] exI [of _ M]) simp
  with assms(1) show "lowered N (\<lambda>_. 0) w (w\<lparr>w_meta := M\<rparr>)"
    by (auto simp: lowered_def box_lowered_def intro: option.rel_refl)
qed

lemma weak_inv_dangling: "weak_inv W w \<Longrightarrow> wk_metadata k = None \<Longrightarrow> weak_inv (add_mset k W) w"
  unfolding weak_inv_def by auto

lemma weak_new_sound:
  assumes s: "sound F {} {} D K ps W w"
  shows "sound F {} {} D (add_mset (weak_ptr_new a) K) ps (add_mset (weak_ptr_new a) W) w"
proof -
  have "weak_inv (add_mset (weak_ptr_new a) W) w"
    by (rule weak_inv_dangling [OF drop_invD(2) [OF soundD(1) [OF s]]]) (simp add: weak_ptr_new_def)
  with sound_weaks [OF s, of "weak_ptr_new a" "w_meta w"] show ?thesis by simp
qed

lemma weak_counter_bound:
  assumes "weak_inv W w" "w_meta w m = Some bm"
  shows "size (to_meta m W) \<le> 32767"
  using weak_invD(4) [OF assms] w_count_le [of "bm_weak bm"] by simp

lemma weak_clone_sound:
  assumes s: "sound F {} {} D K ps W w" and k: "k \<in># K"
  shows "(\<exists>w' V. weak_clone k w = Done k w' \<and> sound F {} {} D (add_mset k K) ps V w' \<and> unseen {} {} w w') \<or>
    weak_clone k w = Panicked too_many_weaks w \<and> weaks_full w"
proof -
  note d = drop_invD [OF soundD(1) [OF s]] and kW = weak_counted [OF s k]
  show ?thesis
  proof (cases "wk_metadata k")
    case None
    have "weak_clone k w = Done k w" using None d(3) by (simp add: weak_clone_def)
    moreover have "weak_inv (add_mset k W) (w\<lparr>w_meta := w_meta w\<rparr>)" using weak_inv_dangling [OF d(2) None] by simp
    from sound_weaks [OF s this] have "sound F {} {} D (add_mset k K) ps (add_mset k W) w" by simp
    ultimately show ?thesis using unseen_refl by blast
  next
    case (Some m)
    from weak_invD(7) [OF d(2) kW Some] obtain bm where bm: "w_meta w m = Some bm" by blast
    show ?thesis
    proof (cases "size (to_meta m W) < 32767")
      case True
      from weak_clone_frame [OF d(2) kW Some d(3) True] obtain M where
        "weak_clone k w = Done k (w\<lparr>w_meta := M\<rparr>)" "weak_inv (add_mset k W) (w\<lparr>w_meta := M\<rparr>)" "metas_kept (w_meta w) M" by blast
      with sound_weaks [OF s] unseen_meta show ?thesis by blast
    next
      case False
      with weak_counter_bound [OF d(2) bm] have "size (to_meta m W) = 32767" by simp
      with weak_clone_overflow [OF d(2) kW Some d(3) this] weak_invD(4) [OF d(2) bm] bm show ?thesis
        unfolding weaks_full_def by metis
    qed
  qed
qed

lemma downgrade_full:
  assumes inv: "drop_inv {} ps W w" and b: "w_boxes w p = Some b" and n: "\<not> weak_room W w p"
  shows "downgrade al p w = Panicked too_many_weaks w \<and> weaks_full w"
proof -
  note d = drop_invD [OF inv]
  from n b obtain m where m: "v_meta (view (b_cm b))" "b_metadata b = MetaBoxed m" "\<not> size (to_meta m W) < 32767"
    by (auto simp: weak_room_def)
  with b have "owner w p m" by (simp add: owner_def)
  from weak_invD(2) [OF d(2) this] obtain bm where bm: "w_meta w m = Some bm" by blast
  with weak_counter_bound [OF d(2)] m(3) have "size (to_meta m W) = 32767" by fastforce
  with weak_invD(4) [OF d(2) bm] have full: "w_count (wview (bm_weak bm)) = 32767" by simp
  then have "on_wcm m weak_increment_counter w = Done (Inl WeakOverflowError) (w\<lparr>w_meta := (w_meta w)(m \<mapsto> bm\<lparr>bm_weak := bm_weak bm\<rparr>)\<rparr>)"
    by (intro on_wcm_Done [OF bm]) (simp add: weak_increment_eval)
  with bm have "on_wcm m weak_increment_counter w = Done (Inl WeakOverflowError) w" by (simp add: fun_upd_idem)
  with b m(1,2) d(3) have "downgrade al p w = Panicked too_many_weaks w"
    by (simp add: downgrade_def get_or_init_metadata_def get_metadata_unchecked_def on_boxes_def zoom_def bindM_def cm_tests)
  with bm full show ?thesis unfolding weaks_full_def by blast
qed


lemma grown_sound:
  assumes s: "sound F {} {} D K ps W w" and g: "grown p w v" and inv: "drop_inv {} qs (add_mset k W) w'" and low: "lowered {} (\<lambda>_. 0) v w'"
    and sizes: "sizes w' = sizes v" and held: "set ps \<subseteq> set_mset D \<union> set qs"
  shows "sound F {} {} D (add_mset k K) qs (add_mset k W) w'"
proof (rule soundI [OF inv])
  note d = soundD [OF s]
  from g obtain b b1 where g: "w_boxes w p = Some b" "w_boxes v = (w_boxes w)(p \<mapsto> b1)" "b_elem b1 = b_elem b"
    "view (b_cm b1) = (view (b_cm b))\<lparr>v_meta := True\<rparr>" "\<And>q. size_of v q = size_of w q"
    "v = w\<lparr>w_boxes := w_boxes v, w_meta := w_meta v\<rparr>" unfolding grown_def by blast
  have rel: "rel_option (box_lowered 0) (w_boxes v q) (w_boxes w' q)" for q using low by (simp add: lowered_def)
  have el: "map_option b_elem (w_boxes w' q) = map_option b_elem (w_boxes w q)" for q
    using lowered_elems(1) [OF low, of q] g(1-3) by simp
  have own: "owned f (w_boxes w') = owned f (w_boxes w)" for f :: "drop_call list \<Rightarrow> 'c list" by (rule owned_cong) (rule el)
  show "box_sound F (q \<in> {}) c" if c: "w_boxes w' q = Some c" for q c
  proof -
    from rel [of q] c obtain a where a: "w_boxes v q = Some a" "box_lowered 0 a c" by (auto simp: option_rel_Some2)
    from a(1) g(1-4) d(4) [of q] d(4) [OF g(1)] have "box_sound F (q \<in> {}) a" by (auto simp: box_sound_def split: if_splits)
    then show ?thesis by (rule box_sound_lowered [OF _ a(2)])
  qed
  have "rc_of (w_boxes v) q = rc_of (w_boxes w) q" for q using g(1,2,4) by (simp add: rc_of_def)
  then have "rc_of (w_boxes w') q = rc_of (w_boxes w) q" for q using lowered_rc [OF low, of q] by simp
  then show "count D q + count (owned dropped_ccs (w_boxes w')) q = rc_of (w_boxes w') q" for q
    using d(5) [of q] own [of dropped_ccs] by simp
  show "add_mset k K + owned dropped_weaks (w_boxes w') \<subseteq># add_mset k W" using d(6) own [of dropped_weaks] by simp
  have dom: "dom (w_boxes v) = dom (w_boxes w)" using g(1,2) by auto
  have "targets (w_boxes w') q = targets (w_boxes w) q" for q by (rule targets_elem) (rule el)
  moreover have "q \<in> dom (w_boxes w)" if "q \<in> dom (w_boxes w')" for q
    using that rel [of q] dom by (cases "w_boxes v q") auto
  ultimately show "no_lost {} (set_mset D \<union> set qs) (w_boxes w')" using held by (intro no_lost_same [OF d(8)]) auto
  from dom have "sizes v = sizes w" using g(5) by (simp add: sizes_def)
  moreover have "w_state w' = w_state v" using low by (auto simp: lowered_def)
  moreover have "w_state v = w_state w" using g(6) by (metis world.select_convs(4) world.surjective world.update_convs(1,2))
  ultimately show "sizes w' = unat (st_allocated_bytes (w_state w'))" using sizes d(7) by simp
qed simp_all

text \<open>The metadata allocations are those of the boxes and those that weak pointers keep.\<close>

lemma metas_finite:
  assumes inv: "weak_inv W w" and fin: "finite (dom (w_boxes w))"
  shows "finite (dom (w_meta w))"
proof -
  let ?A = "(\<lambda>p. case w_boxes w p of Some b \<Rightarrow> (case b_metadata b of MetaBoxed m \<Rightarrow> m | _ \<Rightarrow> undefined) | None \<Rightarrow> undefined) ` dom (w_boxes w)"
  let ?B = "(\<lambda>k. the (wk_metadata k)) ` set_mset W"
  have "m \<in> ?A \<union> ?B" if m: "w_meta w m = Some bm" for m bm
  proof (cases "w_acc (wview (bm_weak bm))")
    case True
    from weak_invD(5) [OF inv m True] obtain p b where "w_boxes w p = Some b" "b_metadata b = MetaBoxed m" by (auto simp: owner_def)
    then have "m \<in> ?A" by (intro image_eqI [of _ _ p]) auto
    then show ?thesis by blast
  next
    case False
    from weak_invD(6) [OF inv m False] obtain k where "k \<in># to_meta m W" by (metis nonempty_has_size multiset_nonemptyE)
    then have "k \<in># W" "wk_metadata k = Some m" by (simp_all add: to_meta_mem)
    then have "m \<in> ?B" by (intro image_eqI [of _ _ k]) auto
    then show ?thesis by blast
  qed
  then have "dom (w_meta w) \<subseteq> ?A \<union> ?B" by blast
  moreover have "finite (?A \<union> ?B)" using fin by simp
  ultimately show ?thesis by (rule finite_subset)
qed

lemma sound_metas: "sound F {} X D K ps W w \<Longrightarrow> finite (dom (w_meta w))"
  using drop_invD(2,4) [OF soundD(1)] by (blast intro: metas_finite)

lemma downgrade_sound:
  assumes s: "sound F {} {} D K ps W w" and p: "p \<in># D" and al: "fresh_allocator al"
  shows "(\<exists>w' qs m. downgrade al p w = Done \<lparr>wk_metadata = Some m, wk_cc = p\<rparr> w' \<and> same_frame w w' \<and> vals_of w' = vals_of w \<and>
      sound F {} {} D (add_mset \<lparr>wk_metadata = Some m, wk_cc = p\<rparr> K) qs (add_mset \<lparr>wk_metadata = Some m, wk_cc = p\<rparr> W) w') \<or>
    downgrade al p w = Panicked too_many_weaks w \<and> weaks_full w"
proof -
  from sound_live [OF s p] obtain b where b: "w_boxes w p = Some b" by metis
  show ?thesis
  proof (cases "weak_room W w p")
    case True
    from downgrade_frame [OF soundD(1) [OF s] b al sound_metas [OF s] True] obtain w' m v where
      1: "downgrade al p w = Done \<lparr>wk_metadata = Some m, wk_cc = p\<rparr> w'" "grown p w v" "lowered {} (\<lambda>_. 0) v w'"
      and inv: "drop_inv {} (remove1 p ps) (add_mset \<lparr>wk_metadata = Some m, wk_cc = p\<rparr> W) w'" by blast
    have "metas_kept (w_meta v) (w_meta w')" using 1(3) by (simp add: lowered_def)
    then have "sizes w' = sizes v" by (rule sizes_cong [OF drop_invD(2) [OF inv]]) (rule lowered_elems(2) [OF 1(3)])
    moreover have "set ps \<subseteq> set_mset D \<union> set (remove1 p ps)" using p remove1_rest [of ps p] by auto
    ultimately have
      "sound F {} {} D (add_mset \<lparr>wk_metadata = Some m, wk_cc = p\<rparr> K) (remove1 p ps) (add_mset \<lparr>wk_metadata = Some m, wk_cc = p\<rparr> W) w'"
      by (rule grown_sound [OF s 1(2) inv 1(3)])
    moreover have "same_frame w w'"
    proof -
      from 1(2) have v: "v = w\<lparr>w_boxes := w_boxes v, w_meta := w_meta v\<rparr>" by (simp add: grown_def)
      from 1(3) obtain h l M where w': "w' = v\<lparr>w_boxes := h, w_pc := l, w_meta := M\<rparr>" unfolding lowered_def by blast
      have "w' = w\<lparr>w_boxes := h, w_pc := l, w_meta := M, w_state := (w_state w)\<lparr>st_allocated_bytes := st_allocated_bytes (w_state w)\<rparr>\<rparr>"
        unfolding w' by (subst v) simp
      then show ?thesis unfolding same_frame_def by blast
    qed
    moreover have "vals_of w' = vals_of w"
    proof (rule vals_of_cong)
      from 1(2) obtain b b1 where "w_boxes w p = Some b" "w_boxes v = (w_boxes w)(p \<mapsto> b1)" "b_elem b1 = b_elem b"
        unfolding grown_def by blast
      then show "map_option b_elem (w_boxes w' q) = map_option b_elem (w_boxes w q)" for q
        using lowered_elems(1) [OF 1(3), of q] by simp
    qed
    ultimately show ?thesis using 1(1) by blast
  next
    case False
    from downgrade_full [OF soundD(1) [OF s] b this] show ?thesis by blast
  qed
qed


subsection \<open>Values that move\<close>

text \<open>
  The client replaces the value of a box through a \<open>RefCell\<close> that the box holds, and owns what the
  value owned. The new value is made of references that the client had.
\<close>

definition cc_replace :: "addr \<Rightarrow> tval \<Rightarrow> ('f, tval) gc" where
  "cc_replace p v = bindM (cc_deref p) (\<lambda>old. thenM (on_boxes (store p (\<lambda>b. b\<lparr>b_elem := Some v\<rparr>))) (ret old))"

lemma owned_put:
  assumes fin: "finite (dom h)" and p: "h p = Some b" "b_elem b = Some old" and f: "f [] = []"
  shows "owned f (h(p \<mapsto> b\<lparr>b_elem := Some v\<rparr>)) + mset (f (drop_glue old)) = owned f h + mset (f (drop_glue v))"
proof -
  let ?g = "h(p \<mapsto> b\<lparr>b_elem := None\<rparr>)" and ?h = "h(p \<mapsto> b\<lparr>b_elem := Some v\<rparr>)"
  have "owned f h = owned f ?g + mset (f (drop_glue old))" by (rule owned_take [where f = f, OF fin p f]) auto
  moreover have "owned f ?h = owned f ?g + mset (f (drop_glue v))"
    by (rule owned_take [where f = f and p = p and b = "b\<lparr>b_elem := Some v\<rparr>", OF _ _ _ f]) (use fin in auto)
  ultimately show ?thesis by (simp add: ac_simps)
qed

lemma replace_sound:
  assumes s: "sound F {} {} (D + mset (dropped_ccs (drop_glue v))) (K + mset (dropped_weaks (drop_glue v))) ps W w"
    and p: "p \<in># D" and v: "plain_val F v"
  shows "\<exists>old w'. cc_replace p v w = Done old w' \<and> plain_val F old \<and> vals_of w p = Some old \<and> vals_of w' = (vals_of w)(p \<mapsto> v) \<and>
    sound F {} {} (D + mset (dropped_ccs (drop_glue old))) (K + mset (dropped_weaks (drop_glue old))) ps W w' \<and> shrunk w w'"
proof -
  note d = soundD [OF s]
  have "p \<in># D + mset (dropped_ccs (drop_glue v))" using p by simp
  from sound_live [OF s this] obtain b old where b: "w_boxes w p = Some b" "b_elem b = Some old" "plain_val F old" by metis
  let ?h = "(w_boxes w)(p \<mapsto> b\<lparr>b_elem := Some v\<rparr>)"
  let ?w = "w\<lparr>w_boxes := ?h\<rparr>"
  have up: "upd p (\<lambda>b. b\<lparr>b_elem := Some v\<rparr>) (w_boxes w) = ?h" using b(1) by (simp add: upd_def)
  have run: "cc_replace p v w = Done old ?w"
    using b drop_invD(3) [OF d(1)] up
    by (simp add: cc_replace_def cc_deref_def get_elem_def on_boxes_def zoom_def bindM_def)
  have own: "owned f ?h + mset (f (drop_glue old)) = owned f (w_boxes w) + mset (f (drop_glue v))"
    if "f [] = []" for f :: "drop_call list \<Rightarrow> 'c list"
    by (rule owned_put [where f = f, OF drop_invD(4) [OF d(1)] b(1,2) that])
  have inv: "drop_inv {} ps W ?w"
    using drop_inv_upd [OF d(1), of p "\<lambda>b. b\<lparr>b_elem := Some v\<rparr>"] unfolding up by (simp add: box_meta_def)
  have "sound F {} {} (D + mset (dropped_ccs (drop_glue old))) (K + mset (dropped_weaks (drop_glue old))) ps W ?w"
  proof (rule soundI [OF inv])
    show "box_sound F (q \<in> {}) c" if "w_boxes ?w q = Some c" for q c
      using that d(4) [of q c] d(4) [OF b(1)] v by (auto simp: box_sound_def split: if_splits)
    show "no_lost {} (set_mset (D + mset (dropped_ccs (drop_glue old))) \<union> set ps) (w_boxes ?w)"
    proof (rule no_lost_step [OF d(8), where Z = "{}"])
      let ?S = "set_mset (D + mset (dropped_ccs (drop_glue old))) \<union> set ps"
      let ?R = "reach (w_boxes ?w) ?S"
      have start: "?S \<subseteq> ?R" by (auto intro: reach_start)
      have tp: "set (targets (w_boxes ?w) p) = set (dropped_ccs (drop_glue v))" using targets_value [of ?h p "b\<lparr>b_elem := Some v\<rparr>" v] v by simp
      have "p \<in> ?R" using p start by auto
      then have "set (dropped_ccs (drop_glue v)) \<subseteq> ?R" using reach_step [of p "w_boxes ?w" ?S] tp by blast
      with start show "set_mset (D + mset (dropped_ccs (drop_glue v))) \<union> set ps \<union> {} \<subseteq> {} \<union> ?R" by auto
      show "set (targets (w_boxes w) x) \<subseteq> ?R" if "x \<in> ?R" for x
      proof (cases "x = p")
        case True
        have "set (targets (w_boxes w) p) = set (dropped_ccs (drop_glue old))" by (rule targets_value [of "w_boxes w" p b old, OF b])
        with True start show ?thesis by auto
      next
        case False
        then have "targets (w_boxes ?w) x = targets (w_boxes w) x" by (intro targets_elem) simp
        with reach_step [OF that] show ?thesis by auto
      qed
    qed (use b(1) in auto)
    show "count (D + mset (dropped_ccs (drop_glue old))) q + count (owned dropped_ccs (w_boxes ?w)) q = rc_of (w_boxes ?w) q" for q
    proof -
      have "rc_of (w_boxes ?w) q = rc_of (w_boxes w) q" using b(1) by (simp add: rc_of_def)
      moreover have "count (owned dropped_ccs ?h) q + count (mset (dropped_ccs (drop_glue old))) q =
          count (owned dropped_ccs (w_boxes w)) q + count (mset (dropped_ccs (drop_glue v))) q"
        using own [of dropped_ccs] by (metis count_union dropped_ccs.simps(1))
      moreover have "count (D + mset (dropped_ccs (drop_glue v))) q = count D q + count (mset (dropped_ccs (drop_glue v))) q" by simp
      ultimately show ?thesis using d(5) [of q] by (simp only: count_union world.select_convs world.update_convs) simp
    qed
    have "(K + mset (dropped_weaks (drop_glue old))) + owned dropped_weaks ?h =
        K + (owned dropped_weaks ?h + mset (dropped_weaks (drop_glue old)))" by (simp add: ac_simps)
    also have "\<dots> = K + mset (dropped_weaks (drop_glue v)) + owned dropped_weaks (w_boxes w)"
      using own [of dropped_weaks] by (simp add: ac_simps)
    finally have eq: "K + mset (dropped_weaks (drop_glue old)) + owned dropped_weaks ?h =
        K + mset (dropped_weaks (drop_glue v)) + owned dropped_weaks (w_boxes w)" .
    have w: "w_boxes ?w = ?h" by simp
    show "K + mset (dropped_weaks (drop_glue old)) + owned dropped_weaks (w_boxes ?w) \<subseteq># W" unfolding w eq by (rule d(6))
    have "sizes ?w = sizes w"
      by (rule sizes_cong [OF drop_invD(2) [OF inv]]) (use b(1) in \<open>auto simp: box_meta_def\<close>)
    with d(7) show "sizes ?w = unat (st_allocated_bytes (w_state ?w))" by simp
  qed simp_all
  moreover have "shrunk w (w\<lparr>w_boxes := ?h, w_pc := w_pc w\<rparr>)" by (rule shrunk_buffer)
  moreover have "vals_of w p = Some old" using b(1,2) by (simp add: vals_of_def)
  moreover have "vals_of ?w = (vals_of w)(p \<mapsto> v)" by (rule ext) (simp add: vals_of_def)
  ultimately show ?thesis using run b(3) by (intro exI [of _ old] exI [of _ ?w]) simp
qed


text \<open>A box with one reference, freed with its value moved out.\<close>

lemma moved_out_sound:
  assumes s: "sound F {} {} (add_mset p D) K qs W v" and b: "w_boxes v p = Some b" "v_rc (view (b_cm b)) = 1" "b_elem b = Some e" "plain_val F e"
    and fr: "freed_box p (size_of v p) d v w" and inv: "weak_inv W w" "calm w" and p: "p \<notin> set qs"
  shows "sound F {} {} (D + mset (dropped_ccs (drop_glue e))) (K + mset (dropped_weaks (drop_glue e))) qs W w"
proof -
  note e = soundD [OF s] and f = freed_boxD [OF fr]
  note d = drop_invD [OF e(1)]
  have dom: "dom (w_boxes w) = dom (w_boxes v) - {p}" using f(1) by auto
  have take: "owned g (w_boxes v) = owned g (w_boxes w) + mset (g (drop_glue e))" if "g [] = []" for g :: "drop_call list \<Rightarrow> 'c list"
    by (rule owned_take [where f = g, OF d(4) b(1,3) that]) (auto simp: f(1))
  have "buffered qs w" by (rule buffered_free [OF d(1), of "{p}"]) (use p f(1,2) in auto)
  moreover have "card (dom (w_boxes w)) \<le> card (dom (w_boxes v))" unfolding dom using d(4) by (intro card_mono) auto
  ultimately have "drop_inv {} qs W w"
    using inv d(4,5,6,7) dom f(1) by (auto simp: drop_inv_def split: if_splits)
  then show ?thesis
  proof (rule soundI)
    show "box_sound F (q \<in> {}) c" if "w_boxes w q = Some c" for q c
      using that e(4) [of q c] f(1) by (auto split: if_splits)
    show "no_lost {} (set_mset (D + mset (dropped_ccs (drop_glue e))) \<union> set qs) (w_boxes w)"
    proof (rule no_lost_take [OF e(8) b(1,3,4)])
      show "q \<in> dom (w_boxes v) \<and> q \<notin> {} \<and> q \<noteq> p" if "q \<in> dom (w_boxes w)" "q \<notin> {}" for q using that unfolding dom by simp
      show "targets (w_boxes w) q = targets (w_boxes v) q" if "q \<noteq> p" for q using that by (intro targets_elem) (simp add: f(1))
    qed auto
    show "count (D + mset (dropped_ccs (drop_glue e))) q + count (owned dropped_ccs (w_boxes w)) q = rc_of (w_boxes w) q" for q
    proof (cases "q = p")
      case True
      have "rc_of (w_boxes v) p = 1" using b(1,2) by (simp add: rc_of_def)
      moreover have "count (add_mset p D) p = Suc (count D p)" by simp
      moreover have "count (owned dropped_ccs (w_boxes v)) p =
          count (owned dropped_ccs (w_boxes w)) p + count (mset (dropped_ccs (drop_glue e))) p" by (simp add: take)
      ultimately have "count (D + mset (dropped_ccs (drop_glue e))) p + count (owned dropped_ccs (w_boxes w)) p = 0"
        using e(5) [of p] by (simp only: count_union)
      with True f(1) show ?thesis by (simp only: count_union) (simp add: rc_of_def)
    next
      case False
      then have "rc_of (w_boxes w) q = rc_of (w_boxes v) q" using f(1) by (simp add: rc_of_def)
      with e(5) [of q] take [of dropped_ccs] False show ?thesis by simp
    qed
    show "K + mset (dropped_weaks (drop_glue e)) + owned dropped_weaks (w_boxes w) \<subseteq># W"
      using e(6) take [of dropped_weaks] by (simp add: ac_simps)
    show "sizes w = unat (st_allocated_bytes (w_state w))"
      using sizes_freed [OF d(4) b(1) f(1,3) inv(1)] e(7) f(4) by simp
  qed simp_all
qed

lemma shrunk_calm: "shrunk w w' \<Longrightarrow> calm w \<Longrightarrow> calm w'"
  by (auto simp: shrunk_def calm_def is_tracing_def)

lemma unwrap_refused_or_alone:
  assumes s: "sound F {} {} (add_mset p D) K ps W w" and idle: "\<not> st_collecting (w_state w)" "\<not> st_dropping (w_state w)" "\<not> st_finalizing (w_state w)"
  shows "try_unwrap p w = Done (Inl p) w \<and> rc_of (w_boxes w) p \<noteq> 1 \<or>
    (\<exists>v w' qs. try_unwrap p w = Done (Inr v) w' \<and> rc_of (w_boxes w) p = 1 \<and> plain_val F v \<and> vals_of w p = Some v \<and> vals_of w' = (vals_of w)(p := None) \<and>
    sound F {} {} (D + mset (dropped_ccs (drop_glue v))) (K + mset (dropped_weaks (drop_glue v))) qs W w' \<and> shrunk w w')"
proof -
  note d = soundD [OF s]
  note e = drop_invD [OF d(1)]
  from sound_alive [OF s] obtain b v where b: "w_boxes w p = Some b" "v_rc (view (b_cm b)) < 16383" "b_elem b = Some v" "plain_val F v" by metis
  show ?thesis
  proof (cases "v_rc (view (b_cm b)) = 1")
    case False
    then show ?thesis using try_unwrap_refused [OF b(1,2)] b(1) by (simp add: rc_of_def)
  next
    case True
    have "size_of w p \<le> sizes w" using b(1) e(4) by (auto simp: sizes_def intro!: member_le_sum)
    with d(7) have "size_of w p \<le> unat (st_allocated_bytes (w_state w))" by simp
    from try_unwrap_run [OF d(1) b(1) True b(3) idle this] obtain w' u where
      1: "try_unwrap p w = Done (Inr v) w'" "weak_inv W w'" "shrunk w w'"
      "drop_inv {} (remove1 p ps) W u" "lowered {} (\<lambda>_. 0) w u" "freed_box p (size_of w p) (st_dropping (w_state w)) u w'" by blast
    from loweredD [OF 1(5) b(1)] obtain c where c: "w_boxes u p = Some c" "box_lowered 0 b c" by blast
    have "sound F {} {} (add_mset p D + {#}) K ps W w" using s by simp
    then have u: "sound F {} {} (add_mset p D) K (remove1 p ps) W u"
      by (rule sound_lowered [OF _ 1(4)]) (use 1(5) d(6) in \<open>auto simp: zero_multiset.rep_eq\<close>)
    have "metas_kept (w_meta w) (w_meta u)" using 1(5) by (simp add: lowered_def)
    from size_of_kept [OF drop_invD(2) [OF 1(4)] this b(1) c(1) box_lowered_meta [OF c(2)]]
    have fr: "freed_box p (size_of u p) (st_dropping (w_state w)) u w'" using 1(6) by simp
    have "p \<notin> set (remove1 p ps)" using buffered_repr [OF e(1)] by (auto simp: pc_repr_def)
    with moved_out_sound [OF u c(1) _ _ b(4) fr 1(2) shrunk_calm [OF 1(3) e(3)]] c(2) True b(3)
    have "sound F {} {} (D + mset (dropped_ccs (drop_glue v))) (K + mset (dropped_weaks (drop_glue v))) (remove1 p ps) W w'"
      by (simp add: box_lowered_def)
    moreover have "vals_of w' = (vals_of w)(p := None)"
    proof (rule ext)
      fix q show "vals_of w' q = ((vals_of w)(p := None)) q"
        using freed_boxD(1) [OF 1(6)] lowered_elems(1) [OF 1(5), of q]
        by (cases "w_boxes w q"; cases "w_boxes u q") (auto simp: vals_of_def)
    qed
    moreover have "vals_of w p = Some v" using b(1,3) by (simp add: vals_of_def)
    moreover have "rc_of (w_boxes w) p = 1" using b(1) True by (simp add: rc_of_def)
    ultimately show ?thesis using 1(1,3) b(4) by blast
  qed
qed

end
