(* ===== verification/Api_Collect.thy ===== *)
theory Api_Collect
  imports Api_Ops
begin

text \<open>
  Collections and allocations under the invariant of ownership. As every reference counter is exact
  and no box is lost, the garbage of a collection is exactly what the program cannot reach, and after
  a collection the memory holds exactly what it can reach.
\<close>

subsection \<open>The graph of the references\<close>

lemma plain_targets:
  assumes "w_boxes w p = Some b" "b_elem b = Some v" "plain_val F v"
  shows "mset (targets (w_boxes w) p) = mset (dropped_ccs (glue_of (w_boxes w) p))" "\<not> panics (calls_of (w_boxes w) p)"
    "plain_glue (glue_of (w_boxes w) p)"
  using assms by (simp_all add: plain_val_def targets_def calls_of_def glue_of_def)

lemma sound_value:
  assumes "sound F {} {} D K ps W w" "w_boxes w p = Some b"
  obtains v where "b_elem b = Some v" "plain_val F v" "v_rc (view (b_cm b)) < 16383" "v_tc (view (b_cm b)) < 16383"
  using soundD(4) [OF assms] by (auto simp: box_sound_def)

lemma targets_dead: "h p = None \<Longrightarrow> targets h p = []"
  by (simp add: targets_def calls_of_def)

lemma refs_from_owned:
  assumes s: "sound F {} {} D K ps W w" and A: "A \<subseteq> dom (w_boxes w)"
  shows "refs_from (w_boxes w) A p = count (\<Sum>x \<in> A. mset (dropped_ccs (glue_of (w_boxes w) x))) p"
proof -
  have "count_list (targets (w_boxes w) x) p = count (mset (dropped_ccs (glue_of (w_boxes w) x))) p" if "x \<in> A" for x
  proof -
    from that A obtain b where b: "w_boxes w x = Some b" by blast
    from sound_value [OF s b] obtain v where "b_elem b = Some v" "plain_val F v" .
    from plain_targets(1) [OF b this] show ?thesis by (simp flip: count_mset)
  qed
  then show ?thesis by (simp add: refs_from_def count_sum)
qed

lemma refs_owned:
  assumes s: "sound F {} {} D K ps W w"
  shows "refs_from (w_boxes w) (dom (w_boxes w)) p = count (owned dropped_ccs (w_boxes w)) p"
  using refs_from_owned [OF s subset_refl, of p] by (simp add: owned_def)

lemma sound_refs:
  assumes s: "sound F {} {} D K ps W w" and A: "A \<subseteq> dom (w_boxes w)"
  shows "count D p + refs_from (w_boxes w) A p \<le> rc_of (w_boxes w) p"
proof -
  let ?h = "w_boxes w"
  have fin: "finite (dom ?h)" by (rule drop_invD(4) [OF soundD(1) [OF s]])
  have "refs_from ?h (dom ?h) p = count (owned dropped_ccs ?h) p" by (rule refs_owned [OF s])
  moreover have "refs_from ?h A p \<le> refs_from ?h (dom ?h) p"
    unfolding refs_from_def using fin A by (intro sum_mono2) auto
  ultimately show ?thesis using soundD(5) [OF s, of p] by simp
qed

lemma sound_step:
  assumes s: "sound F {} {} D K ps W w" and x: "x \<in> dom (w_boxes w)" "y \<in> set (targets (w_boxes w) x)"
  shows "y \<in> dom (w_boxes w)"
proof -
  have "refs_from (w_boxes w) {x} y \<noteq> 0" using x(2) by (simp add: refs_from_def count_list_0_iff flip: neq0_conv)
  then have "0 < rc_of (w_boxes w) y" using sound_refs [OF s, of "{x}" y] x(1) by simp
  then show ?thesis by (auto simp: rc_of_def split: option.splits)
qed

lemma sound_reach:
  assumes s: "sound F {} {} D K ps W w" and A: "A \<subseteq> dom (w_boxes w)"
  shows "reach (w_boxes w) A \<subseteq> dom (w_boxes w)"
  by (rule reach_closed [OF A]) (rule sound_step [OF s])

text \<open>What no reference of the program leads to is what a collection calls garbage.\<close>

lemma not_garbage_held:
  assumes s: "sound F {} {} D K ps W w" and p: "p \<in> dom (w_boxes w)" "p \<notin> reach (w_boxes w) (set_mset D)"
  shows "p \<in> garbage (w_boxes w) (set ps)"
proof -
  let ?h = "w_boxes w" and ?L = "reach (w_boxes w) (set_mset D)" and ?R = "reach (w_boxes w) (set ps)"
  have fin: "finite (dom ?h)" by (rule drop_invD(4) [OF soundD(1) [OF s]])
  have cover: "dom ?h \<subseteq> ?L \<union> ?R"
  proof -
    have "reach ?h (set_mset D \<union> set ps) \<subseteq> ?L \<union> ?R"
      by (rule reach_closed) (auto intro: reach_start reach_step)
    with soundD(8) [OF s] show ?thesis by (simp add: no_lost_def)
  qed
  have "ext_roots ?h (set ps) \<subseteq> ?L"
  proof
    fix r assume r: "r \<in> ext_roots ?h (set ps)"
    then have less: "refs_from ?h ?R r < count D r + refs_from ?h (dom ?h) r"
      using soundD(5) [OF s, of r] refs_owned [OF s, of r] by (simp add: ext_roots_def)
    show "r \<in> ?L"
    proof (cases "r \<in># D")
      case True
      then show ?thesis by (auto intro: reach_start)
    next
      case False
      have "\<exists>x \<in> dom ?h - ?R. r \<in> set (targets ?h x)"
      proof (rule ccontr)
        assume no: "\<not> ?thesis"
        have "refs_from ?h (dom ?h) r = refs_from ?h (dom ?h \<inter> ?R) r"
          unfolding refs_from_def using fin no by (intro sum.mono_neutral_right) (auto simp: count_list_0_iff)
        also have "\<dots> \<le> refs_from ?h ?R r"
        proof (cases "finite ?R")
          case True
          then show ?thesis by (intro refs_from_mono) auto
        next
          case False
          have "finite ?R" by (rule finite_subset [OF sound_reach [OF s] fin])
              (use repr_live [OF buffered_repr [OF drop_invD(1) [OF soundD(1) [OF s]]]] in blast)
          with False show ?thesis by simp
        qed
        finally show False using less False by (simp add: not_in_iff)
      qed
      then obtain x where "x \<in> dom ?h" "x \<notin> ?R" "r \<in> set (targets ?h x)" by blast
      with cover show ?thesis by (blast intro: reach_step)
    qed
  qed
  then have "reach ?h (ext_roots ?h (set ps)) \<subseteq> ?L" by (rule reach_mono_start)
  with p cover show ?thesis unfolding garbage_def by blast
qed

lemma sound_collectable:
  assumes s: "sound F {} {} D K ps W w"
  shows "gc_inv ps W w" "accounted W w" "\<forall>x \<in> reach (w_boxes w) (set ps). \<not> panics (calls_of (w_boxes w) x)"
    "\<forall>x \<in> garbage (w_boxes w) (set ps). \<forall>b v. w_boxes w x = Some b \<longrightarrow> b_elem b = Some v \<longrightarrow> v_fin (view (b_cm b)) \<or> finalize_val v = [] \<Longrightarrow>
      quiet (w_boxes w) (set ps)"
proof -
  note d = soundD [OF s]
  note e = drop_invD [OF d(1)]
  let ?R = "reach (w_boxes w) (set ps)"
  have "set ps \<subseteq> dom (w_boxes w)" using repr_live [OF buffered_repr [OF e(1)]] by blast
  note R = sound_reach [OF s this]
  have el: "\<exists>b v. w_boxes w p = Some b \<and> b_elem b = Some v \<and> plain_val F v \<and> v_rc (view (b_cm b)) < 16383 \<and> v_tc (view (b_cm b)) < 16383"
    if "p \<in> ?R" for p
  proof -
    from that R obtain b where b: "w_boxes w p = Some b" by blast
    from sound_value [OF s b] b show ?thesis by metis
  qed
  have "traceable (w_boxes w) (set ps)"
    unfolding traceable_def
  proof (intro conjI ballI)
    show "finite ?R" using R e(4) by (rule finite_subset)
    fix p assume p: "p \<in> ?R"
    from el [OF p] show "\<exists>b v. w_boxes w p = Some b \<and> b_elem b = Some v" "rc_of (w_boxes w) p < 16383" by (auto simp: rc_of_def)
    show "refs_from (w_boxes w) ?R p \<le> rc_of (w_boxes w) p" using sound_refs [OF s R, of p] by simp
  qed
  moreover have "tc_of (w_boxes w) p < 16383" if "p \<in> ?R" for p using el [OF that] by (auto simp: tc_of_def)
  moreover have "tc_of (w_boxes w) p = 0" if "p \<in> set ps" for p using e(7) that by (auto simp: tc_of_def split: option.split)
  ultimately show "gc_inv ps W w" using e unfolding gc_inv_def calm_def by auto
  have "owned dropped_weaks (w_boxes w) \<subseteq># W" using d(6) by (metis mset_subset_eq_add_right subset_mset.trans)
  then show "accounted W w" using d(7) by (simp add: accounted_def sizes_def owned_def)
  have q: "\<not> panics (calls_of (w_boxes w) p) \<and> plain_glue (glue_of (w_boxes w) p) \<and>
      mset (dropped_ccs (glue_of (w_boxes w) p)) = mset (targets (w_boxes w) p)" if p: "p \<in> ?R" for p
  proof -
    from el [OF p] obtain b v where b: "w_boxes w p = Some b" "b_elem b = Some v" "plain_val F v" by blast
    from plain_targets [OF b] show ?thesis by simp
  qed
  then show "\<forall>x \<in> ?R. \<not> panics (calls_of (w_boxes w) x)" by blast
  assume "\<forall>x \<in> garbage (w_boxes w) (set ps). \<forall>b v. w_boxes w x = Some b \<longrightarrow> b_elem b = Some v \<longrightarrow> v_fin (view (b_cm b)) \<or> finalize_val v = []"
  with q show "quiet (w_boxes w) (set ps)" using garbage_subset [of "w_boxes w" "set ps"] unfolding quiet_def by blast
qed

lemma sound_quiet:
  assumes s: "sound {} {} {} D K ps W w"
  shows "quiet (w_boxes w) (set ps)"
proof (rule sound_collectable(4) [OF s], intro ballI allI impI)
  fix x b v assume b: "w_boxes w x = Some b" "b_elem b = Some v"
  from sound_value [OF s b(1)] b(2) show "v_fin (view (b_cm b)) \<or> finalize_val v = []" by (auto simp: plain_val_def)
qed


text \<open>The boxes \<open>G\<close> are gone, and the others have lost the references that \<open>G\<close> held.\<close>

definition boxes_swept :: "addr set \<Rightarrow> 'f world \<Rightarrow> 'f world \<Rightarrow> bool" where
  "boxes_swept G w w' \<longleftrightarrow> (\<forall>p \<in> G. w_boxes w' p = None) \<and>
     (\<forall>p. p \<notin> G \<longrightarrow> rel_option (survives (refs_from (w_boxes w) G p)) (w_boxes w p) (w_boxes w' p))"

lemma collected_swept: "collected_world G w w' \<Longrightarrow> boxes_swept G w w'"
  by (simp add: collected_world_def boxes_swept_def)

lemma collected_Some:
  assumes "boxes_swept G w w'" "w_boxes w' p = Some c"
  obtains b where "p \<notin> G" "w_boxes w p = Some b" "survives (refs_from (w_boxes w) G p) b c"
proof -
  from assms have p: "p \<notin> G" by (auto simp: boxes_swept_def)
  with assms(1) have "rel_option (survives (refs_from (w_boxes w) G p)) (w_boxes w p) (w_boxes w' p)" by (simp add: boxes_swept_def)
  with assms(2) p that show thesis by (auto simp: option_rel_Some2)
qed

lemma collected_dom:
  assumes "boxes_swept G w w'"
  shows "dom (w_boxes w') = dom (w_boxes w) - G"
proof (rule set_eqI)
  fix p show "p \<in> dom (w_boxes w') \<longleftrightarrow> p \<in> dom (w_boxes w) - G"
  proof (cases "p \<in> G")
    case True
    with assms show ?thesis by (simp add: boxes_swept_def domIff)
  next
    case False
    with assms have "rel_option (survives (refs_from (w_boxes w) G p)) (w_boxes w p) (w_boxes w' p)" by (simp add: boxes_swept_def)
    with False show ?thesis by (cases "w_boxes w p"; cases "w_boxes w' p") auto
  qed
qed

lemma owned_collected:
  assumes fin: "finite (dom (w_boxes w))" and c: "boxes_swept G w w'" and G: "G \<subseteq> dom (w_boxes w)"
  shows "owned f (w_boxes w) = owned f (w_boxes w') + (\<Sum>x \<in> G. mset (f (glue_of (w_boxes w) x)))"
proof -
  have "owned f (w_boxes w) = (\<Sum>x \<in> dom (w_boxes w) - G. mset (f (glue_of (w_boxes w) x))) + (\<Sum>x \<in> G. mset (f (glue_of (w_boxes w) x)))"
    unfolding owned_def by (rule sum.subset_diff [OF G fin])
  also have "(\<Sum>x \<in> dom (w_boxes w) - G. mset (f (glue_of (w_boxes w) x))) = (\<Sum>x \<in> dom (w_boxes w) - G. mset (f (glue_of (w_boxes w') x)))"
  proof (rule sum.cong [OF refl])
    fix x assume "x \<in> dom (w_boxes w) - G"
    then have "x \<in> dom (w_boxes w')" using collected_dom [OF c] by blast
    then obtain e where e: "w_boxes w' x = Some e" by blast
    from collected_Some [OF c e] obtain b where "w_boxes w x = Some b" "b_elem e = b_elem b" by (auto simp: survives_def)
    with e show "mset (f (glue_of (w_boxes w) x)) = mset (f (glue_of (w_boxes w') x))" by (simp add: glue_of_def)
  qed
  finally show ?thesis by (simp add: owned_def collected_dom [OF c])
qed

lemma buffer_live:
  assumes "sound F {} {} D K ps W w"
  shows "set ps \<subseteq> dom (w_boxes w)"
  using repr_live [OF buffered_repr [OF drop_invD(1) [OF soundD(1) [OF assms]]]] by blast

lemma held_live:
  assumes s: "sound F {} {} D K ps W w"
  shows "reach (w_boxes w) (set_mset D) \<subseteq> dom (w_boxes w)"
proof (rule sound_reach [OF s])
  show "set_mset D \<subseteq> dom (w_boxes w)"
  proof
    fix p assume "p \<in># D"
    from sound_live [OF s this] show "p \<in> dom (w_boxes w)" by blast
  qed
qed

lemma held_not_garbage:
  assumes s: "sound F {} {} D K ps W w" and p: "p \<in> reach (w_boxes w) (set_mset D)"
  shows "p \<notin> garbage (w_boxes w) (set ps)"
proof -
  let ?h = "w_boxes w" and ?G = "garbage (w_boxes w) (set ps)"
  have t: "traceable ?h (set ps)" by (rule gc_invD(7) [OF sound_collectable(1) [OF s]])
  have G: "?G \<subseteq> dom ?h" using garbage_subset traceableD(2) [OF t] by blast
  from p show ?thesis
  proof induction
    case (reach_start x)
    then have "0 < count D x" by simp
    with sound_refs [OF s G, of x] garbage_refs [OF t, of x] show ?case by auto
  next
    case (reach_step x y)
    have x: "x \<in> dom ?h" using held_live [OF s] reach_step.hyps(1) by blast
    have fin: "finite ?G" using G drop_invD(4) [OF soundD(1) [OF s]] by (rule finite_subset)
    have "count_list (targets ?h x) y + refs_from ?h ?G y = refs_from ?h (insert x ?G) y"
      using fin reach_step.IH by (simp add: refs_from_def)
    also have "\<dots> \<le> rc_of ?h y" using sound_refs [OF s, of "insert x ?G" y] G x by simp
    finally have "count_list (targets ?h x) y + refs_from ?h ?G y \<le> rc_of ?h y" .
    moreover have "count_list (targets ?h x) y \<noteq> 0" using reach_step.hyps(2) by (simp add: count_list_0_iff)
    ultimately show ?case using garbage_refs [OF t, of y] by auto
  qed
qed

text \<open>So the garbage of a collection is exactly what the program cannot reach.\<close>

lemma garbage_unreachable:
  assumes s: "sound F {} {} D K ps W w"
  shows "garbage (w_boxes w) (set ps) = dom (w_boxes w) - reach (w_boxes w) (set_mset D)"
proof -
  have t: "traceable (w_boxes w) (set ps)" by (rule gc_invD(7) [OF sound_collectable(1) [OF s]])
  have "garbage (w_boxes w) (set ps) \<subseteq> dom (w_boxes w)" using garbage_subset traceableD(2) [OF t] by blast
  with held_not_garbage [OF s] not_garbage_held [OF s] show ?thesis by blast
qed

lemma collected_reach:
  assumes s: "sound F {} {} D K ps W w" and c: "boxes_swept (garbage (w_boxes w) (set ps)) w w'"
  shows "reach (w_boxes w') (set_mset D) = reach (w_boxes w) (set_mset D)" "dom (w_boxes w') = reach (w_boxes w) (set_mset D)"
proof -
  note g = garbage_unreachable [OF s]
  show dom: "dom (w_boxes w') = reach (w_boxes w) (set_mset D)" unfolding collected_dom [OF c] g using held_live [OF s] by blast
  show "reach (w_boxes w') (set_mset D) = reach (w_boxes w) (set_mset D)"
  proof (rule reach_cong, rule targets_elem)
    fix x assume "x \<in> reach (w_boxes w) (set_mset D)"
    then obtain e where e: "w_boxes w' x = Some e" using dom by blast
    from collected_Some [OF c e] obtain b where "w_boxes w x = Some b" "b_elem e = b_elem b" unfolding survives_def by blast
    with e show "map_option b_elem (w_boxes w' x) = map_option b_elem (w_boxes w x)" by simp
  qed
qed

lemma collected_sound:
  assumes s: "sound F {} {} D K ps W w" and c: "boxes_swept (garbage (w_boxes w) (set ps)) w w'"
    and inv: "gc_inv qs V w'" "accounted V w'" "settled W w V w'" and idle: "\<not> is_tracing (w_state w')"
  shows "sound F {} {} D K qs V w'"
proof (rule soundI)
  let ?h = "w_boxes w" and ?G = "garbage (w_boxes w) (set ps)"
  note d = soundD [OF s] and g = sound_collectable [OF s]
  note e = drop_invD [OF d(1)]
  have t: "traceable ?h (set ps)" by (rule gc_invD(7) [OF g(1)])
  have G: "?G \<subseteq> dom ?h" using garbage_subset traceableD(2) [OF t] by blast
  show "drop_inv {} qs V w'" by (rule gc_inv_drop_inv [OF inv(1) idle])
  show "box_sound F (p \<in> {}) x" if x: "w_boxes w' p = Some x" for p x
  proof -
    from collected_Some [OF c x] obtain b where b: "p \<notin> ?G" "?h p = Some b" "survives (refs_from ?h ?G p) b x" .
    from sound_value [OF s b(2)] obtain v where v: "b_elem b = Some v" "plain_val F v" "v_rc (view (b_cm b)) < 16383"
      "v_tc (view (b_cm b)) < 16383" .
    have "tc_of (w_boxes w') p < 16383" using inv(3) v(4) b(2) by (simp add: settled_def tc_of_def)
    with b v x show ?thesis by (simp add: box_sound_def survives_def tc_of_def)
  qed
  show "no_lost {} (set_mset D \<union> set qs) (w_boxes w')"
  proof -
    have "reach (w_boxes w') (set_mset D) \<subseteq> reach (w_boxes w') (set_mset D \<union> set qs)"
      by (rule reach_mono_start) (auto intro: reach_start)
    with collected_reach [OF s c] show ?thesis by (auto simp: no_lost_def)
  qed
  show "count D p + count (owned dropped_ccs (w_boxes w')) p = rc_of (w_boxes w') p" for p
  proof -
    have "count (owned dropped_ccs ?h) p = count (owned dropped_ccs (w_boxes w')) p + refs_from ?h ?G p"
      using owned_collected [OF e(4) c G, of dropped_ccs] refs_from_owned [OF s G, of p] by simp
    moreover have "rc_of ?h p = rc_of (w_boxes w') p + refs_from ?h ?G p"
    proof (cases "p \<in> ?G")
      case True
      then have "w_boxes w' p = None" using c by (simp add: boxes_swept_def)
      with garbage_refs [OF t True] show ?thesis by (simp add: rc_of_def)
    next
      case False
      with c have "rel_option (survives (refs_from ?h ?G p)) (?h p) (w_boxes w' p)" by (simp add: boxes_swept_def)
      then show ?thesis using sound_refs [OF s G, of p] by (cases "?h p"; cases "w_boxes w' p") (auto simp: rc_of_def survives_def)
    qed
    ultimately show ?thesis using d(5) [of p] by simp
  qed
  have "weaks_in h = owned dropped_weaks h" for h by (simp add: weaks_in_def owned_def)
  with settled_counts [OF inv(3), of K] d(6) show "K + owned dropped_weaks (w_boxes w') \<subseteq># V" by simp
  show "sizes w' = unat (st_allocated_bytes (w_state w'))" using inv(2) by (simp add: accounted_def sizes_def)
qed simp_all


subsection \<open>A new box\<close>

lemma with_box_elem: "q \<noteq> p \<Longrightarrow> map_option b_elem (w_boxes (with_box p layout t w) q) = map_option b_elem (w_boxes w q)"
  by simp

lemma owned_with_box:
  assumes fin: "finite (dom (w_boxes w))" and new: "w_boxes w p = None" and f: "f [] = []"
  shows "owned f (w_boxes (with_box p layout (Some v) w)) = owned f (w_boxes w) + mset (f (drop_glue v))"
  by (rule owned_take [where f = f and p = p and b = "fresh_box layout (st_finalizing (w_state w)) (Some v)", OF _ _ _ f])
    (use fin new in auto)

lemma sizes_with_box:
  assumes fin: "finite (dom (w_boxes w))" and new: "w_boxes w p = None"
  shows "sizes (with_box p layout (Some v) w) = sizes w + unat layout"
proof -
  let ?w = "with_box p layout (Some v) w"
  have np: "p \<notin> dom (w_boxes w)" using new by auto
  have dom: "dom (w_boxes ?w) = insert p (dom (w_boxes w))" by auto
  have "(\<Sum>q \<in> dom (w_boxes w). size_of ?w q) = (\<Sum>q \<in> dom (w_boxes w). size_of w q)"
  proof (rule sum.cong [OF refl])
    fix q assume "q \<in> dom (w_boxes w)"
    then have "q \<noteq> p" using np by blast
    then have eq: "w_boxes ?w q = w_boxes w q" by simp
    show "size_of ?w q = size_of w q" by (simp only: size_of_def eq with_box_sel(2))
  qed
  moreover have "size_of ?w p = unat layout" by (simp add: size_of_def)
  ultimately show ?thesis unfolding sizes_def dom using fin np by simp
qed

lemma with_box_sound:
  assumes s: "sound F {} {} (D + mset (dropped_ccs (drop_glue v))) (K + mset (dropped_weaks (drop_glue v))) ps W w"
    and v: "plain_val F v" and new: "w_boxes w p = None" and inv: "drop_inv {} ps W (with_box p layout (Some v) w)"
    and bytes: "unat (st_allocated_bytes (w_state w)) + unat layout < 2 ^ 64"
  shows "sound F {} {} (add_mset p D) K ps W (with_box p layout (Some v) w)"
proof (rule soundI [OF inv])
  let ?w = "with_box p layout (Some v) w"
  note d = soundD [OF s]
  note fin = drop_invD(4) [OF d(1)]
  show "box_sound F (q \<in> {}) b" if "w_boxes ?w q = Some b" for q b
    using that d(4) [of q b] v by (auto simp: box_sound_def split: if_splits)
  have own: "owned f (w_boxes ?w) = owned f (w_boxes w) + mset (f (drop_glue v))" if "f [] = []" for f :: "drop_call list \<Rightarrow> 'c list"
    by (rule owned_with_box [where f = f, OF fin new that])
  show "no_lost {} (set_mset (add_mset p D) \<union> set ps) (w_boxes ?w)"
    unfolding no_lost_def
  proof
    let ?S = "set_mset (add_mset p D) \<union> set ps" and ?A = "set_mset (D + mset (dropped_ccs (drop_glue v))) \<union> set ps"
    let ?R = "reach (w_boxes ?w) ?S"
    have p: "p \<in> ?R" by (auto intro: reach_start)
    have "set (targets (w_boxes ?w) p) = set (dropped_ccs (drop_glue v))"
      using targets_value [of "w_boxes ?w" p "fresh_box layout (st_finalizing (w_state w)) (Some v)" v] v by simp
    then have sub: "set (dropped_ccs (drop_glue v)) \<subseteq> ?R" using reach_step [OF p] by blast
    have "reach (w_boxes w) ?A \<subseteq> ?R"
    proof (rule reach_closed)
      show "?A \<subseteq> ?R" using sub by (auto intro: reach_start)
      fix x y assume x: "x \<in> ?R" "y \<in> set (targets (w_boxes w) x)"
      show "y \<in> ?R"
      proof (cases "x = p")
        case True
        then show ?thesis using x(2) new by (simp add: targets_dead)
      next
        case False
        then have "targets (w_boxes ?w) x = targets (w_boxes w) x" by (intro targets_elem with_box_elem)
        with reach_step [OF x(1)] x(2) show ?thesis by simp
      qed
    qed
    moreover fix q assume "q \<in> dom (w_boxes ?w)"
    then have "q = p \<or> q \<in> dom (w_boxes w)" by (auto split: if_splits)
    ultimately show "q \<in> {} \<union> ?R" using p d(8) by (auto simp: no_lost_def)
  qed
  show "count (add_mset p D) q + count (owned dropped_ccs (w_boxes ?w)) q = rc_of (w_boxes ?w) q" for q
  proof (cases "q = p")
    case True
    have "rc_of (w_boxes w) p = 0" using new by (simp add: rc_of_def)
    with d(5) [of p] have "count D p = 0" "count (mset (dropped_ccs (drop_glue v))) p = 0" "count (owned dropped_ccs (w_boxes w)) p = 0"
      by (simp_all only: count_union)
    then show ?thesis using own [of dropped_ccs] True by (simp add: rc_of_def)
  next
    case False
    then have "rc_of (w_boxes ?w) q = rc_of (w_boxes w) q" by (simp add: rc_of_def)
    with d(5) [of q] own [of dropped_ccs] False show ?thesis by simp
  qed
  show "K + owned dropped_weaks (w_boxes ?w) \<subseteq># W" using d(6) own [of dropped_weaks] by (simp add: ac_simps)
  show "sizes ?w = unat (st_allocated_bytes (w_state ?w))"
    using sizes_with_box [OF fin new, of layout v] d(7) bytes by (simp add: unat_word_ariths)
qed simp_all

end
