(* ===== verification/Finalizing.thy ===== *)
theory Finalizing
  imports Api_Collect
begin

text \<open>
  Collections of values with finalizers. A round that finds garbage first runs the finalizers of the
  boxes that have not been finalized; if it ran any, the boxes go back into the buffer and the next
  round looks again, because a finalizer may have taken a reference to one of them. If the finalizers
  keep the invariant of ownership (\<open>keeps_sound\<close>), so does every collection: no box that a finalizer
  took a reference to is freed.
\<close>

subsection \<open>The world of a collection\<close>

text \<open>During a collection the flag \<open>collecting\<close> is set; the invariant speaks of the world without it.\<close>

definition resting :: "'f world \<Rightarrow> 'f world" where
  "resting w = w\<lparr>w_state := set_collecting False (w_state w)\<rparr>"

lemma resting_simps [simp]:
  "w_boxes (resting w) = w_boxes w" "w_meta (resting w) = w_meta w" "w_pc (resting w) = w_pc w"
  "st_allocated_bytes (w_state (resting w)) = st_allocated_bytes (w_state w)" "gc_inv ps W (resting w) = gc_inv ps W w"
  "accounted W (resting w) = accounted W w" "boxes_swept G (resting w) (resting w') = boxes_swept G w w'"
  "settled W (resting w) V (resting w') = settled W w V w'" "vals_of (resting w) = vals_of w" "\<not> is_tracing (w_state (resting w))"
  by (simp_all add: resting_def set_collecting_def boxes_swept_def settled_def is_tracing_def vals_of_def fun_eq_iff)

lemma sound_resting:
  assumes "sound F {} {} D K ps W w" "st_allocated_bytes s = st_allocated_bytes (w_state w)"
  shows "sound F {} {} D K ps W (resting (w\<lparr>w_state := s\<rparr>))"
proof -
  have "sound F {} {} D K ps W (w\<lparr>w_state := set_collecting False s\<rparr>)"
    by (rule sound_state [OF assms(1)]) (simp_all add: assms(2) is_tracing_def set_collecting_def)
  then show ?thesis by (simp add: resting_def)
qed

subsection \<open>The boxes that tracing found\<close>

lemma traced_sound:
  assumes s: "sound F {} {} D K ps W (resting w)" and tr: "after_trace ps ns w w1"
    and st: "\<not> is_tracing s" "st_allocated_bytes s = st_allocated_bytes (w_state w)"
  shows "sound F (set ns) {} D K [] W (w1\<lparr>w_state := s\<rparr>)"
proof -
  have inv: "gc_inv ps W w" using sound_collectable(1) [OF s] by simp
  note d = gc_invD [OF inv] and t = after_traceD [OF tr] and k = after_trace_kept [OF inv tr]
  have G: "set ns = dom (w_boxes w) - reach (w_boxes w) (set_mset D)" using garbage_unreachable [OF s] t(1) by simp
  have "buffered [] (w1\<lparr>w_state := s\<rparr>)" using t(4) by (simp add: buffered_def)
  moreover have "weak_inv W (w1\<lparr>w_state := s\<rparr>)" by (rule weak_inv_cong [OF k(1)]) simp_all
  moreover have "in_collector b \<longleftrightarrow> p \<in> set ns" if "w_boxes w1 p = Some b" for p b
    using t(6) [OF that] by (simp add: in_collector_def)
  ultimately have dinv: "drop_inv (set ns) [] W (w1\<lparr>w_state := s\<rparr>)" using d(5,6) k(2,5,6) st(1) by (simp add: drop_inv_def calm_def)
  show ?thesis
  proof (rule sound_relisted [OF s dinv])
    show "set ns \<subseteq> dom (w_boxes (resting w))" using G by auto
    have "reach (w_boxes w) (set_mset D) \<subseteq> reach (w_boxes w) (set_mset D \<union> set [] \<union> set ns)"
      by (rule reach_mono_start) (auto intro: reach_start)
    then show "no_lost {} (set_mset D \<union> set [] \<union> set ns) (w_boxes (resting w))"
      using G by (auto simp: no_lost_def intro: reach_start)
    show "map_option (\<lambda>b. (b_elem b, box_meta b, v_rc (view (b_cm b)))) (w_boxes (w1\<lparr>w_state := s\<rparr>) p) =
        map_option (\<lambda>b. (b_elem b, box_meta b, v_rc (view (b_cm b)))) (w_boxes (resting w) p)" for p
      using t(5) [of p] by (cases "w_boxes w p"; cases "w_boxes w1 p") (auto simp: static_def box_meta_def)
    show "v_tc (view (b_cm c)) < 16383"
      if "w_boxes (resting w) p = Some a" "w_boxes (w1\<lparr>w_state := s\<rparr>) p = Some c" "v_tc (view (b_cm a)) < 16383" for p a c
      using t(8) [of p] that by (simp add: tc_of_def)
  qed (simp_all add: st(2) k(4))
qed

subsection \<open>Running the finalizers\<close>

lemma finalize_inner_sound:
  assumes k: "keeps_sound F uc" and s: "sound F N X D K ps W w" "st_finalizing (w_state w)" and p: "w_boxes w p = Some b" "p \<notin> X"
  shows "\<exists>D' qs V w'. finalize_inner uc p w = Done (\<not> v_fin (view (b_cm b))) w' \<and> sound F N X D' K qs V w' \<and> gains F D D' \<and>
    left_over X w w' \<and> same_links N w w' \<and> kept F w w' \<and> (v_fin (view (b_cm b)) \<longrightarrow> w' = w \<and> D' = D)"
proof (cases "v_fin (view (b_cm b))")
  case True
  then have "finalize_inner uc p w = Done False w"
    using p(1) by (simp add: finalize_inner_def on_boxes_def zoom_def bindM_def cm_tests)
  with True s(1) left_over_refl gains_refl kept_refl show ?thesis by (fastforce simp: same_links_def)
next
  case False
  let ?v = "w\<lparr>w_boxes := upd p (\<lambda>b. b\<lparr>b_cm := set_finalized True (b_cm b)\<rparr>) (w_boxes w)\<rparr>"
  have v: "finalizing_world p w = ?v"
    using s(2) by (cases w) (simp add: finalizing_world_def set_finalizing_def)
  note f = finalizing_sound(1) [OF s(1), of p, unfolded v]
  have u: "unseen N X w ?v" by (rule unseen_upd) (simp add: box_meta_def cm_upd)
  from soundD(4) [OF s(1) p(1)] p(2) obtain e where e: "b_elem b = Some e" "plain_val F e" by (auto simp: box_sound_def)
  have "st_finalizing (w_state ?v)" using s(2) by simp
  from finalizers_keep [OF k f this, of "finalize_val e"] e(2) obtain D' qs V w' where
    1: "forM (finalize_val e) (uc_finalize uc) ?v = Done () w'" "sound F N X D' K qs V w'" "D \<subseteq># D'" "left_over X ?v w'"
    "same_links N ?v w'" "finalize_val e = [] \<longrightarrow> w' = ?v \<and> D' = D" by (auto simp: plain_val_def)
  have "upd p (\<lambda>c. c\<lparr>b_cm := set_finalized True (b_cm b)\<rparr>) (w_boxes w) = upd p (\<lambda>b. b\<lparr>b_cm := set_finalized True (b_cm b)\<rparr>) (w_boxes w)"
    using p(1) by (intro ext) (simp add: upd_apply)
  then have "on_boxes (on_cm p (modifyM (set_finalized True))) w = Done () ?v"
    using on_cm_Done [of "w_boxes w" p b "modifyM (set_finalized True)"] p(1) by (simp add: on_boxes_def zoom_def)
  moreover have "run_finalizer uc p ?v = Done () w'"
    using p(1) e(1) 1(1) by (simp add: run_finalizer_def get_elem_def on_boxes_def zoom_def bindM_def)
  moreover have "on_boxes (cm_test p needs_finalization) w = Done True w"
    using p(1) False by (simp add: on_boxes_def zoom_def cm_tests)
  moreover have "get_traceable p ?v = Done p ?v"
    by (rule get_traceable_box [where b = "b\<lparr>b_cm := set_finalized True (b_cm b)\<rparr>"])
      (use p(1) weak_inv_has_vtable [OF drop_invD(2) [OF soundD(1) [OF s(1)]] p(1)] in \<open>simp_all add: upd_apply cm_upd\<close>)
  ultimately have "finalize_inner uc p w = Done True w'" by (simp add: finalize_inner_def)
  moreover have "left_over X w w'" using u 1(4) left_over_trans unfolding unseen_def by blast
  moreover have "same_links N w w'" using u 1(5) by (simp add: unseen_def same_links_def)
  moreover have "gains F D D'" "kept F w w'" using 1(3,6) e(2) u by (auto simp: gains_def kept_def plain_val_def unseen_def)
  ultimately show ?thesis using False 1(2) by (intro exI [of _ D'] exI [of _ qs] exI [of _ V] exI [of _ w']) simp
qed

text \<open>
  The list keeps its links while the finalizers run. \<open>w0\<close> is the world in which they start; if all
  boxes were finalized before, nothing has changed.
\<close>

definition finalizes :: "nat set \<Rightarrow> addr set \<Rightarrow> addr multiset \<Rightarrow> weak_ptr multiset \<Rightarrow> 'f world \<Rightarrow> addr set \<Rightarrow> bool \<Rightarrow> 'f world \<Rightarrow> bool" where
  "finalizes F N D K w0 S hf u \<longleftrightarrow> (\<exists>D' qs V. sound F N {} D' K qs V u \<and> gains F D D') \<and> left_over {} w0 u \<and> same_links N w0 u \<and>
     kept F w0 u \<and> (\<not> hf \<longrightarrow> u = w0 \<and> (\<forall>x \<in> S. \<forall>b. w_boxes w0 x = Some b \<longrightarrow> v_fin (view (b_cm b))))"

lemma finalizes_step:
  assumes k: "keeps_sound F uc" and f: "finalizes F N D K w0 S hf u" and fin: "st_finalizing (w_state w0)" and y: "y \<in> N"
  shows "\<exists>r u'. finalize_inner uc y u = Done r u' \<and> finalizes F N D K w0 (insert y S) (r \<or> hf) u'"
proof -
  from f obtain D1 qs V where s: "sound F N {} D1 K qs V u" "gains F D D1" unfolding finalizes_def by blast
  from soundD(9) [OF s(1)] y obtain b where b: "w_boxes u y = Some b" by blast
  have "left_over {} w0 u" using f by (simp add: finalizes_def)
  from left_over_state(4) [OF this] fin have "st_finalizing (w_state u)" by simp
  from finalize_inner_sound [OF k s(1) this b] obtain D' rs U u' where
    1: "finalize_inner uc y u = Done (\<not> v_fin (view (b_cm b))) u'" "sound F N {} D' K rs U u'" "gains F D1 D'" "left_over {} u u'"
    "same_links N u u'" "kept F u u'" "v_fin (view (b_cm b)) \<longrightarrow> u' = u \<and> D' = D1" by auto
  have "finalizes F N D K w0 (insert y S) (\<not> v_fin (view (b_cm b)) \<or> hf) u'"
    unfolding finalizes_def
  proof (intro conjI)
    show "\<exists>D' qs V. sound F N {} D' K qs V u' \<and> gains F D D'" using 1(2) gains_trans [OF s(2) 1(3)] by blast
    show "left_over {} w0 u'" using f 1(4) left_over_trans unfolding finalizes_def by blast
    show "same_links N w0 u'" using f 1(5) by (simp add: finalizes_def same_links_def)
    show "kept F w0 u'" using f 1(6) kept_trans unfolding finalizes_def by blast
    show "\<not> (\<not> v_fin (view (b_cm b)) \<or> hf) \<longrightarrow> u' = w0 \<and> (\<forall>x \<in> insert y S. \<forall>b. w_boxes w0 x = Some b \<longrightarrow> v_fin (view (b_cm b)))"
      using f 1(7) b by (auto simp: finalizes_def)
  qed
  with 1(1) show ?thesis by blast
qed

lemma finalize_list_sound:
  assumes k: "keeps_sound F uc" and s: "sound F (set ns) {} D K qs W (w\<lparr>w_state := set_finalizing True (w_state w)\<rparr>)"
    and l: "ll_repr l (w_boxes w) ns" and n: "length ns < fuel" "length ns < 2 ^ 64"
  shows "\<exists>sz hf u. finalize_list uc fuel l w = Done (sz, hf) (finalized_world w u) \<and> unat sz = length ns \<and>
    finalizes F (set ns) D K (w\<lparr>w_state := set_finalizing True (w_state w)\<rparr>) (set ns) hf u"
proof -
  let ?w0 = "w\<lparr>w_state := set_finalizing True (w_state w)\<rparr>"
  let ?I = "\<lambda>ys (sz, hf) u. \<exists>xs. ns = xs @ ys \<and> unat (sz :: usize) = length xs \<and> finalizes F (set ns) D K ?w0 (set xs) hf u"
  let ?body = "\<lambda>ptr (size, has_finalized). bindM (checked_add size 1) (\<lambda>size'.
     bindM (finalize_inner uc ptr) (\<lambda>r. ret (size', r \<or> has_finalized)))"
  have fin: "st_finalizing (w_state ?w0)" by (simp add: set_finalizing_def)
  from l obtain e where d: "dseg (w_boxes w) None (ll_first l) ns e None" by (auto simp: ll_repr_def)
  have "wp (iter_fold fuel ?body (head ns) (0, False)) (?I []) (\<lambda>_ _. False) ?w0"
  proof (rule wp_iter_fold [where I = ?I])
    have "finalizes F (set ns) D K ?w0 (set []) False ?w0"
      using s gains_refl left_over_refl kept_refl by (fastforce simp: finalizes_def same_links_def)
    then show "?I ns (0, False) ?w0" by fastforce
    show "length ns < fuel" by (rule n)
    fix y ys a u assume "?I (y # ys) a u"
    then obtain xs sz hf where xs: "ns = xs @ y # ys" "a = (sz, hf)" "unat sz = length xs"
      and f: "finalizes F (set ns) D K ?w0 (set xs) hf u" by (cases a) auto
    have y: "y \<in> set ns" using xs(1) by simp
    from next_dseg [of "w_boxes w" "ll_first l" xs y ys e] d xs(1) obtain b where b: "w_boxes w y = Some b" "b_next b = head ys" by auto
    have "links (w_boxes u) y = links (w_boxes w) y" using f y by (simp add: finalizes_def same_links_def)
    then show "\<exists>b. w_boxes u y = Some b \<and> b_next b = head ys" using b by (cases "w_boxes u y") (auto simp: links_def)
    from finalizes_step [OF k f fin y] obtain r u' where
      1: "finalize_inner uc y u = Done r u'" "finalizes F (set ns) D K ?w0 (insert y (set xs)) (r \<or> hf) u'" by blast
    have lt: "unat sz + 1 < 2 ^ 64" using xs(1,3) n(2) by simp
    have "?body y a u = Done (sz + 1, r \<or> hf) u'" using lt 1(1) by (simp add: xs(2))
    moreover have "?I ys (sz + 1, r \<or> hf) u'"
      unfolding split by (rule exI [of _ "xs @ [y]"]) (use xs(1,3) lt 1(2) in \<open>auto simp: unat_word_ariths\<close>)
    ultimately show "wp (?body y a) (?I ys) (\<lambda>_ _. False) u" by (simp add: wp_def)
  qed
  then obtain a u where au: "iter_fold fuel ?body (head ns) (0, False) ?w0 = Done a u" "?I [] a u"
    unfolding wp_no_panic by blast
  obtain sz hf where a: "a = (sz, hf)" by (cases a)
  have 1: "unat sz = length ns" "finalizes F (set ns) D K ?w0 (set ns) hf u" using au(2) by (auto simp: a)
  have "finalize_list uc fuel l w = Done (sz, hf) (u\<lparr>w_state := field_set FieldFinalizing (field_get FieldFinalizing (w_state w)) (w_state u)\<rparr>)"
    unfolding finalize_list_def by (rule with_field_Done) (use au(1) head_dseg [OF d] a in \<open>simp add: set_finalizing_def\<close>)
  with 1 show ?thesis by (intro exI [of _ sz] exI [of _ hf] exI [of _ u]) (simp add: finalized_world_def)
qed

subsection \<open>Putting the boxes back\<close>

text \<open>After the finalizers the buffer may have boxes \<open>qs\<close>; the list goes in front of them.\<close>

lemma put_back_sound:
  assumes s: "sound F (set ns) {} D K qs V u" and l: "ll_repr l (w_boxes u) ns" and sz: "unat sz = length ns" and n: "length ns < fuel"
    and v: "w_boxes v = w_boxes u" "w_pc v = w_pc u"
  shows "\<exists>h pl. put_back fuel l sz v = Done () (v\<lparr>w_boxes := h, w_pc := pl\<rparr>) \<and> sound F {} {} D K (ns @ qs) V (u\<lparr>w_boxes := h, w_pc := pl\<rparr>) \<and>
    unseen {} {} u (u\<lparr>w_boxes := h, w_pc := pl\<rparr>)"
proof -
  note e = soundD [OF s]
  note d = drop_invD [OF e(1)]
  have repr: "pc_repr (w_pc u) (w_boxes u) qs" by (rule buffered_repr [OF d(1)])
  have dis: "set ns \<inter> set qs = {}"
  proof -
    have "x \<notin> set qs" if x: "x \<in> set ns" for x
    proof
      assume q: "x \<in> set qs"
      from x e(9) obtain b where b: "w_boxes u x = Some b" by blast
      from buffered_mark [OF d(1) b] q d(6) [OF b] x show False by (simp add: in_collector_def)
    qed
    then show ?thesis by blast
  qed
  have dist: "distinct ns" "distinct qs" using l repr by (simp_all add: ll_repr_def pc_repr_def)
  have "set ns \<union> set qs \<subseteq> dom (w_boxes u)" using e(9) repr_live [OF repr] by blast
  then have "card (set ns \<union> set qs) \<le> card (dom (w_boxes u))" by (rule card_mono [OF d(4)])
  then have len: "length ns + length qs < 2 ^ 64"
    using dis dist d(5) by (simp add: card_Un_disjoint distinct_card)
  have tc: "v_tc (view (b_cm b)) < 16383" if "x \<in> set ns" "w_boxes u x = Some b" for x b
    using e(4) [OF that(2)] by (simp add: box_sound_def)
  have old: "unat (pc_size (w_pc u)) = length qs" using repr by (simp add: pc_repr_def)
  have "\<exists>k' l1 l' h'. pc_swap_list sz l (w_pc u, w_boxes u) = Done k' (l1, w_boxes u) \<and>
    pc_mark_self_and_append fuel PossibleCycles k' (pc_size (w_pc u)) (l1, w_boxes u) = Done () (l', h') \<and> pc_repr l' h' (ns @ qs) \<and>
    frame (set ns \<union> set qs) (remark (set ns) PossibleCycles (w_boxes u)) h'"
    by (rule put_back_appends [OF repr l dis len sz old n]) (rule tc)
  then obtain k' l1 pl h where 1: "pc_swap_list sz l (w_pc u, w_boxes u) = Done k' (l1, w_boxes u)"
    "pc_mark_self_and_append fuel PossibleCycles k' (pc_size (w_pc u)) (l1, w_boxes u) = Done () (pl, h)" "pc_repr pl h (ns @ qs)"
    and fr: "frame (set ns \<union> set qs) (remark (set ns) PossibleCycles (w_boxes u)) h" by blast
  let ?u = "u\<lparr>w_boxes := h, w_pc := pl\<rparr>"
  have run: "put_back fuel l sz v = Done () (v\<lparr>w_boxes := h, w_pc := pl\<rparr>)"
  proof -
    have "on_possible_cycles (pc_swap_list sz l) v = Done k' (v\<lparr>w_pc := l1\<rparr>)"
      using 1(1) v by (cases v) (simp add: on_possible_cycles_def zoom_def)
    moreover have "on_possible_cycles (pc_mark_self_and_append fuel PossibleCycles k' (pc_size (w_pc u))) (v\<lparr>w_pc := l1\<rparr>)
        = Done () (v\<lparr>w_boxes := h, w_pc := pl\<rparr>)"
      using 1(2) v by (simp add: on_possible_cycles_def zoom_def)
    ultimately show ?thesis using v by (simp add: put_back_def)
  qed
  have pay: "map_option payload (h p) = map_option payload (remark (set ns) PossibleCycles (w_boxes u) p)" for p
    by (rule frame_payload [OF fr])
  have st: "map_option static (h p) = map_option static (w_boxes u p)" for p
    using pay [of p] by (cases "h p"; cases "w_boxes u p") (auto simp: remark_def payload_def static_def cm_upd split: if_splits)
  have marks: "if p \<in> set ns then v_mark (view (b_cm c)) = PossibleCycles \<and> v_tc (view (b_cm c)) = 0
      else \<exists>b. w_boxes u p = Some b \<and> b_cm c = b_cm b" if "h p = Some c" for p c
    using pay [of p] that by (cases "w_boxes u p") (auto simp: remark_def payload_def cm_upd split: if_splits)
  have inv: "drop_inv {} (ns @ qs) V ?u"
    unfolding drop_inv_def
  proof (intro conjI allI impI)
    show "buffered (ns @ qs) ?u"
      unfolding buffered_def
    proof (intro conjI allI impI)
      show "pc_repr (w_pc ?u) (w_boxes ?u) (ns @ qs)" using 1(3) by simp
      fix p c assume c: "w_boxes ?u p = Some c"
      show mk: "v_mark (view (b_cm c)) = PossibleCycles \<longleftrightarrow> p \<in> set (ns @ qs)"
      proof (cases "p \<in> set ns")
        case True
        with marks [of p c] c show ?thesis by simp
      next
        case False
        with marks [of p c] c obtain b where b: "w_boxes u p = Some b" "b_cm c = b_cm b" by auto
        from buffered_mark [OF d(1) b(1)] False b(2) show ?thesis by simp
      qed
      assume m: "v_mark (view (b_cm c)) = NonMarked"
      with mk have p: "p \<notin> set ns \<union> set qs" by auto
      with frame_out [OF fr this] c have b: "w_boxes u p = Some c" by (simp add: remark_def)
      from buffered_isolated [OF d(1) b m] b c show "isolated (w_boxes ?u) p" by (simp add: isolated_def links_def)
    qed
    show "weak_inv V ?u"
    proof (rule weak_inv_cong [OF d(2)])
      show "map_option box_meta (w_boxes ?u p) = map_option box_meta (w_boxes u p)" for p
        using st [of p] by (cases "w_boxes u p"; cases "h p") (auto simp: static_def box_meta_def)
    qed simp
    have "dom h = dom (w_boxes u)" by (rule static_dom) (rule st)
    then show "finite (dom (w_boxes ?u))" "card (dom (w_boxes ?u)) < 2 ^ 64" using d(4,5) by simp_all
    show "calm ?u" using d(3) by (simp add: calm_def)
    fix p c assume c: "w_boxes ?u p = Some c"
    show "in_collector c \<longleftrightarrow> p \<in> {}"
    proof (cases "p \<in> set ns")
      case True
      with marks [of p c] c show ?thesis by (simp add: in_collector_def)
    next
      case False
      with marks [of p c] c obtain b where b: "w_boxes u p = Some b" "b_cm c = b_cm b" by auto
      from d(6) [OF b(1)] False b(2) show ?thesis by (simp add: in_collector_def)
    qed
    assume "p \<in> set (ns @ qs)"
    then show "v_tc (view (b_cm c)) = 0"
      using marks [of p c] c d(7) [of p] by (cases "p \<in> set ns") auto
  qed
  have vals: "map_option (\<lambda>b. (b_elem b, box_meta b, v_rc (view (b_cm b)))) (w_boxes ?u p) =
      map_option (\<lambda>b. (b_elem b, box_meta b, v_rc (view (b_cm b)))) (w_boxes u p)" for p
    using st [of p] by (cases "w_boxes u p"; cases "h p") (auto simp: static_def box_meta_def)
  have "sound F {} {} D K (ns @ qs) V ?u"
  proof (rule sound_relisted [OF s inv])
    show "no_lost {} (set_mset D \<union> set (ns @ qs) \<union> {}) (w_boxes u)" using e(8) by (simp add: ac_simps)
    show "v_tc (view (b_cm c)) < 16383" if "w_boxes u p = Some a" "w_boxes ?u p = Some c" "v_tc (view (b_cm a)) < 16383" for p a c
      using marks [of p c] that by (auto split: if_splits)
  qed (use vals in simp_all)
  moreover have "unseen {} {} u ?u"
  proof -
    have "same_frame u ?u" by (rule shrunk_frame [OF shrunk_buffer])
    moreover have "dom h = dom (w_boxes u)" by (rule static_dom) (rule st)
    moreover have "vals_of ?u = vals_of u"
    proof (rule vals_of_cong)
      show "map_option b_elem (w_boxes ?u p) = map_option b_elem (w_boxes u p)" for p
        using st [of p] by (cases "w_boxes u p"; cases "h p") (auto simp: static_def)
    qed
    ultimately show ?thesis by (simp add: unseen_def left_over_def same_links_def)
  qed
  ultimately show ?thesis using run by blast
qed

subsection \<open>A round\<close>

text \<open>What a collection does to the world: the invariant is kept, and nothing that is held is lost.\<close>

definition runs_to :: "nat set \<Rightarrow> addr multiset \<Rightarrow> weak_ptr multiset \<Rightarrow> 'f world \<Rightarrow> 'f world \<Rightarrow> bool" where
  "runs_to F D K w w' \<longleftrightarrow> (\<exists>D' qs V. sound F {} {} D' K qs V (resting w') \<and> gains F D D') \<and> left_over {} w w' \<and> kept F w w'"

lemma runs_toI:
  "sound F {} {} D' K qs V (resting w') \<Longrightarrow> gains F D D' \<Longrightarrow> left_over {} w w' \<Longrightarrow> kept F w w' \<Longrightarrow> runs_to F D K w w'"
  unfolding runs_to_def by blast

lemma runs_to_trans:
  assumes "left_over {} u v" "kept F u v" "gains F D D'" "runs_to F D' K v w"
  shows "runs_to F D K u w"
  using assms left_over_trans [OF assms(1)] kept_trans [OF assms(2)] gains_trans [OF assms(3)]
  unfolding runs_to_def by blast

lemma after_trace_unseen:
  assumes "after_trace ps ns w w1"
  shows "left_over {} w w1" "vals_of w1 = vals_of w"
proof -
  note t = after_traceD [OF assms]
  have "dom (w_boxes w1) = dom (w_boxes w)" by (rule static_dom) (rule t(5))
  moreover from t(3) have "same_frame w w1" using shrunk_frame [OF shrunk_buffer] by blast
  ultimately show "left_over {} w w1" by (simp add: left_over_def)
  show "vals_of w1 = vals_of w"
  proof (rule vals_of_cong)
    show "map_option b_elem (w_boxes w1 p) = map_option b_elem (w_boxes w p)" for p
      using t(5) [of p] by (cases "w_boxes w p"; cases "w_boxes w1 p") (auto simp: static_def)
  qed
qed

text \<open>Nothing was left to finalize: the boxes are freed.\<close>

lemma round_free:
  assumes s: "sound F {} {} D K ps W (resting w)" and tr: "after_trace ps ns w w1" and l: "ll_repr l (w_boxes w1) ns"
    and n: "length ns < Suc n" and fin: "\<forall>x \<in> set ns. \<forall>b. w_boxes w1 x = Some b \<longrightarrow> v_fin (view (b_cm b))"
  shows "\<exists>w'. deallocate_list uc (Suc n) l w1 = Done () w' \<and> runs_to F D K w w'"
proof -
  note g = sound_collectable(1-3) [OF s, simplified]
  note t = after_traceD [OF tr]
  have q: "quiet (w_boxes w) (set ps)"
  proof (rule sound_collectable(4) [OF s, simplified], intro ballI allI impI)
    fix x b assume x: "x \<in> garbage (w_boxes w) (set ps)" and b: "w_boxes w x = Some b"
    from static_Some [of "w_boxes w1" x "w_boxes w" b, OF t(5) b] obtain c where
      "w_boxes w1 x = Some c" "v_fin (view (b_cm c)) = v_fin (view (b_cm b))" by blast
    with fin x t(1) show "v_fin (view (b_cm b)) \<or> finalize_val v = []" for v by auto
  qed
  from sweep_dealloc [OF g(1,2) q tr l n, of uc] obtain w' where
    1: "deallocate_list uc (Suc n) l w1 = Done () w'" "deallocated ns [] W w1 w'" by blast
  have sw: "swept (garbage (w_boxes w) (set ps)) w w'" using deallocated_swept [OF g(1) q tr 1(2)] t(1) by simp
  then have c: "boxes_swept (garbage (w_boxes w) (set ps)) w w'" by (simp add: swept_def boxes_swept_def)
  from swept_inv [OF g(1,2) q tr 1(2)] obtain qs V where 2: "gc_inv qs V w'" "accounted V w'" "settled W w V w'" by blast
  have "sound F {} {} D K qs V (resting w')"
    by (rule collected_sound [OF s]) (use c 2 in simp_all)
  moreover have "left_over {} w w'"
    using shrunk_frame sw collected_dom [OF c] by (auto simp: left_over_def swept_def)
  moreover have "vals_of w' \<subseteq>\<^sub>m vals_of w"
    unfolding map_le_def
  proof
    fix p assume "p \<in> dom (vals_of w')"
    then obtain e where e: "w_boxes w' p = Some e" by (auto simp: vals_of_def split: option.splits)
    from collected_Some [OF c e] obtain b where "w_boxes w p = Some b" "b_elem e = b_elem b" unfolding survives_def by blast
    with e show "vals_of w' p = vals_of w p" by (simp add: vals_of_def)
  qed
  ultimately have "runs_to F D K w w'" by (intro runs_toI [OF _ gains_refl]) (simp_all add: kept_def)
  with 1(1) show ?thesis by blast
qed

text \<open>Finalizers ran: the boxes are put back, and those that a finalizer took a reference to are safe.\<close>

lemma round_put_back:
  assumes s: "sound F (set ns) {} D' K qs V u" and lo: "same_links (set ns) w1 u" and l: "ll_repr l (w_boxes w1) ns"
    and sz: "unat sz = length ns" and n: "length ns < fuel"
  shows "\<exists>w'. put_back fuel l sz (finalized_world w1 u) = Done () w' \<and> sound F {} {} D' K (ns @ qs) V (resting w') \<and>
    left_over {} (finalized_world w1 u) w' \<and> vals_of w' = vals_of u"
proof -
  have "ll_repr l (w_boxes u) ns"
    using l lo dseg_cong [of ns "w_boxes u" "w_boxes w1"] by (simp add: ll_repr_def same_links_def)
  from put_back_sound [OF s this sz n, of "finalized_world w1 u"] obtain h pl where
    1: "put_back fuel l sz (finalized_world w1 u) = Done () ((finalized_world w1 u)\<lparr>w_boxes := h, w_pc := pl\<rparr>)"
    "sound F {} {} D' K (ns @ qs) V (u\<lparr>w_boxes := h, w_pc := pl\<rparr>)" "unseen {} {} u (u\<lparr>w_boxes := h, w_pc := pl\<rparr>)"
    by (auto simp: finalized_world_def)
  let ?w = "(finalized_world w1 u)\<lparr>w_boxes := h, w_pc := pl\<rparr>"
  have eq: "?w = finalized_world w1 (u\<lparr>w_boxes := h, w_pc := pl\<rparr>)" by (simp add: finalized_world_def)
  have "resting ?w = resting (u\<lparr>w_boxes := h, w_pc := pl, w_state := set_finalizing (st_finalizing (w_state w1)) (w_state u)\<rparr>)"
    by (cases u) (simp add: finalized_world_def)
  moreover have "sound F {} {} D' K (ns @ qs) V (resting ((u\<lparr>w_boxes := h, w_pc := pl\<rparr>)\<lparr>w_state := set_finalizing (st_finalizing (w_state w1)) (w_state u)\<rparr>))"
    by (rule sound_resting [OF 1(2)]) (simp add: set_finalizing_def)
  ultimately have "sound F {} {} D' K (ns @ qs) V (resting ?w)" by simp
  moreover have "left_over {} (finalized_world w1 u) ?w"
    unfolding eq by (rule left_over_restore) (use 1(3) in \<open>simp add: unseen_def\<close>)
  moreover have "vals_of ?w = vals_of u" unfolding eq vals_of_finalized using 1(3) by (simp add: unseen_def)
  ultimately show ?thesis using 1(1) by blast
qed

lemma round_sound:
  assumes k: "keeps_sound F uc" and s: "sound F {} {} D K ps W (resting w)" and n: "card (dom (w_boxes w)) < Suc n"
  shows "\<exists>w'. collect_once uc (Suc n) w = Done () w' \<and> runs_to F D K w w'"
proof -
  note g = sound_collectable(1-3) [OF s, simplified]
  have "card (reach (w_boxes w) (set ps)) \<le> card (dom (w_boxes w))"
    using gc_invD(5) [OF g(1)] sound_reach [OF s, of "set ps"] buffer_live [OF s] by (intro card_mono) simp_all
  then have fuel: "card (reach (w_boxes w) (set ps)) < Suc n" using n by simp
  from run_trace_ok [OF g(1,3) fuel] obtain l w1 ns where
    1: "run_trace (Suc n) w = Done l w1" "ll_repr l (w_boxes w1) ns" and tr: "after_trace ps ns w w1" by blast
  note len = garbage_length [OF g(1) tr fuel] and u = after_trace_unseen [OF tr]
  have st: "w_state w1 = w_state w" by (rule after_trace_kept(3) [OF g(1) tr])
  show ?thesis
  proof (cases "ns = []")
    case True
    have "sound F (set ns) {} D K [] W (w1\<lparr>w_state := set_collecting False (w_state w)\<rparr>)"
      by (rule traced_sound [OF s tr]) (simp_all add: is_tracing_def set_collecting_def)
    then have "sound F {} {} D K [] W (resting w1)" using True st by (simp add: resting_def)
    then have "runs_to F D K w w1" using gains_refl u(1) kept_same [OF u(2)] by (rule runs_toI)
    moreover have "collect_once uc (Suc n) w = Done () w1" using 1 empty_list [OF 1(2)] True by (simp add: collect_once_def)
    ultimately show ?thesis by blast
  next
    case ne: False
    let ?w0 = "w1\<lparr>w_state := set_finalizing True (w_state w1)\<rparr>"
    have "sound F (set ns) {} D K [] W ?w0"
      using traced_sound [OF s tr, of "set_finalizing True (w_state w)"] by (simp add: st is_tracing_def set_finalizing_def)
    from finalize_list_sound [OF k this 1(2) len] obtain sz hf v where
      2: "finalize_list uc (Suc n) l w1 = Done (sz, hf) (finalized_world w1 v)" "unat sz = length ns" "finalizes F (set ns) D K ?w0 (set ns) hf v"
      by blast
    have once: "collect_once uc (Suc n) w = (if \<not> hf then deallocate_list uc (Suc n) l else put_back (Suc n) l sz) (finalized_world w1 v)"
      using 1(1) ne empty_list [OF 1(2)] 2(1) by (simp add: collect_once_def)
    from 2(3) obtain D' qs V where f: "sound F (set ns) {} D' K qs V v" "gains F D D'" "left_over {} ?w0 v" "same_links (set ns) ?w0 v"
      "kept F ?w0 v" "\<not> hf \<longrightarrow> v = ?w0 \<and> (\<forall>x \<in> set ns. \<forall>b. w_boxes ?w0 x = Some b \<longrightarrow> v_fin (view (b_cm b)))"
      unfolding finalizes_def by blast
    have same: "finalized_world w1 ?w0 = w1" by (simp add: finalized_world_def set_finalizing_def)
    show ?thesis
    proof (cases hf)
      case False
      with f(6) same have "finalized_world w1 v = w1" by simp
      with round_free [OF s tr 1(2) len(1), of uc] once False f(6) show ?thesis by simp
    next
      case True
      from left_over_restore [OF f(3), of w1] have lo: "left_over {} w1 (finalized_world w1 v)" by (simp only: same)
      have "same_links (set ns) w1 v" using f(4) by (simp add: same_links_def)
      from round_put_back [OF f(1) this 1(2) 2(2) len(1)] obtain w' where
        3: "put_back (Suc n) l sz (finalized_world w1 v) = Done () w'" "sound F {} {} D' K (ns @ qs) V (resting w')"
        "left_over {} (finalized_world w1 v) w'" "vals_of w' = vals_of v" by blast
      have "left_over {} w w'" using left_over_trans [OF left_over_trans [OF u(1) lo] 3(3)] .
      moreover have "vals_of ?w0 = vals_of w1" by (rule ext) (simp add: vals_of_def)
      then have "kept F w w'" using f(5) u(2) 3(4) by (simp add: kept_def)
      ultimately have "runs_to F D K w w'" by (rule runs_toI [OF 3(2) f(2)])
      with once True 3(1) show ?thesis by auto
    qed
  qed
qed

subsection \<open>The entry points\<close>

lemma resting_empty: "sound F {} {} D K ps W (resting w) \<Longrightarrow> pc_is_empty (w_pc w) \<longleftrightarrow> ps = []"
  using buffer_empty [of ps W w] sound_collectable(1) [of F D K ps W "resting w"] by simp

lemma rounds_sound:
  assumes k: "keeps_sound F uc"
  shows "sound F {} {} D K ps W (resting w) \<Longrightarrow> card (dom (w_boxes w)) < Suc n \<Longrightarrow>
    \<exists>w'. collect_rounds uc (Suc n) m w = Done () w' \<and> runs_to F D K w w'"
proof (induction m arbitrary: D ps W w)
  case 0
  with runs_toI [OF _ gains_refl left_over_refl kept_refl] show ?case by auto
next
  case (Suc m)
  show ?case
  proof (cases "pc_is_empty (w_pc w)")
    case True
    with Suc.prems(1) runs_toI [OF _ gains_refl left_over_refl kept_refl] show ?thesis by auto
  next
    case False
    from round_sound [OF k Suc.prems] obtain v where 1: "collect_once uc (Suc n) w = Done () v" "runs_to F D K w v" by blast
    from 1(2) obtain D1 qs V where v: "sound F {} {} D1 K qs V (resting v)" "gains F D D1" "left_over {} w v" "kept F w v"
      unfolding runs_to_def by blast
    have "finite (dom (w_boxes w))" using drop_invD(4) [OF soundD(1) [OF Suc.prems(1)]] by simp
    from card_mono [OF this left_over_dom [OF v(3)]] Suc.prems(2) have "card (dom (w_boxes v)) < Suc n" by simp
    from Suc.IH [OF v(1) this] obtain w' where 2: "collect_rounds uc (Suc n) m v = Done () w'" "runs_to F D1 K v w'" by blast
    with False 1(1) have "collect_rounds uc (Suc n) (Suc m) w = Done () w'" by simp
    with runs_to_trans [OF v(3,4,2) 2(2)] show ?thesis by blast
  qed
qed

text \<open>A thread between two calls.\<close>

definition idle :: "'f world \<Rightarrow> bool" where
  "idle w \<longleftrightarrow> \<not> st_collecting (w_state w) \<and> \<not> st_finalizing (w_state w) \<and> \<not> st_dropping (w_state w) \<and>
     unat (st_allocated_bytes (w_state w)) < 2 ^ 63 \<and>
     (w_config_alive w \<longrightarrow> \<not> w_config_borrowed w \<longrightarrow> DEFAULT_BYTES_THRESHOLD \<le> cf_bytes_threshold (w_config w))"

lemma idle_ready: "idle w \<Longrightarrow> trigger_ready w"
  by (simp add: idle_def trigger_ready_def)

lemma idle_frame: "idle w \<Longrightarrow> same_frame w w' \<Longrightarrow> idle w'"
  by (auto simp: idle_def same_frame_def)

text \<open>\<open>sound\<close> reads nothing of the configuration.\<close>

lemma sound_config: "sound F {} X D K ps W (w\<lparr>w_config := cf\<rparr>) = sound F {} X D K ps W w"
proof -
  have "size_of (w\<lparr>w_config := cf\<rparr>) = size_of w" by (rule ext) (rule size_of_frame; simp)
  then have "sizes (w\<lparr>w_config := cf\<rparr>) = sizes w" by (simp add: sizes_def)
  moreover have "drop_inv {} ps W (w\<lparr>w_config := cf\<rparr>) = drop_inv {} ps W w"
    by (simp add: drop_inv_def buffered_def weak_inv_def owner_def union_ok_def calm_def)
  ultimately show ?thesis by (simp add: sound_def)
qed

text \<open>What a collection leaves to the program.\<close>

definition settles :: "nat set \<Rightarrow> addr multiset \<Rightarrow> weak_ptr multiset \<Rightarrow> 'f world \<Rightarrow> 'f world \<Rightarrow> bool" where
  "settles F D K w w' \<longleftrightarrow> (\<exists>D' qs V. sound F {} {} D' K qs V w' \<and> gains F D D') \<and> idle w' \<and> dom (w_boxes w') \<subseteq> dom (w_boxes w) \<and>
     unat (st_allocated_bytes (w_state w')) \<le> unat (st_allocated_bytes (w_state w)) \<and> kept F w w'"

lemma collect_sound:
  assumes k: "keeps_sound F uc" and s: "sound F {} {} D K ps W w" and i: "idle w" and n: "card (dom (w_boxes w)) < Suc n"
    and e: "unat (st_executions_counter (w_state w)) + 1 < 2 ^ 64"
  shows "\<exists>w'. collect uc (Suc n) w = Done () w' \<and> settles F D K w w'"
proof -
  let ?s = "(w_state w)\<lparr>st_collecting := True, st_executions_counter := st_executions_counter (w_state w) + 1\<rparr>"
  let ?w = "w\<lparr>w_state := ?s\<rparr>"
  have "sound F {} {} D K ps W (resting ?w)" by (rule sound_resting [OF s]) simp
  moreover have "card (dom (w_boxes ?w)) < Suc n" using n by simp
  ultimately obtain w' where 1: "collect_rounds uc (Suc n) 10 ?w = Done () w'" "runs_to F D K ?w w'"
    using rounds_sound [OF k] by blast
  have "collect uc (Suc n) w = Done () (resting w')"
    using 1(1) e by (simp add: collect_def on_state_def zoom_def increment_executions_count_def set_collecting_def
        checked_add_def bindM_def resting_def del: collect_rounds.simps)
  moreover have "settles F D K w (resting w')"
    unfolding settles_def
  proof (intro conjI)
    from 1(2) have lo: "left_over {} ?w w'" and kp: "kept F ?w w'" by (simp_all add: runs_to_def)
    show "\<exists>D' qs V. sound F {} {} D' K qs V (resting w') \<and> gains F D D'" using 1(2) by (simp add: runs_to_def)
    note l = left_over_state [OF lo]
    show "idle (resting w')"
      using i l by (auto simp: idle_def resting_def set_collecting_def)
    show "dom (w_boxes (resting w')) \<subseteq> dom (w_boxes w)" using left_over_dom [OF lo] by simp
    show "unat (st_allocated_bytes (w_state (resting w'))) \<le> unat (st_allocated_bytes (w_state w))" using l(10) by simp
    have "vals_of ?w = vals_of w" by (rule ext) (simp add: vals_of_def)
    with kp show "kept F w (resting w')" by (simp add: kept_def)
  qed
  ultimately show ?thesis by blast
qed

lemma collect_adjust_sound:
  assumes k: "keeps_sound F uc" and s: "sound F {} {} D K ps W w" and i: "idle w" and n: "card (dom (w_boxes w)) < Suc n"
    and e: "unat (st_executions_counter (w_state w)) + 1 < 2 ^ 64"
  shows "\<exists>w'. thenM (collect uc (Suc n)) (adjust_trigger_point fl) w = Done () w' \<and> settles F D K w w'"
proof -
  from collect_sound [OF assms] obtain v where 1: "collect uc (Suc n) w = Done () v" "settles F D K w v" by blast
  then have "idle v" by (simp add: settles_def)
  from adjust_trigger_point_ready [OF idle_ready [OF this], of fl] obtain cf where
    2: "adjust_trigger_point fl v = Done () (v\<lparr>w_config := cf\<rparr>)" "config_adjusted v cf" by blast
  have "vals_of (v\<lparr>w_config := cf\<rparr>) = vals_of v" by (rule ext) (simp add: vals_of_def)
  moreover have "idle (v\<lparr>w_config := cf\<rparr>)" using \<open>idle v\<close> 2(2) by (auto simp: idle_def config_adjusted_def)
  ultimately have "settles F D K w (v\<lparr>w_config := cf\<rparr>)"
    using 1(2) by (simp add: settles_def sound_config kept_def)
  with 1(1) 2(1) show ?thesis by simp
qed

lemma trigger_collection_sound:
  assumes k: "keeps_sound F uc" and s: "sound F {} {} D K ps W w" and i: "idle w" and n: "card (dom (w_boxes w)) < Suc n"
    and e: "unat (st_executions_counter (w_state w)) + 1 < 2 ^ 64"
  shows "\<exists>w'. trigger_collection fl uc (Suc n) w = Done () w' \<and> settles F D K w w'"
proof -
  have "w_pc_alive w" using drop_invD(3) [OF soundD(1) [OF s]] by (simp add: calm_def)
  note eval = trigger_collection_eval [OF this, of fl uc "Suc n"]
  show ?thesis
  proof (cases "due w")
    case True
    with collect_adjust_sound [OF assms, of fl] show ?thesis by (simp add: eval)
  next
    case False
    have "settles F D K w w" using s i gains_refl kept_refl by (auto simp: settles_def)
    with False show ?thesis by (simp add: eval)
  qed
qed

lemma collect_cycles_sound:
  assumes k: "keeps_sound F uc" and s: "sound F {} {} D K ps W w" and i: "idle w" and n: "card (dom (w_boxes w)) < Suc n"
    and e: "unat (st_executions_counter (w_state w)) + 1 < 2 ^ 64"
  shows "\<exists>w'. collect_cycles fl uc (Suc n) w = Done () w' \<and> settles F D K w w'"
proof -
  have "collect_cycles fl uc (Suc n) w = thenM (collect uc (Suc n)) (adjust_trigger_point fl) w"
    using i drop_invD(3) [OF soundD(1) [OF s]]
    by (cases "collect uc (Suc n) w"; cases "thenM (collect uc (Suc n)) (adjust_trigger_point fl) w")
      (simp_all add: idle_def calm_def collect_cycles_def try_state_def try_pc_def bindM_def thenM_def split: outcome.splits)
  with collect_adjust_sound [OF assms, of fl] show ?thesis by simp
qed

text \<open>\<open>Cc::new\<close>, with the collection that it may run.\<close>

lemma cc_new_sound:
  assumes k: "keeps_sound F uc" and s: "sound F {} {} (D + mset (dropped_ccs (drop_glue v))) (K + mset (dropped_weaks (drop_glue v))) ps W w"
    and i: "idle w" and n: "card (dom (w_boxes w)) < Suc n" and e: "unat (st_executions_counter (w_state w)) + 1 < 2 ^ 64"
    and v: "plain_val F v" and al: "fresh_allocator al"
    and room: "card (dom (w_boxes w)) + 1 < 2 ^ 64" "unat (st_allocated_bytes (w_state w)) + unat layout < 2 ^ 64"
  shows "\<exists>w1 p D' qs V. trigger_collection fl uc (Suc n) w = Done () w1 \<and>
    (\<forall>x. cc_new fl uc (Suc n) al layout x w = Done p (with_box p layout x w1)) \<and>
    settles F (D + mset (dropped_ccs (drop_glue v))) (K + mset (dropped_weaks (drop_glue v))) w w1 \<and> w_boxes w1 p = None \<and>
    gains F D D' \<and> sound F {} {} (add_mset p D') K qs V (with_box p layout (Some v) w1)"
proof -
  from trigger_collection_sound [OF k s i n e, of fl] obtain w1 where
    1: "trigger_collection fl uc (Suc n) w = Done () w1"
    "settles F (D + mset (dropped_ccs (drop_glue v))) (K + mset (dropped_weaks (drop_glue v))) w w1" by blast
  then obtain D1 qs V where w1: "sound F {} {} D1 (K + mset (dropped_weaks (drop_glue v))) qs V w1"
    "gains F (D + mset (dropped_ccs (drop_glue v))) D1" "idle w1" "dom (w_boxes w1) \<subseteq> dom (w_boxes w)"
    "unat (st_allocated_bytes (w_state w1)) \<le> unat (st_allocated_bytes (w_state w))" unfolding settles_def by blast
  from w1(2) obtain D' where D': "D1 = D' + mset (dropped_ccs (drop_glue v))" "gains F D D'" by (rule gains_rest)
  note g = sound_collectable(1) [OF w1(1)]
  define p where "p = al_box al (w_boxes w1)"
  have new: "w_boxes w1 p = None" using al gc_invD(5) [OF g] by (simp add: fresh_allocator_def p_def)
  have bytes: "unat (st_allocated_bytes (w_state w1)) + unat layout < 2 ^ 64" using room(2) w1(5) by simp
  have "card (dom (w_boxes w1)) + 1 < 2 ^ 64"
    using room(1) card_mono [OF drop_invD(4) [OF soundD(1) [OF s]] w1(4)] by simp
  from with_box_gc_inv [OF g new this] have gi: "gc_inv qs V (with_box p layout (Some v) w1)" .
  have nt: "\<not> is_tracing (w_state (with_box p layout (Some v) w1))" using w1(3) by (simp add: idle_def is_tracing_def)
  have "sound F {} {} (add_mset p D') K qs V (with_box p layout (Some v) w1)"
    by (rule with_box_sound [OF w1(1) [unfolded D'(1)] v new gc_inv_drop_inv [OF gi nt] bytes])
  moreover have "cc_new fl uc (Suc n) al layout x w = Done p (with_box p layout x w1)" for x
    using ccbox_new_eval [OF bytes, of al x] 1(1) i drop_invD(3) [OF soundD(1) [OF s]]
    by (simp add: cc_new_def with_state_def bindM_def thenM_def p_def idle_def is_tracing_def calm_def)
  ultimately show ?thesis using 1 new D'(2) by blast
qed

subsection \<open>A finalizer that resurrects\<close>

text \<open>
  A finalizer that clones a \<open>Cc\<close> to the box at \<open>p\<close> and keeps it, unless the box is gone, its value is
  being dropped or its counter is full. Finalizers of this kind keep the invariant.
\<close>

definition clone_and_keep :: "addr \<Rightarrow> ('f, unit) gc" where
  "clone_and_keep p w = (case w_boxes w p of None \<Rightarrow> Done () w
     | Some b \<Rightarrow> if b_elem b = None \<or> v_rc (view (b_cm b)) = 16382 then Done () w else thenM (cc_clone p) (ret ()) w)"

lemma clone_and_keep_keeps:
  assumes uc: "\<And>k. k \<in> F \<Longrightarrow> uc_finalize uc k = clone_and_keep (f k)"
  shows "keeps_sound F uc"
  unfolding keeps_sound_def
proof (intro ballI allI impI)
  fix k N X D K ps W and w :: "'a world" assume k: "k \<in> F" and s: "sound F N X D K ps W w"
  let ?p = "f k"
  have stay: "\<exists>D' qs V w'. Done () w = Done () w' \<and> sound F N X D' K qs V w' \<and> D \<subseteq># D' \<and> left_over X w w' \<and> same_links N w w'"
    using s left_over_refl by (fastforce simp: same_links_def)
  show "\<exists>D' qs V w'. uc_finalize uc k w = Done () w' \<and> sound F N X D' K qs V w' \<and> D \<subseteq># D' \<and> left_over X w w' \<and> same_links N w w'"
  proof (cases "\<exists>b. w_boxes w ?p = Some b \<and> b_elem b \<noteq> None \<and> v_rc (view (b_cm b)) \<noteq> 16382")
    case True
    then obtain b where b: "w_boxes w ?p = Some b" "b_elem b \<noteq> None" "v_rc (view (b_cm b)) \<noteq> 16382" by blast
    have "?p \<notin> X" using soundD(4) [OF s b(1)] b(2) by (auto simp: box_sound_def)
    from clone_sound [OF s b(1) this] b(3) obtain w' qs where
      1: "cc_clone ?p w = Done ?p w'" "sound F N X (add_mset ?p D) K qs W w'" "unseen N X w w'" by blast
    have "uc_finalize uc k w = Done () w'" unfolding uc [OF k] using b 1(1) by (auto simp: clone_and_keep_def)
    moreover have "D \<subseteq># add_mset ?p D" by simp
    ultimately show ?thesis using 1(2,3) unfolding unseen_def by blast
  next
    case False
    then have "uc_finalize uc k w = Done () w" unfolding uc [OF k] by (auto simp: clone_and_keep_def split: option.split)
    with stay show ?thesis by simp
  qed
qed

end
