(* ===== verification/New_Cyclic.thy ===== *)
theory New_Cyclic
  imports Collect
begin

text \<open>
  \<open>Cc::new_cyclic\<close> of \<open>src/src/weak/mod.rs\<close>, and the accessors of the thread locals in
  \<open>src/src/state.rs\<close>. The closure of \<open>new_cyclic\<close> is a parameter, a program that gets the weak
  pointer and returns the value of the box or panics.
\<close>

subsection \<open>The accessors\<close>

definition buffered_objects_count :: "('f, usize option) gc" where
  "buffered_objects_count = bindM (getM w_pc_alive) (\<lambda>b.
     if b then bindM (getM (\<lambda>w. pc_size (w_pc w))) (\<lambda>n. ret (Some n)) else ret None)"

definition allocated_bytes :: "('f, usize option) gc" where
  "allocated_bytes = try_state (getM (\<lambda>w. state_allocated_bytes (w_state w)))"

definition executions_count :: "('f, usize option) gc" where
  "executions_count = try_state (getM (\<lambda>w. state_executions_count (w_state w)))"

definition state_is_tracing :: "('f, bool option) gc" where
  "state_is_tracing = try_state (getM (\<lambda>w. is_tracing (w_state w)))"

subsection \<open>new_cyclic\<close>

text \<open>The destructor of \<open>PanicGuard\<close>: the box is freed, its element was never written.\<close>

definition panic_guard_drop :: "addr \<Rightarrow> ('f, unit) gc" where
  "panic_guard_drop invalid_cc = bindM (box_layout invalid_cc) (\<lambda>layout.
     thenM (drop_metadata invalid_cc)
    (thenM (try_state (cc_dealloc invalid_cc layout)) (ret ())))"

definition assert_counter_is_one :: "addr \<Rightarrow> ('f, unit) gc" where
  "assert_counter_is_one p = bindM (on_boxes (on_cm p counter)) (\<lambda>c. debug_assert (c = 1))"

text \<open>
  The part before the closure runs: the box has no element yet and its strong counter is 0, so that
  the weak pointer cannot be upgraded.
\<close>

definition new_cyclic_begin ::
  "'f f64_ops \<Rightarrow> 'f user_code \<Rightarrow> nat \<Rightarrow> allocator \<Rightarrow> usize \<Rightarrow> ('f, addr \<times> weak_ptr) gc" where
  "new_cyclic_begin fl uc fuel al layout =
     thenM (not_tracing ''Cannot create a new Cc while tracing!'')
    (bindM (cc_new fl uc fuel al layout None) (\<lambda>invalid_cc.
     bindM (get_or_init_metadata al invalid_cc) (\<lambda>metadata.
     bindM (on_wcm metadata weak_increment_counter) (\<lambda>_.
     thenM (assert_counter_is_one invalid_cc)
    (bindM (on_boxes (on_cm invalid_cc decrement_counter)) (\<lambda>_.
     ret (invalid_cc, \<lparr>wk_metadata = Some metadata, wk_cc = invalid_cc\<rparr>)))))))"

definition new_cyclic_end :: "'f user_code \<Rightarrow> nat \<Rightarrow> addr \<Rightarrow> weak_ptr \<Rightarrow> tval \<Rightarrow> ('f, addr) gc" where
  "new_cyclic_end uc fuel invalid_cc weak to_write =
     thenM (on_boxes (store invalid_cc (\<lambda>b. b\<lparr>b_elem := Some to_write\<rparr>)))
    (bindM (on_boxes (on_cm invalid_cc increment_counter)) (\<lambda>_.
     thenM (on_unwind (assert_counter_is_one invalid_cc) (thenM (cc_drop uc fuel invalid_cc) (weak_drop weak)))
    (thenM (weak_drop weak)
     (ret invalid_cc))))"

definition new_cyclic :: "'f f64_ops \<Rightarrow> 'f user_code \<Rightarrow> nat \<Rightarrow> allocator \<Rightarrow> usize \<Rightarrow>
    (weak_ptr \<Rightarrow> ('f, tval) gc) \<Rightarrow> ('f, addr) gc" where
  "new_cyclic fl uc fuel al layout f = bindM (new_cyclic_begin fl uc fuel al layout) (\<lambda>(invalid_cc, weak).
     bindM (on_unwind (f weak) (thenM (panic_guard_drop invalid_cc) (weak_drop weak)))
       (new_cyclic_end uc fuel invalid_cc weak))"

end
