(* ===== verification/Cyclic_Correct.thy ===== *)
theory Cyclic_Correct
  imports New_Box New_Cyclic
begin

text \<open>
  \<open>Cc::new_cyclic\<close>: while the closure runs, the weak pointer it was given cannot be upgraded; a
  panic of the closure frees the box; otherwise the box is complete afterwards, with a reference
  counter of one. A panic of the collection that \<open>Cc::new\<close> starts is undefined behaviour.
\<close>

subsection \<open>Before the closure\<close>

lemma store_elem:
  "w_boxes w p = Some b \<Longrightarrow> on_boxes (store p f) w = Done () (w\<lparr>w_boxes := (w_boxes w)(p \<mapsto> f b)\<rparr>)"
  by (simp add: on_boxes_def zoom_def store_Some upd_def)

lemma on_boxes_cm:
  "w_boxes w p = Some b \<Longrightarrow> m (b_cm b) = Done a c \<Longrightarrow>
   on_boxes (on_cm p m) w = Done a (w\<lparr>w_boxes := (w_boxes w)(p \<mapsto> b\<lparr>b_cm := c\<rparr>)\<rparr>)"
  by (simp add: on_boxes_def zoom_def on_cm_Done) (simp add: upd_def)

lemma assert_counter_one:
  assumes "w_boxes w p = Some b" "v_rc (view (b_cm b)) = 1"
  shows "assert_counter_is_one p w = Done () w"
proof -
  have "(w_boxes w)(p \<mapsto> b) = w_boxes w" using assms(1) by (simp add: fun_upd_idem)
  then have "on_boxes (on_cm p counter) w = Done 1 w"
    using on_boxes_cm [OF assms(1), of counter 1 "b_cm b"] assms(2) by simp
  then show ?thesis by (simp add: assert_counter_is_one_def bindM_def)
qed

lemma weak_inv_box_upd:
  assumes inv: "weak_inv W w" and p: "w_boxes w p = Some b" and b: "box_meta c = box_meta b"
  shows "weak_inv W (w\<lparr>w_boxes := (w_boxes w)(p \<mapsto> c)\<rparr>)"
  by (rule weak_inv_cong [OF inv]) (use p b in auto)

lemma new_cyclic_begin_ok:
  assumes inv: "gc_inv ps W w" and acc: "accounted W w" and q: "quiet (w_boxes w) (set ps)"
    and n: "card (reach (w_boxes w) (set ps)) < Suc n" and e: "unat (st_executions_counter (w_state w)) + 1 < 2 ^ 64"
    and t: "trigger_ready w" and idle: "\<not> is_tracing (w_state w)" and al: "fresh_allocator al"
    and room: "card (dom (w_boxes w)) + 1 < 2 ^ 64" "unat (st_allocated_bytes (w_state w)) + unat layout < 2 ^ 64"
    and meta: "finite (dom (w_meta w))"
  shows "\<exists>w1 p k V w2 b. new_cyclic_begin fl uc (Suc n) al layout w = Done (p, k) w2 \<and> triggered ps w w1 \<and>
    w_boxes w1 p = None \<and> wk_cc k = p \<and> weak_inv (add_mset k V) w2 \<and> w_boxes w2 p = Some b \<and> b_elem b = None \<and>
    v_rc (view (b_cm b)) = 0 \<and> calm w2 \<and> size_of w2 p \<le> unat (st_allocated_bytes (w_state w2)) \<and> (\<forall>q. q \<noteq> p \<longrightarrow> w_boxes w2 q = w_boxes w1 q)"
proof -
  have v: "weaks_of None + weaks_in (w_boxes w) \<subseteq># W" using accounted_weaks [OF acc] by simp
  from cc_new_ok [OF inv acc q n e t idle al room v, of fl uc] obtain w1 p qs V where
    1: "cc_new fl uc (Suc n) al layout None w = Done p (with_box p layout None w1)" "triggered ps w w1" "w_boxes w1 p = None"
    "gc_inv qs V (with_box p layout None w1)" by blast
  let ?v = "with_box p layout None w1"
  note r = triggered_rest [OF 1(2)]
  have fm: "finite (dom (w_meta ?v))"
  proof -
    have "dom (w_meta w1) \<subseteq> dom (w_meta w)" using r(8) by (fastforce simp: metas_kept_def)
    with meta show ?thesis by (simp add: finite_subset)
  qed
  have b0: "w_boxes ?v p = Some (fresh_box layout (st_finalizing (w_state w1)) None)" by simp
  from get_or_init_metadata_ok [OF gc_invD(2) [OF 1(4)] b0 al fm] obtain w2 m b where
    2: "get_or_init_metadata al p ?v = Done m w2" "weak_inv V w2" "owner w2 p m" "w_boxes w2 = (w_boxes ?v)(p \<mapsto> b)"
    "w2 = ?v\<lparr>w_boxes := w_boxes w2, w_meta := w_meta w2\<rparr>" "v_rc (view (b_cm b)) = 1" "b_elem b = None" "w_meta ?v m = None"
    "\<And>vt. box_vtable p ?v = Done vt ?v \<Longrightarrow> box_vtable p w2 = Done vt w2"
    by auto
  from weak_invD(2) [OF 2(2,3)] obtain bm where bm: "w_meta w2 m = Some bm" "w_acc (wview (bm_weak bm))" by blast
  let ?k = "\<lparr>wk_metadata = Some m, wk_cc = p\<rparr>"
  have none: "to_meta m V = {#}"
  proof (rule ccontr)
    assume "to_meta m V \<noteq> {#}"
    then obtain j where "j \<in># to_meta m V" by blast
    then have "j \<in># V" "wk_metadata j = Some m" by (simp_all add: to_meta_mem)
    from weak_invD(7) [OF gc_invD(2) [OF 1(4)] this] 2(8) show False by simp
  qed
  have c: "w_count (wview (bm_weak bm)) = 0" using weak_invD(4) [OF 2(2) bm(1)] none by simp
  let ?c = "(bm_weak bm)\<lparr>weak_counter_cell := weak_counter_cell (bm_weak bm) + 1\<rparr>"
  let ?w3 = "w2\<lparr>w_meta := (w_meta w2)(m \<mapsto> bm\<lparr>bm_weak := ?c\<rparr>)\<rparr>"
  have inc: "on_wcm m weak_increment_counter w2 = Done (Inr ()) ?w3"
    using c by (intro on_wcm_Done [OF bm(1)]) (simp add: weak_increment_eval)
  have inv3: "weak_inv (add_mset ?k V) ?w3"
    using weak_invD(4) [OF 2(2) bm(1)] weak_inv_owner [OF 2(2) _ _ bm(1)] 2(3) bm(2) wview_plus(2) [of "bm_weak bm"] c none
    by (intro weak_inv_count [OF 2(2) bm(1)]) auto
  have b3: "w_boxes ?w3 p = Some b" using 2(4) by simp
  have dec: "on_boxes (on_cm p decrement_counter) ?w3 = Done (Inr ())
      (?w3\<lparr>w_boxes := (w_boxes ?w3)(p \<mapsto> b\<lparr>b_cm := rc_minus_one (b_cm b)\<rparr>)\<rparr>)"
    by (rule on_boxes_cm [OF b3]) (use 2(6) in \<open>simp add: decrement_counter_eval\<close>)
  let ?w4 = "?w3\<lparr>w_boxes := (w_boxes ?w3)(p \<mapsto> b\<lparr>b_cm := rc_minus_one (b_cm b)\<rparr>)\<rparr>"
  have nt: "not_tracing msg w = Done () w" for msg
    using idle gc_invD(3) [OF inv] by (simp add: not_tracing_def with_state_def bindM_def)
  have run: "new_cyclic_begin fl uc (Suc n) al layout w = Done (p, ?k) ?w4"
    using nt 1(1) 2(1) inc assert_counter_one [OF b3 2(6)] dec by (simp add: new_cyclic_begin_def)
  have inv4: "weak_inv (add_mset ?k V) ?w4"
    by (rule weak_inv_box_upd [OF inv3 b3]) (use 2(6) in \<open>simp add: box_meta_def cm_upd\<close>)
  have st: "w_state w2 = w_state ?v" "w_state_alive w2 = w_state_alive w" "w_pc_alive w2 = w_pc_alive w"
    using 2(5) r(1,2) by (metis world.select_convs world.surjective world.update_convs(1,2) with_box_sel(4,5))+
  have "calm ?w4"
    using st gc_invD(3,4) [OF inv] idle r(5) by (auto simp: calm_def is_tracing_def)
  moreover have "size_of ?w4 p \<le> unat (st_allocated_bytes (w_state ?w4))"
  proof -
    have b2: "w_boxes w2 p = Some b" using 2(4) by simp
    have "box_vtable p ?v = Done \<lparr>vt_size = layout\<rparr> ?v"
      by (simp add: box_vtable_unfold union_vtable_def on_boxes_def zoom_def bindM_def cm_tests fun_upd_def)
    then have "box_layout p w2 = Done layout w2" using 2(9) by (simp add: box_layout_def bindM_def)
    with box_layout_ok [OF 2(2) b2] have "size_of w2 p = unat layout" by auto
    moreover have "size_of ?w4 p = size_of w2 p"
    proof (rule size_of_kept [OF inv4 _ b2])
      show "metas_kept (w_meta w2) (w_meta ?w4)" using bm(1) by (simp add: metas_kept_upd)
      show "w_boxes ?w4 p = Some (b\<lparr>b_cm := rc_minus_one (b_cm b)\<rparr>)" by simp
    qed (use 2(6) in \<open>simp add: box_meta_def cm_upd\<close>)
    moreover have "unat (st_allocated_bytes (w_state w2)) = unat (st_allocated_bytes (w_state w1)) + unat layout"
      using st(1) room(2) r(7) by (simp add: unat_word_ariths)
    ultimately show ?thesis by simp
  qed
  moreover have "w_boxes ?w4 q = w_boxes w1 q" if "q \<noteq> p" for q using that 2(4) by simp
  ultimately show ?thesis
    using run 1(2,3) inv4 2(6,7)
    by (intro exI [of _ w1] exI [of _ p] exI [of _ ?k] exI [of _ V] exI [of _ ?w4]
        exI [of _ "b\<lparr>b_cm := rc_minus_one (b_cm b)\<rparr>"]) (simp add: cm_upd)
qed

subsection \<open>While the closure runs\<close>

lemma counter_zero_no_upgrade:
  assumes "weak_inv W w" "k \<in># W" "w_boxes w (wk_cc k) = Some b" "v_rc (view (b_cm b)) = 0" "calm w"
  shows "weak_upgrade k w = Done None w"
proof (rule weak_upgrade_none [OF assms(1,2) _ assms(5)])
  show "rc_bounded k w" using assms(3,4) by (simp add: rc_bounded_def)
  show "\<not> upgradable k w" using assms(3,4) by (simp add: upgradable_def split: option.splits)
qed

subsection \<open>After the closure\<close>

lemma new_cyclic_panics:
  assumes "new_cyclic_begin fl uc n al layout w = Done (p, k) w2" and f: "f k w2 = Panicked e w3"
    and inv: "weak_inv (add_mset k V) w3" and p: "w_boxes w3 p = Some b" and alive: "w_state_alive w3"
    and bytes: "size_of w3 p \<le> unat (st_allocated_bytes (w_state w3))"
  shows "\<exists>w'. new_cyclic fl uc n al layout f w = Panicked e w' \<and> weak_inv V w' \<and> w_boxes w' = (w_boxes w3)(p := None) \<and>
    unat (st_allocated_bytes (w_state w')) + size_of w3 p = unat (st_allocated_bytes (w_state w3))"
proof -
  from box_layout_ok [OF inv p] obtain l where l: "box_layout p w3 = Done l w3" "unat l = size_of w3 p" by blast
  from free_box_ok [OF inv p, of l] bytes l(2) obtain M w4 where
    4: "thenM (drop_metadata p) (cc_dealloc p l) w3 = Done () w4" "weak_inv (add_mset k V) w4"
    "w4 = w3\<lparr>w_meta := M, w_state := (w_state w3)\<lparr>st_allocated_bytes := st_allocated_bytes (w_state w3) - l\<rparr>,
       w_boxes := (w_boxes w3)(p := None)\<rparr>" by auto
  from 4(1) obtain v4 where m: "drop_metadata p w3 = Done () v4" "cc_dealloc p l v4 = Done () w4"
    by (auto simp: thenM_eq_Done)
  have "w_state_alive w4 = w_state_alive v4"
    using m(2) by (auto simp: cc_dealloc_def on_state_def zoom_def thenM_eq_Done record_deallocation_eval
        split: option.splits if_splits outcome.splits)
  with 4(3) alive have v4: "w_state_alive v4" by simp
  have guard: "panic_guard_drop p w3 = Done () w4"
    using l(1) m v4 by (simp add: panic_guard_drop_def try_state_def bindM_def thenM_def)
  from weak_drop_ok [OF 4(2), of k] obtain M' where
    5: "weak_drop k w4 = Done () (w4\<lparr>w_meta := M'\<rparr>)" "weak_inv V (w4\<lparr>w_meta := M'\<rparr>)" by auto
  have "on_unwind (f k) (thenM (panic_guard_drop p) (weak_drop k)) w2 = Panicked e (w4\<lparr>w_meta := M'\<rparr>)"
    using f guard 5(1) by (simp add: on_unwind_Panicked)
  with assms(1) have "new_cyclic fl uc n al layout f w = Panicked e (w4\<lparr>w_meta := M'\<rparr>)"
    by (simp add: new_cyclic_def)
  moreover have "unat (st_allocated_bytes (w_state w3) - l) + unat l = unat (st_allocated_bytes (w_state w3))"
    using bytes l(2) by (simp add: unat_sub word_le_nat_alt)
  ultimately show ?thesis using 5(2) l(2) 4(3) by auto
qed

lemma new_cyclic_returns:
  assumes "new_cyclic_begin fl uc n al layout w = Done (p, k) w2" and f: "f k w2 = Done v w3"
    and inv: "weak_inv (add_mset k V) w3" and p: "w_boxes w3 p = Some b" "v_rc (view (b_cm b)) = 0"
  shows "\<exists>w' M c. new_cyclic fl uc n al layout f w = Done p w' \<and> weak_inv V w' \<and>
    w' = w3\<lparr>w_boxes := (w_boxes w3)(p \<mapsto> c), w_meta := M\<rparr> \<and>
    b_elem c = Some v \<and> v_rc (view (b_cm c)) = 1 \<and> box_meta c = box_meta b"
proof -
  let ?b = "b\<lparr>b_elem := Some v\<rparr>" and ?c = "b\<lparr>b_elem := Some v, b_cm := rc_plus_one (b_cm b)\<rparr>"
  let ?w4 = "w3\<lparr>w_boxes := (w_boxes w3)(p \<mapsto> ?b)\<rparr>" and ?w5 = "w3\<lparr>w_boxes := (w_boxes w3)(p \<mapsto> ?c)\<rparr>"
  have 4: "on_boxes (store p (\<lambda>b. b\<lparr>b_elem := Some v\<rparr>)) w3 = Done () ?w4"
    by (rule store_elem [OF p(1)])
  have "on_boxes (on_cm p increment_counter) ?w4 = Done (Inr ()) (?w4\<lparr>w_boxes := (w_boxes ?w4)(p \<mapsto> ?b\<lparr>b_cm := rc_plus_one (b_cm b)\<rparr>)\<rparr>)"
    by (rule on_boxes_cm) (use p(2) in \<open>simp_all add: increment_counter_eval\<close>)
  then have 5: "on_boxes (on_cm p increment_counter) ?w4 = Done (Inr ()) ?w5" by simp
  have c: "v_rc (view (b_cm ?c)) = 1" "box_meta ?c = box_meta b" using p(2) by (simp_all add: cm_upd box_meta_def)
  have one: "assert_counter_is_one p ?w5 = Done () ?w5" by (rule assert_counter_one [where b = ?c]) (use c in simp_all)
  have "weak_inv (add_mset k V) ?w5" by (rule weak_inv_box_upd [OF inv p(1) c(2)])
  from weak_drop_ok [OF this, of k] obtain M where
    6: "weak_drop k ?w5 = Done () (?w5\<lparr>w_meta := M\<rparr>)" "weak_inv V (?w5\<lparr>w_meta := M\<rparr>)" by auto
  have "new_cyclic_end uc n p k v w3 = Done p (?w5\<lparr>w_meta := M\<rparr>)"
    using 4 5 one 6(1) by (simp add: new_cyclic_end_def on_unwind_Done)
  with assms(1) f have "new_cyclic fl uc n al layout f w = Done p (?w5\<lparr>w_meta := M\<rparr>)"
    by (simp add: new_cyclic_def on_unwind_Done)
  with 6(2) c show ?thesis
    by (intro exI [of _ "?w5\<lparr>w_meta := M\<rparr>"] exI [of _ M] exI [of _ ?c]) simp
qed

subsection \<open>A panic of the collection\<close>

text \<open>
  \<open>Cc::new\<close> was given the wrapper, whose destructor reads the value that was never written; the
  panic of the collection drops it.
\<close>

lemma new_cyclic_collection_panics:
  assumes "w_state_alive w" "\<not> is_tracing (w_state w)" "trigger_collection fl uc n w = Panicked e w'"
  shows "new_cyclic fl uc n al layout f w = UB"
  using assms by (simp add: new_cyclic_def new_cyclic_begin_def cc_new_def drop_arg_def not_tracing_def with_state_def
      bindM_def thenM_def on_unwind_def)

end
