(* ===== verification/Cc_Traits.thy ===== *)
theory Cc_Traits
  imports Collect
begin

text \<open>
  The trait implementations of \<open>Cc\<close> and \<open>Weak\<close> that delegate: \<open>Default\<close> and \<open>From\<close> create a box,
  \<open>AsRef\<close>, \<open>Borrow\<close>, \<open>Debug\<close>, \<open>Display\<close>, \<open>Pointer\<close>, \<open>Hash\<close> and the comparisons go through \<open>deref\<close> and
  then run the implementation of the element type, which is a parameter.
\<close>

definition cc_default ::
  "'f f64_ops \<Rightarrow> 'f user_code \<Rightarrow> nat \<Rightarrow> allocator \<Rightarrow> usize \<Rightarrow> ('f, tval) gc \<Rightarrow> ('f, addr) gc" where
  "cc_default fl uc fuel al layout elem_default = bindM elem_default (\<lambda>t. cc_new fl uc fuel al layout (Some t))"

definition cc_from :: "'f f64_ops \<Rightarrow> 'f user_code \<Rightarrow> nat \<Rightarrow> allocator \<Rightarrow> usize \<Rightarrow> tval \<Rightarrow> ('f, addr) gc" where
  "cc_from fl uc fuel al layout t = cc_new fl uc fuel al layout (Some t)"

definition cc_as_ref :: "addr \<Rightarrow> ('f, tval) gc" where
  "cc_as_ref p = cc_deref p"

definition cc_borrow :: "addr \<Rightarrow> ('f, tval) gc" where
  "cc_borrow p = cc_deref p"

text \<open>\<open>Debug\<close> and \<open>Display\<close>, which differ in the method of the element only, and \<open>Hash\<close>.\<close>

definition cc_with_elem :: "(tval \<Rightarrow> ('f, 'r) gc) \<Rightarrow> addr \<Rightarrow> ('f, 'r) gc" where
  "cc_with_elem method p = bindM (cc_deref p) method"

definition cc_hash :: "(tval \<Rightarrow> ('f, unit) gc) \<Rightarrow> addr \<Rightarrow> ('f, unit) gc" where
  "cc_hash hash p = bindM (cc_deref p) hash"

text \<open>\<open>Pointer\<close> prints the address of the element, which is that of its box here.\<close>

definition cc_fmt_pointer :: "(addr \<Rightarrow> ('f, 'r) gc) \<Rightarrow> addr \<Rightarrow> ('f, 'r) gc" where
  "cc_fmt_pointer method p = bindM (cc_deref p) (\<lambda>_. method p)"

text \<open>\<open>eq\<close>, \<open>cmp\<close>, \<open>partial_cmp\<close>, \<open>lt\<close>, \<open>le\<close>, \<open>gt\<close> and \<open>ge\<close>: the left operand is dereferenced first.\<close>

definition cc_binary :: "(tval \<Rightarrow> tval \<Rightarrow> ('f, 'r) gc) \<Rightarrow> addr \<Rightarrow> addr \<Rightarrow> ('f, 'r) gc" where
  "cc_binary method this other = bindM (cc_deref this) (\<lambda>a. bindM (cc_deref other) (\<lambda>b. method a b))"

definition weak_default :: "addr \<Rightarrow> weak_ptr" where
  "weak_default dangling = weak_ptr_new dangling"

subsection \<open>Values, not addresses\<close>

lemma cc_deref_value: "calm w \<Longrightarrow> w_boxes w p = Some b \<Longrightarrow> b_elem b = Some v \<Longrightarrow> cc_deref p w = Done v w"
  by (simp add: cc_deref_def get_elem_def on_boxes_def zoom_def bindM_def)

text \<open>
  A comparison of two \<open>Cc\<close>s compares the values, runs in the world it was called in, and is the
  comparison of a value with itself when both point to the same box.
\<close>

lemma cc_binary_values:
  assumes "calm w" "w_boxes w p = Some b" "b_elem b = Some u" "w_boxes w q = Some c" "b_elem c = Some v"
  shows "cc_binary f p q w = f u v w"
  using cc_deref_value [OF assms(1-3)] cc_deref_value [OF assms(1,4,5)] by (simp add: cc_binary_def)

lemma cc_delegates_value:
  assumes "calm w" "w_boxes w p = Some b" "b_elem b = Some v"
  shows "cc_with_elem f p w = f v w" "cc_hash h p w = h v w" "cc_as_ref p w = Done v w" "cc_borrow p w = Done v w" "cc_fmt_pointer g p w = g p w"
  using cc_deref_value [OF assms] by (simp_all add: cc_with_elem_def cc_hash_def cc_as_ref_def cc_borrow_def cc_fmt_pointer_def)

text \<open>While the collector traces, none of them reaches the element.\<close>

lemma cc_delegates_tracing:
  assumes "w_state_alive w" "is_tracing (w_state w)"
  shows "cc_binary f p q w = Panicked (PanicMsg ''Cannot deref while tracing!'') w"
    "cc_with_elem g p w = Panicked (PanicMsg ''Cannot deref while tracing!'') w"
    "cc_fmt_pointer h p w = Panicked (PanicMsg ''Cannot deref while tracing!'') w"
proof -
  have "cc_deref p w = Panicked (PanicMsg ''Cannot deref while tracing!'') w"
    unfolding cc_deref_def by (rule thenM_not_tracing_panics [OF assms])
  then show "cc_binary f p q w = Panicked (PanicMsg ''Cannot deref while tracing!'') w"
    "cc_with_elem g p w = Panicked (PanicMsg ''Cannot deref while tracing!'') w"
    "cc_fmt_pointer h p w = Panicked (PanicMsg ''Cannot deref while tracing!'') w"
    by (simp_all add: cc_binary_def cc_with_elem_def cc_fmt_pointer_def)
qed

end
