(* ===== verification/Cyclic_Calls.thy ===== *)
theory Cyclic_Calls
  imports Finalizing Cyclic_Correct Cc_Traits
begin

text \<open>
  \<open>Cc::new_cyclic\<close> as a sequence of other operations. With a closure that clones the weak pointer it
  is given, and makes a value with the clones, \<open>new_cyclic\<close> does what a program does that creates a
  box with an empty value, downgrades it, clones the weak pointer, puts the value into the box and drops
  the weak pointer: both end in the same world. So \<open>new_cyclic\<close> keeps the invariant of ownership.
\<close>

subsection \<open>Clones\<close>

text \<open>
  \<open>|weak| { let clones = [weak.clone(), ...]; value made of them }\<close>, or a panic instead of the value,
  which drops the clones.
\<close>

abbreviation closure_panic :: panic where
  "closure_panic \<equiv> PanicMsg ''the closure panics''"

definition cloning_closure :: "nat \<Rightarrow> (weak_ptr \<Rightarrow> tval option) \<Rightarrow> weak_ptr \<Rightarrow> ('f, tval) gc" where
  "cloning_closure n g weak = thenM (repeatM n (weak_clone weak)) (case g weak of Some v \<Rightarrow> ret v
     | None \<Rightarrow> on_unwind (panicM closure_panic) (repeatM n (weak_drop weak)))"

definition new_cyclic_calls ::
  "'f f64_ops \<Rightarrow> 'f user_code \<Rightarrow> nat \<Rightarrow> allocator \<Rightarrow> usize \<Rightarrow> nat \<Rightarrow> (weak_ptr \<Rightarrow> tval) \<Rightarrow> ('f, addr) gc" where
  "new_cyclic_calls fl uc fuel al layout n g =
     bindM (cc_new fl uc fuel al layout (Some PlainT)) (\<lambda>p.
     bindM (downgrade al p) (\<lambda>weak.
     thenM (repeatM n (weak_clone weak))
    (bindM (cc_replace p (g weak)) (\<lambda>_.
     thenM (weak_drop weak)
     (ret p)))))"

lemma weak_clone_eval:
  assumes "calm w" "wk_metadata k = Some m" "w_meta w m = Some bm" "w_count (wview (bm_weak bm)) < 32767"
  shows "weak_clone k w = Done k (w\<lparr>w_meta := (w_meta w)(m \<mapsto>
    bm\<lparr>bm_weak := (bm_weak bm)\<lparr>weak_counter_cell := weak_counter_cell (bm_weak bm) + 1\<rparr>\<rparr>)\<rparr>)"
proof -
  have "on_wcm m weak_increment_counter w = Done (Inr ()) (w\<lparr>w_meta := (w_meta w)(m \<mapsto>
    bm\<lparr>bm_weak := (bm_weak bm)\<lparr>weak_counter_cell := weak_counter_cell (bm_weak bm) + 1\<rparr>\<rparr>)\<rparr>)"
    using assms(4) by (intro on_wcm_Done [OF assms(3)]) (simp add: weak_increment_eval)
  with assms(1,2) show ?thesis by (simp add: weak_clone_def)
qed

lemma calm_meta [simp]: "calm (w\<lparr>w_meta := M\<rparr>) = calm w"
  by (simp add: calm_def)

text \<open>Clones look at the metadata only, and fill the counter as far as it goes.\<close>

lemma clones_eval:
  assumes "wk_metadata k = Some m" "M m = Some bm" "w_count (wview (bm_weak bm)) + n \<le> 32767"
  shows "\<exists>c. w_count (wview c) = w_count (wview (bm_weak bm)) + n \<and> w_acc (wview c) = w_acc (wview (bm_weak bm)) \<and>
    (\<forall>w :: 'f world. calm w \<longrightarrow> w_meta w = M \<longrightarrow> repeatM n (weak_clone k) w = Done () (w\<lparr>w_meta := M(m \<mapsto> bm\<lparr>bm_weak := c\<rparr>)\<rparr>))"
  using assms(2,3)
proof (induction n arbitrary: M bm)
  case 0
  then have "M(m \<mapsto> bm\<lparr>bm_weak := bm_weak bm\<rparr>) = M" by (simp add: fun_upd_idem)
  then show ?case by (intro exI [of _ "bm_weak bm"]) auto
next
  case (Suc n)
  let ?c = "(bm_weak bm)\<lparr>weak_counter_cell := weak_counter_cell (bm_weak bm) + 1\<rparr>"
  let ?bm = "bm\<lparr>bm_weak := ?c\<rparr>"
  have lt: "w_count (wview (bm_weak bm)) < 32767" using Suc.prems(2) by simp
  then have c: "w_count (wview ?c) = w_count (wview (bm_weak bm)) + 1" "w_acc (wview ?c) = w_acc (wview (bm_weak bm))"
    using wview_plus(2) [of "bm_weak bm"] by simp_all
  define M' where "M' = M(m \<mapsto> ?bm)"
  have M': "M' m = Some ?bm" "M'(m \<mapsto> x) = M(m \<mapsto> x)" for x by (simp_all add: M'_def)
  have "w_count (wview (bm_weak ?bm)) + n \<le> 32767" using c Suc.prems(2) by simp
  from Suc.IH [of M' ?bm, OF M'(1) this] obtain d where d0: "w_count (wview d) = w_count (wview (bm_weak ?bm)) + n" "w_acc (wview d) = w_acc (wview (bm_weak ?bm))"
    "\<forall>w :: 'f world. calm w \<longrightarrow> w_meta w = M' \<longrightarrow> repeatM n (weak_clone k) w = Done () (w\<lparr>w_meta := M'(m \<mapsto> ?bm\<lparr>bm_weak := d\<rparr>)\<rparr>)" by blast
  have upd: "?bm\<lparr>bm_weak := d\<rparr> = bm\<lparr>bm_weak := d\<rparr>" by simp
  note d = d0(1) d0(3) [unfolded M'(2) upd]
  have "repeatM (Suc n) (weak_clone k) w = Done () (w\<lparr>w_meta := M(m \<mapsto> bm\<lparr>bm_weak := d\<rparr>)\<rparr>)"
    if w: "calm w" "w_meta w = M" for w :: "'f world"
  proof -
    have "weak_clone k w = Done k (w\<lparr>w_meta := M'\<rparr>)"
      using weak_clone_eval [OF w(1) assms(1) _ lt] w(2) Suc.prems(1) by (simp add: M'_def)
    with d(2) [rule_format, of "w\<lparr>w_meta := M'\<rparr>"] w(1) show ?thesis by simp
  qed
  moreover have "w_count (wview d) = w_count (wview (bm_weak bm)) + Suc n" "w_acc (wview d) = w_acc (wview (bm_weak bm))"
    using d(1) d0(2) c by simp_all
  ultimately show ?case by blast
qed

text \<open>Dropping clones while the box is there gives the counter back and frees nothing.\<close>

lemma drops_eval:
  assumes "wk_metadata k = Some m" "w_meta w m = Some bm" "w_acc (wview (bm_weak bm))" "n \<le> w_count (wview (bm_weak bm))"
  shows "\<exists>c. w_count (wview c) = w_count (wview (bm_weak bm)) - n \<and> w_acc (wview c) \<and>
    repeatM n (weak_drop k) w = Done () (w\<lparr>w_meta := (w_meta w)(m \<mapsto> bm\<lparr>bm_weak := c\<rparr>)\<rparr>)"
  using assms(2-4)
proof (induction n arbitrary: w bm)
  case 0
  then have eq: "w\<lparr>w_meta := (w_meta w)(m \<mapsto> bm\<lparr>bm_weak := bm_weak bm\<rparr>)\<rparr> = w" by (simp add: fun_upd_idem)
  have "repeatM 0 (weak_drop k) w = Done () (w\<lparr>w_meta := (w_meta w)(m \<mapsto> bm\<lparr>bm_weak := bm_weak bm\<rparr>)\<rparr>)" unfolding eq by simp
  moreover have "w_count (wview (bm_weak bm)) = w_count (wview (bm_weak bm)) - 0" by simp
  ultimately show ?case using 0(2) by blast
next
  case (Suc n)
  let ?c = "(bm_weak bm)\<lparr>weak_counter_cell := weak_counter_cell (bm_weak bm) - 1\<rparr>"
  let ?bm = "bm\<lparr>bm_weak := ?c\<rparr>"
  let ?w = "w\<lparr>w_meta := (w_meta w)(m \<mapsto> ?bm)\<rparr>"
  have nz: "w_count (wview (bm_weak bm)) \<noteq> 0" using Suc.prems(3) by simp
  have c: "w_count (wview ?c) = w_count (wview (bm_weak bm)) - 1" "w_acc (wview ?c)" using wview_minus(2) [OF nz] Suc.prems(2) by simp_all
  have dec: "on_wcm m weak_decrement_counter w = Done (Inr ()) ?w"
    using nz by (intro on_wcm_Done [OF Suc.prems(1)]) (simp add: weak_decrement_eval)
  have read: "on_wcm m (getM f) ?w = Done (f ?c) ?w" for f :: "weak_counter_marker \<Rightarrow> 'b"
    using on_wcm_read [of ?w m ?bm f] by simp
  have run: "weak_drop k w = Done () ?w"
    using dec c(2) by (simp add: weak_drop_def assms(1) thenM_def bindM_def read is_accessible_view)
  have bm: "w_meta ?w m = Some ?bm" "w_acc (wview (bm_weak ?bm))" "n \<le> w_count (wview (bm_weak ?bm))" using c Suc.prems(3) by simp_all
  from Suc.IH [OF bm] obtain d where d: "w_count (wview d) = w_count (wview (bm_weak ?bm)) - n" "w_acc (wview d)"
    "repeatM n (weak_drop k) ?w = Done () (?w\<lparr>w_meta := (w_meta ?w)(m \<mapsto> ?bm\<lparr>bm_weak := d\<rparr>)\<rparr>)" by blast
  have "repeatM (Suc n) (weak_drop k) w = Done () (w\<lparr>w_meta := (w_meta w)(m \<mapsto> bm\<lparr>bm_weak := d\<rparr>)\<rparr>)" using run d(3) by simp
  moreover have "w_count (wview d) = w_count (wview (bm_weak bm)) - Suc n" using d(1) c(1) by simp
  ultimately show ?case using d(2) by blast
qed

subsection \<open>The box without a value\<close>

text \<open>The new box with its metadata and one weak pointer to it, holding \<open>t\<close> and with the marker \<open>cm\<close>.\<close>

definition cyclic_world :: "addr \<Rightarrow> maddr \<Rightarrow> usize \<Rightarrow> tval option \<Rightarrow> (counter_marker \<Rightarrow> counter_marker) \<Rightarrow> 'f world \<Rightarrow> 'f world" where
  "cyclic_world p m layout t f w = (let b = fresh_box layout (st_finalizing (w_state w)) t in
     (with_box p layout t w)\<lparr>
       w_boxes := (w_boxes w)(p \<mapsto> b\<lparr>b_metadata := MetaBoxed m, b_cm := f (set_allocated_for_metadata True (b_cm b))\<rparr>),
       w_meta := (w_meta w)(m \<mapsto> \<lparr>bm_vtable = \<lparr>vt_size = layout\<rparr>,
         bm_weak = (weak_new True)\<lparr>weak_counter_cell := weak_counter_cell (weak_new True) + 1\<rparr>\<rparr>)\<rparr>)"

lemma meta_then_boxes: "w\<lparr>w_meta := M, w_boxes := h\<rparr> = w\<lparr>w_boxes := h, w_meta := M\<rparr>"
  by (cases w) simp

lemma unlisted:
  assumes "w_boxes w p = Some b" "v_mark (view (b_cm b)) = NonMarked"
  shows "remove_from_list p w = Done () w"
proof -
  have "on_boxes (cm_test p is_in_possible_cycles) w = Done False w"
    using assms by (simp add: on_boxes_def zoom_def cm_tests)
  then show ?thesis by (simp add: remove_from_list_def bindM_def)
qed

lemma fresh_metadata:
  "get_or_init_metadata al p (with_box p layout t w) = Done (al_meta al (w_meta w)) ((with_box p layout t w)\<lparr>
     w_boxes := (w_boxes w)(p \<mapsto> (fresh_box layout (st_finalizing (w_state w)) t)\<lparr>b_metadata := MetaBoxed (al_meta al (w_meta w)),
       b_cm := set_allocated_for_metadata True (b_cm (fresh_box layout (st_finalizing (w_state w)) t))\<rparr>),
     w_meta := (w_meta w)(al_meta al (w_meta w) \<mapsto> \<lparr>bm_vtable = \<lparr>vt_size = layout\<rparr>, bm_weak = weak_new True\<rparr>)\<rparr>)"
proof -
  let ?b = "fresh_box layout (st_finalizing (w_state w)) t"
  have upd: "upd p f ((w_boxes w)(p \<mapsto> b)) = (w_boxes w)(p \<mapsto> f b)" for f b by (simp add: upd_def)
  have test: "on_boxes (cm_test p has_allocated_for_metadata) (with_box p layout t w) = Done False (with_box p layout t w)"
    by (simp add: on_boxes_def zoom_def cm_tests)
  show ?thesis
    using test by (simp add: get_or_init_metadata_def union_vtable_def boxed_metadata_new_def on_boxes_def zoom_def
        bindM_def thenM_def upd on_cm_Done store_Some)
qed


lemma cyclic_world_sel [simp]:
  "w_boxes (cyclic_world p m layout t f w) = (w_boxes w)(p \<mapsto> (fresh_box layout (st_finalizing (w_state w)) t)\<lparr>b_metadata := MetaBoxed m,
     b_cm := f (set_allocated_for_metadata True (b_cm (fresh_box layout (st_finalizing (w_state w)) t)))\<rparr>)"
  "w_meta (cyclic_world p m layout t f w) = (w_meta w)(m \<mapsto> \<lparr>bm_vtable = \<lparr>vt_size = layout\<rparr>,
     bm_weak = (weak_new True)\<lparr>weak_counter_cell := weak_counter_cell (weak_new True) + 1\<rparr>\<rparr>)"
  "calm (cyclic_world p m layout t f w) = calm w"
  by (simp_all add: cyclic_world_def Let_def calm_def is_tracing_def)

lemma weak_new_plus:
  "w_count (wview ((weak_new True)\<lparr>weak_counter_cell := weak_counter_cell (weak_new True) + 1\<rparr>)) = 1"
  "w_acc (wview ((weak_new True)\<lparr>weak_counter_cell := weak_counter_cell (weak_new True) + 1\<rparr>))"
  using wview_plus(2) [of "weak_new True"] by (simp_all add: wview_new)

lemma first_increment:
  assumes "w_meta w m = Some \<lparr>bm_vtable = vt, bm_weak = weak_new True\<rparr>"
  shows "on_wcm m weak_increment_counter w = Done (Inr ()) (w\<lparr>w_meta := (w_meta w)(m \<mapsto>
    \<lparr>bm_vtable = vt, bm_weak = (weak_new True)\<lparr>weak_counter_cell := weak_counter_cell (weak_new True) + 1\<rparr>\<rparr>)\<rparr>)"
  using on_wcm_Done [OF assms, of weak_increment_counter "Inr ()"] by (simp add: weak_increment_eval wview_new)

lemma downgrade_new:
  assumes c: "calm w"
  shows "downgrade al p (with_box p layout t w) = Done \<lparr>wk_metadata = Some (al_meta al (w_meta w)), wk_cc = p\<rparr>
    (cyclic_world p (al_meta al (w_meta w)) layout t id w)"
proof -
  let ?w = "cyclic_world p (al_meta al (w_meta w)) layout t id w"
  have "calm (with_box p layout t w)" using c by (simp add: calm_def is_tracing_def)
  moreover have "mark_alive p ?w = Done () ?w" unfolding mark_alive_def by (rule unlisted) (simp, simp add: cm_upd)
  ultimately show ?thesis by (simp add: downgrade_def fresh_metadata first_increment cyclic_world_def Let_def)
qed

lemma begin_new:
  assumes new: "cc_new fl uc fuel al layout None v = Done p (with_box p layout None w)" and c: "calm w" "calm v"
  shows "new_cyclic_begin fl uc fuel al layout v = Done (p, \<lparr>wk_metadata = Some (al_meta al (w_meta w)), wk_cc = p\<rparr>)
    (cyclic_world p (al_meta al (w_meta w)) layout None rc_minus_one w)"
proof -
  let ?w = "cyclic_world p (al_meta al (w_meta w)) layout None id w"
  have p: "w_boxes ?w p = Some ((fresh_box layout (st_finalizing (w_state w)) None)\<lparr>b_metadata := MetaBoxed (al_meta al (w_meta w)),
     b_cm := set_allocated_for_metadata True (b_cm (fresh_box layout (st_finalizing (w_state w)) None))\<rparr>)" by simp
  have one: "assert_counter_is_one p ?w = Done () ?w" by (rule assert_counter_one [OF p]) (simp add: cm_upd)
  have dec: "on_boxes (on_cm p decrement_counter) ?w = Done (Inr ()) (cyclic_world p (al_meta al (w_meta w)) layout None rc_minus_one w)"
    by (subst on_boxes_cm [OF p, where a = "Inr ()"]) (simp_all add: decrement_counter_eval cm_upd cyclic_world_def Let_def meta_then_boxes)
  show ?thesis
    using new c(2) one dec by (simp add: new_cyclic_begin_def fresh_metadata first_increment cyclic_world_def Let_def)
qed

subsection \<open>The same world\<close>

text \<open>The box with its value, when the closure has made its clones; \<open>M\<close> is the memory of metadata.\<close>

lemma put_value:
  fixes w :: "'f world" and p :: addr and m :: maddr and layout :: usize and M :: "maddr \<Rightarrow> boxed_metadata option"
  defines "C t f \<equiv> (cyclic_world p m layout t f w)\<lparr>w_meta := M\<rparr>"
  assumes c: "calm w"
  shows "cc_replace p v (C (Some PlainT) id) = Done PlainT (C (Some v) id)"
    "new_cyclic_end uc fuel p k v (C None rc_minus_one) = thenM (weak_drop k) (ret p) (C (Some v) id)"
proof -
  have calm: "calm (C t f)" for t f using c by (simp add: C_def)
  let ?b = "\<lambda>t f. (fresh_box layout (st_finalizing (w_state w)) t)\<lparr>b_metadata := MetaBoxed m,
     b_cm := f (set_allocated_for_metadata True (b_cm (fresh_box layout (st_finalizing (w_state w)) t)))\<rparr>"
  have p: "w_boxes (C t f) p = Some (?b t f)" for t f by (simp add: C_def)
  have put: "(C t f)\<lparr>w_boxes := (w_boxes (C t f))(p \<mapsto> ?b u g)\<rparr> = C u g" for t f u g
    by (simp add: C_def cyclic_world_def Let_def with_box_def meta_then_boxes)
  have elem: "(?b t f)\<lparr>b_elem := Some v\<rparr> = ?b (Some v) f" for t f by (simp add: fresh_box_def)
  have one: "(?b (Some v) rc_minus_one)\<lparr>b_cm := rc_plus_one (b_cm (?b (Some v) rc_minus_one))\<rparr> = ?b (Some v) id"
    by (simp add: rc_plus_one_def rc_minus_one_def)
  show "cc_replace p v (C (Some PlainT) id) = Done PlainT (C (Some v) id)"
    using calm [of "Some PlainT" id] p [of "Some PlainT" id] store_elem [OF p [of "Some PlainT" id], of "\<lambda>b. b\<lparr>b_elem := Some v\<rparr>"]
    by (simp only: cc_replace_def elem put) (simp add: cc_deref_value)
  have s: "on_boxes (store p (\<lambda>b. b\<lparr>b_elem := Some v\<rparr>)) (C None rc_minus_one) = Done () (C (Some v) rc_minus_one)"
    using store_elem [OF p [of None rc_minus_one], of "\<lambda>b. b\<lparr>b_elem := Some v\<rparr>"] by (simp only: elem put)
  have inc: "increment_counter (b_cm (?b (Some v) rc_minus_one)) = Done (Inr ()) (rc_plus_one (b_cm (?b (Some v) rc_minus_one)))"
    by (simp add: increment_counter_eval cm_upd)
  have i: "on_boxes (on_cm p increment_counter) (C (Some v) rc_minus_one) = Done (Inr ()) (C (Some v) id)"
    using on_boxes_cm [where m = increment_counter, OF p [of "Some v" rc_minus_one] inc] by (simp only: one put)
  have a: "assert_counter_is_one p (C (Some v) id) = Done () (C (Some v) id)"
    by (rule assert_counter_one [OF p]) (simp add: cm_upd)
  show "new_cyclic_end uc fuel p k v (C None rc_minus_one) = thenM (weak_drop k) (ret p) (C (Some v) id)"
    using s i a by (simp add: new_cyclic_end_def)
qed

text \<open>The weak pointer that the closure of \<open>new_cyclic\<close> gets.\<close>

abbreviation cyclic_weak :: "allocator \<Rightarrow> addr \<Rightarrow> 'f world \<Rightarrow> weak_ptr" where
  "cyclic_weak al p w \<equiv> \<lparr>wk_metadata = Some (al_meta al (w_meta w)), wk_cc = p\<rparr>"

lemma clones_made:
  fixes w :: "'f world"
  assumes c: "calm w" and n: "n < 32767"
  shows "\<exists>c. w_count (wview c) = Suc n \<and> w_acc (wview c) \<and>
    (\<forall>t f. repeatM n (weak_clone \<lparr>wk_metadata = Some m, wk_cc = p\<rparr>) (cyclic_world p m layout t f w)
      = Done () ((cyclic_world p m layout t f w)\<lparr>w_meta := (w_meta w)(m \<mapsto> \<lparr>bm_vtable = \<lparr>vt_size = layout\<rparr>, bm_weak = c\<rparr>)\<rparr>))"
proof -
  let ?k = "\<lparr>wk_metadata = Some m, wk_cc = p\<rparr>"
  let ?c = "(weak_new True)\<lparr>weak_counter_cell := weak_counter_cell (weak_new True) + 1\<rparr>"
  let ?bm = "\<lparr>bm_vtable = \<lparr>vt_size = layout\<rparr>, bm_weak = ?c\<rparr>"
  let ?M = "(w_meta w)(m \<mapsto> ?bm)"
  have k: "wk_metadata ?k = Some m" and m: "?M m = Some ?bm" and room: "w_count (wview (bm_weak ?bm)) + n \<le> 32767"
    using n weak_new_plus by simp_all
  from clones_eval [where k = ?k and m = m and M = ?M, OF k m room] obtain c where c': "w_count (wview c) = w_count (wview (bm_weak ?bm)) + n"
    "w_acc (wview c) = w_acc (wview (bm_weak ?bm))"
    "\<forall>u :: 'f world. calm u \<longrightarrow> w_meta u = ?M \<longrightarrow> repeatM n (weak_clone ?k) u = Done () (u\<lparr>w_meta := ?M(m \<mapsto> ?bm\<lparr>bm_weak := c\<rparr>)\<rparr>)" by blast
  have upd: "?M(m \<mapsto> ?bm\<lparr>bm_weak := c\<rparr>) = (w_meta w)(m \<mapsto> \<lparr>bm_vtable = \<lparr>vt_size = layout\<rparr>, bm_weak = c\<rparr>)" by simp
  have "repeatM n (weak_clone ?k) (cyclic_world p m layout t f w)
      = Done () ((cyclic_world p m layout t f w)\<lparr>w_meta := (w_meta w)(m \<mapsto> \<lparr>bm_vtable = \<lparr>vt_size = layout\<rparr>, bm_weak = c\<rparr>)\<rparr>)" for t f
    using c c'(3) unfolding upd by simp
  moreover have "w_count (wview c) = Suc n" "w_acc (wview c)" using c'(1,2) weak_new_plus by simp_all
  ultimately show ?thesis by blast
qed

lemma new_cyclic_as_calls:
  fixes v w :: "'f world"
  assumes new: "\<And>x. cc_new fl uc fuel al layout x v = Done p (with_box p layout x w)" and c: "calm v" "calm w" and n: "n < 32767"
    and g: "g (cyclic_weak al p w) = Some (h (cyclic_weak al p w))"
  shows "new_cyclic fl uc fuel al layout (cloning_closure n g) v = new_cyclic_calls fl uc fuel al layout n h v"
proof -
  let ?k = "cyclic_weak al p w"
  let ?C = "\<lambda>t f. cyclic_world p (al_meta al (w_meta w)) layout t f w"
  from clones_made [OF c(2) n] obtain M where M: "\<And>t f. repeatM n (weak_clone ?k) (?C t f) = Done () ((?C t f)\<lparr>w_meta := M\<rparr>)" by metis
  note v = put_value [where p = p and m = "al_meta al (w_meta w)" and layout = layout and M = M and v = "h ?k", OF c(2)]
  have "new_cyclic fl uc fuel al layout (cloning_closure n g) v = thenM (weak_drop ?k) (ret p) ((?C (Some (h ?k)) id)\<lparr>w_meta := M\<rparr>)"
    using M [of None rc_minus_one] v(2)
    by (simp add: new_cyclic_def begin_new [OF new c(2,1)] cloning_closure_def g)
  moreover have "new_cyclic_calls fl uc fuel al layout n h v = thenM (weak_drop ?k) (ret p) ((?C (Some (h ?k)) id)\<lparr>w_meta := M\<rparr>)"
    using M [of "Some PlainT" id] v(1) by (simp add: new_cyclic_calls_def new downgrade_new [OF c(2)])
  ultimately show ?thesis by simp
qed

subsection \<open>A panic of the closure\<close>

text \<open>The guard frees the box, and the weak pointer that is dropped after it frees the metadata: all is as it was.\<close>

lemma guard_restores:
  assumes u: "u = (cyclic_world p m layout None rc_minus_one w)\<lparr>w_meta := (w_meta w)(m \<mapsto> \<lparr>bm_vtable = \<lparr>vt_size = layout\<rparr>, bm_weak = c\<rparr>)\<rparr>"
    and c: "w_count (wview c) = 1" "w_acc (wview c)" and new: "w_boxes w p = None" "w_meta w m = None" and alive: "w_state_alive w"
    and bytes: "unat (st_allocated_bytes (w_state w)) + unat layout < 2 ^ 64"
  shows "thenM (panic_guard_drop p) (weak_drop \<lparr>wk_metadata = Some m, wk_cc = p\<rparr>) u = Done () w"
proof -
  let ?k = "\<lparr>wk_metadata = Some m, wk_cc = p\<rparr>"
  have p: "w_boxes u p = Some ((fresh_box layout (st_finalizing (w_state w)) None)\<lparr>b_metadata := MetaBoxed m,
      b_cm := rc_minus_one (set_allocated_for_metadata True (b_cm (fresh_box layout (st_finalizing (w_state w)) None)))\<rparr>)"
    and m: "w_meta u m = Some \<lparr>bm_vtable = \<lparr>vt_size = layout\<rparr>, bm_weak = c\<rparr>" by (simp_all add: u)
  have flag: "on_boxes (cm_test p has_allocated_for_metadata) u = Done True u"
    using p by (simp add: on_boxes_def zoom_def cm_tests cm_upd)
  have meta: "get_metadata_unchecked p u = Done m u" using p by (simp add: get_metadata_unchecked_def on_boxes_def zoom_def bindM_def)
  have layout: "box_layout p u = Done layout u"
    using m by (simp add: box_layout_def box_vtable_unfold bindM_def flag meta deref_meta_def)
  let ?c = "set_accessible False c"
  let ?u = "u\<lparr>w_meta := (w_meta w)(m \<mapsto> \<lparr>bm_vtable = \<lparr>vt_size = layout\<rparr>, bm_weak = ?c\<rparr>)\<rparr>"
  have "on_wcm m (getM weak_counter) u = Done (weak_counter c) u" using on_wcm_read [OF m, of weak_counter] by simp
  moreover have "weak_counter c \<noteq> 0" using c(1) by (simp add: weak_counter_eq)
  moreover have "on_wcm m (modifyM (set_accessible False)) u = Done () ?u"
    using on_wcm_Done [OF m, of "modifyM (set_accessible False)" "()"] by (simp add: u)
  ultimately have dm: "drop_metadata p u = Done () ?u" by (simp add: drop_metadata_def bindM_def flag meta)
  let ?v = "w\<lparr>w_meta := (w_meta w)(m \<mapsto> \<lparr>bm_vtable = \<lparr>vt_size = layout\<rparr>, bm_weak = ?c\<rparr>)\<rparr>"
  have "(w_boxes ?u)(p := None) = w_boxes w" using new(1) by (auto simp: u)
  moreover have "unat (st_allocated_bytes (w_state w) + layout) = unat (st_allocated_bytes (w_state w)) + unat layout"
    using bytes by (simp add: unat_word_ariths)
  moreover have "(w_state w)\<lparr>st_allocated_bytes := st_allocated_bytes (w_state w) + layout - layout\<rparr> = w_state w" by simp
  ultimately have "cc_dealloc p layout ?u = Done () ?v"
    using p by (simp add: cc_dealloc_def on_state_def zoom_def record_deallocation_eval thenM_def bindM_def)
      (simp add: u cyclic_world_def Let_def with_box_def)
  moreover have "w_state_alive ?u" using alive by (simp add: u cyclic_world_def Let_def)
  ultimately have guard: "panic_guard_drop p u = Done () ?v"
    using dm by (simp add: panic_guard_drop_def try_state_def bindM_def thenM_def layout)
  let ?d = "?c\<lparr>weak_counter_cell := weak_counter_cell ?c - 1\<rparr>"
  have nz: "w_count (wview ?c) \<noteq> 0" using c(1) by (simp add: wview_set_accessible)
  have d: "w_count (wview ?d) = 0" "\<not> w_acc (wview ?d)" using wview_minus(2) [OF nz] c(1) by (simp_all add: wview_set_accessible)
  let ?x = "w\<lparr>w_meta := (w_meta w)(m \<mapsto> \<lparr>bm_vtable = \<lparr>vt_size = layout\<rparr>, bm_weak = ?d\<rparr>)\<rparr>"
  have v: "w_meta ?v m = Some \<lparr>bm_vtable = \<lparr>vt_size = layout\<rparr>, bm_weak = ?c\<rparr>"
    and x: "w_meta ?x m = Some \<lparr>bm_vtable = \<lparr>vt_size = layout\<rparr>, bm_weak = ?d\<rparr>" by simp_all
  have dec: "on_wcm m weak_decrement_counter ?v = Done (Inr ()) ?x"
    using on_wcm_Done [OF v, of weak_decrement_counter "Inr ()" ?d] nz by (simp add: weak_decrement_eval)
  have "(w_meta w)(m := None) = w_meta w" using new(2) by (simp add: fun_upd_idem)
  then have "dealloc_other m ?x = Done () w" by (simp add: dealloc_other_def)
  with dec d have "weak_drop ?k ?v = Done () w"
    using on_wcm_read [OF x, of weak_counter] on_wcm_read [OF x, of is_accessible]
    by (simp add: weak_drop_def thenM_def bindM_def weak_counter_eq is_accessible_view)
  with guard show ?thesis by simp
qed

lemma closure_panics:
  fixes v w :: "'f world"
  assumes new: "\<And>x. cc_new fl uc fuel al layout x v = Done p (with_box p layout x w)" and c: "calm v" "calm w" and n: "n < 32767"
    and g: "g (cyclic_weak al p w) = None" and free: "w_boxes w p = None" "w_meta w (al_meta al (w_meta w)) = None"
    and bytes: "unat (st_allocated_bytes (w_state w)) + unat layout < 2 ^ 64"
  shows "new_cyclic fl uc fuel al layout (cloning_closure n g) v = Panicked closure_panic w"
proof -
  let ?m = "al_meta al (w_meta w)" and ?k = "cyclic_weak al p w"
  let ?C = "cyclic_world p ?m layout None rc_minus_one w"
  let ?bm = "\<lambda>d. \<lparr>bm_vtable = \<lparr>vt_size = layout\<rparr>, bm_weak = d\<rparr>"
  from clones_made [OF c(2) n, of ?m p layout] obtain d where d: "w_count (wview d) = Suc n" "w_acc (wview d)"
    "repeatM n (weak_clone ?k) ?C = Done () (?C\<lparr>w_meta := (w_meta w)(?m \<mapsto> ?bm d)\<rparr>)" by blast
  let ?u = "?C\<lparr>w_meta := (w_meta w)(?m \<mapsto> ?bm d)\<rparr>"
  have "wk_metadata ?k = Some ?m" "w_meta ?u ?m = Some (?bm d)" "w_acc (wview (bm_weak (?bm d)))" "n \<le> w_count (wview (bm_weak (?bm d)))"
    using d by simp_all
  from drops_eval [OF this] obtain e where e: "w_count (wview e) = 1" "w_acc (wview e)"
    "repeatM n (weak_drop ?k) ?u = Done () (?C\<lparr>w_meta := (w_meta w)(?m \<mapsto> ?bm e)\<rparr>)" using d(1) by auto
  have "cloning_closure n g ?k ?C = Panicked closure_panic (?C\<lparr>w_meta := (w_meta w)(?m \<mapsto> ?bm e)\<rparr>)"
    using d(3) e(3) by (simp add: cloning_closure_def g on_unwind_Panicked)
  moreover have "w_state_alive w" using c(2) by (simp add: calm_def)
  note guard = guard_restores [OF refl e(1,2) free this bytes]
  ultimately show ?thesis by (simp add: new_cyclic_def begin_new [OF new c(2,1)] on_unwind_def guard)
qed

subsection \<open>Ownership\<close>

lemma unseen_vals: "unseen N X w w' \<Longrightarrow> vals_of w' = vals_of w"
  by (simp add: unseen_def)

lemma clones_sound:
  assumes "sound F {} {} D K ps W w" "k \<in># K" "repeatM n (weak_clone k) w = Done () w'"
  shows "\<exists>V. sound F {} {} D (K + replicate_mset n k) ps V w' \<and> unseen {} {} w w'"
  using assms
proof (induction n arbitrary: K W w)
  case 0
  then show ?case using unseen_refl by auto
next
  case (Suc n)
  from Suc.prems(3) obtain k' u where u: "weak_clone k w = Done k' u" "repeatM n (weak_clone k) u = Done () w'" by (auto simp: thenM_eq_Done)
  with weak_clone_sound [OF Suc.prems(1,2)] obtain V where V: "sound F {} {} D (add_mset k K) ps V u" "unseen {} {} w u" by auto
  have "k \<in># add_mset k K" by simp
  from Suc.IH [OF V(1) this u(2)] unseen_trans [OF V(2)] show ?case by auto
qed

text \<open>
  \<open>new_cyclic\<close> keeps the invariant: the value takes its references from the program and from the clones,
  the program owns the clones that are left and the new \<open>Cc\<close>.
\<close>

definition weak_of :: "'f world \<Rightarrow> addr \<Rightarrow> weak_ptr" where
  "weak_of w p = \<lparr>wk_metadata = (case w_boxes w p of None \<Rightarrow> None
     | Some b \<Rightarrow> (case b_metadata b of MetaBoxed m \<Rightarrow> Some m | MetaVTable _ \<Rightarrow> None)), wk_cc = p\<rparr>"

lemma new_cyclic_sound:
  assumes ks: "keeps_sound F uc" and s: "sound F {} {} D K ps W w" and i: "idle w" and fuel: "card (dom (w_boxes w)) < Suc n"
    and e: "unat (st_executions_counter (w_state w)) + 1 < 2 ^ 64" and al: "fresh_allocator al"
    and room: "card (dom (w_boxes w)) + 1 < 2 ^ 64" "unat (st_allocated_bytes (w_state w)) + unat layout < 2 ^ 64"
    and j: "j < 32767" and gv: "\<forall>k v. g k = Some v \<longrightarrow> plain_val F v \<and> mset (dropped_ccs (drop_glue v)) \<subseteq># D \<and>
      mset (dropped_weaks (drop_glue v)) \<subseteq># K + replicate_mset j k"
  shows "\<exists>w1 p k. trigger_collection fl uc (Suc n) w = Done () w1 \<and> settles F D K w w1 \<and>
    (case g k of None \<Rightarrow> new_cyclic fl uc (Suc n) al layout (cloning_closure j g) w = Panicked closure_panic w1
     | Some v \<Rightarrow> (\<exists>D' qs V w'. new_cyclic fl uc (Suc n) al layout (cloning_closure j g) w = Done p w' \<and> weak_of w' p = k \<and>
        (\<forall>h. h k = v \<longrightarrow> new_cyclic fl uc (Suc n) al layout (cloning_closure j g) w = new_cyclic_calls fl uc (Suc n) al layout j h w) \<and>
        w_boxes w1 p = None \<and> gains F D D' \<and>
        sound F {} {} (add_mset p (D' - mset (dropped_ccs (drop_glue v)))) (K + replicate_mset j k - mset (dropped_weaks (drop_glue v))) qs V w' \<and>
        same_frame (with_box p layout (Some PlainT) w1) w' \<and> vals_of w' = (vals_of w1)(p \<mapsto> v)))"
    (is "\<exists>w1 p k. _ \<and> _ \<and> ?R w1 p k")
proof -
  have g: "plain_val F v" "mset (dropped_ccs (drop_glue v)) \<subseteq># D" "mset (dropped_weaks (drop_glue v)) \<subseteq># K + replicate_mset j k"
    if "g k = Some v" for k v using gv that by blast+
  have "sound F {} {} (D + mset (dropped_ccs (drop_glue PlainT))) (K + mset (dropped_weaks (drop_glue PlainT))) ps W w" "plain_val F PlainT"
    using s by (simp_all add: plain_val_def plain_glue_def trace_empty_def finalize_default_def)
  from cc_new_sound [OF ks this(1) i fuel e this(2) al room, of fl] obtain w1 p D' qs V where
    tr: "trigger_collection fl uc (Suc n) w = Done () w1" and 1: "\<And>x. cc_new fl uc (Suc n) al layout x w = Done p (with_box p layout x w1)" "settles F D K w w1" "w_boxes w1 p = None"
    "gains F D D'" "sound F {} {} (add_mset p D') K qs V (with_box p layout (Some PlainT) w1)" by auto
  let ?k = "cyclic_weak al p w1"
  let ?C = "\<lambda>t f. cyclic_world p (al_meta al (w_meta w1)) layout t f w1"
  have c: "calm w" by (rule drop_invD(3) [OF soundD(1) [OF s]])
  have "calm (with_box p layout (Some PlainT) w1)" by (rule drop_invD(3) [OF soundD(1) [OF 1(5)]])
  then have c1: "calm w1" by (simp add: calm_def is_tracing_def)
  show ?thesis
  proof (cases "g ?k")
    case None
    from 1(2) obtain D1 qs1 V1 where s1: "sound F {} {} D1 K qs1 V1 w1" "unat (st_allocated_bytes (w_state w1)) \<le> unat (st_allocated_bytes (w_state w))"
      unfolding settles_def by blast
    have "w_meta w1 (al_meta al (w_meta w1)) = None" using al sound_metas [OF s1(1)] by (simp add: fresh_allocator_def)
    from closure_panics [where g = g and n = j, OF 1(1) c c1 j None 1(3) this] s1(2) room(2) have
      "new_cyclic fl uc (Suc n) al layout (cloning_closure j g) w = Panicked closure_panic w1" by simp
    then have "?R w1 p ?k" by (simp only: None option.case)
    with tr 1(2) show ?thesis by blast
  next
    case (Some v)
    let ?D = "D' - mset (dropped_ccs (drop_glue v))" and ?K = "K + replicate_mset j ?k - mset (dropped_weaks (drop_glue v))"
    have dg: "downgrade al p (with_box p layout (Some PlainT) w1) = Done ?k (?C (Some PlainT) id)" by (rule downgrade_new [OF c1])
    have "p \<in># add_mset p D'" by simp
    from downgrade_sound [OF 1(5) this al] dg obtain qs2 V2 where
      2: "sound F {} {} (add_mset p D') (add_mset ?k K) qs2 V2 (?C (Some PlainT) id)"
      "same_frame (with_box p layout (Some PlainT) w1) (?C (Some PlainT) id)" "vals_of (?C (Some PlainT) id) = vals_of (with_box p layout (Some PlainT) w1)"
      by auto
    from clones_made [OF c1 j] obtain M where
      M: "repeatM j (weak_clone ?k) (?C (Some PlainT) id) = Done () ((?C (Some PlainT) id)\<lparr>w_meta := M\<rparr>)" by metis
    have "?k \<in># add_mset ?k K" by simp
    from clones_sound [OF 2(1) this M] obtain V3 where
      3: "sound F {} {} (add_mset p D') (add_mset ?k K + replicate_mset j ?k) qs2 V3 ((?C (Some PlainT) id)\<lparr>w_meta := M\<rparr>)"
      "unseen {} {} (?C (Some PlainT) id) ((?C (Some PlainT) id)\<lparr>w_meta := M\<rparr>)" by blast
    note v = put_value [where p = p and m = "al_meta al (w_meta w1)" and layout = layout and M = M and v = v, OF c1]
    have ccs: "mset (dropped_ccs (drop_glue v)) \<subseteq># D'" using g(2) [OF Some] 1(4) by (auto simp: gains_def)
    have "add_mset p D' = add_mset p ?D + mset (dropped_ccs (drop_glue v))" using ccs by simp
    moreover have "add_mset ?k K + replicate_mset j ?k = add_mset ?k ?K + mset (dropped_weaks (drop_glue v))" using g(3) [OF Some] by simp
    ultimately have so: "sound F {} {} (add_mset p ?D + mset (dropped_ccs (drop_glue v))) (add_mset ?k ?K + mset (dropped_weaks (drop_glue v)))
        qs2 V3 ((?C (Some PlainT) id)\<lparr>w_meta := M\<rparr>)" using 3(1) by simp
    have "p \<in># add_mset p ?D" by simp
    from replace_sound [OF so this g(1) [OF Some]] v(1) have
      4: "sound F {} {} (add_mset p ?D) (add_mset ?k ?K) qs2 V3 ((?C (Some v) id)\<lparr>w_meta := M\<rparr>)"
      "shrunk ((?C (Some PlainT) id)\<lparr>w_meta := M\<rparr>) ((?C (Some v) id)\<lparr>w_meta := M\<rparr>)"
      "vals_of ((?C (Some v) id)\<lparr>w_meta := M\<rparr>) = (vals_of ((?C (Some PlainT) id)\<lparr>w_meta := M\<rparr>))(p \<mapsto> v)"
      by (auto simp: trace_empty_def)
    from weak_drop_sound [OF 4(1)] obtain w' V4 where
      5: "weak_drop ?k ((?C (Some v) id)\<lparr>w_meta := M\<rparr>) = Done () w'" "sound F {} {} (add_mset p ?D) ?K qs2 V4 w'"
      "left_over {} ((?C (Some v) id)\<lparr>w_meta := M\<rparr>) w'" "vals_of w' = vals_of ((?C (Some v) id)\<lparr>w_meta := M\<rparr>)" by blast
    have "?k \<in># V3" by (rule weak_counted [OF 4(1)]) simp
    from weak_drop_ok [OF drop_invD(2) [OF soundD(1) [OF 4(1)]] this] 5(1) have "w_boxes w' = w_boxes (?C (Some v) id)" by auto
    then have k: "weak_of w' p = ?k" by (simp add: weak_of_def)
    have eq: "new_cyclic fl uc (Suc n) al layout (cloning_closure j g) w = new_cyclic_calls fl uc (Suc n) al layout j h w" if "h ?k = v" for h
      by (rule new_cyclic_as_calls [OF 1(1) c c1 j]) (use Some that in simp)
    have "new_cyclic_calls fl uc (Suc n) al layout j (\<lambda>_. v) w = Done p w'"
      using 5(1) M v(1) by (simp add: new_cyclic_calls_def 1(1) dg)
    then have "new_cyclic fl uc (Suc n) al layout (cloning_closure j g) w = Done p w'" using eq [of "\<lambda>_. v"] by simp
    moreover have "same_frame (with_box p layout (Some PlainT) w1) w'"
      using same_frame_trans [OF 2(2) same_frame_trans [OF unseen_frame [OF 3(2)] same_frame_trans [OF shrunk_frame [OF 4(2)]]]] 5(3)
      by (simp add: left_over_def)
    moreover have "vals_of w' = (vals_of w1)(p \<mapsto> v)"
    proof -
      have "vals_of w' = (vals_of (with_box p layout (Some PlainT) w1))(p \<mapsto> v)" using 5(4) 4(3) unseen_vals [OF 3(2)] 2(3) by simp
      then show ?thesis by (auto simp: vals_of_def fun_eq_iff)
    qed
    ultimately have "\<exists>D' qs V w'. new_cyclic fl uc (Suc n) al layout (cloning_closure j g) w = Done p w' \<and> weak_of w' p = ?k \<and>
          (\<forall>h. h ?k = v \<longrightarrow> new_cyclic fl uc (Suc n) al layout (cloning_closure j g) w = new_cyclic_calls fl uc (Suc n) al layout j h w) \<and>
          w_boxes w1 p = None \<and> gains F D D' \<and>
          sound F {} {} (add_mset p (D' - mset (dropped_ccs (drop_glue v)))) (K + replicate_mset j ?k - mset (dropped_weaks (drop_glue v))) qs V w' \<and>
          same_frame (with_box p layout (Some PlainT) w1) w' \<and> vals_of w' = (vals_of w1)(p \<mapsto> v)" using eq 1(3,4) 5(2) k by (intro exI [of _ D'] exI [of _ qs2] exI [of _ V4] exI [of _ w']) blast
    then have "?R w1 p ?k" by (simp only: Some option.case)
    with tr 1(2) show ?thesis by blast
  qed
qed

end
