(* ===== verification/Thread_Local.thy ===== *)
theory Thread_Local
  imports New_Cyclic Collect_Entry
begin

text \<open>
  The thread locals of the crate. With the feature std they are those of the standard library, which
  may be gone when their thread exits: the flags \<open>w_state_alive\<close>, \<open>w_pc_alive\<close> and \<open>w_config_alive\<close> of the world.
  Without it \<open>src/src/utils.rs\<close> has a macro and a type \<open>NoStdLocalKey\<close> of its own, whose values are never
  gone. The operations on both have the same results as long as the thread locals are alive.
\<close>

subsection \<open>The macro\<close>

text \<open>
  A declaration \<open>#[attr] vis static NAME: T = INIT\<close> or \<open>... = const { INIT }\<close>; the initial value is that
  of the constant expression. The input of the macro is empty, one declaration, or a declaration, a
  semicolon and a rest.
\<close>

record ('ty, 'v) local_decl =
  ld_attrs :: "string list"
  ld_vis :: string
  ld_name :: string
  ld_type :: 'ty
  ld_const :: bool
  ld_init :: 'v

datatype ('ty, 'v) local_decls =
    NoDecl
  | LastDecl "('ty, 'v) local_decl"
  | DeclThen "('ty, 'v) local_decl" "('ty, 'v) local_decls"

record 'v no_std_local_key =
  nk_value :: 'v

definition local_key_new :: "'v \<Rightarrow> 'v no_std_local_key" where
  "local_key_new value = \<lparr>nk_value = value\<rparr>"

record ('ty, 'v) local_static =
  ls_attrs :: "string list"
  ls_vis :: string
  ls_name :: string
  ls_type :: 'ty
  ls_key :: "'v no_std_local_key"

fun decls_weight :: "('ty, 'v) local_decls \<Rightarrow> nat" where
  "decls_weight NoDecl = 1"
| "decls_weight (LastDecl d) = (if ld_const d then 2 else 1)"
| "decls_weight (DeclThen d rest) = 3 + decls_weight rest"

function rust_cc_thread_local :: "('ty, 'v) local_decls \<Rightarrow> ('ty, 'v) local_static list" where
  "rust_cc_thread_local NoDecl = []"
| "rust_cc_thread_local (DeclThen d rest) = rust_cc_thread_local (LastDecl d) @ rust_cc_thread_local rest"
| "rust_cc_thread_local (LastDecl d) = (if ld_const d then rust_cc_thread_local (LastDecl (d\<lparr>ld_const := False\<rparr>))
     else [\<lparr>ls_attrs = ''thread_local'' # ld_attrs d, ls_vis = ld_vis d, ls_name = ld_name d, ls_type = ld_type d,
            ls_key = local_key_new (ld_init d)\<rparr>])"
  by pat_completeness auto

termination rust_cc_thread_local
  by (relation "measure decls_weight") auto

fun decls_of :: "('ty, 'v) local_decls \<Rightarrow> ('ty, 'v) local_decl list" where
  "decls_of NoDecl = []"
| "decls_of (LastDecl d) = [d]"
| "decls_of (DeclThen d rest) = d # decls_of rest"

text \<open>Every declaration becomes one static with its name and initial value, in their order; \<open>const\<close> and a last semicolon change nothing.\<close>

lemma rust_cc_thread_local_eval:
  "rust_cc_thread_local D = map (\<lambda>d. \<lparr>ls_attrs = ''thread_local'' # ld_attrs d, ls_vis = ld_vis d, ls_name = ld_name d, ls_type = ld_type d,
     ls_key = local_key_new (ld_init d)\<rparr>) (decls_of D)"
  by (induction D rule: rust_cc_thread_local.induct) simp_all

subsection \<open>Access\<close>

text \<open>
  \<open>&self.value\<close>: the value is made of cells, so that the closure is a program on it. There is no case in
  which \<open>try_with\<close> fails.
\<close>

datatype access_error = AccessError

definition local_key_with :: "('v, 'a) prog \<Rightarrow> ('v no_std_local_key, 'a) prog" where
  "local_key_with f = zoom nk_value (\<lambda>v key. key\<lparr>nk_value := v\<rparr>) f"

definition local_key_try_with :: "('v, 'a) prog \<Rightarrow> ('v no_std_local_key, access_error + 'a) prog" where
  "local_key_try_with f = bindM (zoom nk_value (\<lambda>v key. key\<lparr>nk_value := v\<rparr>) f) (\<lambda>r. ret (Inr r))"

lemma try_with_is_with: "local_key_try_with f = bindM (local_key_with f) (\<lambda>r. ret (Inr r))"
  by (simp add: local_key_try_with_def local_key_with_def)

text \<open>
  \<open>try_state\<close> and the access to \<open>CONFIG\<close> in a build without std: \<open>STATE\<close> and \<open>CONFIG\<close> are such keys.
\<close>

definition on_key :: "('f world \<Rightarrow> 'v) \<Rightarrow> ('v \<Rightarrow> 'f world \<Rightarrow> 'f world) \<Rightarrow> ('v no_std_local_key, 'a) prog \<Rightarrow> ('f, 'a) gc" where
  "on_key get put m = zoom (\<lambda>w. local_key_new (get w)) (\<lambda>key w. put (nk_value key) w) m"

definition no_std_try_state :: "(gc_state, 'a) prog \<Rightarrow> ('f, 'a option) gc" where
  "no_std_try_state f = bindM (on_key w_state (\<lambda>s w. w\<lparr>w_state := s\<rparr>) (local_key_try_with f)) (\<lambda>r.
     ret (case r of Inl _ \<Rightarrow> None | Inr a \<Rightarrow> Some a))"

lemma on_key_try_with:
  "on_key get put (local_key_try_with f) w = (case zoom get put f w of Done a v \<Rightarrow> Done (Inr a) v
     | Panicked e v \<Rightarrow> Panicked e v | UB \<Rightarrow> UB | Timeout \<Rightarrow> Timeout)"
  by (cases "f (get w)") (simp_all add: on_key_def local_key_try_with_def local_key_new_def zoom_def bindM_def)

text \<open>The two builds agree on a thread whose locals are alive, and the build without std never fails to access one.\<close>

lemma no_std_try_state_same: "w_state_alive w \<Longrightarrow> no_std_try_state f w = try_state (on_state f) w"
  by (cases "f (w_state w)")
    (simp_all add: no_std_try_state_def on_key_try_with try_state_def on_state_def zoom_def bindM_def)

lemma no_std_always_accessible: "no_std_try_state f w = Done r w' \<Longrightarrow> r \<noteq> None"
  by (cases "f (w_state w)") (auto simp: no_std_try_state_def on_key_try_with zoom_def bindM_def)

subsection \<open>The thread locals of the crate\<close>

definition STATE :: "(string, gc_state) local_decls" where
  "STATE = DeclThen \<lparr>ld_attrs = [], ld_vis = [], ld_name = ''STATE'', ld_type = ''State'',
     ld_const = True, ld_init = state_new\<rparr> NoDecl"

definition POSSIBLE_CYCLES :: "(string, pcycles) local_decls" where
  "POSSIBLE_CYCLES = DeclThen \<lparr>ld_attrs = [], ld_vis = ''pub(crate)'', ld_name = ''POSSIBLE_CYCLES'', ld_type = ''PossibleCycles'',
     ld_const = False, ld_init = pc_new\<rparr> NoDecl"

text \<open>\<open>CONFIG\<close> is a \<open>RefCell\<close>: the value and whether it is borrowed.\<close>

definition CONFIG :: "'f f64_ops \<Rightarrow> (string, 'f config \<times> bool) local_decls" where
  "CONFIG fl = DeclThen \<lparr>ld_attrs = [], ld_vis = ''pub(crate)'', ld_name = ''CONFIG'', ld_type = ''RefCell<Config>'',
     ld_const = True, ld_init = (config_new fl, False)\<rparr> NoDecl"

text \<open>A new thread: the initial values of the thread locals, and no memory of its own yet.\<close>

definition new_thread :: "'f f64_ops \<Rightarrow> 'f world" where
  "new_thread fl = \<lparr>w_boxes = Map.empty, w_meta = Map.empty, w_pc = pc_new, w_state = state_new, w_config = config_new fl,
     w_config_borrowed = False, w_state_alive = True, w_pc_alive = True, w_config_alive = True\<rparr>"

lemma statics_of_a_thread:
  "map (nk_value \<circ> ls_key) (rust_cc_thread_local STATE) = [w_state (new_thread fl)]"
  "map (nk_value \<circ> ls_key) (rust_cc_thread_local POSSIBLE_CYCLES) = [w_pc (new_thread fl)]"
  "map (nk_value \<circ> ls_key) (rust_cc_thread_local (CONFIG fl)) = [(w_config (new_thread fl), w_config_borrowed (new_thread fl))]"
  by (simp_all add: rust_cc_thread_local_eval STATE_def POSSIBLE_CYCLES_def CONFIG_def local_key_new_def new_thread_def)

text \<open>What the public accessors return on it.\<close>

lemma new_thread_accessors:
  "allocated_bytes (new_thread fl) = Done (Some 0) (new_thread fl)"
  "executions_count (new_thread fl) = Done (Some 0) (new_thread fl)"
  "buffered_objects_count (new_thread fl) = Done (Some 0) (new_thread fl)"
  "state_is_tracing (new_thread fl) = Done (Some False) (new_thread fl)"
  "access_config (getM (\<lambda>w. auto_collect (w_config w))) (new_thread fl) = Done (Inr True) (new_thread fl)"
  by (simp_all add: new_thread_def state_new_def pc_new_def allocated_bytes_def executions_count_def buffered_objects_count_def
      state_is_tracing_def is_tracing_def access_config_def config_new_def with_guard_def try_state_def bindM_def thenM_def)

end
