(* ===== verification/Program.thy ===== *)
theory Program
  imports Cyclic_Calls Thread_Local
begin

text \<open>
  A program that uses the public interface: the references it owns, the calls it can make, and what
  holds in every state it can reach.
\<close>

subsection \<open>The calls\<close>

record handles =
  h_ccs :: "addr multiset"
  h_weaks :: "weak_ptr multiset"

text \<open>What the closure given to \<open>config\<close> can do to the configuration: the setters of \<open>Config\<close>.\<close>

datatype 'f config_edit = SetAutoCollect bool | SetPercent 'f | SetBufferedThreshold "usize option"

fun edit_config :: "'f f64_ops \<Rightarrow> 'f config_edit \<Rightarrow> ('f config, unit) prog" where
  "edit_config fl (SetAutoCollect b) = modifyM (set_auto_collect b)"
| "edit_config fl (SetPercent x) = set_adjustment_percent fl x"
| "edit_config fl (SetBufferedThreshold t) = modifyM (set_buffered_objects_threshold t)"

definition on_config :: "('f config, 'a) prog \<Rightarrow> ('f, 'a) gc" where
  "on_config m = zoom w_config (\<lambda>cf w. w\<lparr>w_config := cf\<rparr>) m"

text \<open>
  The closure of \<open>NewCyclicCall layout j g\<close> clones the weak pointer \<open>j\<close> times and returns the value \<open>g\<close>
  makes of it, or panics and drops the clones; clones that are not in the value are the program's.
\<close>

datatype 'f api_call =
    NewCall usize tval
  | NewCyclicCall usize nat "weak_ptr \<Rightarrow> tval option"
  | ConfigCall "'f config_edit"
  | CloneCall addr
  | DropCall addr
  | ReplaceCall addr tval
  | DowngradeCall addr
  | WeakNewCall addr
  | UpgradeCall weak_ptr
  | WeakCloneCall weak_ptr
  | WeakDropCall weak_ptr
  | CollectCall
  | UnwrapCall addr
  | MarkAliveCall addr
  | FinalizeAgainCall addr

text \<open>Moving a value into a box takes its references from the program, moving it out gives them back.\<close>

definition gain_cc :: "addr \<Rightarrow> handles \<Rightarrow> handles" where
  "gain_cc p H = H\<lparr>h_ccs := add_mset p (h_ccs H)\<rparr>"

definition lose_cc :: "addr \<Rightarrow> handles \<Rightarrow> handles" where
  "lose_cc p H = H\<lparr>h_ccs := h_ccs H - {#p#}\<rparr>"

definition gain_weak :: "weak_ptr \<Rightarrow> handles \<Rightarrow> handles" where
  "gain_weak k H = H\<lparr>h_weaks := add_mset k (h_weaks H)\<rparr>"

definition lose_weak :: "weak_ptr \<Rightarrow> handles \<Rightarrow> handles" where
  "lose_weak k H = H\<lparr>h_weaks := h_weaks H - {#k#}\<rparr>"

definition gain_clones :: "nat \<Rightarrow> weak_ptr \<Rightarrow> handles \<Rightarrow> handles" where
  "gain_clones j k H = H\<lparr>h_weaks := h_weaks H + replicate_mset j k\<rparr>"

definition gain_val :: "tval \<Rightarrow> handles \<Rightarrow> handles" where
  "gain_val v H = \<lparr>h_ccs = h_ccs H + mset (dropped_ccs (drop_glue v)), h_weaks = h_weaks H + mset (dropped_weaks (drop_glue v))\<rparr>"

definition lose_val :: "tval \<Rightarrow> handles \<Rightarrow> handles" where
  "lose_val v H = \<lparr>h_ccs = h_ccs H - mset (dropped_ccs (drop_glue v)), h_weaks = h_weaks H - mset (dropped_weaks (drop_glue v))\<rparr>"

definition has_val :: "nat set \<Rightarrow> tval \<Rightarrow> handles \<Rightarrow> bool" where
  "has_val F v H \<longleftrightarrow> plain_val F v \<and> mset (dropped_ccs (drop_glue v)) \<subseteq># h_ccs H \<and> mset (dropped_weaks (drop_glue v)) \<subseteq># h_weaks H"

fun api :: "'f f64_ops \<Rightarrow> 'f user_code \<Rightarrow> nat \<Rightarrow> allocator \<Rightarrow> 'f api_call \<Rightarrow> handles \<Rightarrow> ('f, handles) gc" where
  "api fl uc n al (NewCall layout v) H = bindM (cc_new fl uc n al layout (Some v)) (\<lambda>p. ret (gain_cc p (lose_val v H)))"
| "api fl uc n al (NewCyclicCall layout j g) H = bindM (new_cyclic fl uc n al layout (cloning_closure j g)) (\<lambda>p.
     bindM (getM (\<lambda>w. weak_of w p)) (\<lambda>k. ret (gain_cc p (lose_val (the (g k)) (gain_clones j k H)))))"
| "api fl uc n al (ConfigCall e) H = bindM (access_config (on_config (edit_config fl e))) (\<lambda>_. ret H)"
| "api fl uc n al (CloneCall p) H = bindM (cc_clone p) (\<lambda>q. ret (gain_cc q H))"
| "api fl uc n al (DropCall p) H = thenM (cc_drop uc n p) (ret (lose_cc p H))"
| "api fl uc n al (ReplaceCall p v) H = bindM (cc_replace p v) (\<lambda>old. ret (gain_val old (lose_val v H)))"
| "api fl uc n al (DowngradeCall p) H = bindM (downgrade al p) (\<lambda>k. ret (gain_weak k H))"
| "api fl uc n al (WeakNewCall a) H = ret (gain_weak (weak_ptr_new a) H)"
| "api fl uc n al (UpgradeCall k) H = bindM (weak_upgrade k) (\<lambda>r. ret (case r of None \<Rightarrow> H | Some p \<Rightarrow> gain_cc p H))"
| "api fl uc n al (WeakCloneCall k) H = bindM (weak_clone k) (\<lambda>k'. ret (gain_weak k' H))"
| "api fl uc n al (WeakDropCall k) H = thenM (weak_drop k) (ret (lose_weak k H))"
| "api fl uc n al CollectCall H = thenM (collect_cycles fl uc n) (ret H)"
| "api fl uc n al (UnwrapCall p) H = bindM (try_unwrap p) (\<lambda>r. ret (case r of Inl q \<Rightarrow> gain_cc q (lose_cc p H) | Inr v \<Rightarrow> gain_val v (lose_cc p H)))"
| "api fl uc n al (MarkAliveCall p) H = thenM (mark_alive p) (ret H)"
| "api fl uc n al (FinalizeAgainCall p) H = thenM (finalize_again p) (ret H)"

text \<open>
  The borrow checker lets the program use only what it owns. The bounds of the machine are here too:
  what the address space holds, and the number of collections.
\<close>

definition counts_left :: "'f world \<Rightarrow> bool" where
  "counts_left w \<longleftrightarrow> unat (st_executions_counter (w_state w)) + 1 < 2 ^ 64"

definition room_for :: "usize \<Rightarrow> 'f world \<Rightarrow> bool" where
  "room_for layout w \<longleftrightarrow> counts_left w \<and> card (dom (w_boxes w)) + 1 < 2 ^ 64 \<and>
     unat (st_allocated_bytes (w_state w)) + unat layout < 2 ^ 63"

fun permitted :: "nat set \<Rightarrow> 'f api_call \<Rightarrow> handles \<Rightarrow> 'f world \<Rightarrow> bool" where
  "permitted F (NewCall layout v) H w \<longleftrightarrow> has_val F v H \<and> room_for layout w"
| "permitted F (NewCyclicCall layout j g) H w \<longleftrightarrow> (\<forall>k v. g k = Some v \<longrightarrow> has_val F v (gain_clones j k H)) \<and> j < 32767 \<and> room_for layout w"
| "permitted F (ConfigCall e) H w \<longleftrightarrow> True"
| "permitted F (CloneCall p) H w \<longleftrightarrow> p \<in># h_ccs H"
| "permitted F (DropCall p) H w \<longleftrightarrow> p \<in># h_ccs H"
| "permitted F (ReplaceCall p v) H w \<longleftrightarrow> has_val F v H \<and> p \<in># h_ccs (lose_val v H)"
| "permitted F (DowngradeCall p) H w \<longleftrightarrow> p \<in># h_ccs H"
| "permitted F (WeakNewCall a) H w \<longleftrightarrow> True"
| "permitted F (UpgradeCall k) H w \<longleftrightarrow> k \<in># h_weaks H"
| "permitted F (WeakCloneCall k) H w \<longleftrightarrow> k \<in># h_weaks H"
| "permitted F (WeakDropCall k) H w \<longleftrightarrow> k \<in># h_weaks H"
| "permitted F CollectCall H w \<longleftrightarrow> counts_left w"
| "permitted F (UnwrapCall p) H w \<longleftrightarrow> p \<in># h_ccs H"
| "permitted F (MarkAliveCall p) H w \<longleftrightarrow> p \<in># h_ccs H"
| "permitted F (FinalizeAgainCall p) H w \<longleftrightarrow> p \<in># h_ccs H"

subsection \<open>What every call keeps\<close>

definition safe :: "nat set \<Rightarrow> handles \<Rightarrow> 'f world \<Rightarrow> bool" where
  "safe F H w \<longleftrightarrow> (\<exists>ps W. sound F {} {} (h_ccs H) (h_weaks H) ps W w) \<and> idle w"

lemma idle_shrunk: "idle w \<Longrightarrow> shrunk w w' \<Longrightarrow> idle w'"
  by (blast intro: idle_frame shrunk_frame)

lemma idle_unseen: "idle w \<Longrightarrow> unseen N X w w' \<Longrightarrow> idle w'"
  by (blast intro: idle_frame unseen_frame)

lemma idle_collected:
  assumes "idle w" "collected_world G w w'" "config_adjusted w' cf"
  shows "idle (w'\<lparr>w_config := cf\<rparr>)"
  using assms collected_world_rest [OF assms(2)] by (auto simp: idle_def config_adjusted_def)

lemma safeI: "sound F {} {} (h_ccs H) (h_weaks H) ps W w \<Longrightarrow> idle w \<Longrightarrow> safe F H w"
  unfolding safe_def by blast


subsection \<open>The abstract heap\<close>

text \<open>
  What a client can rely on: a heap of values, without counters, marks or lists. A value changes only
  by \<open>ReplaceCall\<close>; a box may go away when the program cannot reach it, and goes away for sure when a
  collection is asked for.
\<close>

type_synonym vals = "addr \<Rightarrow> tval option"

inductive_set vreach :: "vals \<Rightarrow> addr set \<Rightarrow> addr set" for \<sigma> A where
  vreach_start: "p \<in> A \<Longrightarrow> p \<in> vreach \<sigma> A"
| vreach_step: "p \<in> vreach \<sigma> A \<Longrightarrow> \<sigma> p = Some v \<Longrightarrow> q \<in> set (called (trace_val v)) \<Longrightarrow> q \<in> vreach \<sigma> A"

definition vanish :: "handles \<Rightarrow> vals \<Rightarrow> vals \<Rightarrow> bool" where
  "vanish H \<sigma> \<tau> \<longleftrightarrow> \<tau> \<subseteq>\<^sub>m \<sigma> \<and> vreach \<sigma> (set_mset (h_ccs H)) \<subseteq> dom \<tau>"

text \<open>Somebody else holds a \<open>Cc\<close> to the same box: the program once more, or a value.\<close>

definition shared :: "addr \<Rightarrow> handles \<Rightarrow> vals \<Rightarrow> bool" where
  "shared p H \<sigma> \<longleftrightarrow> p \<in># h_ccs (lose_cc p H) \<or> (\<exists>q v. \<sigma> q = Some v \<and> p \<in> set (called (trace_val v)))"

fun spec :: "'f api_call \<Rightarrow> handles \<times> vals \<Rightarrow> handles \<times> vals \<Rightarrow> bool" where
  "spec (NewCall layout v) (H, \<sigma>) (H', \<sigma>') \<longleftrightarrow>
     (\<exists>p \<tau>. vanish H \<sigma> \<tau> \<and> \<tau> p = None \<and> \<sigma>' = \<tau>(p \<mapsto> v) \<and> H' = gain_cc p (lose_val v H))"
| "spec (NewCyclicCall layout j g) (H, \<sigma>) (H', \<sigma>') \<longleftrightarrow>
     (\<exists>p k v \<tau>. vanish H \<sigma> \<tau> \<and> \<tau> p = None \<and> wk_cc k = p \<and> g k = Some v \<and> \<sigma>' = \<tau>(p \<mapsto> v) \<and>
        H' = gain_cc p (lose_val v (gain_clones j k H)))"
| "spec (ConfigCall e) (H, \<sigma>) (H', \<sigma>') \<longleftrightarrow> H' = H \<and> \<sigma>' = \<sigma>"
| "spec (CloneCall p) (H, \<sigma>) (H', \<sigma>') \<longleftrightarrow> H' = gain_cc p H \<and> \<sigma>' = \<sigma>"
| "spec (DropCall p) (H, \<sigma>) (H', \<sigma>') \<longleftrightarrow> H' = lose_cc p H \<and> vanish H' \<sigma> \<sigma>'"
| "spec (ReplaceCall p v) (H, \<sigma>) (H', \<sigma>') \<longleftrightarrow> (\<exists>old. \<sigma> p = Some old \<and> H' = gain_val old (lose_val v H) \<and> \<sigma>' = \<sigma>(p \<mapsto> v))"
| "spec (DowngradeCall p) (H, \<sigma>) (H', \<sigma>') \<longleftrightarrow> (\<exists>m. H' = gain_weak \<lparr>wk_metadata = Some m, wk_cc = p\<rparr> H) \<and> \<sigma>' = \<sigma>"
| "spec (WeakNewCall a) (H, \<sigma>) (H', \<sigma>') \<longleftrightarrow> H' = gain_weak \<lparr>wk_metadata = None, wk_cc = a\<rparr> H \<and> \<sigma>' = \<sigma>"
| "spec (UpgradeCall k) (H, \<sigma>) (H', \<sigma>') \<longleftrightarrow> (H' = H \<or> \<sigma> (wk_cc k) \<noteq> None \<and> H' = gain_cc (wk_cc k) H) \<and> \<sigma>' = \<sigma>"
| "spec (WeakCloneCall k) (H, \<sigma>) (H', \<sigma>') \<longleftrightarrow> H' = gain_weak k H \<and> \<sigma>' = \<sigma>"
| "spec (WeakDropCall k) (H, \<sigma>) (H', \<sigma>') \<longleftrightarrow> H' = lose_weak k H \<and> \<sigma>' = \<sigma>"
| "spec CollectCall (H, \<sigma>) (H', \<sigma>') \<longleftrightarrow> H' = H \<and> \<sigma>' = \<sigma> |` vreach \<sigma> (set_mset (h_ccs H))"
| "spec (UnwrapCall p) (H, \<sigma>) (H', \<sigma>') \<longleftrightarrow> (if shared p H \<sigma> then H' = H \<and> \<sigma>' = \<sigma>
     else (\<exists>v. \<sigma> p = Some v \<and> H' = gain_val v (lose_cc p H) \<and> \<sigma>' = \<sigma>(p := None)))"
| "spec (MarkAliveCall p) (H, \<sigma>) (H', \<sigma>') \<longleftrightarrow> H' = H \<and> \<sigma>' = \<sigma>"
| "spec (FinalizeAgainCall p) (H, \<sigma>) (H', \<sigma>') \<longleftrightarrow> H' = H \<and> \<sigma>' = \<sigma>"

lemma targets_vals: "set (targets (w_boxes w) p) = (case vals_of w p of None \<Rightarrow> {} | Some v \<Rightarrow> set (called (trace_val v)))"
  by (simp add: targets_def calls_of_def vals_of_def split: option.split)

lemma vreach_reach: "vreach (vals_of w) A = reach (w_boxes w) A"
proof
  show "vreach (vals_of w) A \<subseteq> reach (w_boxes w) A"
  proof
    fix p assume "p \<in> vreach (vals_of w) A"
    then show "p \<in> reach (w_boxes w) A"
    proof induction
      case (vreach_step p v q)
      then have "q \<in> set (targets (w_boxes w) p)" by (simp add: targets_vals)
      with vreach_step.IH show ?case by (rule reach_step)
    qed (rule reach_start)
  qed
  show "reach (w_boxes w) A \<subseteq> vreach (vals_of w) A"
    by (rule reach_closed) (auto simp: targets_vals intro: vreach_start vreach_step split: option.splits)
qed

lemma sound_vals: "sound F {} {} D K ps W w \<Longrightarrow> dom (vals_of w) = dom (w_boxes w)"
proof (rule set_eqI)
  fix p assume s: "sound F {} {} D K ps W w"
  show "p \<in> dom (vals_of w) \<longleftrightarrow> p \<in> dom (w_boxes w)"
  proof (cases "w_boxes w p")
    case (Some b)
    from sound_value [OF s Some] obtain v where "b_elem b = Some v" .
    with Some show ?thesis by (simp add: vals_of_def domIff)
  qed (simp add: vals_of_def domIff)
qed

lemma sound_vanish:
  assumes s: "sound F {} {} (h_ccs H) K ps W w'" and sub: "vals_of w' \<subseteq>\<^sub>m vals_of w"
  shows "vanish H (vals_of w) (vals_of w')"
  unfolding vanish_def
proof
  have "reach (w_boxes w) (set_mset (h_ccs H)) \<subseteq> dom (w_boxes w')"
  proof (rule reach_closed)
    show "set_mset (h_ccs H) \<subseteq> dom (w_boxes w')" using held_live [OF s] by (auto intro: reach_start)
    fix x y assume x: "x \<in> dom (w_boxes w')" and y: "y \<in> set (targets (w_boxes w) x)"
    then have "x \<in> dom (vals_of w')" using sound_vals [OF s] by simp
    with sub have "vals_of w' x = vals_of w x" by (simp add: map_le_def)
    with y have "y \<in> set (targets (w_boxes w') x)" by (simp add: targets_vals)
    with x show "y \<in> dom (w_boxes w')" by (rule sound_step [OF s])
  qed
  then show "vreach (vals_of w) (set_mset (h_ccs H)) \<subseteq> dom (vals_of w')" by (simp add: vreach_reach sound_vals [OF s])
qed (rule sub)

lemma collected_vals:
  assumes s: "sound F {} {} D K ps W w" and c: "boxes_swept (garbage (w_boxes w) (set ps)) w w'"
  shows "vals_of w' = vals_of w |` reach (w_boxes w) (set_mset D)"
proof (rule ext)
  fix p
  note dom = collected_reach(2) [OF s c]
  show "vals_of w' p = (vals_of w |` reach (w_boxes w) (set_mset D)) p"
  proof (cases "p \<in> dom (w_boxes w')")
    case True
    then obtain e where e: "w_boxes w' p = Some e" by blast
    from collected_Some [OF c e] obtain b where "w_boxes w p = Some b" "b_elem e = b_elem b" unfolding survives_def by blast
    with e True show ?thesis unfolding dom by (simp add: vals_of_def restrict_map_def)
  next
    case False
    then have "w_boxes w' p = None" by blast
    with False show ?thesis unfolding dom by (simp add: vals_of_def restrict_map_def)
  qed
qed

text \<open>
  The calls that may run finalizers. A finalizer may leave references in a place that the program can
  get them from later, so that the program owns them when the call returns; \<open>H''\<close> has them.
\<close>

fun may_finalize :: "'f api_call \<Rightarrow> bool" where
  "may_finalize (NewCall layout v) \<longleftrightarrow> True"
| "may_finalize (NewCyclicCall layout j g) \<longleftrightarrow> True"
| "may_finalize (DropCall p) \<longleftrightarrow> True"
| "may_finalize CollectCall \<longleftrightarrow> True"
| "may_finalize _ \<longleftrightarrow> False"

definition more_handles :: "nat set \<Rightarrow> handles \<Rightarrow> handles \<Rightarrow> bool" where
  "more_handles F H' H'' \<longleftrightarrow> gains F (h_ccs H') (h_ccs H'') \<and> h_weaks H'' = h_weaks H'"

lemma more_handles_refl: "more_handles F H H"
  by (simp add: more_handles_def gains_refl)

lemma more_handles_none [simp]: "more_handles {} H' H'' \<longleftrightarrow> H'' = H'"
  by (auto simp: more_handles_def gains_def)

abbreviation bad_percent :: panic where
  "bad_percent \<equiv> PanicMsg ''percent must be between 0 and 1''"

text \<open>
  A call returns with the references accounted for and as the abstract heap says, or panics because
  a counter is full, or a percentage is out of its range, and changes nothing, or panics in the closure
  of \<open>new_cyclic\<close> and leaves what the collection that it may have run has left.
\<close>

definition ends_well :: "nat set \<Rightarrow> 'f api_call \<Rightarrow> handles \<Rightarrow> 'f world \<Rightarrow> (handles, 'f world) outcome \<Rightarrow> bool" where
  "ends_well F c H w r \<longleftrightarrow> (\<exists>H' H'' w'. r = Done H' w' \<and> more_handles F H' H'' \<and> safe F H'' w' \<and>
      (F = {} \<or> \<not> may_finalize c \<longrightarrow> H'' = H' \<and> spec c (H, vals_of w) (H', vals_of w'))) \<or>
     r = Panicked too_many_ccs w \<and> ccs_full w \<or> r = Panicked too_many_weaks w \<and> weaks_full w \<or>
     r = Panicked bad_percent w \<and> (\<exists>x. c = ConfigCall (SetPercent x)) \<or>
     (\<exists>H'' w'. r = Panicked closure_panic w' \<and> (\<exists>layout j g. c = NewCyclicCall layout j g) \<and> more_handles F H H'' \<and> safe F H'' w' \<and>
        (F = {} \<longrightarrow> vanish H (vals_of w) (vals_of w')))"

lemma ends_wellI:
  "r = Done H' w' \<Longrightarrow> sound F {} {} (h_ccs H') (h_weaks H') ps W w' \<Longrightarrow> idle w' \<Longrightarrow> spec c (H, vals_of w) (H', vals_of w') \<Longrightarrow>
   ends_well F c H w r"
  unfolding ends_well_def safe_def using more_handles_refl by blast

lemma ends_well_moreI:
  assumes "r = Done H' w'" "sound F {} {} D' (h_weaks H') ps W w'" "gains F (h_ccs H') D'" "idle w'" "may_finalize c"
    and "F = {} \<Longrightarrow> spec c (H, vals_of w) (H', vals_of w')"
  shows "ends_well F c H w r"
proof -
  let ?H = "H'\<lparr>h_ccs := D'\<rparr>"
  have "more_handles F H' ?H" using assms(3) by (simp add: more_handles_def)
  moreover have "safe F ?H w'" using assms(2,4) by (intro safeI) simp_all
  moreover have "F = {} \<Longrightarrow> ?H = H'" using assms(3) by (simp add: gains_def)
  ultimately show ?thesis unfolding ends_well_def using assms(1,5,6) by blast
qed


lemma sound_val:
  assumes "sound F {} {} (h_ccs H) (h_weaks H) ps W w" "has_val F v H"
  shows "sound F {} {} (h_ccs (lose_val v H) + mset (dropped_ccs (drop_glue v))) (h_weaks (lose_val v H) + mset (dropped_weaks (drop_glue v))) ps W w"
  using assms by (simp add: has_val_def lose_val_def)

lemma idle_with_box:
  assumes "idle w" "unat (st_allocated_bytes (w_state w)) + unat layout < 2 ^ 63"
  shows "idle (with_box p layout t w)"
proof -
  have "unat (st_allocated_bytes (w_state w) + layout) = unat (st_allocated_bytes (w_state w)) + unat layout"
    using assms(2) by (simp add: unat_word_ariths)
  with assms show ?thesis by (simp add: idle_def with_box_def)
qed

lemma settles_vanish:
  assumes "settles {} (h_ccs H) K w w1"
  shows "vanish H (vals_of w) (vals_of w1)"
proof -
  from assms obtain qs V where "sound {} {} {} (h_ccs H) K qs V w1" by (auto simp: settles_def gains_def)
  moreover have "vals_of w1 \<subseteq>\<^sub>m vals_of w" using assms by (simp add: settles_def kept_def)
  ultimately show ?thesis by (rule sound_vanish)
qed

lemma new_call:
  assumes k: "keeps_sound F uc" and so: "sound F {} {} (h_ccs H) (h_weaks H) ps W w" and i: "idle w"
    and p: "permitted F (NewCall layout v) H w" and al: "fresh_allocator al" and n: "card (dom (w_boxes w)) < n"
  shows "ends_well F (NewCall layout v) H w (api fl uc n al (NewCall layout v) H w)"
proof -
  from n obtain m where m: "n = Suc m" by (cases n) auto
  from p have e: "unat (st_executions_counter (w_state w)) + 1 < 2 ^ 64" and v: "has_val F v H" and room: "card (dom (w_boxes w)) + 1 < 2 ^ 64"
    and bytes: "unat (st_allocated_bytes (w_state w)) + unat layout < 2 ^ 63" by (simp_all add: counts_left_def room_for_def)
  have plain: "plain_val F v" using v by (simp add: has_val_def)
  have bytes64: "unat (st_allocated_bytes (w_state w)) + unat layout < 2 ^ 64" using bytes by simp
  from cc_new_sound [OF k sound_val [OF so v] i n [unfolded m] e plain al room bytes64, of fl] obtain w1 p D' qs V where
    1: "\<And>x. cc_new fl uc n al layout x w = Done p (with_box p layout x w1)"
    "settles F (h_ccs (lose_val v H) + mset (dropped_ccs (drop_glue v))) (h_weaks (lose_val v H) + mset (dropped_weaks (drop_glue v))) w w1"
    "w_boxes w1 p = None" "gains F (h_ccs (lose_val v H)) D'"
    "sound F {} {} (add_mset p D') (h_weaks (lose_val v H)) qs V (with_box p layout (Some v) w1)" unfolding m by blast
  let ?w = "with_box p layout (Some v) w1" and ?H = "gain_cc p (lose_val v H)"
  have w1: "idle w1" "unat (st_allocated_bytes (w_state w1)) \<le> unat (st_allocated_bytes (w_state w))" "kept F w w1"
    using 1(2) by (simp_all add: settles_def)
  show ?thesis
  proof (rule ends_well_moreI [where H' = ?H and w' = ?w and D' = "add_mset p D'"])
    show "api fl uc n al (NewCall layout v) H w = Done ?H ?w" using 1(1) by simp
    show "sound F {} {} (add_mset p D') (h_weaks ?H) qs V ?w" using 1(5) by (simp add: gain_cc_def)
    show "gains F (h_ccs ?H) (add_mset p D')" using 1(4) by (auto simp: gains_def gain_cc_def)
    show "idle ?w" by (rule idle_with_box [OF w1(1)]) (use w1(2) bytes in simp)
    show "spec (NewCall layout v) (H, vals_of w) (?H, vals_of ?w)" if F: "F = {}"
    proof -
      have "h_ccs (lose_val v H) + mset (dropped_ccs (drop_glue v)) = h_ccs H" using v by (simp add: has_val_def lose_val_def)
      with 1(2) F have "vanish H (vals_of w) (vals_of w1)" by (intro settles_vanish) simp_all
      moreover have "vals_of w1 p = None" using 1(3) by (simp add: vals_of_def)
      moreover have "vals_of ?w = (vals_of w1)(p \<mapsto> v)" by (rule ext) (simp add: vals_of_def)
      ultimately show ?thesis by auto
    qed
  qed simp
qed

lemma new_cyclic_call:
  assumes k: "keeps_sound F uc" and so: "sound F {} {} (h_ccs H) (h_weaks H) ps W w" and i: "idle w"
    and p: "permitted F (NewCyclicCall layout j g) H w" and al: "fresh_allocator al" and n: "card (dom (w_boxes w)) < n"
  shows "ends_well F (NewCyclicCall layout j g) H w (api fl uc n al (NewCyclicCall layout j g) H w)"
    "(\<And>k. g k = Some (h k)) \<Longrightarrow> new_cyclic fl uc n al layout (cloning_closure j g) w = new_cyclic_calls fl uc n al layout j h w"
    "(\<And>k. g k = Some (h k)) \<Longrightarrow>
      \<exists>q w'. new_cyclic fl uc n al layout (cloning_closure j g) w = Done q w' \<and> vals_of w' q = Some (h (weak_of w' q))"
    "(\<And>k. g k = None) \<Longrightarrow>
      new_cyclic fl uc n al layout (cloning_closure j g) w = thenM (trigger_collection fl uc n) (panicM closure_panic) w"
proof -
  from n obtain m where m: "n = Suc m" by (cases n) auto
  from p have e: "unat (st_executions_counter (w_state w)) + 1 < 2 ^ 64" and j: "j < 32767" and room: "card (dom (w_boxes w)) + 1 < 2 ^ 64"
    and bytes: "unat (st_allocated_bytes (w_state w)) + unat layout < 2 ^ 63" by (simp_all add: counts_left_def room_for_def)
  have bytes64: "unat (st_allocated_bytes (w_state w)) + unat layout < 2 ^ 64" using bytes by simp
  have g: "\<forall>k v. g k = Some v \<longrightarrow> plain_val F v \<and> mset (dropped_ccs (drop_glue v)) \<subseteq># h_ccs H \<and>
      mset (dropped_weaks (drop_glue v)) \<subseteq># h_weaks H + replicate_mset j k"
    using p by (auto simp: has_val_def gain_clones_def)
  from new_cyclic_sound [where g = g and fl = fl, OF k so i n [unfolded m] e al room bytes64 j g] obtain w1 q k where
    1: "trigger_collection fl uc (Suc m) w = Done () w1" "settles F (h_ccs H) (h_weaks H) w w1" and
    2: "case g k of None \<Rightarrow> new_cyclic fl uc (Suc m) al layout (cloning_closure j g) w = Panicked closure_panic w1
     | Some v \<Rightarrow> (\<exists>D' qs V w'. new_cyclic fl uc (Suc m) al layout (cloning_closure j g) w = Done q w' \<and> weak_of w' q = k \<and>
        (\<forall>h. h k = v \<longrightarrow> new_cyclic fl uc (Suc m) al layout (cloning_closure j g) w = new_cyclic_calls fl uc (Suc m) al layout j h w) \<and>
        w_boxes w1 q = None \<and> gains F (h_ccs H) D' \<and>
        sound F {} {} (add_mset q (D' - mset (dropped_ccs (drop_glue v)))) (h_weaks H + replicate_mset j k - mset (dropped_weaks (drop_glue v))) qs V w' \<and>
        same_frame (with_box q layout (Some PlainT) w1) w' \<and> vals_of w' = (vals_of w1)(q \<mapsto> v))"
    by blast
  show "ends_well F (NewCyclicCall layout j g) H w (api fl uc n al (NewCyclicCall layout j g) H w)"
  proof (cases "g k")
    case None
    with 2 have run: "new_cyclic fl uc (Suc m) al layout (cloning_closure j g) w = Panicked closure_panic w1" by simp
    from 1(2) obtain D' qs V where D': "sound F {} {} D' (h_weaks H) qs V w1" "gains F (h_ccs H) D'" "idle w1" unfolding settles_def by blast
    let ?H = "H\<lparr>h_ccs := D'\<rparr>"
    have "api fl uc n al (NewCyclicCall layout j g) H w = Panicked closure_panic w1" using run m by simp
    moreover have "more_handles F H ?H" using D'(2) by (simp add: more_handles_def)
    moreover have "safe F ?H w1" using D'(1,3) by (intro safeI) simp_all
    moreover have "vanish H (vals_of w) (vals_of w1)" if "F = {}" using 1(2) that by (intro settles_vanish) simp
    ultimately show ?thesis unfolding ends_well_def by blast
  next
    case (Some v)
    with 2 obtain D' qs V w' where
      3: "new_cyclic fl uc (Suc m) al layout (cloning_closure j g) w = Done q w'" "weak_of w' q = k" "w_boxes w1 q = None" "gains F (h_ccs H) D'"
      "sound F {} {} (add_mset q (D' - mset (dropped_ccs (drop_glue v)))) (h_weaks H + replicate_mset j k - mset (dropped_weaks (drop_glue v))) qs V w'"
      "same_frame (with_box q layout (Some PlainT) w1) w'" "vals_of w' = (vals_of w1)(q \<mapsto> v)" by auto
    let ?H = "gain_cc q (lose_val v (gain_clones j k H))"
    show ?thesis
    proof (rule ends_well_moreI [where H' = ?H and w' = w' and D' = "add_mset q (D' - mset (dropped_ccs (drop_glue v)))"])
      show "api fl uc n al (NewCyclicCall layout j g) H w = Done ?H w'" using 3(1,2) Some m by simp
      show "sound F {} {} (add_mset q (D' - mset (dropped_ccs (drop_glue v)))) (h_weaks ?H) qs V w'"
        using 3(5) by (simp add: gain_cc_def lose_val_def gain_clones_def)
      show "gains F (h_ccs ?H) (add_mset q (D' - mset (dropped_ccs (drop_glue v))))"
        using 3(4) by (auto simp: gains_def gain_cc_def lose_val_def gain_clones_def subseteq_mset_def diff_le_mono)
      show "idle w'" using 1(2) bytes by (intro idle_frame [OF idle_with_box 3(6)]) (simp_all add: settles_def)
      show "spec (NewCyclicCall layout j g) (H, vals_of w) (?H, vals_of w')" if F: "F = {}"
      proof -
        have "vanish H (vals_of w) (vals_of w1)" using 1(2) F by (intro settles_vanish) simp
        moreover have "vals_of w1 q = None" using 3(3) by (simp add: vals_of_def)
        moreover have "wk_cc k = q" using 3(2) by (auto simp: weak_of_def)
        ultimately show ?thesis unfolding 3(7) spec.simps using Some by blast
      qed
    qed simp
  qed
  show "new_cyclic fl uc n al layout (cloning_closure j g) w = new_cyclic_calls fl uc n al layout j h w" if "\<And>k. g k = Some (h k)"
    using 2 m by (auto simp: that)
  show "\<exists>q w'. new_cyclic fl uc n al layout (cloning_closure j g) w = Done q w' \<and> vals_of w' q = Some (h (weak_of w' q))"
    if "\<And>k. g k = Some (h k)"
    using 2 m by (auto simp: that)
  show "new_cyclic fl uc n al layout (cloning_closure j g) w = thenM (trigger_collection fl uc n) (panicM closure_panic) w" if "\<And>k. g k = None"
    using 2 m 1(1) by (simp add: that)
qed

text \<open>The settings are not read by the invariant; the threshold is not among them.\<close>

lemma config_call:
  assumes so: "sound F {} {} (h_ccs H) (h_weaks H) ps W w" and i: "idle w"
  shows "ends_well F (ConfigCall e) H w (api fl uc n al (ConfigCall e) H w)"
proof (cases "w_config_alive w \<and> \<not> w_config_borrowed w")
  case False
  then have "api fl uc n al (ConfigCall e) H w = Done H w" by (cases "w_config_alive w") (simp_all add: access_config_error)
  then show ?thesis by (rule ends_wellI [OF _ so i]) simp
next
  case True
  have restored: "w\<lparr>w_config_borrowed := True, w_config := cf, w_config_borrowed := False\<rparr> = w\<lparr>w_config := cf\<rparr>" for cf
    using True by (cases w) simp
  have run: "api fl uc n al (ConfigCall e) H w = (case edit_config fl e (w_config w) of
      Done _ cf \<Rightarrow> Done H (w\<lparr>w_config := cf\<rparr>) | Panicked x cf \<Rightarrow> Panicked x (w\<lparr>w_config := cf\<rparr>) | UB \<Rightarrow> UB | Timeout \<Rightarrow> Timeout)"
    using True by (cases "edit_config fl e (w_config w)")
      (simp_all add: access_config_def on_config_def zoom_def with_guard_def bindM_def thenM_def restored)
  have "(\<exists>cf. edit_config fl e (w_config w) = Done () cf \<and> cf_bytes_threshold cf = cf_bytes_threshold (w_config w)) \<or>
      edit_config fl e (w_config w) = Panicked bad_percent (w_config w) \<and> (\<exists>x. e = SetPercent x)"
    by (cases e) (auto simp: set_auto_collect_def set_buffered_objects_threshold_def set_adjustment_percent_def split: if_splits)
  then show ?thesis
  proof (elim disjE exE conjE)
    fix cf assume cf: "edit_config fl e (w_config w) = Done () cf" "cf_bytes_threshold cf = cf_bytes_threshold (w_config w)"
    with run have "api fl uc n al (ConfigCall e) H w = Done H (w\<lparr>w_config := cf\<rparr>)" by simp
    moreover have "sound F {} {} (h_ccs H) (h_weaks H) ps W (w\<lparr>w_config := cf\<rparr>)" using so by (simp add: sound_config)
    moreover have "idle (w\<lparr>w_config := cf\<rparr>)" using i cf(2) by (simp add: idle_def)
    moreover have "vals_of (w\<lparr>w_config := cf\<rparr>) = vals_of w" by (rule vals_of_cong) simp
    ultimately show ?thesis by (intro ends_wellI [of _ H "w\<lparr>w_config := cf\<rparr>" F ps W]) simp_all
  next
    fix x assume "edit_config fl e (w_config w) = Panicked bad_percent (w_config w)" and x: "e = SetPercent x"
    with run have "api fl uc n al (ConfigCall e) H w = Panicked bad_percent w" by simp
    with x show ?thesis by (auto simp: ends_well_def)
  qed
qed

text \<open>After a collection the memory holds exactly the boxes that the program can reach, as they were.\<close>

lemma collect_call:
  assumes s: "safe {} H w" and p: "counts_left w" and n: "card (dom (w_boxes w)) < n"
  shows "\<exists>w'. api fl uc n al CollectCall H w = Done H w' \<and> safe {} H w' \<and> dom (w_boxes w') = reach (w_boxes w) (set_mset (h_ccs H)) \<and>
    vals_of w' = vals_of w |` reach (w_boxes w) (set_mset (h_ccs H))"
proof -
  from s obtain ps W where so: "sound {} {} {} (h_ccs H) (h_weaks H) ps W w" and i: "idle w" unfolding safe_def by blast
  note g = sound_collectable(1,2) [OF so] sound_quiet [OF so]
  from n obtain m where m: "n = Suc m" by (cases n) auto
  have "card (reach (w_boxes w) (set ps)) \<le> card (dom (w_boxes w))"
    by (rule card_mono [OF gc_invD(5) [OF g(1)] sound_reach [OF so buffer_live [OF so]]])
  then have fuel: "card (reach (w_boxes w) (set ps)) < Suc m" using n m by simp
  have e: "unat (st_executions_counter (w_state w)) + 1 < 2 ^ 64" using p by (simp add: counts_left_def)
  have nc: "\<not> st_collecting (w_state w)" using i by (simp add: idle_def)
  from collect_cycles_ok [OF g fuel e idle_ready [OF i] nc, of fl uc] obtain w' cf V where
    1: "collect_cycles fl uc (Suc m) w = Done () (w'\<lparr>w_config := cf\<rparr>)"
    "collected_world (garbage (w_boxes w) (set ps)) w w'" "config_adjusted w' cf" "gc_inv [] V w'" "accounted V w'" "settled W w V w'" by blast
  note sw = collected_swept [OF 1(2)]
  have "\<not> is_tracing (w_state w')" using collected_world_rest(8) [OF 1(2)] by (simp add: is_tracing_def)
  from collected_sound [OF so sw 1(4-6) this] idle_collected [OF i 1(2,3)]
  have "safe {} H (w'\<lparr>w_config := cf\<rparr>)" by (intro safeI) (simp_all add: sound_config)
  moreover have "dom (w_boxes w') = reach (w_boxes w) (set_mset (h_ccs H))" by (rule collected_reach(2) [OF so sw])
  moreover have "vals_of (w'\<lparr>w_config := cf\<rparr>) = vals_of w'" by (rule ext) (simp add: vals_of_def)
  with collected_vals [OF so sw] have "vals_of (w'\<lparr>w_config := cf\<rparr>) = vals_of w |` reach (w_boxes w) (set_mset (h_ccs H))" by simp
  moreover have "api fl uc n al CollectCall H w = Done H (w'\<lparr>w_config := cf\<rparr>)" using 1(1) m by simp
  ultimately show ?thesis by (intro exI [of _ "w'\<lparr>w_config := cf\<rparr>"]) simp
qed


text \<open>With finalizers, nothing is lost that is held or that a finalizer has taken.\<close>

lemma collect_safe:
  assumes k: "keeps_sound F uc" and s: "safe F H w" and p: "counts_left w" and n: "card (dom (w_boxes w)) < n"
  shows "\<exists>H' w'. collect_cycles fl uc n w = Done () w' \<and> more_handles F H H' \<and> safe F H' w' \<and> dom (w_boxes w') \<subseteq> dom (w_boxes w)"
proof -
  from s obtain ps W where so: "sound F {} {} (h_ccs H) (h_weaks H) ps W w" and i: "idle w" unfolding safe_def by blast
  from n obtain m where m: "n = Suc m" by (cases n) auto
  from p have "unat (st_executions_counter (w_state w)) + 1 < 2 ^ 64" by (simp add: counts_left_def)
  from collect_cycles_sound [OF k so i n [unfolded m] this, of fl] obtain w' where
    1: "collect_cycles fl uc n w = Done () w'" "settles F (h_ccs H) (h_weaks H) w w'" unfolding m by blast
  then obtain D' qs V where 2: "sound F {} {} D' (h_weaks H) qs V w'" "gains F (h_ccs H) D'" "idle w'" "dom (w_boxes w') \<subseteq> dom (w_boxes w)"
    by (auto simp: settles_def)
  let ?H = "H\<lparr>h_ccs := D'\<rparr>"
  have "safe F ?H w'" using 2(1,3) by (intro safeI) simp_all
  moreover have "more_handles F H ?H" using 2(2) by (simp add: more_handles_def)
  ultimately show ?thesis using 1(1) 2(4) by blast
qed

lemma collect_call_safe:
  assumes k: "keeps_sound F uc" and s: "safe F H w" and p: "counts_left w" and n: "card (dom (w_boxes w)) < n"
  shows "ends_well F CollectCall H w (api fl uc n al CollectCall H w)"
proof (cases "F = {}")
  case True
  from collect_call [OF s [unfolded True] p n, of fl uc al] True show ?thesis by (auto simp: ends_well_def vreach_reach)
next
  case False
  from collect_safe [OF assms, of fl] obtain H' w' where
    "collect_cycles fl uc n w = Done () w'" "more_handles F H H'" "safe F H' w'" by blast
  moreover from this have "api fl uc n al CollectCall H w = Done H w'" by simp
  ultimately show ?thesis using False unfolding ends_well_def by fastforce
qed

text \<open>The calls that run no collection. Each is one of the lemmas on the operations.\<close>

lemma clone_call:
  assumes so: "sound F {} {} (h_ccs H) (h_weaks H) ps W w" and i: "idle w" and q: "q \<in># h_ccs H"
  shows "ends_well F (CloneCall q) H w (api fl uc n al (CloneCall q) H w)"
proof -
  from sound_live [OF so q] obtain b where "w_boxes w q = Some b" by metis
  from clone_sound [OF so this] have "(\<exists>w' qs. cc_clone q w = Done q w' \<and> sound F {} {} (add_mset q (h_ccs H)) (h_weaks H) qs W w' \<and> unseen {} {} w w') \<or>
      cc_clone q w = Panicked too_many_ccs w \<and> ccs_full w" by auto
  then show ?thesis
  proof (elim disjE exE conjE)
    fix w' qs assume "cc_clone q w = Done q w'" "sound F {} {} (add_mset q (h_ccs H)) (h_weaks H) qs W w'" "unseen {} {} w w'"
    then show ?thesis by (intro ends_wellI [OF _ _ idle_unseen [OF i], of _ "gain_cc q H" w' F qs W]) (simp_all add: gain_cc_def unseen_vals)
  qed (simp add: ends_well_def)
qed

lemma drop_call:
  assumes k: "keeps_sound F uc" and so: "sound F {} {} (h_ccs H) (h_weaks H) ps W w" and i: "idle w" and q: "q \<in># h_ccs H"
    and n: "card (dom (w_boxes w)) < n"
  shows "ends_well F (DropCall q) H w (api fl uc n al (DropCall q) H w)"
proof -
  let ?H = "lose_cc q H"
  from q so have "sound F {} {} (add_mset q (h_ccs ?H)) (h_weaks H) ps W w" by (simp add: lose_cc_def)
  from cc_drop_sound [OF k this n] obtain w' D' qs V where
    1: "cc_drop uc n q w = Done () w'" "sound F {} {} D' (h_weaks H) qs V w'" "gains F (h_ccs ?H) D'" "left_over {} w w'" "kept F w w'"
    unfolding drops_to_def by blast
  show ?thesis
  proof (rule ends_well_moreI [where H' = ?H and D' = D'])
    show "api fl uc n al (DropCall q) H w = Done ?H w'" using 1(1) by (simp del: cc_drop.simps)
    show "sound F {} {} D' (h_weaks ?H) qs V w'" using 1(2) by (simp add: lose_cc_def)
    show "idle w'" using 1(4) by (intro idle_frame [OF i]) (simp add: left_over_def)
    show "spec (DropCall q) (H, vals_of w) (?H, vals_of w')" if F: "F = {}"
    proof -
      have "sound F {} {} (h_ccs ?H) (h_weaks H) qs V w'" using 1(2,3) F by (simp add: gains_def)
      moreover have "vals_of w' \<subseteq>\<^sub>m vals_of w" using 1(5) F by (simp add: kept_def)
      ultimately have "vanish ?H (vals_of w) (vals_of w')" by (rule sound_vanish)
      then show ?thesis by simp
    qed
  qed (simp_all add: 1(3))
qed

lemma replace_call:
  assumes so: "sound F {} {} (h_ccs H) (h_weaks H) ps W w" and i: "idle w" and v: "has_val F v H" "q \<in># h_ccs (lose_val v H)"
  shows "ends_well F (ReplaceCall q v) H w (api fl uc n al (ReplaceCall q v) H w)"
proof -
  have "plain_val F v" using v(1) by (simp add: has_val_def)
  from replace_sound [OF sound_val [OF so v(1)] v(2) this] obtain old w' where
    "cc_replace q v w = Done old w'" "shrunk w w'" "vals_of w q = Some old" "vals_of w' = (vals_of w)(q \<mapsto> v)"
    "sound F {} {} (h_ccs (lose_val v H) + mset (dropped_ccs (drop_glue old))) (h_weaks (lose_val v H) + mset (dropped_weaks (drop_glue old))) ps W w'"
    by blast
  then show ?thesis
    by (intro ends_wellI [OF _ _ idle_shrunk [OF i], of _ "gain_val old (lose_val v H)" w' F ps W]) (simp_all add: gain_val_def)
qed

lemma downgrade_call:
  assumes so: "sound F {} {} (h_ccs H) (h_weaks H) ps W w" and i: "idle w" and q: "q \<in># h_ccs H" and al: "fresh_allocator al"
  shows "ends_well F (DowngradeCall q) H w (api fl uc n al (DowngradeCall q) H w)"
  using downgrade_sound [OF so q al]
proof (elim disjE exE conjE)
  fix w' qs m let ?k = "\<lparr>wk_metadata = Some m, wk_cc = q\<rparr>"
  assume "downgrade al q w = Done ?k w'" "same_frame w w'" "vals_of w' = vals_of w" "sound F {} {} (h_ccs H) (add_mset ?k (h_weaks H)) qs (add_mset ?k W) w'"
  then show ?thesis
    by (intro ends_wellI [OF _ _ idle_frame [OF i], of _ "gain_weak ?k H" w' F qs "add_mset ?k W"]) (auto simp: gain_weak_def)
qed (simp add: ends_well_def)

lemma upgrade_call:
  assumes so: "sound F {} {} (h_ccs H) (h_weaks H) ps W w" and i: "idle w" and k: "k \<in># h_weaks H"
  shows "ends_well F (UpgradeCall k) H w (api fl uc n al (UpgradeCall k) H w)"
  using upgrade_sound [OF so k]
proof (elim disjE exE conjE)
  fix w' qs assume "weak_upgrade k w = Done (Some (wk_cc k)) w'"
    "sound F {} {} (add_mset (wk_cc k) (h_ccs H)) (h_weaks H) qs W w'" "unseen {} {} w w'" "vals_of w (wk_cc k) \<noteq> None"
  then show ?thesis
    by (intro ends_wellI [OF _ _ idle_unseen [OF i], of _ "gain_cc (wk_cc k) H" w' F qs W]) (simp_all add: gain_cc_def unseen_vals)
next
  assume "weak_upgrade k w = Done None w"
  with so i show ?thesis by (intro ends_wellI [of _ H w F ps W]) simp_all
qed (simp add: ends_well_def)

lemma weak_clone_call:
  assumes so: "sound F {} {} (h_ccs H) (h_weaks H) ps W w" and i: "idle w" and k: "k \<in># h_weaks H"
  shows "ends_well F (WeakCloneCall k) H w (api fl uc n al (WeakCloneCall k) H w)"
  using weak_clone_sound [OF so k]
proof (elim disjE exE conjE)
  fix w' V assume "weak_clone k w = Done k w'" "sound F {} {} (h_ccs H) (add_mset k (h_weaks H)) ps V w'" "unseen {} {} w w'"
  then show ?thesis by (intro ends_wellI [OF _ _ idle_unseen [OF i], of _ "gain_weak k H" w' F ps V]) (simp_all add: gain_weak_def unseen_vals)
qed (simp add: ends_well_def)

lemma weak_drop_call:
  assumes so: "sound F {} {} (h_ccs H) (h_weaks H) ps W w" and i: "idle w" and k: "k \<in># h_weaks H"
  shows "ends_well F (WeakDropCall k) H w (api fl uc n al (WeakDropCall k) H w)"
proof -
  from k so have "sound F {} {} (h_ccs H) (add_mset k (h_weaks (lose_weak k H))) ps W w" by (simp add: lose_weak_def)
  from weak_drop_sound [OF this] obtain w' V where
    "weak_drop k w = Done () w'" "sound F {} {} (h_ccs H) (h_weaks (lose_weak k H)) ps V w'" "left_over {} w w'" "vals_of w' = vals_of w" by blast
  then show ?thesis
    by (intro ends_wellI [OF _ _ idle_frame [OF i], of _ "lose_weak k H" w' F ps V]) (simp_all add: lose_weak_def left_over_def)
qed

lemma shared_count:
  assumes so: "sound F {} {} (h_ccs H) K ps W w" and p: "p \<in># h_ccs H"
  shows "shared p H (vals_of w) \<longleftrightarrow> rc_of (w_boxes w) p \<noteq> 1"
proof -
  have fin: "finite (dom (w_boxes w))" by (rule drop_invD(4) [OF soundD(1) [OF so]])
  have pos: "0 < count (h_ccs H) p" using p by simp
  have "p \<in> set (targets (w_boxes w) q) \<longleftrightarrow> (\<exists>v. vals_of w q = Some v \<and> p \<in> set (called (trace_val v)))" for q
    by (cases "vals_of w q") (simp_all add: targets_vals)
  then have "(\<exists>q v. vals_of w q = Some v \<and> p \<in> set (called (trace_val v))) \<longleftrightarrow> (\<exists>q \<in> dom (w_boxes w). p \<in> set (targets (w_boxes w) q))"
    unfolding sound_vals [OF so, symmetric] by blast
  also have "\<dots> \<longleftrightarrow> refs_from (w_boxes w) (dom (w_boxes w)) p \<noteq> 0"
    using fin by (simp add: refs_from_def count_list_0_iff)
  finally have v: "(\<exists>q v. vals_of w q = Some v \<and> p \<in> set (called (trace_val v))) \<longleftrightarrow> refs_from (w_boxes w) (dom (w_boxes w)) p \<noteq> 0" .
  have "p \<in># h_ccs (lose_cc p H) \<longleftrightarrow> 1 < count (h_ccs H) p" by (simp add: lose_cc_def in_diff_count)
  then have "p \<in># h_ccs (lose_cc p H) \<longleftrightarrow> count (h_ccs H) p \<noteq> 1" using pos by linarith
  then have "shared p H (vals_of w) \<longleftrightarrow> count (h_ccs H) p \<noteq> 1 \<or> refs_from (w_boxes w) (dom (w_boxes w)) p \<noteq> 0"
    unfolding shared_def v by simp
  then show ?thesis using soundD(5) [OF so, of p] refs_owned [OF so, of p] pos by linarith
qed

lemma unwrap_call:
  assumes so: "sound F {} {} (h_ccs H) (h_weaks H) ps W w" and i: "idle w" and q: "q \<in># h_ccs H"
  shows "ends_well F (UnwrapCall q) H w (api fl uc n al (UnwrapCall q) H w)"
proof -
  from q so have so': "sound F {} {} (add_mset q (h_ccs (lose_cc q H))) (h_weaks H) ps W w" by (simp add: lose_cc_def)
  have flags: "\<not> st_collecting (w_state w)" "\<not> st_dropping (w_state w)" "\<not> st_finalizing (w_state w)" using i by (simp_all add: idle_def)
  from unwrap_refused_or_alone [OF so' flags] show ?thesis
  proof (elim disjE exE conjE)
    assume "try_unwrap q w = Done (Inl q) w" "rc_of (w_boxes w) q \<noteq> 1"
    with so' i shared_count [OF so q] show ?thesis
      by (intro ends_wellI [of _ "gain_cc q (lose_cc q H)" w F ps W]) (use q in \<open>simp_all add: gain_cc_def lose_cc_def\<close>)
  next
    fix v w' qs assume "try_unwrap q w = Done (Inr v) w'" "rc_of (w_boxes w) q = 1" "shrunk w w'" "vals_of w q = Some v" "vals_of w' = (vals_of w)(q := None)"
      "sound F {} {} (h_ccs (lose_cc q H) + mset (dropped_ccs (drop_glue v))) (h_weaks H + mset (dropped_weaks (drop_glue v))) qs W w'"
    with shared_count [OF so q] show ?thesis
      by (intro ends_wellI [OF _ _ idle_shrunk [OF i], of _ "gain_val v (lose_cc q H)" w' F qs W]) (simp_all add: gain_val_def lose_cc_def)
  qed
qed

lemma quiet_calls:
  assumes so: "sound F {} {} (h_ccs H) (h_weaks H) ps W w" and i: "idle w"
  shows "ends_well F (WeakNewCall a) H w (api fl uc n al (WeakNewCall a) H w)"
    "q \<in># h_ccs H \<Longrightarrow> ends_well F (MarkAliveCall q) H w (api fl uc n al (MarkAliveCall q) H w)"
    "q \<in># h_ccs H \<Longrightarrow> ends_well F (FinalizeAgainCall q) H w (api fl uc n al (FinalizeAgainCall q) H w)"
proof -
  show "ends_well F (WeakNewCall a) H w (api fl uc n al (WeakNewCall a) H w)"
    using weak_new_sound [OF so, of a] i
    by (intro ends_wellI [of _ "gain_weak (weak_ptr_new a) H" w F ps]) (simp_all add: gain_weak_def weak_ptr_new_def)
  assume q: "q \<in># h_ccs H"
  from mark_alive_sound [OF so q] obtain w' qs where
    "mark_alive q w = Done () w'" "sound F {} {} (h_ccs H) (h_weaks H) qs W w'" "unseen {} {} w w'" by blast
  then show "ends_well F (MarkAliveCall q) H w (api fl uc n al (MarkAliveCall q) H w)"
    by (intro ends_wellI [OF _ _ idle_unseen [OF i], of _ H w' F qs W]) (simp_all add: unseen_vals)
  have flags: "\<not> st_collecting (w_state w)" "\<not> st_finalizing (w_state w)" "\<not> st_dropping (w_state w)" using i by (simp_all add: idle_def)
  from finalize_again_sound [OF so q flags] obtain w' where
    "finalize_again q w = Done () w'" "sound F {} {} (h_ccs H) (h_weaks H) ps W w'" "unseen {} {} w w'" by blast
  then show "ends_well F (FinalizeAgainCall q) H w (api fl uc n al (FinalizeAgainCall q) H w)"
    by (intro ends_wellI [OF _ _ idle_unseen [OF i], of _ H w' F ps W]) (simp_all add: unseen_vals)
qed

lemma call_ok:
  assumes k: "keeps_sound F uc" and s: "safe F H w" and p: "permitted F c H w" and al: "fresh_allocator al" and n: "card (dom (w_boxes w)) < n"
  shows "ends_well F c H w (api fl uc n al c H w)"
proof -
  from s obtain ps W where so: "sound F {} {} (h_ccs H) (h_weaks H) ps W w" and i: "idle w" unfolding safe_def by blast
  show ?thesis
  proof (cases c)
  qed (use p new_call [OF k so i _ al n] new_cyclic_call(1) [OF k so i _ al n] config_call [OF so i] clone_call [OF so i] drop_call [OF k so i _ n] replace_call [OF so i] downgrade_call [OF so i _ al]
      quiet_calls [OF so i] upgrade_call [OF so i] weak_clone_call [OF so i] weak_drop_call [OF so i] unwrap_call [OF so i]
      collect_call_safe [OF k s _ n]
      in \<open>simp_all del: api.simps\<close>)
qed

subsection \<open>The states of a program\<close>

text \<open>A thread starts with no boxes, no references and the state and the buffer of a new thread.\<close>

definition fresh_thread :: "'f world \<Rightarrow> bool" where
  "fresh_thread w \<longleftrightarrow> w_boxes w = Map.empty \<and> w_meta w = Map.empty \<and> w_pc w = pc_new \<and> w_state w = state_new \<and>
     w_state_alive w \<and> w_pc_alive w \<and> DEFAULT_BYTES_THRESHOLD \<le> cf_bytes_threshold (w_config w)"

lemma new_thread_fresh: "fresh_thread (new_thread fl)"
  by (simp add: fresh_thread_def new_thread_def config_new_def)

text \<open>
  The program owns the references that finalizers have left to it: so many that the reference counters
  are exact. Without finalizers these are none.
\<close>

definition exact :: "handles \<Rightarrow> 'f world \<Rightarrow> bool" where
  "exact H w \<longleftrightarrow> (\<forall>p. rc_of (w_boxes w) p = count (h_ccs H) p + refs_from (w_boxes w) (dom (w_boxes w)) p)"

inductive reachable :: "nat set \<Rightarrow> 'f f64_ops \<Rightarrow> 'f user_code \<Rightarrow> allocator \<Rightarrow> handles \<Rightarrow> 'f world \<Rightarrow> bool" for F fl uc al where
  started: "fresh_thread w \<Longrightarrow> reachable F fl uc al \<lparr>h_ccs = {#}, h_weaks = {#}\<rparr> w"
| returned: "reachable F fl uc al H w \<Longrightarrow> permitted F c H w \<Longrightarrow> api fl uc n al c H w = Done H' w' \<Longrightarrow>
    card (dom (w_boxes w)) < n \<Longrightarrow> more_handles F H' H'' \<Longrightarrow> exact H'' w' \<Longrightarrow> reachable F fl uc al H'' w'"
| panicked: "reachable F fl uc al H w \<Longrightarrow> permitted F c H w \<Longrightarrow> api fl uc n al c H w = Panicked e w' \<Longrightarrow>
    card (dom (w_boxes w)) < n \<Longrightarrow> more_handles F H H'' \<Longrightarrow> exact H'' w' \<Longrightarrow> reachable F fl uc al H'' w'"

lemma sound_exact: "sound F {} {} (h_ccs H) K ps W w \<Longrightarrow> exact H w"
  unfolding exact_def using soundD(5) [of F "{}" "{}" "h_ccs H" K ps W w] refs_owned [of F "h_ccs H" K ps W w] by simp

lemma safe_is_exact: "safe F H w \<Longrightarrow> exact H w"
  unfolding safe_def using sound_exact by blast

text \<open>So what the finalizers left is determined.\<close>

lemma exact_unique:
  assumes "more_handles F H' A" "more_handles F H' B" "exact A w" "exact B w"
  shows "A = B"
proof -
  have "count (h_ccs A) p = count (h_ccs B) p" for p
    using assms(3,4) unfolding exact_def by (metis add_right_cancel)
  then have "h_ccs A = h_ccs B" by (rule multiset_eqI)
  with assms(1,2) show ?thesis by (simp add: more_handles_def)
qed

lemma fresh_safe:
  assumes "fresh_thread w"
  shows "safe F \<lparr>h_ccs = {#}, h_weaks = {#}\<rparr> w"
proof (rule safeI)
  have "drop_inv {} [] {#} w"
    using assms by (simp add: fresh_thread_def drop_inv_def buffered_def pc_repr_def pc_new_def weak_inv_def union_ok_def
        owner_def calm_def is_tracing_def state_new_def)
  then have "sound F {} {} {#} {#} [] {#} w"
    using assms by (simp add: sound_def owned_def sizes_def rc_of_def no_lost_def fresh_thread_def state_new_def)
  then show "sound F {} {} (h_ccs \<lparr>h_ccs = {#}, h_weaks = {#}\<rparr>) (h_weaks \<lparr>h_ccs = {#}, h_weaks = {#}\<rparr>) [] {#} w" by simp
  show "idle w" using assms by (simp add: idle_def fresh_thread_def state_new_def)
qed

lemma reachable_safe:
  assumes "reachable F fl uc al H w" "fresh_allocator al" "keeps_sound F uc"
  shows "safe F H w"
  using assms(1)
proof induction
  case (started w)
  then show ?case by (rule fresh_safe)
next
  case (returned H w c n H' w' H'')
  from call_ok [OF assms(3) returned.IH returned.hyps(2) assms(2) returned.hyps(4), of fl] returned.hyps(3)
  obtain A where A: "more_handles F H' A" "safe F A w'" by (auto simp: ends_well_def)
  from exact_unique [OF A(1) returned.hyps(5) safe_is_exact [OF A(2)] returned.hyps(6)] A(2) show ?case by simp
next
  case (panicked H w c n e w' H'')
  from call_ok [OF assms(3) panicked.IH panicked.hyps(2) assms(2) panicked.hyps(4), of fl] panicked.hyps(3)
  obtain A where A: "more_handles F H A" "safe F A w'" using more_handles_refl panicked.IH by (auto simp: ends_well_def)
  from exact_unique [OF A(1) panicked.hyps(5) safe_is_exact [OF A(2)] panicked.hyps(6)] A(2) show ?case by simp
qed

lemma reachable_next:
  assumes "reachable F fl uc al H w" "fresh_allocator al" "keeps_sound F uc" "permitted F c H w" "card (dom (w_boxes w)) < n"
  shows "(\<exists>H' H'' w'. api fl uc n al c H w = Done H' w' \<and> more_handles F H' H'' \<and> reachable F fl uc al H'' w') \<or>
    api fl uc n al c H w = Panicked too_many_ccs w \<and> ccs_full w \<or>
    api fl uc n al c H w = Panicked too_many_weaks w \<and> weaks_full w \<or>
    api fl uc n al c H w = Panicked bad_percent w \<and> (\<exists>x. c = ConfigCall (SetPercent x)) \<or>
    (\<exists>H' w'. api fl uc n al c H w = Panicked closure_panic w' \<and> (\<exists>layout j g. c = NewCyclicCall layout j g) \<and>
       more_handles F H H' \<and> reachable F fl uc al H' w')"
proof -
  from call_ok [OF assms(3) reachable_safe [OF assms(1-3)] assms(4,2,5), of fl] show ?thesis
    unfolding ends_well_def
  proof (elim disjE exE conjE)
    fix H' H'' w' assume "api fl uc n al c H w = Done H' w'" "more_handles F H' H''" "safe F H'' w'"
    with returned [OF assms(1,4) _ assms(5)] safe_is_exact show ?thesis by blast
  next
    fix H'' w' layout j g
    assume 1: "api fl uc n al c H w = Panicked closure_panic w'" "c = NewCyclicCall layout j g" "more_handles F H H''" "safe F H'' w'"
    from panicked [OF assms(1,4) 1(1) assms(5) 1(3) safe_is_exact [OF 1(4)]] 1(1-3) show ?thesis by blast
  qed blast+
qed

text \<open>The counters: \<open>strong_count\<close> is the number of \<open>Cc\<close>s that exist, in the program and in values.\<close>

lemma strong_count_exact:
  assumes s: "safe F H w" and p: "p \<in># h_ccs H"
  shows "strong_count p w = Done (of_nat (count (h_ccs H) p + refs_from (w_boxes w) (dom (w_boxes w)) p)) w"
proof -
  from s obtain ps W where so: "sound F {} {} (h_ccs H) (h_weaks H) ps W w" unfolding safe_def by blast
  from sound_live [OF so p] obtain b where b: "w_boxes w p = Some b" "v_rc (view (b_cm b)) < 16383" by metis
  have "(ucast (word_of_nat (v_rc (view (b_cm b))) :: u16) :: u32) = of_nat (v_rc (view (b_cm b)))"
    using b(2) by (simp add: word_unat_eq_iff unsigned_ucast_eq unat_of_nat take_bit_eq_mod)
  moreover have "v_rc (view (b_cm b)) = count (h_ccs H) p + refs_from (w_boxes w) (dom (w_boxes w)) p"
    using soundD(5) [OF so, of p] refs_owned [OF so, of p] b(1) by (simp add: rc_of_def)
  ultimately show ?thesis using strong_count_eval [OF b] by simp
qed

text \<open>The other readers return as well, and change nothing; \<open>deref\<close> gives the value of the box.\<close>

lemma readers_return:
  assumes s: "safe F H w"
  shows "p \<in># h_ccs H \<Longrightarrow> \<exists>v. vals_of w p = Some v \<and> cc_deref p w = Done v w"
    "p \<in># h_ccs H \<Longrightarrow> \<exists>b. already_finalized p w = Done b w" "p \<in># h_ccs H \<Longrightarrow> \<exists>n. cc_weak_count p w = Done n w"
    "k \<in># h_weaks H \<Longrightarrow> \<exists>n. weak_strong_count k w = Done n w" "k \<in># h_weaks H \<Longrightarrow> \<exists>n. weak_weak_count k w = Done n w"
proof -
  from s obtain ps W where so: "sound F {} {} (h_ccs H) (h_weaks H) ps W w" unfolding safe_def by blast
  note d = drop_invD [OF soundD(1) [OF so]]
  {
    assume "p \<in># h_ccs H"
    from sound_live [OF so this] obtain b v where b: "w_boxes w p = Some b" "b_elem b = Some v" by metis
    from cc_deref_value [OF d(3) b] b show "\<exists>v. vals_of w p = Some v \<and> cc_deref p w = Done v w" by (simp add: vals_of_def)
    show "\<exists>b. already_finalized p w = Done b w" using b by (simp add: already_finalized_def on_boxes_def zoom_def bindM_def cm_tests)
    show "\<exists>n. cc_weak_count p w = Done n w"
    proof (cases "v_meta (view (b_cm b))")
      case False
      with b show ?thesis by (simp add: cc_weak_count_def on_boxes_def zoom_def bindM_def cm_tests)
    next
      case True
      with weak_invD(1) [OF d(2)] b obtain m where m: "b_metadata b = MetaBoxed m" unfolding union_ok_def by metis
      with b True have "owner w p m" by (simp add: owner_def)
      from weak_invD(2) [OF d(2) this] obtain bm where bm: "w_meta w m = Some bm" by blast
      from b m True show ?thesis
        by (simp add: cc_weak_count_def get_metadata_unchecked_def on_boxes_def zoom_def bindM_def cm_tests on_wcm_read [OF bm])
    qed
  }
  assume "k \<in># h_weaks H"
  from weak_counted [OF so this] have k: "k \<in># W" .
  have "rc_bounded k w" using soundD(4) [OF so] by (auto simp: rc_bounded_def box_sound_def)
  from weak_strong_count_eval [OF d(2) k this] show "\<exists>n. weak_strong_count k w = Done n w" by blast
  show "\<exists>n. weak_weak_count k w = Done n w"
  proof (cases "wk_metadata k")
    case None
    then show ?thesis by (simp add: weak_weak_count_def wcm_map_or_def)
  next
    case (Some m)
    from weak_invD(7) [OF d(2) k Some] obtain bm where bm: "w_meta w m = Some bm" by blast
    from Some show ?thesis by (simp add: weak_weak_count_def wcm_map_or_def on_wcm_read [OF bm])
  qed
qed

lemma safe_values:
  assumes "safe F H w" "w_boxes w p = Some b"
  shows "\<exists>v. b_elem b = Some v"
proof -
  from assms(1) obtain ps W where so: "sound F {} {} (h_ccs H) (h_weaks H) ps W w" unfolding safe_def by blast
  from sound_value [OF so assms(2)] show ?thesis by blast
qed

lemma safe_exact:
  assumes "safe F H w"
  shows "rc_of (w_boxes w) p = count (h_ccs H) p + refs_from (w_boxes w) (dom (w_boxes w)) p"
    "reach (w_boxes w) (set_mset (h_ccs H)) \<subseteq> dom (w_boxes w)" "sizes w = unat (st_allocated_bytes (w_state w))"
    "\<exists>ps. pc_repr (w_pc w) (w_boxes w) ps \<and> dom (w_boxes w) = reach (w_boxes w) (set_mset (h_ccs H) \<union> set ps)"
proof -
  from assms obtain ps W where so: "sound F {} {} (h_ccs H) (h_weaks H) ps W w" unfolding safe_def by blast
  show "rc_of (w_boxes w) p = count (h_ccs H) p + refs_from (w_boxes w) (dom (w_boxes w)) p"
    using soundD(5) [OF so, of p] refs_owned [OF so, of p] by simp
  show live: "reach (w_boxes w) (set_mset (h_ccs H)) \<subseteq> dom (w_boxes w)" by (rule held_live [OF so])
  show "sizes w = unat (st_allocated_bytes (w_state w))" by (rule soundD(7) [OF so])
  have "set_mset (h_ccs H) \<subseteq> dom (w_boxes w)" using live by (auto intro: reach_start)
  then have "reach (w_boxes w) (set_mset (h_ccs H) \<union> set ps) \<subseteq> dom (w_boxes w)"
    using buffer_live [OF so] by (intro sound_reach [OF so]) blast
  with soundD(8) [OF so] buffered_repr [OF drop_invD(1) [OF soundD(1) [OF so]]]
  show "\<exists>ps. pc_repr (w_pc w) (w_boxes w) ps \<and> dom (w_boxes w) = reach (w_boxes w) (set_mset (h_ccs H) \<union> set ps)"
    unfolding no_lost_def by auto
qed

end
