(* ===== verification/Guards.thy ===== *)
theory Guards
  imports New_Cyclic Cleaners
begin

text \<open>
  The drop guards of \<open>replace_state_field!\<close>: however an operation ends, by returning or by a panic,
  the flags \<open>finalizing\<close> and \<open>dropping\<close> are what they were before, for arbitrary finalizers that
  respect them themselves. \<open>keeps\<close> is closed under the combinators of the model, so that the proof
  follows the structure of the code.
\<close>

definition phase :: "'f world \<Rightarrow> bool \<times> bool" where
  "phase w = (st_finalizing (w_state w), st_dropping (w_state w))"

definition keeps :: "('f, 'a) gc \<Rightarrow> bool" where
  "keeps m \<longleftrightarrow> (\<forall>w. case m w of Done a t \<Rightarrow> phase t = phase w | Panicked e t \<Rightarrow> phase t = phase w
     | UB \<Rightarrow> True | Timeout \<Rightarrow> True)"

named_theorems keeps_rules

lemma keepsD:
  "keeps m \<Longrightarrow> m w = Done a t \<Longrightarrow> phase t = phase w"
  "keeps m \<Longrightarrow> m w = Panicked e t \<Longrightarrow> phase t = phase w"
  unfolding keeps_def by (drule spec [of _ w], simp)+

lemma keepsI:
  "(\<And>w a t. m w = Done a t \<Longrightarrow> phase t = phase w) \<Longrightarrow> (\<And>w e t. m w = Panicked e t \<Longrightarrow> phase t = phase w) \<Longrightarrow> keeps m"
  unfolding keeps_def by (auto split: outcome.split)

lemma keeps_basic [keeps_rules]:
  "keeps (ret a)" "keeps (getM f)" "keeps (panicM e)" "keeps (debug_assert b)" "keeps (\<lambda>w. UB)" "keeps (\<lambda>w. Timeout)"
  by (auto intro!: keepsI simp: ret_def getM_def panicM_def debug_assert_def split: if_splits)

lemma keeps_bindM [keeps_rules]:
  assumes "keeps m" "\<And>a. keeps (k a)"
  shows "keeps (bindM m k)"
proof (rule keepsI)
  fix w a t assume "bindM m k w = Done a t"
  then obtain b v where "m w = Done b v" "k b v = Done a t" by (auto simp: bindM_eq_Done)
  with keepsD(1) [OF assms(1), of w b v] keepsD(1) [OF assms(2), of b v a t] show "phase t = phase w" by simp
next
  fix w e t assume p: "bindM m k w = Panicked e t"
  show "phase t = phase w"
  proof (cases "m w")
    case (Done b v)
    with p have "k b v = Panicked e t" by (simp add: bindM_def)
    from keepsD(2) [OF assms(2) this] keepsD(1) [OF assms(1) Done] show ?thesis by simp
  next
    case (Panicked e' v)
    with p have "v = t" by (simp add: bindM_def)
    with keepsD(2) [OF assms(1) Panicked] show ?thesis by simp
  qed (use p in \<open>simp_all add: bindM_def\<close>)
qed

lemma keeps_thenM [keeps_rules]: "keeps m \<Longrightarrow> keeps k \<Longrightarrow> keeps (thenM m k)"
  unfolding thenM_def by (rule keeps_bindM)

lemma keeps_on_unwind [keeps_rules]:
  assumes "keeps m" "keeps c"
  shows "keeps (on_unwind m c)"
proof (rule keepsI)
  fix w a t assume "on_unwind m c w = Done a t"
  then have "m w = Done a t" by (auto simp: on_unwind_def split: outcome.splits)
  then show "phase t = phase w" by (rule keepsD(1) [OF assms(1)])
next
  fix w e t assume p: "on_unwind m c w = Panicked e t"
  then obtain e' v where v: "m w = Panicked e' v" by (cases "m w") (auto simp: on_unwind_def)
  have "phase t = phase v"
  proof (cases "c v")
    case (Done b u)
    with p v have "u = t" by (simp add: on_unwind_def)
    with keepsD(1) [OF assms(2) Done] show ?thesis by simp
  next
    case (Panicked e'' u)
    with p v have "u = t" by (simp add: on_unwind_def)
    with keepsD(2) [OF assms(2) Panicked] show ?thesis by simp
  qed (use p v in \<open>simp_all add: on_unwind_def\<close>)
  with keepsD(2) [OF assms(1) v] show "phase t = phase w" by simp
qed

lemma keeps_if [keeps_rules]: "(b \<Longrightarrow> keeps m) \<Longrightarrow> (\<not> b \<Longrightarrow> keeps k) \<Longrightarrow> keeps (if b then m else k)"
  by simp

lemma keeps_case [keeps_rules]:
  "(\<And>l. keeps (f l)) \<Longrightarrow> (\<And>r. keeps (g r)) \<Longrightarrow> keeps (case x of Inl l \<Rightarrow> f l | Inr r \<Rightarrow> g r)"
  "keeps m \<Longrightarrow> (\<And>v. keeps (h v)) \<Longrightarrow> keeps (case y of None \<Rightarrow> m | Some v \<Rightarrow> h v)"
  "(\<And>a b. keeps (k a b)) \<Longrightarrow> keeps (case z of (a, b) \<Rightarrow> k a b)"
  "(\<And>vt. keeps (f' vt)) \<Longrightarrow> (\<And>bm. keeps (g' bm)) \<Longrightarrow> keeps (case c of MetaVTable vt \<Rightarrow> f' vt | MetaBoxed bm \<Rightarrow> g' bm)"
  by (simp_all split: sum.split option.split prod.split metadata.split)

lemma keeps_zoom:
  assumes "\<And>w x. phase (put x w) = phase w"
  shows "keeps (zoom get put m)"
  by (rule keepsI) (auto simp: zoom_def assms split: outcome.splits)

lemma phase_upd [simp]:
  "phase (w\<lparr>w_boxes := h\<rparr>) = phase w" "phase (w\<lparr>w_meta := M\<rparr>) = phase w" "phase (w\<lparr>w_pc := l\<rparr>) = phase w"
  "phase (w\<lparr>w_config := cf\<rparr>) = phase w" "phase (w\<lparr>w_config_borrowed := b\<rparr>) = phase w"
  by (simp_all add: phase_def)

lemma keeps_memory [keeps_rules]:
  "keeps (on_boxes m)" "keeps (on_possible_cycles m')" "keeps (on_list l k)" "keeps (iter_step c)"
  unfolding on_boxes_def on_possible_cycles_def on_list_def iter_step_def
  by (rule keeps_zoom; auto)+

lemma keeps_run_trace [keeps_rules]: "keeps (run_trace fuel)"
  unfolding run_trace_def by (rule keeps_zoom) simp

lemma keeps_modifyM: "(\<And>w. phase (f w) = phase w) \<Longrightarrow> keeps (modifyM f)"
  by (rule keepsI) (auto simp: modifyM_def)

lemma keeps_with_guard:
  assumes "keeps m" "\<And>w. phase (c w) = phase w"
  shows "keeps (with_guard m c)"
  by (rule keepsI) (auto simp: with_guard_def assms(2) dest: keepsD [OF assms(1)] split: outcome.splits)

text \<open>The guard itself: inside, the flag has the new value; the other flag is kept by the body.\<close>

lemma keeps_with_field [keeps_rules]:
  assumes "keeps m"
  shows "keeps (with_field f v m)"
proof (rule keepsI)
  fix w a t assume "with_field f v m w = Done a t"
  then show "phase t = phase w"
    using keepsD(1) [OF assms, of "w\<lparr>w_state := field_set f v (w_state w)\<rparr>"]
    by (cases f) (auto simp: with_field_def replace_state_field_def with_guard_def bindM_eq_Done thenM_eq_Done phase_def
        set_dropping_def set_finalizing_def split: outcome.splits)
next
  fix w e t assume "with_field f v m w = Panicked e t"
  then show "phase t = phase w"
    using keepsD(2) [OF assms, of "w\<lparr>w_state := field_set f v (w_state w)\<rparr>"]
    by (cases f) (auto simp: with_field_def replace_state_field_def with_guard_def phase_def bindM_def thenM_def
        set_dropping_def set_finalizing_def split: outcome.splits)
qed

lemma keeps_accounting [keeps_rules]:
  "keeps (on_state (record_allocation n))" "keeps (on_state (record_deallocation n))" "keeps (on_state increment_executions_count)"
  "keeps (on_state (modifyM (set_collecting b)))"
  by (rule keepsI; auto simp: on_state_def zoom_def record_allocation_eval record_deallocation_eval phase_def
      increment_executions_count_def checked_add_def bindM_def set_collecting_def split: if_splits)+

lemma keeps_access [keeps_rules]:
  "keeps m \<Longrightarrow> keeps (with_state m)" "keeps m \<Longrightarrow> keeps (try_state m)" "keeps k \<Longrightarrow> keeps (try_pc k)" "keeps (not_tracing msg)"
  unfolding with_state_def try_state_def try_pc_def not_tracing_def by (intro keeps_rules; assumption)+

lemma keeps_wcm [keeps_rules]: "keeps (on_wcm m p)" "keeps (deref_meta m f)" "keeps (dealloc_other m)"
  by (rule keepsI; auto simp: on_wcm_def deref_meta_def dealloc_other_def zoom_def split: option.splits outcome.splits)+

subsection \<open>The operations\<close>

lemma keeps_cc_dealloc [keeps_rules]: "keeps (cc_dealloc p n)"
  unfolding cc_dealloc_def
  by (intro keeps_thenM keeps_accounting) (auto intro!: keepsI split: option.splits)

lemma keeps_metadata [keeps_rules]:
  "keeps (get_metadata_unchecked p)" "keeps (union_vtable p)" "keeps (box_layout p)" "keeps (drop_metadata p)"
  unfolding get_metadata_unchecked_def union_vtable_def box_layout_def box_vtable_unfold drop_metadata_def
  by (intro keeps_rules)+

lemma keeps_get_traceable [keeps_rules]: "keeps (get_traceable p)"
  unfolding get_traceable_def box_vtable_unfold get_metadata_unchecked_def union_vtable_def by (intro keeps_rules)

lemma keeps_weak_drop [keeps_rules]: "keeps (weak_drop k)"
  unfolding weak_drop_def by (intro keeps_rules)

lemma keeps_buffer [keeps_rules]: "keeps (remove_from_list p)" "keeps (add_to_list p)" "keeps (decrement_rc p)"
  "keeps (handle_possible_cycle p)" "keeps (get_elem p)"
  unfolding remove_from_list_def add_to_list_def decrement_rc_def handle_possible_cycle_def get_elem_def
  by (intro keeps_rules)+

lemma keeps_forM [keeps_rules]: "(\<And>x. keeps (f x)) \<Longrightarrow> keeps (forM xs f)"
  by (induction xs) (auto intro: keeps_rules)

lemma keeps_drop_seq [keeps_rules]: "(\<And>d. keeps (f d)) \<Longrightarrow> keeps (drop_seq f ds)"
  by (induction ds) (auto intro: keeps_rules)

lemma keeps_drop_elem [keeps_rules]: "(\<And>d. keeps (f d)) \<Longrightarrow> keeps (drop_elem f p)"
  unfolding drop_elem_def by (intro keeps_rules)

lemma keeps_fold [keeps_rules]: "(\<And>p a. keeps (f p a)) \<Longrightarrow> keeps (iter_fold n f c a)"
proof (induction n arbitrary: c a)
  case (Suc n)
  then show ?case unfolding iter_fold.simps by (intro keeps_rules) blast+
qed (auto intro: keeps_rules)

lemma keeps_for_each [keeps_rules]: "(\<And>p. keeps (f p)) \<Longrightarrow> keeps (iter_for_each n f c)"
  unfolding iter_for_each_def by (intro keeps_rules)

text \<open>
  The code of the users: finalizers, destructors and cleaning actions that leave the flags as they
  found them.
\<close>

definition guarded :: "'f user_code \<Rightarrow> bool" where
  "guarded uc \<longleftrightarrow> (\<forall>n. keeps (uc_finalize uc n) \<and> keeps (uc_drop uc n) \<and> keeps (uc_action uc n))"

lemma keeps_run_finalizer [keeps_rules]: "guarded uc \<Longrightarrow> keeps (run_finalizer uc p)"
  unfolding run_finalizer_def guarded_def by (intro keeps_rules) blast

lemma keeps_drop_by: "guarded uc \<Longrightarrow> (\<And>p. keeps (dc p)) \<Longrightarrow> keeps (drop_by uc dc d)"
  by (cases d) (auto simp: guarded_def cleaning_action_drop_def intro!: keeps_rules)

lemma keeps_cc_drop [keeps_rules]: "guarded uc \<Longrightarrow> keeps (cc_drop uc n p)"
proof (induction n arbitrary: p)
  case (Suc n)
  then have "keeps (drop_by uc (cc_drop uc n) d)" for d by (intro keeps_drop_by)
  then show ?case unfolding cc_drop.simps by (intro keeps_rules Suc.prems)
qed (auto intro: keeps_rules)

lemma keeps_drop_one [keeps_rules]: "guarded uc \<Longrightarrow> keeps (drop_one uc n d)"
  unfolding drop_one_def by (intro keeps_drop_by keeps_cc_drop)

lemma keeps_deallocate_list [keeps_rules]: "guarded uc \<Longrightarrow> keeps (deallocate_list uc n l)"
  unfolding deallocate_list_def drop_inner_def to_drop_list_drop_def dealloc_one_def by (intro keeps_rules)

lemma keeps_finalize_list [keeps_rules]: "guarded uc \<Longrightarrow> keeps (finalize_list uc n l)"
  unfolding finalize_list_def finalize_inner_def checked_add_def by (intro keeps_rules)

lemma keeps_put_back [keeps_rules]: "keeps (put_back n l s)"
  unfolding put_back_def by (intro keeps_rules)

lemma keeps_collect_rounds [keeps_rules]: "guarded uc \<Longrightarrow> keeps (collect_rounds uc n k)"
  by (induction k) (auto simp: collect_once_def intro!: keeps_rules)

lemma keeps_collect [keeps_rules]: "guarded uc \<Longrightarrow> keeps (collect uc n)"
  unfolding collect_def by (intro keeps_rules keeps_with_guard) (simp_all add: phase_def set_collecting_def)

lemma keeps_access_config: "keeps m \<Longrightarrow> keeps (access_config m)"
  unfolding access_config_def by (intro keeps_rules keeps_modifyM keeps_with_guard) simp_all

lemma keeps_config [keeps_rules]: "keeps (adjust_trigger_point fl)" "keeps config_should_collect"
proof -
  have "keeps (config_adjust fl)"
    by (rule keepsI) (auto simp: config_adjust_def split: option.splits)
  then show "keeps (adjust_trigger_point fl)" unfolding adjust_trigger_point_def
    by (intro keeps_rules keeps_access_config)
  show "keeps config_should_collect" unfolding config_should_collect_def
    by (intro keeps_rules keeps_access_config)
qed

lemma keeps_entry [keeps_rules]:
  "guarded uc \<Longrightarrow> keeps (trigger_collection fl uc n)" "guarded uc \<Longrightarrow> keeps (collect_cycles fl uc n)"
  unfolding trigger_collection_def collect_cycles_def by (intro keeps_rules; assumption)+

lemma keeps_ccbox_new [keeps_rules]: "keeps (ccbox_new al n t)"
  unfolding ccbox_new_def cc_alloc_def by (intro keeps_rules keeps_modifyM) simp

lemma keeps_cc_new [keeps_rules]: "guarded uc \<Longrightarrow> keeps (cc_new fl uc n al layout t)"
  unfolding cc_new_def drop_arg_def by (intro keeps_rules)

lemma keeps_get_or_init [keeps_rules]: "keeps (get_or_init_metadata al p)"
  unfolding get_or_init_metadata_def boxed_metadata_new_def alloc_other_def by (intro keeps_rules keeps_modifyM) simp

lemma keeps_new_cyclic:
  assumes "guarded uc" "\<And>k. keeps (f k)"
  shows "keeps (new_cyclic fl uc n al layout f)"
  unfolding new_cyclic_def new_cyclic_begin_def new_cyclic_end_def panic_guard_drop_def assert_counter_is_one_def
  by (intro keeps_rules assms)

text \<open>The value of a box that is expected to be a map.\<close>

lemma keeps_map_case: "(\<And>b m. keeps (f b m)) \<Longrightarrow> keeps (case v of CleanerMapT b m \<Rightarrow> f b m | _ \<Rightarrow> (\<lambda>w. UB))"
  by (cases v) (auto intro: keeps_rules)

lemma keeps_clean: "guarded uc \<Longrightarrow> keeps (clean uc n this)"
proof -
  assume g: "guarded uc"
  have cell: "keeps (set_cell p flag m)" "keeps (cell_of p)" for p flag m
    unfolding set_cell_def cell_of_def cc_deref_def by (intro keeps_rules keeps_map_case)+
  have act: "keeps (cleaning_action_drop uc a)" for a using g by (simp add: cleaning_action_drop_def guarded_def)
  have up: "keeps (weak_upgrade k)" for k
    unfolding weak_upgrade_def weak_strong_count_def wcm_map_or_def mark_alive_def by (intro keeps_rules)
  show ?thesis
    unfolding clean_def with_local_def try_borrow_mut_def ref_mut_drop_def remove_action_def
    by (intro keeps_rules keeps_map_case cell act up g)
qed

end
