(* ===== verification/Trace_Example.thy ===== *)
theory Trace_Example
  imports Trace_Correct
begin

text \<open>
  A concrete memory on which the properties of the tracing phases are witnessed. Box 10 and box 20
  own each other and nothing else owns them; box 10 also owns box 30, which the program owns as well
  and which owns box 40. Only box 10 is buffered. \<open>panic_state\<close> is a memory whose first buffered box
  reports the second one and then panics.
\<close>

definition ex_box :: "addr option \<Rightarrow> addr option \<Rightarrow> u16 \<Rightarrow> u16 \<Rightarrow> tval \<Rightarrow> ccbox" where
  "ex_box nx pv tcell rcell v = \<lparr>b_next = nx, b_prev = pv, b_metadata = MetaVTable \<lparr>vt_size = 64\<rparr>,
     b_cm = \<lparr>tracing_counter_cell = tcell, counter_cell = rcell\<rparr>, b_elem = Some v\<rparr>"

definition ex_heap :: boxes where
  "ex_heap = [10 \<mapsto> ex_box None None 16384 1 (TupleT [CcT 20, CcT 30]),
              20 \<mapsto> ex_box None None 1 1 (OptionT (Some (CcT 10))),
              30 \<mapsto> ex_box None None 1 2 (RefCellT Unborrowed (CcT 40)),
              40 \<mapsto> ex_box None None 1 1 PlainT]"

definition ex_state :: tstate where
  "ex_state = \<lparr>t_heap = ex_heap, t_meta = Map.empty, t_pc = \<lparr>pc_first = Some 10, pc_size = 1\<rparr>, t_root = ll_new,
     t_nonroot = ll_new, t_queue = lq_new\<rparr>"

lemma ex_calls: "calls_of ex_heap 10 = [CallCc 20, CallCc 30]" "calls_of ex_heap 20 = [CallCc 10]"
  "calls_of ex_heap 30 = [CallCc 40]" "calls_of ex_heap 40 = []"
  by (simp_all add: calls_of_def ex_heap_def ex_box_def trace_tuple_def trace_cc_def trace_option_def
      trace_refcell_def trace_empty_def)

lemma ex_targets: "targets ex_heap 10 = [20, 30]" "targets ex_heap 20 = [10]" "targets ex_heap 30 = [40]" "targets ex_heap 40 = []"
  by (simp_all add: targets_def ex_calls)

lemma ex_reach: "reach ex_heap (set [10]) = {10, 20, 30, 40}"
proof (rule reach_eqI)
  have 1: "10 \<in> reach ex_heap (set [10])" by (rule reach_start) simp
  have 2: "20 \<in> reach ex_heap (set [10])" "30 \<in> reach ex_heap (set [10])"
    by (rule reach_step [OF 1], simp add: ex_targets)+
  have "40 \<in> reach ex_heap (set [10])" by (rule reach_step [OF 2(2)]) (simp add: ex_targets)
  with 1 2 show "{10, 20, 30, 40} \<subseteq> reach ex_heap (set [10])" by simp
qed (auto simp: ex_targets)

lemma ex_view:
  "v_rc (view \<lparr>tracing_counter_cell = t, counter_cell = 1\<rparr>) = 1"
  "v_rc (view \<lparr>tracing_counter_cell = t, counter_cell = 2\<rparr>) = 2"
  "v_mark (view \<lparr>tracing_counter_cell = 16384, counter_cell = c\<rparr>) = PossibleCycles"
  "v_tc (view \<lparr>tracing_counter_cell = 16384, counter_cell = c\<rparr>) = 0"
  "v_mark (view \<lparr>tracing_counter_cell = 1, counter_cell = c\<rparr>) = NonMarked"
  "v_tc (view \<lparr>tracing_counter_cell = 1, counter_cell = c\<rparr>) = 1"
  by (simp_all add: view_def mark_of_bits_def)

lemma ex_rc: "rc_of ex_heap 10 = 1" "rc_of ex_heap 20 = 1" "rc_of ex_heap 30 = 2" "rc_of ex_heap 40 = 1"
  by (simp_all add: rc_of_def ex_heap_def ex_box_def ex_view)

lemma ex_traceable: "traceable ex_heap (set [10])"
  unfolding traceable_def ex_reach
  by (auto simp: ex_rc refs_from_def ex_targets) (auto simp: ex_heap_def ex_box_def)

lemma ex_ready: "ready [10] ex_state"
  unfolding ready_def Let_def
proof (intro conjI ballI)
  show "vtables_ok (t_meta ex_state) (t_heap ex_state)"
    by (auto simp: vtables_ok_def ex_state_def ex_heap_def ex_box_def view_def split: if_splits)
  show "pc_repr (t_pc ex_state) (t_heap ex_state) [10]"
    by (simp add: pc_repr_def ex_state_def links_def ex_heap_def ex_box_def)
  show "traceable (t_heap ex_state) (set [10])" by (simp add: ex_state_def ex_traceable [simplified])
  show "isolated (t_heap ex_state) p" if "p \<in> dom (t_heap ex_state) - set [10]" for p
    using that by (auto simp: ex_state_def ex_heap_def isolated_def links_def ex_box_def split: if_splits)
qed (auto simp: ex_state_def ex_reach [simplified] mark_of_def tc_of_def ex_heap_def ex_box_def ex_view)

lemma ex_card: "card (reach (t_heap ex_state) (set [10])) < 5"
  by (simp add: ex_state_def ex_reach [simplified])

lemma ex_no_panic: "\<forall>x \<in> reach (t_heap ex_state) (set [10]). \<not> panics (calls_of (t_heap ex_state) x)"
  by (simp add: ex_state_def ex_reach [simplified] ex_calls)

lemma ex_t_heap: "t_heap ex_state = ex_heap"
  by (simp add: ex_state_def)

lemma ex_ext_roots: "ext_roots (t_heap ex_state) (set [10]) = {30}"
  unfolding ext_roots_def ex_t_heap ex_reach by (auto simp: ex_targets ex_rc)

lemma ex_garbage: "garbage (t_heap ex_state) (set [10]) = {10, 20}"
proof -
  have r: "reach ex_heap {30} = {30, 40}"
  proof (rule reach_eqI)
    have "30 \<in> reach ex_heap {30}" by (rule reach_start) simp
    moreover from this have "40 \<in> reach ex_heap {30}" by (rule reach_step) (simp add: ex_targets)
    ultimately show "{30, 40} \<subseteq> reach ex_heap {30}" by simp
  qed (auto simp: ex_targets)
  have "garbage ex_heap (set [10]) = {10, 20, 30, 40} - reach ex_heap (ext_roots ex_heap (set [10]))"
    by (simp only: garbage_def ex_reach)
  also have "\<dots> = {10, 20, 30, 40} - {30, 40}"
    by (simp only: ex_ext_roots [unfolded ex_t_heap] r)
  also have "\<dots> = {10, 20 :: addr}" by auto
  finally show ?thesis by (simp only: ex_t_heap)
qed

lemma ex_rest: "reach (t_heap ex_state) (set [10]) - {30} = {10, 20, 40}"
  unfolding ex_t_heap ex_reach by auto

text \<open>Two buffered boxes; the first one, which the program owns, owns the second one, reports it and panics.\<close>

definition px_state :: tstate where
  "px_state = \<lparr>t_heap = [10 \<mapsto> ex_box (Some 20) None 16384 1 (ManualT [CallCc 20, CallPanic ''no''] [CcT 20] None),
       20 \<mapsto> ex_box None (Some 10) 16384 1 PlainT],
     t_meta = Map.empty, t_pc = \<lparr>pc_first = Some 10, pc_size = 2\<rparr>, t_root = ll_new, t_nonroot = ll_new, t_queue = lq_new\<rparr>"

lemma px_calls: "calls_of (t_heap px_state) 10 = [CallCc 20, CallPanic ''no'']"
  by (simp add: px_state_def calls_of_def ex_box_def)

lemma px_targets: "targets (t_heap px_state) 10 = [20]" "targets (t_heap px_state) 20 = []"
  by (simp_all add: px_state_def targets_def calls_of_def ex_box_def trace_empty_def)

lemma px_rc: "rc_of (t_heap px_state) 20 = 1"
  by (simp add: px_state_def rc_of_def ex_box_def ex_view)

lemma px_calls_20: "calls_of (t_heap px_state) 20 = []"
  by (simp add: px_state_def calls_of_def ex_box_def trace_empty_def)

lemma px_reach: "reach (t_heap px_state) (set [10, 20]) = {10, 20}"
  by (rule reach_eqI) (auto simp: px_targets intro: reach_start)

lemma px_ready: "ready [10, 20] px_state"
  unfolding ready_def Let_def
proof (intro conjI ballI)
  show "vtables_ok (t_meta px_state) (t_heap px_state)"
    by (auto simp: vtables_ok_def px_state_def ex_box_def view_def split: if_splits)
  show "pc_repr (t_pc px_state) (t_heap px_state) [10, 20]"
    by (simp add: pc_repr_def px_state_def links_def ex_box_def)
  show "traceable (t_heap px_state) (set [10, 20])"
    unfolding traceable_def px_reach
    by (auto simp: refs_from_def px_targets) (auto simp: px_state_def rc_of_def ex_box_def ex_view)
  show "isolated (t_heap px_state) p" if "p \<in> dom (t_heap px_state) - set [10, 20]" for p
    using that by (auto simp: px_state_def split: if_splits)
qed (simp_all only: px_reach, auto simp: px_state_def mark_of_def tc_of_def ex_box_def ex_view)

lemma px_card: "card (reach (t_heap px_state) (set [10, 20])) < 8"
  unfolding px_reach by simp

text \<open>A box the program owns once, buffered with a stale tracing counter of 1.\<close>

definition sx_state :: tstate where
  "sx_state = \<lparr>t_heap = [50 \<mapsto> ex_box None None 16385 1 PlainT],
     t_meta = Map.empty, t_pc = \<lparr>pc_first = Some 50, pc_size = 1\<rparr>, t_root = ll_new, t_nonroot = ll_new, t_queue = lq_new\<rparr>"

lemma sx_isolated: "p \<in> dom (t_heap sx_state) - {50} \<Longrightarrow> isolated (t_heap sx_state) p"
  by (simp add: sx_state_def)

lemma sx_vtables: "vtables_ok (t_meta sx_state) (t_heap sx_state)"
  by (simp add: sx_state_def vtables_ok_def ex_box_def view_def)

lemma sx_facts: "pc_repr (t_pc sx_state) (t_heap sx_state) [50]" "mark_of (t_heap sx_state) 50 = PossibleCycles"
  "\<exists>b. t_heap sx_state 50 = Some b \<and> (\<exists>v. b_elem b = Some v)" "calls_of (t_heap sx_state) 50 = []"
  "rc_of (t_heap sx_state) 50 = 1" "tc_of (t_heap sx_state) 50 = 1"
  by (simp_all add: sx_state_def pc_repr_def links_def mark_of_def tc_of_def rc_of_def calls_of_def ex_box_def
      view_def mark_of_bits_def trace_empty_def)

end
