(* ===== verification/World_Example.thy ===== *)
theory World_Example
  imports Cyclic_Correct Unwrap Guards Trace_Example Trace_Panic User_Drop
begin

text \<open>
  Concrete worlds on which the properties of the public operations are witnessed: \<open>ex_world\<close>, the
  memory of \<open>ex_state\<close> with its accounts settled, and \<open>wx_world\<close>, where a weak pointer points to a
  box. The floating-point operations and the finalizers are concrete functions.
\<close>

definition ex_f64 :: "unit f64_ops" where
  "ex_f64 = \<lparr>f_of_usize = (\<lambda>_. ()), f_mul = (\<lambda>_ _. ()), f_le = (\<lambda>_ _. True), f_eq = (\<lambda>_ _. False),
     f_zero = (), f_tenth = (), f_one = ()\<rparr>"

text \<open>A \<open>SlotMap\<close> whose memory is the list of its actions, 0 in a slot that is empty.\<close>

definition ex_slotmap :: slotmap_ops where
  "ex_slotmap = \<lparr>sm_new = [], sm_insert = (\<lambda>a m. Some (length m, m @ [Suc a])),
     sm_remove = (\<lambda>k m. if k < length m \<and> m ! k \<noteq> 0 then (Some (m ! k - 1), m[k := 0]) else (None, m)),
     sm_values = (\<lambda>m. map (\<lambda>n. n - 1) (filter (\<lambda>n. n \<noteq> 0) m))\<rparr>"

definition ex_code :: "unit user_code" where
  "ex_code = \<lparr>uc_finalize = (\<lambda>_. ret ()), uc_drop = (\<lambda>_. ret ()), uc_action = (\<lambda>_. ret ()), uc_slotmap = ex_slotmap\<rparr>"

definition ex_gc_state :: gc_state where
  "ex_gc_state = state_new\<lparr>st_allocated_bytes := 256\<rparr>"

definition world_of :: "boxes \<Rightarrow> (maddr \<Rightarrow> boxed_metadata option) \<Rightarrow> pcycles \<Rightarrow> gc_state \<Rightarrow> unit world" where
  "world_of h M l s = \<lparr>w_boxes = h, w_meta = M, w_pc = l, w_state = s, w_config = config_new ex_f64,
     w_config_borrowed = False, w_state_alive = True, w_pc_alive = True, w_config_alive = True\<rparr>"

lemma world_of_sel [simp]:
  "w_boxes (world_of h M l s) = h" "w_meta (world_of h M l s) = M" "w_pc (world_of h M l s) = l"
  "w_state (world_of h M l s) = s" "w_config (world_of h M l s) = config_new ex_f64"
  "\<not> w_config_borrowed (world_of h M l s)" "w_state_alive (world_of h M l s)" "w_pc_alive (world_of h M l s)"
  "w_config_alive (world_of h M l s)"
  by (simp_all add: world_of_def)

definition ex_world :: "unit world" where
  "ex_world = world_of ex_heap Map.empty \<lparr>pc_first = Some 10, pc_size = 1\<rparr> ex_gc_state"

lemma ex_world_sel [simp]:
  "w_boxes ex_world = ex_heap" "w_meta ex_world = Map.empty" "w_state ex_world = ex_gc_state"
  "w_pc ex_world = \<lparr>pc_first = Some 10, pc_size = 1\<rparr>" "w_state_alive ex_world" "w_pc_alive ex_world" "w_config_alive ex_world"
  "\<not> w_config_borrowed ex_world" "w_config ex_world = config_new ex_f64"
  by (simp_all add: ex_world_def)

lemma ex_gc_state_sel [simp]:
  "\<not> st_collecting ex_gc_state" "\<not> st_finalizing ex_gc_state" "\<not> st_dropping ex_gc_state" "st_allocated_bytes ex_gc_state = 256"
  "st_executions_counter ex_gc_state = 0" "\<not> is_tracing ex_gc_state"
  by (simp_all add: ex_gc_state_def state_new_def is_tracing_def)

lemma ex_dom: "dom ex_heap = {10, 20, 30, 40}"
  by (auto simp: ex_heap_def)

lemma ex_meta: "ex_heap p = Some b \<Longrightarrow> \<not> v_meta (view (b_cm b)) \<and> b_metadata b = MetaVTable \<lparr>vt_size = 64\<rparr>"
  by (auto simp: ex_heap_def ex_box_def view_def split: if_splits)

lemma ex_buffered: "buffered [10] ex_world"
  unfolding buffered_def ex_world_sel
proof (intro conjI allI impI)
  show "pc_repr \<lparr>pc_first = Some 10, pc_size = 1\<rparr> ex_heap [10]"
    by (simp add: pc_repr_def links_def ex_heap_def ex_box_def)
  fix p b assume "ex_heap p = Some b"
  then show "v_mark (view (b_cm b)) = PossibleCycles \<longleftrightarrow> p \<in> set [10]"
    by (auto simp: ex_heap_def ex_box_def ex_view split: if_splits)
next
  fix p b assume "ex_heap p = Some b" "v_mark (view (b_cm b)) = NonMarked"
  then show "isolated ex_heap p" by (auto simp: ex_heap_def ex_box_def isolated_def links_def split: if_splits)
qed

lemma ex_weak_inv: "weak_inv {#} ex_world"
proof -
  have "\<not> owner ex_world p m" for p m using ex_meta by (auto simp: owner_def)
  moreover have "union_ok ex_world" using ex_meta by (auto simp: union_ok_def)
  ultimately show ?thesis by (simp add: weak_inv_def)
qed

lemma ex_gc_inv: "gc_inv [10] {#} ex_world"
  unfolding gc_inv_def
proof (intro conjI allI ballI impI)
  show "traceable (w_boxes ex_world) (set [10])" using ex_traceable by simp
  show "\<not> in_collector b" if "w_boxes ex_world p = Some b" for p b
    using that by (auto simp: ex_heap_def ex_box_def ex_view in_collector_def split: if_splits)
  show "tc_of (w_boxes ex_world) p < 16383" if "p \<in> reach (w_boxes ex_world) (set [10])" for p
    using that unfolding ex_world_sel ex_reach by (auto simp: tc_of_def ex_heap_def ex_box_def ex_view)
  show "tc_of (w_boxes ex_world) p = 0" if "p \<in> set [10]" for p
    using that by (auto simp: tc_of_def ex_heap_def ex_box_def ex_view)
qed (simp_all add: ex_buffered ex_weak_inv ex_dom)

lemma ex_glue: "glue_of ex_heap 10 = [DropCc 20, DropCc 30]" "glue_of ex_heap 20 = [DropCc 10]"
  "glue_of ex_heap 30 = [DropCc 40]" "glue_of ex_heap 40 = []"
  by (simp_all add: glue_of_def ex_heap_def ex_box_def)

lemma ex_accounted: "accounted {#} ex_world"
proof -
  have s: "size_of ex_world p = 64" if "p \<in> dom ex_heap" for p
    using that ex_meta by (auto simp: size_of_def)
  have "(\<Sum>p \<in> dom (w_boxes ex_world). size_of ex_world p) = (\<Sum>p \<in> dom ex_heap. 64)"
    by (rule sum.cong) (use s in simp_all)
  also have "\<dots> = unat (st_allocated_bytes (w_state ex_world))" by (simp add: ex_dom)
  finally show ?thesis by (simp add: accounted_def ex_dom ex_glue)
qed

lemma ex_world_garbage: "garbage (w_boxes ex_world) (set [10]) = {10, 20}"
  using ex_garbage by (simp only: ex_world_sel ex_t_heap)

lemma ex_quiet: "quiet (w_boxes ex_world) (set [10])"
  unfolding quiet_def ex_world_garbage unfolding ex_world_sel ex_reach
  by (auto simp: ex_calls ex_targets ex_glue) (auto simp: ex_heap_def ex_box_def finalize_tuple_def finalize_default_def
      finalize_option_def finalize_refcell_def)

lemma ex_world_card: "card (reach (w_boxes ex_world) (set [10])) < Suc 4"
  unfolding ex_world_sel ex_reach by simp

lemma ex_executions: "unat (st_executions_counter (w_state ex_world)) + 1 < 2 ^ 64"
  by simp

lemma ex_trigger_ready: "trigger_ready ex_world"
  by (simp add: trigger_ready_def config_new_def)

lemma ex_due: "due ex_world"
  by (simp add: due_def config_new_def should_collect_def DEFAULT_BYTES_THRESHOLD_def)

lemma ex_calm: "calm ex_world"
  by (simp add: calm_def)

lemma ex_guarded: "guarded ex_code"
  by (simp add: guarded_def ex_code_def keeps_basic)

definition ex_alloc :: allocator where
  "ex_alloc = \<lparr>al_box = (\<lambda>h. LEAST p. h p = None), al_meta = (\<lambda>M. LEAST m. M m = None)\<rparr>"

lemma least_free: "finite (dom h) \<Longrightarrow> h (LEAST p. h p = None) = None" for h :: "nat \<Rightarrow> 'a option"
proof (rule LeastI_ex)
  assume "finite (dom h)"
  from ex_new_if_finite [OF infinite_UNIV_nat this] show "\<exists>p. h p = None" by (simp add: domIff)
qed

lemma ex_alloc_fresh: "fresh_allocator ex_alloc"
  by (simp add: fresh_allocator_def ex_alloc_def least_free)

lemma ex_drop_inv: "drop_inv {} [10] {#} ex_world"
  unfolding drop_inv_def
proof (intro conjI allI impI)
  fix p b assume "w_boxes ex_world p = Some b"
  then show "in_collector b \<longleftrightarrow> p \<in> {}" "p \<in> set [10] \<Longrightarrow> v_tc (view (b_cm b)) = 0"
    by (auto simp: ex_heap_def ex_box_def ex_view in_collector_def split: if_splits)
qed (simp_all add: ex_buffered ex_weak_inv ex_calm ex_dom)

text \<open>
  Box 10 is held once, and \<open>n\<close> weak pointers point to it through the metadata at address 1; the cell
  of the weak counter is \<open>c\<close>.
\<close>

definition wx_weak :: weak_ptr where
  "wx_weak = \<lparr>wk_metadata = Some 1, wk_cc = 10\<rparr>"

definition wx_box :: ccbox where
  "wx_box = \<lparr>b_next = None, b_prev = None, b_metadata = MetaBoxed 1,
     b_cm = \<lparr>tracing_counter_cell = 1, counter_cell = 32769\<rparr>, b_elem = Some PlainT\<rparr>"

definition wx_world :: "u16 \<Rightarrow> unit world" where
  "wx_world c = world_of [10 \<mapsto> wx_box]
     [1 \<mapsto> \<lparr>bm_vtable = \<lparr>vt_size = 64\<rparr>, bm_weak = \<lparr>weak_counter_cell = c\<rparr>\<rparr>] pc_new (state_new\<lparr>st_allocated_bytes := 64\<rparr>)"

lemma wx_view [simp]: "view (b_cm wx_box) = \<lparr>v_mark = NonMarked, v_tc = 1, v_meta = True, v_fin = False, v_rc = 1\<rparr>"
  by (simp add: wx_box_def view_def mark_of_bits_def)

lemma wx_box_sel [simp]: "b_metadata wx_box = MetaBoxed 1" "b_elem wx_box = Some PlainT" "b_next wx_box = None" "b_prev wx_box = None"
  by (simp_all add: wx_box_def)

lemma wx_wview: "wview \<lparr>weak_counter_cell = 32769\<rparr> = \<lparr>w_acc = True, w_count = 1\<rparr>"
  "wview \<lparr>weak_counter_cell = 65535\<rparr> = \<lparr>w_acc = True, w_count = 32767\<rparr>"
  by (simp_all add: wview_def)

lemma wx_weak_inv:
  assumes "wview \<lparr>weak_counter_cell = c\<rparr> = \<lparr>w_acc = True, w_count = n\<rparr>"
  shows "weak_inv (replicate_mset n wx_weak) (wx_world c)"
proof -
  have own: "owner (wx_world c) p m \<longleftrightarrow> p = 10 \<and> m = 1" for p m by (auto simp: owner_def wx_world_def)
  have "union_ok (wx_world c)" by (simp add: union_ok_def wx_world_def)
  moreover have "size (to_meta 1 (replicate_mset n wx_weak)) = n" 
    by (induction n) (simp_all add: wx_weak_def)
  ultimately show ?thesis
    unfolding weak_inv_def own using assms
    by (auto simp: wx_world_def wx_weak_def)
qed

lemma wx_buffered: "buffered [] (wx_world c)"
  by (simp add: buffered_def wx_world_def pc_repr_def pc_new_def isolated_def links_def)

lemma wx_calm: "calm (wx_world c)"
  by (simp add: calm_def wx_world_def is_tracing_def state_new_def)

lemma wx_gc_inv: "gc_inv [] {#wx_weak#} (wx_world 32769)"
proof -
  have "weak_inv {#wx_weak#} (wx_world 32769)" using wx_weak_inv [OF wx_wview(1)] by simp
  moreover have "traceable (w_boxes (wx_world 32769)) {}" by (simp add: traceable_def reach_none)
  ultimately show ?thesis
    using wx_buffered by (simp add: gc_inv_def reach_none) (simp add: wx_world_def in_collector_def)
qed

lemma wx_weaks: "weaks_in (w_boxes (wx_world c)) = {#}" "mset (dropped_weaks (drop_glue (WeakT (Some 1) 10))) = {#wx_weak#}"
  by (simp_all add: weaks_in_def wx_world_def glue_of_def wx_weak_def)

lemma wx_accounted: "accounted {#wx_weak#} (wx_world 32769)"
  using wx_weaks(1) [of 32769] unfolding accounted_def weaks_in_def
  by simp (simp add: wx_world_def size_of_def state_new_def)

lemma wx_quiet: "quiet (w_boxes (wx_world c)) (set [])"
  using garbage_subset [of "w_boxes (wx_world c)" "{}"] by (auto simp: quiet_def reach_none)

lemma wx_drop_inv: "drop_inv {} [] {#wx_weak#} (wx_world 32769)"
  unfolding drop_inv_def
  using wx_weak_inv [OF wx_wview(1)] wx_buffered wx_calm by (simp add: wx_world_def in_collector_def)

text \<open>Box 10 has as many references as its counter can count.\<close>

definition ox_world :: "unit world" where
  "ox_world = world_of [10 \<mapsto> ex_box None None 1 16382 PlainT] Map.empty pc_new state_new"

lemma ox_facts: "w_boxes ox_world 10 = Some (ex_box None None 1 16382 PlainT)"
  "v_rc (view (b_cm (ex_box None None 1 16382 PlainT))) = 16382" "calm ox_world"
  by (simp_all add: ox_world_def ex_box_def view_def calm_def is_tracing_def state_new_def)

text \<open>The same for box 20 beside box 10, which has as many weak pointers as can be counted.\<close>

definition full_world :: "unit world" where
  "full_world = (wx_world 65535)\<lparr>w_boxes := [10 \<mapsto> wx_box, 20 \<mapsto> ex_box None None 1 16382 PlainT]\<rparr>"

lemma full_facts: "w_boxes full_world 20 = Some (ex_box None None 1 16382 PlainT)"
  "v_rc (view (b_cm (ex_box None None 1 16382 PlainT))) = 16382" "calm full_world"
  using wx_calm [of 65535] by (simp_all add: full_world_def ox_facts(2) calm_def)

lemma full_weak_inv: "weak_inv (replicate_mset 32767 wx_weak) full_world"
proof -
  have own: "owner full_world = owner (wx_world 65535)"
    by (intro ext) (auto simp: owner_def full_world_def wx_world_def ex_box_def view_def)
  have "w_meta full_world = w_meta (wx_world 65535)" by (simp add: full_world_def)
  moreover have "union_ok full_world"
    using weak_invD(1) [OF wx_weak_inv [OF wx_wview(2)]]
    by (auto simp: union_ok_def full_world_def wx_world_def ex_box_def view_def split: if_splits)
  ultimately show ?thesis using wx_weak_inv [OF wx_wview(2)] unfolding weak_inv_def own by simp
qed

lemma full_weaks: "size (to_meta 1 (replicate_mset 32767 wx_weak)) = 32767"
proof -
  have "to_meta 1 (replicate_mset n wx_weak) = replicate_mset n wx_weak" for n
    by (induction n) (simp_all add: wx_weak_def)
  then show ?thesis by simp
qed

text \<open>A world whose collection panics, because a \<open>trace\<close> does.\<close>

definition px_world :: "unit world" where
  "px_world = world_of (t_heap px_state) Map.empty (t_pc px_state) ex_gc_state"

lemma px_parts: "ready ([] @ 10 # [20]) px_state" "card (reach (t_heap px_state) (set ([] @ 10 # [20]))) < Suc 7"
  "\<forall>z \<in> set []. \<not> panics (calls_of (t_heap px_state) z)"
  "calls_of (t_heap px_state) 10 = [CallCc 20] @ CallPanic ''no'' # []" "\<not> panics [CallCc 20]"
  using px_ready px_card px_calls by (simp_all add: panics_def)

lemma px_trace: "\<exists>s'. collect_trace (Suc 7) px_state = Panicked (PanicMsg ''no'') s'"
  using stale_counter [OF px_parts] by blast

lemma px_collect: "\<exists>w'. collect ex_code (Suc 7) px_world = Panicked (PanicMsg ''no'') w'"
proof -
  let ?w = "px_world\<lparr>w_state := ex_gc_state\<lparr>st_collecting := True, st_executions_counter := 1\<rparr>\<rparr>"
  have s: "\<lparr>t_heap = w_boxes px_world, t_meta = w_meta px_world, t_pc = w_pc px_world, t_root = ll_new, t_nonroot = ll_new, t_queue = lq_new\<rparr> = px_state"
    by (simp add: px_world_def) (simp add: px_state_def)
  from px_trace obtain s' where "collect_trace (Suc 7) px_state = Panicked (PanicMsg ''no'') s'" ..
  then have "\<exists>v. collect_once ex_code (Suc 7) ?w = Panicked (PanicMsg ''no'') v"
    by (simp add: collect_once_def run_trace_def bindM_def zoom_def s)
  then obtain v where v: "collect_once ex_code (Suc 7) ?w = Panicked (PanicMsg ''no'') v" ..
  have "pc_is_empty (w_pc ?w) = False" by (simp add: px_world_def px_state_def pc_is_empty_def)
  with v have "collect_rounds ex_code (Suc 7) (Suc 9) ?w = Panicked (PanicMsg ''no'') v"
    by (subst collect_rounds.simps(2)) (simp add: bindM_def thenM_def del: collect_rounds.simps)
  then show "\<exists>v. collect ex_code (Suc 7) px_world = Panicked (PanicMsg ''no'') v"
    by (simp add: collect_def on_state_def zoom_def increment_executions_count_def set_collecting_def
        checked_add_def bindM_def thenM_def px_world_def with_guard_def del: collect_rounds.simps)
qed

lemma px_trigger: "\<exists>w'. trigger_collection ex_f64 ex_code (Suc 7) px_world = Panicked (PanicMsg ''no'') w'"
proof -
  note px_collect
  moreover have "due px_world"
    by (simp add: due_def px_world_def config_new_def should_collect_def DEFAULT_BYTES_THRESHOLD_def)
  ultimately show ?thesis
    using trigger_collection_eval [of px_world ex_f64 ex_code "Suc 7"] by (auto simp: px_world_def thenM_def bindM_def)
qed

text \<open>Box 10 is the map of a cleaner with one action, number 7, and one \<open>Cleanable\<close> for it.\<close>

definition mx_world :: "borrow_state \<Rightarrow> unit world" where
  "mx_world flag = celled 10 flag [8] (wx_world 32769)"

definition mx_cleanable :: cleanable where
  "mx_cleanable = \<lparr>cl_cleaner_map = wx_weak, cl_key = 0\<rparr>"

lemma mx_drop_inv: "drop_inv {} [] {#wx_weak#} (mx_world flag)"
  unfolding mx_world_def by (rule celled_inv [OF wx_drop_inv])

lemma mx_box: "w_boxes (mx_world flag) 10 = Some (wx_box\<lparr>b_elem := Some (CleanerMapT flag [8])\<rparr>)"
  by (simp add: mx_world_def wx_world_def)

lemma mx_view: "view (b_cm (wx_box\<lparr>b_elem := e\<rparr>)) = view (b_cm wx_box)"
  by simp

lemma mx_map: "map_in (mx_world flag) 10 1 flag [8]"
  unfolding map_in_def mx_box by (simp add: mx_view)

lemma mx_upgradable: "upgradable (cl_cleaner_map mx_cleanable) (mx_world flag)"
proof -
  have "owner (mx_world flag) 10 1" unfolding owner_def mx_box by (simp add: mx_view)
  then show ?thesis
    using upgradable_map [OF mx_drop_inv, of wx_weak 1 flag 1 flag "[8]"] mx_map by (simp add: mx_cleanable_def wx_weak_def)
qed

lemma mx_remove: "sm_remove (uc_slotmap ex_code) (cl_key mx_cleanable) [8] = (Some 7, [0])"
  by (simp add: ex_code_def ex_slotmap_def mx_cleanable_def)

lemma mx_leaves: "action_world ex_code mx_cleanable 1 m ps W w v \<Longrightarrow> leaves_map ex_code a 10 m v"
  by (auto simp: action_world_def Let_def leaves_map_def ex_code_def mx_cleanable_def wx_weak_def
      intro!: exI [of _ "remove1 10 ps"] exI [of _ W] exI [of _ "Suc (Suc 0)"])

lemma filter_mset_update:
  "k < length m \<Longrightarrow> m ! k \<noteq> 0 \<Longrightarrow> mset (filter (\<lambda>n. n \<noteq> 0) m) = add_mset (m ! k) (mset (filter (\<lambda>n. n \<noteq> 0) (m[k := 0])))"
  for m :: "nat list"
  by (simp add: mset_filter mset_update)

lemma ex_slotmap_laws: "slotmap_laws ex_slotmap"
proof -
  have "mset (map (\<lambda>n. n - 1) (filter (\<lambda>n. n \<noteq> 0) m)) =
      add_mset (m ! k - 1) (mset (map (\<lambda>n. n - 1) (filter (\<lambda>n. n \<noteq> 0) (m[k := 0]))))"
    if "k < length m" "m ! k \<noteq> 0" for k and m :: "nat list"
    using filter_mset_update [OF that] by (simp only: mset_map image_mset_add_mset)
  then show ?thesis
    unfolding slotmap_laws_def by (auto simp: ex_slotmap_def nth_append split: if_splits)
qed

end
