(* ===== verification/Program_Example.thy ===== *)
theory Program_Example
  imports Program World_Example
begin

text \<open>
  States of programs: \<open>ex_world\<close>, seen by a program that holds the \<open>Cc\<close> to box 30, so that 10 and 20
  are a cycle that it cannot reach; and the world of a new thread.
\<close>

definition ex_handles :: handles where
  "ex_handles = \<lparr>h_ccs = {#30#}, h_weaks = {#}\<rparr>"

lemma ex_plain: "ex_heap p = Some b \<Longrightarrow> box_sound F False b"
  by (auto simp: ex_heap_def ex_box_def box_sound_def view_def plain_val_def trace_tuple_def trace_cc_def trace_option_def
      trace_refcell_def trace_empty_def panics_def finalize_tuple_def finalize_default_def finalize_option_def finalize_refcell_def
      split: if_splits)

lemma ex_owned: "owned dropped_ccs ex_heap = {#20, 30, 10, 40#}" "owned dropped_weaks ex_heap = {#}"
  by (simp_all add: owned_def ex_dom ex_glue)

lemma ex_no_lost: "no_lost {} {10, 30} ex_heap"
proof -
  have "reach ex_heap (set [10]) \<subseteq> reach ex_heap {10, 30}"
    by (rule reach_mono_start) (auto intro: reach_start)
  then show ?thesis unfolding no_lost_def ex_dom ex_reach by blast
qed

lemma ex_sound: "sound F {} {} {#30#} {#} [10] {#} ex_world"
proof (rule soundI [OF ex_drop_inv])
  show "count {#30#} p + count (owned dropped_ccs (w_boxes ex_world)) p = rc_of (w_boxes ex_world) p" for p
  proof (cases "ex_heap p")
    case None
    then have "p \<notin> {10, 20, 30, 40}" using ex_dom by blast
    with None show ?thesis by (simp add: ex_owned rc_of_def)
  next
    case (Some b)
    then have "p \<in> {10, 20, 30, 40}" using ex_dom by blast
    then show ?thesis by (auto simp: ex_owned ex_rc)
  qed
  show "sizes ex_world = unat (st_allocated_bytes (w_state ex_world))"
    using ex_accounted by (simp add: accounted_def sizes_def)
qed (simp_all add: ex_plain ex_no_lost ex_owned)

lemma ex_safe: "safe F ex_handles ex_world"
  using ex_sound by (intro safeI [of _ _ "[10]" "{#}"]) (simp_all add: ex_handles_def idle_def config_new_def)

lemma ex_held: "reach ex_heap {30} = {30, 40}"
proof (rule reach_eqI)
  have 1: "30 \<in> reach ex_heap {30}" by (rule reach_start) simp
  then have "40 \<in> reach ex_heap {30}" by (rule reach_step) (simp add: ex_targets)
  with 1 show "{30, 40} \<subseteq> reach ex_heap {30}" by simp
qed (auto simp: ex_targets)

definition thread_world :: "unit world" where
  "thread_world = world_of Map.empty Map.empty pc_new state_new"

lemma thread_fresh: "fresh_thread thread_world"
  by (simp add: fresh_thread_def thread_world_def config_new_def)

lemma thread_permits: "plain_val F v \<Longrightarrow> drop_glue v = [] \<Longrightarrow> permitted F (NewCall 64 v) \<lparr>h_ccs = {#}, h_weaks = {#}\<rparr> thread_world"
  by (simp add: thread_world_def has_val_def counts_left_def room_for_def state_new_def)

lemma thread_safe: "safe F \<lparr>h_ccs = {#}, h_weaks = {#}\<rparr> thread_world"
  by (rule fresh_safe [OF thread_fresh])

text \<open>A closure for \<open>new_cyclic\<close> that makes a value holding one clone of the weak pointer.\<close>

definition self_weak :: "weak_ptr \<Rightarrow> tval" where
  "self_weak k = WeakT (wk_metadata k) (wk_cc k)"

lemma thread_permits_cyclic: "permitted F (NewCyclicCall 64 1 (\<lambda>k. Some (self_weak k))) \<lparr>h_ccs = {#}, h_weaks = {#}\<rparr> thread_world"
  by (simp add: thread_world_def has_val_def counts_left_def room_for_def state_new_def self_weak_def gain_clones_def plain_val_def
      trace_empty_def finalize_default_def plain_glue_def)

lemma thread_permits_panic: "permitted F (NewCyclicCall 64 1 (\<lambda>k. None)) \<lparr>h_ccs = {#}, h_weaks = {#}\<rparr> thread_world"
  by (simp add: thread_world_def counts_left_def room_for_def state_new_def)

subsection \<open>A finalizer that keeps what it finalizes\<close>

text \<open>
  \<open>keep_code\<close> has a finalizer with the number 0, which clones a \<open>Cc\<close> to the box at 50. The world
  \<open>rx_world\<close> has that box: its value, which owns nothing, has that finalizer.
\<close>

definition keep_code :: "unit user_code" where
  "keep_code = ex_code\<lparr>uc_finalize := (\<lambda>k. if k = 0 then clone_and_keep 50 else ret ())\<rparr>"

lemma keep_code_keeps: "keeps_sound {0} keep_code"
  by (rule clone_and_keep_keeps [where f = "\<lambda>_. 50"]) (simp add: keep_code_def)

definition rx_value :: tval where
  "rx_value = DeriveT False [] (Some 0)"

lemma rx_value_plain: "plain_val {0} rx_value" "finalize_val rx_value = [0]" "drop_glue rx_value = []" "trace_val rx_value = []"
  by (simp_all add: rx_value_def plain_val_def panics_def derive_trace_trait_def finalize_user_def plain_glue_def)

lemma thread_step: "\<exists>p H w. reachable {0} ex_f64 keep_code ex_alloc H w \<and> p \<in># h_ccs H"
proof -
  let ?H = "\<lparr>h_ccs = {#}, h_weaks = {#}\<rparr>" and ?c = "NewCall 64 rx_value :: unit api_call"
  have n: "card (dom (w_boxes thread_world)) < 1" by (simp add: thread_world_def)
  note p = thread_permits [OF rx_value_plain(1,3)]
  have "ends_well {0} ?c ?H thread_world (api ex_f64 keep_code 1 ex_alloc ?c ?H thread_world)"
    by (rule call_ok [OF keep_code_keeps thread_safe p ex_alloc_fresh n])
  then obtain H' H'' w where 1: "api ex_f64 keep_code 1 ex_alloc ?c ?H thread_world = Done H' w" "more_handles {0} H' H''" "safe {0} H'' w"
    by (auto simp: ends_well_def ccs_full_def weaks_full_def thread_world_def)
  from returned [OF started [OF thread_fresh] p 1(1) n 1(2) safe_is_exact [OF 1(3)]] have r: "reachable {0} ex_f64 keep_code ex_alloc H'' w" .
  from 1(1) obtain q where "H' = gain_cc q (lose_val rx_value ?H)" by (auto simp: bindM_eq_Done)
  with 1(2) have "q \<in># h_ccs H''" by (auto simp: more_handles_def gains_def gain_cc_def dest: mset_subset_eqD)
  with r show ?thesis by blast
qed

definition rx_heap :: boxes where
  "rx_heap = [50 \<mapsto> ex_box None None 1 1 rx_value]"

definition rx_world :: "unit world" where
  "rx_world = world_of rx_heap Map.empty pc_new (state_new\<lparr>st_allocated_bytes := 64\<rparr>)"

lemma rx_box: "view (b_cm (ex_box None None 1 1 v)) = \<lparr>v_mark = NonMarked, v_tc = 1, v_meta = False, v_fin = False, v_rc = 1\<rparr>"
  by (simp add: ex_box_def view_def mark_of_bits_def)

lemma rx_get: "rx_heap p = Some b \<longleftrightarrow> p = 50 \<and> b = ex_box None None 1 1 rx_value"
  by (auto simp: rx_heap_def)

lemma rx_meta [simp]: "b_metadata (ex_box nx pv s t v) = MetaVTable \<lparr>vt_size = 64\<rparr>" "b_elem (ex_box nx pv s t v) = Some v"
  "b_next (ex_box nx pv s t v) = nx" "b_prev (ex_box nx pv s t v) = pv"
  by (simp_all add: ex_box_def)

lemma rx_dom: "dom rx_heap = {50}"
  by (simp add: rx_heap_def)

lemma rx_drop_inv: "drop_inv {} [] {#} rx_world"
proof -
  have "links rx_heap p = (if p = 50 then Some (None, None) else None)" for p by (simp add: links_def rx_heap_def)
  then have "buffered [] rx_world"
    by (auto simp: buffered_def rx_world_def pc_repr_def pc_new_def isolated_def rx_get rx_box)
  moreover have "weak_inv {#} rx_world"
    by (auto simp: weak_inv_def rx_world_def rx_get union_ok_def owner_def rx_box)
  ultimately show ?thesis
    using rx_dom by (auto simp: drop_inv_def calm_def rx_world_def is_tracing_def state_new_def rx_get rx_box in_collector_def)
qed

lemma rx_sound: "sound {0} {} {} {#50#} {#} [] {#} rx_world"
proof (rule soundI [OF rx_drop_inv])
  note dom = rx_dom
  have glue: "glue_of rx_heap 50 = []" by (simp add: glue_of_def rx_heap_def ex_box_def rx_value_plain)
  have own: "owned dropped_ccs rx_heap = {#}" "owned dropped_weaks rx_heap = {#}" by (simp_all add: owned_def dom glue)
  show "box_sound {0} (p \<in> {}) b" if "w_boxes rx_world p = Some b" for p b
    using that rx_value_plain(1) by (auto simp: rx_world_def rx_get box_sound_def rx_box)
  show "no_lost {} (set_mset {#50#} \<union> set []) (w_boxes rx_world)"
    by (auto simp: no_lost_def rx_world_def dom intro: reach_start)
  show "count {#50#} p + count (owned dropped_ccs (w_boxes rx_world)) p = rc_of (w_boxes rx_world) p" for p
  proof -
    have "rc_of rx_heap p = (if p = 50 then 1 else 0)" by (simp add: rc_of_def rx_heap_def rx_box)
    then show ?thesis by (simp add: rx_world_def own)
  qed
  show "{#} + owned dropped_weaks (w_boxes rx_world) \<subseteq># {#}" by (simp add: rx_world_def own)
  show "sizes rx_world = unat (st_allocated_bytes (w_state rx_world))"
    by (simp add: sizes_def rx_world_def dom size_of_def rx_heap_def ex_box_def state_new_def)
qed simp_all

definition rx_handles :: handles where
  "rx_handles = \<lparr>h_ccs = {#50#}, h_weaks = {#}\<rparr>"

lemma rx_safe: "safe {0} rx_handles rx_world"
  using rx_sound by (intro safeI [of _ _ "[]" "{#}"]) (simp_all add: rx_handles_def idle_def rx_world_def config_new_def state_new_def)

lemma rx_facts: "w_boxes rx_world 50 = Some (ex_box None None 1 1 rx_value)" "v_rc (view (b_cm (ex_box None None 1 1 rx_value))) = 1"
  "b_elem (ex_box None None 1 1 rx_value) = Some rx_value" "\<not> v_fin (view (b_cm (ex_box None None 1 1 rx_value)))"
  by (simp_all add: rx_world_def rx_heap_def rx_box)

text \<open>The finalizer of the box at 50 resurrects it.\<close>

lemma rx_finalized:
  "\<exists>u qs c. forM (finalize_val rx_value) (uc_finalize keep_code) (finalizing_world 50 rx_world) = Done () u \<and> drop_inv {} qs {#} u \<and>
     w_boxes u 50 = Some c \<and> 1 < v_rc (view (b_cm c)) \<and> v_rc (view (b_cm c)) < 16383 \<and> v_tc (view (b_cm c)) < 16383 \<and> b_elem c = Some rx_value"
proof -
  let ?v = "finalizing_world 50 rx_world" and ?b = "(ex_box None None 1 1 rx_value)\<lparr>b_cm := set_finalized True (b_cm (ex_box None None 1 1 rx_value))\<rparr>"
  note s = finalizing_sound(1) [OF rx_sound, of 50]
  have b: "w_boxes ?v 50 = Some ?b" by (simp add: finalizing_world_def rx_facts)
  have rc: "v_rc (view (b_cm ?b)) = 1" by (simp add: cm_upd rx_box)
  from clone_sound [OF s b] rc obtain w qs where
    1: "cc_clone 50 ?v = Done 50 w" "sound {0} {} {} {#50, 50#} {#} qs {#} w" "unseen {} {} ?v w" by auto
  have "(50 :: addr) \<in># {#50, 50#}" by simp
  from sound_live [OF 1(2) this] obtain c where c: "w_boxes w 50 = Some c" "v_rc (view (b_cm c)) < 16383" "v_tc (view (b_cm c)) < 16383" by metis
  have "count {#50, 50 :: addr#} 50 \<le> rc_of (w_boxes w) 50" using soundD(5) [OF 1(2), of 50] by linarith
  then have two: "1 < v_rc (view (b_cm c))" using c(1) by (simp add: rc_of_def)
  have "vals_of w 50 = Some rx_value"
    using unseen_vals [OF 1(3)] finalizing_sound(3) [OF rx_sound, of 50] by (simp add: vals_of_def rx_facts)
  then have elem: "b_elem c = Some rx_value" using c(1) by (simp add: vals_of_def)
  have "clone_and_keep 50 ?v = Done () w" using b rc 1(1) by (simp add: clone_and_keep_def)
  then have "forM (finalize_val rx_value) (uc_finalize keep_code) ?v = Done () w" by (simp add: rx_value_plain keep_code_def)
  with soundD(1) [OF 1(2)] c two elem show ?thesis by blast
qed

text \<open>A cycle of one box that the program cannot reach; it is buffered, and its finalizer resurrects it.\<close>

definition cx_heap :: boxes where
  "cx_heap = [50 \<mapsto> ex_box None None 16384 1 (DeriveT False [(False, CcT 50)] (Some 0))]"

definition cx_world :: "unit world" where
  "cx_world = world_of cx_heap Map.empty \<lparr>pc_first = Some 50, pc_size = 1\<rparr> (state_new\<lparr>st_allocated_bytes := 64\<rparr>)"

lemma cx_dom: "dom cx_heap = {50}"
  by (simp add: cx_heap_def)

lemma cx_get: "cx_heap p = Some b \<longleftrightarrow> p = 50 \<and> b = ex_box None None 16384 1 (DeriveT False [(False, CcT 50)] (Some 0))"
  by (auto simp: cx_heap_def)

lemma cx_box: "view (b_cm (ex_box None None 16384 1 v)) = \<lparr>v_mark = PossibleCycles, v_tc = 0, v_meta = False, v_fin = False, v_rc = 1\<rparr>"
  by (simp add: ex_box_def view_def mark_of_bits_def)

lemma cx_drop_inv: "drop_inv {} [50] {#} cx_world"
proof -
  have "links cx_heap p = (if p = 50 then Some (None, None) else None)" for p by (simp add: links_def cx_heap_def)
  then have "buffered [50] cx_world"
    by (auto simp: buffered_def cx_world_def pc_repr_def cx_get cx_box)
  moreover have "weak_inv {#} cx_world"
    by (auto simp: weak_inv_def cx_world_def cx_get union_ok_def owner_def cx_box)
  ultimately show ?thesis
    using cx_dom by (auto simp: drop_inv_def calm_def cx_world_def is_tracing_def state_new_def cx_get cx_box in_collector_def)
qed

lemma cx_safe: "safe {0} \<lparr>h_ccs = {#}, h_weaks = {#}\<rparr> cx_world"
proof -
  let ?v = "DeriveT False [(False, CcT 50)] (Some 0)"
  have v: "plain_val {0} ?v" "drop_glue ?v = [DropCc 50]"
    by (simp_all add: plain_val_def panics_def derive_trace_trait_def trace_cc_def finalize_user_def plain_glue_def)
  have own: "owned dropped_ccs cx_heap = {#50#}" "owned dropped_weaks cx_heap = {#}"
    by (simp_all add: owned_def cx_dom glue_of_def) (simp_all add: cx_heap_def v)
  have "sound {0} {} {} {#} {#} [50] {#} cx_world"
  proof (rule soundI [OF cx_drop_inv])
    show "box_sound {0} (p \<in> {}) b" if "w_boxes cx_world p = Some b" for p b
      using that v(1) by (auto simp: cx_world_def cx_get box_sound_def cx_box)
    show "no_lost {} (set_mset {#} \<union> set [50]) (w_boxes cx_world)" by (auto simp: no_lost_def cx_world_def cx_dom intro: reach_start)
    show "count {#} p + count (owned dropped_ccs (w_boxes cx_world)) p = rc_of (w_boxes cx_world) p" for p
    proof -
      have "rc_of cx_heap p = (if p = 50 then 1 else 0)" by (simp add: rc_of_def cx_heap_def cx_box)
      then show ?thesis by (simp add: cx_world_def own)
    qed
    show "{#} + owned dropped_weaks (w_boxes cx_world) \<subseteq># {#}" by (simp add: cx_world_def own)
    show "sizes cx_world = unat (st_allocated_bytes (w_state cx_world))"
      by (simp add: sizes_def cx_world_def cx_dom size_of_def cx_heap_def state_new_def)
  qed simp_all
  then show ?thesis by (intro safeI [of _ _ "[50]" "{#}"]) (simp_all add: idle_def cx_world_def config_new_def state_new_def)
qed

end
