(* ===== verification/Derive_Attr.thy ===== *)
theory Derive_Attr
  imports Trace_Impl
begin

text \<open>
  The attributes of \<open>#[derive(Trace)]\<close>: the first half of \<open>derive_trace_trait\<close> and the functions
  \<open>get_meta_items\<close> and \<open>attr_contains\<close> of \<open>src/derive/src/lib.rs\<close>, which run in the compiler. They
  decide which fields and variants are traced and whether an empty \<open>Drop\<close> is generated. The state of
  a run is the list of the errors it has emitted; \<open>abort_if_dirty\<close> ends the macro when there is one.

  Attributes are those of the crate syn: a path is the list of its segments, and \<open>parse_args_with\<close>,
  which splits the tokens of a list at its commas, is a parameter (its error is a message).
\<close>

type_synonym path = "string list"
type_synonym tokens = string

datatype meta = MetaPath path | MetaList path tokens | MetaNameValue path

type_synonym parse_args = "tokens \<Rightarrow> string + meta list"
type_synonym 'a macro = "(string list, 'a) prog"

definition is_ident :: "path \<Rightarrow> string \<Rightarrow> bool" where
  "is_ident p ident \<longleftrightarrow> p = [ident]"

fun meta_path :: "meta \<Rightarrow> path" where
  "meta_path (MetaPath p) = p"
| "meta_path (MetaList p t) = p"
| "meta_path (MetaNameValue p) = p"

definition IGNORE :: string where
  "IGNORE = ''ignore''"

definition UNSAFE_NO_DROP :: string where
  "UNSAFE_NO_DROP = ''unsafe_no_drop''"

definition ALLOWED_ATTR_META_ITEMS :: "string list" where
  "ALLOWED_ATTR_META_ITEMS = [IGNORE, UNSAFE_NO_DROP]"

definition emit_error :: "string \<Rightarrow> unit macro" where
  "emit_error msg = modifyM (\<lambda>errs. errs @ [msg])"

definition abort_if_dirty :: "unit macro" where
  "abort_if_dirty = (\<lambda>errs. if errs = [] then Done () errs else Panicked (PanicMsg ''abort'') errs)"

subsection \<open>One attribute\<close>

definition get_meta_items :: "meta \<Rightarrow> tokens option macro" where
  "get_meta_items attr = (if is_ident (meta_path attr) ''rust_cc''
     then (case attr of MetaList p toks \<Rightarrow> ret (Some toks)
           | _ \<Rightarrow> thenM (emit_error ''Invalid attribute'') (ret None))
     else ret None)"

fun scan_metas :: "string \<Rightarrow> meta list \<Rightarrow> bool macro" where
  "scan_metas ident [] = ret False"
| "scan_metas ident (MetaPath path # ms) =
     (if is_ident path ident then ret True
      else if list_ex (is_ident path) ALLOWED_ATTR_META_ITEMS
        then thenM (emit_error ''Invalid attribute position'') (scan_metas ident ms)
      else thenM (emit_error ''Unrecognized attribute'') (scan_metas ident ms))"
| "scan_metas ident (err # ms) = thenM (emit_error ''Invalid attribute'') (scan_metas ident ms)"

definition attr_contains :: "parse_args \<Rightarrow> meta \<Rightarrow> string \<Rightarrow> bool macro" where
  "attr_contains parse attr ident = bindM (get_meta_items attr) (\<lambda>items. case items of
     None \<Rightarrow> ret False
   | Some meta_list \<Rightarrow> (case parse meta_list of
       Inl err \<Rightarrow> thenM (emit_error (''Invalid attribute: '' @ err)) (ret False)
     | Inr nested \<Rightarrow> scan_metas ident nested))"

text \<open>\<open>attrs.iter().any(..)\<close> stops at the first attribute that contains the name.\<close>

fun any_contains :: "parse_args \<Rightarrow> string \<Rightarrow> meta list \<Rightarrow> bool macro" where
  "any_contains parse ident [] = ret False"
| "any_contains parse ident (attr # attrs) =
     bindM (attr_contains parse attr ident) (\<lambda>b. if b then ret True else any_contains parse ident attrs)"

subsection \<open>A type\<close>

text \<open>A variant has attributes and fields, each with its attributes; a struct has one variant.\<close>

record 'a variant_ast =
  va_attrs :: "meta list"
  va_fields :: "(meta list \<times> 'a) list"

record 'a type_ast =
  ta_attrs :: "meta list"
  ta_is_enum :: bool
  ta_variants :: "'a variant_ast list"

fun mapM :: "('a \<Rightarrow> 'b macro) \<Rightarrow> 'a list \<Rightarrow> 'b list macro" where
  "mapM f [] = ret []"
| "mapM f (x # xs) = bindM (f x) (\<lambda>y. bindM (mapM f xs) (\<lambda>ys. ret (y # ys)))"

definition ignored :: "parse_args \<Rightarrow> meta list \<times> 'a \<Rightarrow> (bool \<times> 'a) macro" where
  "ignored parse f = bindM (any_contains parse IGNORE (fst f)) (\<lambda>b. ret (b, snd f))"

definition variant_ignored :: "parse_args \<Rightarrow> bool \<Rightarrow> 'a variant_ast \<Rightarrow> bool macro" where
  "variant_ignored parse is_enum v = (if is_enum then any_contains parse IGNORE (va_attrs v) else ret False)"

text \<open>
  Which variants and fields are ignored, in the form that \<open>derive_trace_trait\<close> takes for each variant,
  and whether no \<open>Drop\<close> is to be generated.
\<close>

definition derive_attributes :: "parse_args \<Rightarrow> 'a type_ast \<Rightarrow> (bool \<times> (bool \<times> (bool \<times> 'a) list) list) macro" where
  "derive_attributes parse t =
     bindM (any_contains parse UNSAFE_NO_DROP (ta_attrs t)) (\<lambda>no_drop.
     bindM (mapM (\<lambda>v. mapM (ignored parse) (va_fields v)) (ta_variants t)) (\<lambda>fields.
     bindM (mapM (variant_ignored parse (ta_is_enum t)) (ta_variants t)) (\<lambda>variants.
     thenM abort_if_dirty (ret (no_drop, zip variants fields)))))"

subsection \<open>What an attribute means\<close>

text \<open>The metas before the first one with the name are all errors, those after it are not looked at.\<close>

definition says :: "parse_args \<Rightarrow> string \<Rightarrow> meta \<Rightarrow> bool" where
  "says parse ident attr \<longleftrightarrow> (\<exists>toks ms. attr = MetaList [''rust_cc''] toks \<and> parse toks = Inr ms \<and> MetaPath [ident] \<in> set ms)"

text \<open>
  An attribute that is not for this macro, or that has the name first, or that has nothing.
\<close>

definition well_placed :: "parse_args \<Rightarrow> string \<Rightarrow> meta \<Rightarrow> bool" where
  "well_placed parse ident attr \<longleftrightarrow> meta_path attr \<noteq> [''rust_cc''] \<or>
     (\<exists>toks ms. attr = MetaList [''rust_cc''] toks \<and> parse toks = Inr ms \<and> (ms = [] \<or> hd ms = MetaPath [ident]))"

lemma scan_metas_eval:
  "\<exists>es. scan_metas ident ms errs = Done (MetaPath [ident] \<in> set ms) (errs @ es) \<and> (es = [] \<longleftrightarrow> ms = [] \<or> hd ms = MetaPath [ident])"
proof (induction ms arbitrary: errs)
  case (Cons m ms)
  show ?case
  proof (cases "m = MetaPath [ident]")
    case False
    have "\<exists>msg. scan_metas ident (m # ms) = thenM (emit_error msg) (scan_metas ident ms)"
    proof (cases m)
      case (MetaPath p)
      with False show ?thesis by (cases "list_ex (is_ident p) ALLOWED_ATTR_META_ITEMS") (auto simp: is_ident_def)
    qed auto
    then obtain msg where "scan_metas ident (m # ms) = thenM (emit_error msg) (scan_metas ident ms)" by blast
    moreover from Cons.IH [of "errs @ [msg]"] obtain es where
      "scan_metas ident ms (errs @ [msg]) = Done (MetaPath [ident] \<in> set ms) (errs @ [msg] @ es)" by auto
    ultimately show ?thesis using False by (intro exI [of _ "msg # es"]) (simp add: emit_error_def thenM_def)
  qed (simp add: is_ident_def)
qed simp

lemma attr_contains_eval:
  "\<exists>es. attr_contains parse attr ident errs = Done (says parse ident attr) (errs @ es) \<and> (es = [] \<longleftrightarrow> well_placed parse ident attr)"
proof (cases "meta_path attr = [''rust_cc'']")
  case False
  then have "\<not> says parse ident attr" by (auto simp: says_def)
  with False show ?thesis by (simp add: attr_contains_def get_meta_items_def is_ident_def well_placed_def)
next
  case True
  show ?thesis
  proof (cases "\<exists>toks. attr = MetaList [''rust_cc''] toks")
    case False
    with True obtain p where "attr = MetaPath p \<or> attr = MetaNameValue p" by (cases attr) auto
    with True show ?thesis
      by (auto simp: attr_contains_def get_meta_items_def is_ident_def well_placed_def says_def emit_error_def thenM_def bindM_def)
  next
    case True
    then obtain toks where a: "attr = MetaList [''rust_cc''] toks" by blast
    show ?thesis
    proof (cases "parse toks")
      case (Inl err)
      with a show ?thesis
        by (simp add: attr_contains_def get_meta_items_def is_ident_def well_placed_def says_def emit_error_def thenM_def)
    next
      case (Inr ms)
      with a scan_metas_eval [of ident ms errs] show ?thesis
        by (simp add: attr_contains_def get_meta_items_def is_ident_def well_placed_def says_def)
    qed
  qed
qed

fun looked_at :: "(meta \<Rightarrow> bool) \<Rightarrow> meta list \<Rightarrow> meta list" where
  "looked_at P [] = []"
| "looked_at P (m # ms) = (if P m then [m] else m # looked_at P ms)"

lemma any_contains_eval:
  "\<exists>es. any_contains parse ident attrs errs = Done (\<exists>a \<in> set attrs. says parse ident a) (errs @ es) \<and>
     (es = [] \<longleftrightarrow> (\<forall>a \<in> set (looked_at (says parse ident) attrs). well_placed parse ident a))"
proof (induction attrs arbitrary: errs)
  case (Cons a attrs)
  from attr_contains_eval [of parse a ident errs] obtain es where
    a: "attr_contains parse a ident errs = Done (says parse ident a) (errs @ es)" "es = [] \<longleftrightarrow> well_placed parse ident a" by blast
  show ?case
  proof (cases "says parse ident a")
    case False
    from Cons.IH [of "errs @ es"] obtain fs where
      "any_contains parse ident attrs (errs @ es) = Done (\<exists>a \<in> set attrs. says parse ident a) (errs @ es @ fs)"
      "fs = [] \<longleftrightarrow> (\<forall>a \<in> set (looked_at (says parse ident) attrs). well_placed parse ident a)" by auto
    with a False show ?thesis by (intro exI [of _ "es @ fs"]) auto
  qed (use a in auto)
qed simp

lemma mapM_eval:
  assumes "\<And>x errs. \<exists>es. f x errs = Done (g x) (errs @ es) \<and> (es = [] \<longleftrightarrow> P x)"
  shows "\<exists>es. mapM f xs errs = Done (map g xs) (errs @ es) \<and> (es = [] \<longleftrightarrow> (\<forall>x \<in> set xs. P x))"
proof (induction xs arbitrary: errs)
  case (Cons x xs)
  from assms [of x errs] obtain es where x: "f x errs = Done (g x) (errs @ es)" "es = [] \<longleftrightarrow> P x" by blast
  from Cons.IH [of "errs @ es"] obtain fs where
    "mapM f xs (errs @ es) = Done (map g xs) (errs @ es @ fs)" "fs = [] \<longleftrightarrow> (\<forall>x \<in> set xs. P x)" by auto
  with x show ?case by (intro exI [of _ "es @ fs"]) auto
qed simp

subsection \<open>The macro\<close>

definition says_any :: "parse_args \<Rightarrow> string \<Rightarrow> meta list \<Rightarrow> bool" where
  "says_any parse ident attrs \<longleftrightarrow> (\<exists>a \<in> set attrs. says parse ident a)"

definition all_placed :: "parse_args \<Rightarrow> string \<Rightarrow> meta list \<Rightarrow> bool" where
  "all_placed parse ident attrs \<longleftrightarrow> (\<forall>a \<in> set (looked_at (says parse ident) attrs). well_placed parse ident a)"

lemma any_contains_says:
  "\<exists>es. any_contains parse ident attrs errs = Done (says_any parse ident attrs) (errs @ es) \<and> (es = [] \<longleftrightarrow> all_placed parse ident attrs)"
  using any_contains_eval [of parse ident attrs errs] by (simp add: says_any_def all_placed_def)

definition accepted :: "parse_args \<Rightarrow> 'a type_ast \<Rightarrow> bool" where
  "accepted parse t \<longleftrightarrow> all_placed parse UNSAFE_NO_DROP (ta_attrs t) \<and>
     (\<forall>v \<in> set (ta_variants t). (\<forall>f \<in> set (va_fields v). all_placed parse IGNORE (fst f)) \<and>
        (ta_is_enum t \<longrightarrow> all_placed parse IGNORE (va_attrs v)))"

definition ignored_parts :: "parse_args \<Rightarrow> 'a type_ast \<Rightarrow> (bool \<times> (bool \<times> 'a) list) list" where
  "ignored_parts parse t = map (\<lambda>v. (ta_is_enum t \<and> says_any parse IGNORE (va_attrs v),
     map (\<lambda>f. (says_any parse IGNORE (fst f), snd f)) (va_fields v))) (ta_variants t)"

lemma ignored_eval:
  "\<exists>es. ignored parse f errs = Done (says_any parse IGNORE (fst f), snd f) (errs @ es) \<and> (es = [] \<longleftrightarrow> all_placed parse IGNORE (fst f))"
  using any_contains_says [of parse IGNORE "fst f" errs] by (auto simp: ignored_def)

lemma variant_ignored_eval:
  "\<exists>es. variant_ignored parse e v errs = Done (e \<and> says_any parse IGNORE (va_attrs v)) (errs @ es) \<and>
     (es = [] \<longleftrightarrow> (e \<longrightarrow> all_placed parse IGNORE (va_attrs v)))"
  using any_contains_says [of parse IGNORE "va_attrs v" errs] by (auto simp: variant_ignored_def)

lemma derive_attributes_eval:
  "\<exists>es. derive_attributes parse t [] =
     (if es = [] then Done (says_any parse UNSAFE_NO_DROP (ta_attrs t), ignored_parts parse t) [] else Panicked (PanicMsg ''abort'') es) \<and>
     (es = [] \<longleftrightarrow> accepted parse t)"
proof -
  let ?fs = "\<lambda>v. map (\<lambda>f. (says_any parse IGNORE (fst f), snd f)) (va_fields v)"
  let ?vi = "\<lambda>v. ta_is_enum t \<and> says_any parse IGNORE (va_attrs v)"
  from any_contains_says [of parse UNSAFE_NO_DROP "ta_attrs t" "[]"] obtain es where
    1: "any_contains parse UNSAFE_NO_DROP (ta_attrs t) [] = Done (says_any parse UNSAFE_NO_DROP (ta_attrs t)) es"
    "es = [] \<longleftrightarrow> all_placed parse UNSAFE_NO_DROP (ta_attrs t)" by auto
  have inner: "\<exists>es. mapM (ignored parse) (va_fields v) errs = Done (?fs v) (errs @ es) \<and>
      (es = [] \<longleftrightarrow> (\<forall>f \<in> set (va_fields v). all_placed parse IGNORE (fst f)))" for v :: "'a variant_ast" and errs
    by (rule mapM_eval) (rule ignored_eval)
  from mapM_eval [where f = "\<lambda>v. mapM (ignored parse) (va_fields v)" and xs = "ta_variants t" and errs = es, OF inner] obtain fs where
    2: "mapM (\<lambda>v. mapM (ignored parse) (va_fields v)) (ta_variants t) es = Done (map ?fs (ta_variants t)) (es @ fs)"
    "fs = [] \<longleftrightarrow> (\<forall>v \<in> set (ta_variants t). \<forall>f \<in> set (va_fields v). all_placed parse IGNORE (fst f))" by blast
  from mapM_eval [where f = "variant_ignored parse (ta_is_enum t)" and xs = "ta_variants t" and errs = "es @ fs", OF variant_ignored_eval] obtain gs where
    3: "mapM (variant_ignored parse (ta_is_enum t)) (ta_variants t) (es @ fs) = Done (map ?vi (ta_variants t)) (es @ fs @ gs)"
    "gs = [] \<longleftrightarrow> (\<forall>v \<in> set (ta_variants t). ta_is_enum t \<longrightarrow> all_placed parse IGNORE (va_attrs v))" by auto
  have "zip (map ?vi (ta_variants t)) (map ?fs (ta_variants t)) = ignored_parts parse t"
    by (simp add: ignored_parts_def zip_map_map zip_same_conv_map)
  with 1 2 3 show ?thesis
    by (intro exI [of _ "es @ fs @ gs"]) (auto simp: derive_attributes_def accepted_def abort_if_dirty_def thenM_def bindM_def)
qed

lemma derive_accepts:
  "(\<exists>r errs. derive_attributes parse t [] = Done r errs) \<longleftrightarrow> accepted parse t"
  "accepted parse t \<Longrightarrow> derive_attributes parse t [] = Done (says_any parse UNSAFE_NO_DROP (ta_attrs t), ignored_parts parse t) []"
  using derive_attributes_eval [of parse t] by auto

text \<open>The fields that the generated \<open>trace\<close> visits: those of a variant and a field that are not ignored.\<close>

lemma derived_trace_visits:
  assumes "accepted parse t" "i < length (ta_variants t)"
  shows "\<exists>no_drop vs. derive_attributes parse t [] = Done (no_drop, vs) [] \<and> length vs = length (ta_variants t) \<and>
    (case vs ! i of (ign, fs) \<Rightarrow> derive_trace_trait tr ign fs) =
    (if ta_is_enum t \<and> says_any parse IGNORE (va_attrs (ta_variants t ! i)) then []
     else concat [tr a. (attrs, a) \<leftarrow> va_fields (ta_variants t ! i), \<not> says_any parse IGNORE attrs])"
proof -
  have "concat (map (\<lambda>f. tr (snd f)) (filter (\<lambda>f. \<not> fst f) (map (\<lambda>f. (says_any parse IGNORE (fst f), snd f)) fs))) =
      concat [tr a. (attrs, a) \<leftarrow> fs, \<not> says_any parse IGNORE attrs]" for fs
    by (induction fs) auto
  with assms(2) derive_accepts(2) [OF assms(1)] show ?thesis
    by (simp add: ignored_parts_def derive_trace_trait_def)
qed

end
