(* ===== verification/Spec2Isabelle.thy ===== *)
theory Spec2Isabelle
  imports Trace_Panic Program_Example Cc_Traits Derive_Attr
begin

text \<open>
  A verification of rust-cc, a cycle-collecting reference counter for Rust (\<open>src/src\<close>), with the
  derive macro of \<open>src/derive\<close>.

  \<^bold>\<open>The program.\<close> A \<open>Cc<T>\<close> points to a \<open>CcBox<T>\<close>, which holds two packed counters, a pair of links, a
  union of a vtable pointer and a pointer to the metadata that weak pointers share, and the element.
  Dropping a \<open>Cc\<close> that is not the last one puts its box into the thread-local buffer
  \<open>POSSIBLE_CYCLES\<close>. A collection takes the buffer, counts the references that come from inside the
  reached part of the memory, traces what is referenced from outside, finalizes what is left, and
  frees it if no finalizer has run. Collections are started by \<open>collect_cycles\<close> or, when the
  thresholds of the configuration are passed, by \<open>Cc::new\<close>.

  \<^bold>\<open>How it is modelled.\<close> A method is a state transformer with four outcomes: it returns, it panics, it
  has undefined behaviour, or the fuel of the model runs out (theory Prelude). The state of the public
  operations is the record \<open>world\<close> (Gc_World): the memory of boxes, the memory of metadata, the
  buffer, the collector's state, the configuration, and whether each thread local is still alive. An
  address is a number; reading or writing an address that is not allocated is undefined behaviour, so
  that a theorem that an operation is \<open>Done\<close> includes that it touches no freed memory, that no
  \<open>debug_assert!\<close> fires and that no arithmetic overflows. The build is the debug build with the
  features std, finalization, weak-ptrs, auto-collect, cleaners and derive, without nightly and
  without pedantic-debug-assertions.

  \<^bold>\<open>Theories and sources.\<close>
  \<^item> Prelude: outcomes, programs, drop guards, loops with fuel, checked arithmetic, the calculus \<open>wp\<close>.
  \<^item> Bounded_Counter, Counter_Marker, Weak_Counter_Marker: \<open>counter_marker.rs\<close> and
    \<open>weak/weak_counter_marker.rs\<close>. The 16-bit words with their masks; \<open>view\<close> reads their fields, and
    the two theories interpret the locale of a counter that saturates.
  \<^item> Trace_Impl: \<open>trace.rs\<close> and the derive macros. A value is a \<open>tval\<close>; \<open>trace_val\<close>, \<open>finalize_val\<close> and
    \<open>drop_glue\<close> are what its \<open>trace\<close>, its \<open>finalize\<close> and its drop glue do, as lists of calls.
    Derive_Attr: the attributes of the derive macro, and the errors it emits for wrong ones.
  \<^item> Cc_Box, List_Segments, Intrusive, Lists, Lists_Append: \<open>struct CcBox\<close> and \<open>lists.rs\<close>. The lists
    threaded through the boxes represent HOL lists (\<open>ll_repr\<close>, \<open>pc_repr\<close>, \<open>lq_repr\<close>); the locales
    \<open>intrusive\<close> and \<open>intrusive_removable\<close> are the contract the collector relies on.
  \<^item> Tracing: \<open>CcBox::trace\<close>, \<open>trace_counting\<close> and \<open>trace_roots\<close> of \<open>cc.rs\<close> and \<open>lib.rs\<close>. Trace_Refine,
    Trace_Steps, Trace_Graph, Trace_Count, Trace_Survive, Trace_Correct: the refinement of the linked
    lists by abstract ones, the graph of references, the invariants of both phases, and their result.
    Trace_Panic: what a panic of a \<open>trace\<close> leaves behind, and what the next collection makes of it.
  \<^item> Gc_State: \<open>state.rs\<close>, \<open>replace_state_field!\<close> included. Config: \<open>config.rs\<close>; the operations on
    \<open>f64\<close> are a parameter.
  \<^item> Gc_World, Gc_Buffer: allocation, metadata, \<open>add_to_list\<close> and \<open>remove_from_list\<close> of \<open>cc.rs\<close> and
    \<open>utils.rs\<close>; \<open>buffered\<close> is the invariant of the buffer. The virtual calls of a box, \<open>trace\<close>,
    \<open>finalize\<close> and the drop of its element, read its vtable first (\<open>get_traceable\<close>, \<open>read_vtable\<close>): the
    wrong member of the union, or metadata that is gone, is undefined behaviour.
  \<^item> Cc_Ops, Unwrap, Cc_Traits: the methods of \<open>Cc\<close>. Weak_Ptr, Weak_Safety: \<open>weak/mod.rs\<close>;
    \<open>weak_inv W\<close> says that the weak counters count the weak pointers \<open>W\<close> and that the metadata knows
    which boxes exist. New_Cyclic, Cyclic_Correct: \<open>Cc::new_cyclic\<close>; Cyclic_Calls: with a closure that
    clones its weak pointer it ends in the same world as a sequence of other calls, so that it keeps
    the ownership invariant.
  \<^item> Thread_Local: \<open>NoStdLocalKey\<close> and the macro \<open>rust_cc_thread_local!\<close> of \<open>utils.rs\<close> for builds without std,
    the three thread locals of the crate, and the world of a new thread.
  \<^item> Cc_Drop: \<open>Cc::drop\<close>. Drop_Steps, Destroy, Dealloc, Last_Drop, User_Drop: what destroying values and
    freeing boxes does, for references that are not the last ones, for the garbage of a collection,
    and for values with destructors of their own.
  \<^item> Collect: \<open>collect_cycles\<close>, \<open>trigger_collection\<close>, \<open>collect\<close>, \<open>__collect\<close> and \<open>deallocate_list\<close> of
    \<open>lib.rs\<close> and \<open>Cc::new\<close>. Iteration, Collect_Graph, Collect_Round, Collect_Once, Collect_Correct,
    Collect_Entry, New_Box: a round of a collection, a collection, the entry points, creation.
  \<^item> Guards: the flags of the collector are restored on every path.
  \<^item> Cleaners, Cleaner_Correct, Cleaner_Register: \<open>cleaners/mod.rs\<close>. The actions and the operations of
    the crate slotmap are parameters; \<open>slotmap_laws\<close> is what is used of that crate.
  \<^item> Ownership, Cascade: \<open>sound\<close>, the invariant of ownership, and \<open>Cc::drop\<close> for every value: destructors
    that run destructors of boxes whose last reference they are, however deep, and finalizers that may
    resurrect what is dropped; \<open>keeps_sound\<close> is what is asked of finalizers.
  \<^item> Finalizing: whole collections of values with finalizers: \<open>finalize_list\<close>, putting the boxes back,
    the rounds that follow; and \<open>clone_and_keep\<close>, a finalizer that resurrects.
  \<^item> Api_Ops, Api_Collect, Program: every call of the public interface keeps \<open>sound\<close>; a program as a
    sequence of such calls (\<open>api_call\<close>, \<open>api\<close>, \<open>permitted\<close>, \<open>reachable\<close>); the abstract heap of values
    (\<open>spec\<close>) that it sees.
  \<^item> Trace_Example, World_Example, Program_Example: concrete memories on which the hypotheses of the properties hold.

  \<^bold>\<open>Invariants.\<close> \<open>drop_inv N ps W w\<close>: the buffer represents \<open>ps\<close>, the marks agree with the lists (\<open>N\<close>
  are the boxes in lists of a running collection), the weak pointers are \<open>W\<close>. \<open>gc_inv ps W w\<close>: this
  between collections, and every \<open>Cc\<close> that can be reached from the buffer is counted. \<open>accounted\<close>: the
  allocated bytes are the sizes of the boxes that exist. \<open>quiet\<close>: no \<open>trace\<close> that runs panics, and what
  is garbage owns exactly what it traces and has no finalizer and no destructor with code of its own.
  \<open>sound F N X D K ps W w\<close>: every reference counter is the number of \<open>Cc\<close>s that exist, those \<open>D\<close> that are held
  and those in values; every box has a value, but for the boxes \<open>X\<close> whose destructors run; and every box
  can be reached from \<open>D\<close>, from the buffer or from the lists \<open>N\<close> of the collector. The values may have the
  finalizers \<open>F\<close>. \<open>safe F H w\<close>: this for the references \<open>H\<close> of a program, with
  the collector idle; every state that a program reaches is \<open>safe\<close>.
  The garbage of a memory is what the buffer reaches and no reference from outside reaches.

  \<^bold>\<open>Fuel.\<close> Every loop over boxes and every nesting of destructors spends fuel. More fuel than the buffer
  reaches boxes is enough for a collection, and it is proved that the result is then \<open>Done\<close> and not
  \<open>Timeout\<close>; more fuel than there are boxes is enough for a drop that runs the destructors of other
  boxes, and two units for one whose parts are not last references. The ten rounds of
  \<open>collect\<close> are those of the source. The loop of \<open>Config::adjust\<close> has no fuel: it is a
  \<open>partial_function\<close>, and it is proved exactly when it returns.

  \<^bold>\<open>User code.\<close> Finalizers, destructors written by hand, cleaning actions and the closure of \<open>new_cyclic\<close>
  are arbitrary programs on the world (\<open>user_code\<close>); theorems about code that runs them say what they
  must leave. A hand-written \<open>Trace\<close> is the list of calls it makes, which may end in a panic; that it
  reports only what it owns is the safety contract of the trait (\<open>trace_contract\<close>). Destructors see
  their own fields only through the world: one that moves a \<open>Cc\<close> out of its own value is not modelled.
  The calls of theory Program are those of \<open>Cc\<close>, \<open>Weak\<close>, \<open>collect_cycles\<close> and \<open>config\<close> on values that trace what
  they own and have no destructor of their own (\<open>plain_val F\<close>), but may have finalizers. A finalizer must
  return and keep \<open>sound\<close> wherever it runs (\<open>keeps_sound\<close>): it may take references, which the program
  owns from then on, change values and drop what it takes out of them, but makes no boxes; the results
  for \<open>F = {}\<close>, where no value has a finalizer, are exact. A program changes a value, as with \<open>RefCell\<close>, by \<open>ReplaceCall\<close>, which moves one
  value in and the other one out. The closure it gives to \<open>new_cyclic\<close> clones its weak pointer and returns
  a value or panics; theorems about one call of \<open>new_cyclic\<close> with any other closure, and about the cleaners, which
  are not among these calls, are stated for one call each.

  \<^bold>\<open>Not modelled.\<close> \<open>derives.rs\<close>, which re-exports the macros; \<open>handle_alloc_error\<close>, which aborts the process;
  the abort on a second panic during unwinding, which appears as the panic; \<open>Debug\<close> implementations
  that print a constant; the code that the derive macros generate around the calls of \<open>trace\<close>, the empty
  \<open>Drop\<close> among it that rules out a destructor written by hand; \<open>ListIter\<close>.
\<close>

section \<open>Programs that use the interface\<close>

text \<open>
  C1: The public interface is memory safe. From a new thread, let a program make any sequence of
  calls to the interface that its own references allow: creating (\<open>new_cyclic\<close> too), cloning, dropping,
  replacing and unwrapping values, weak pointers, collections, settings; its values may have the finalizers \<open>F\<close>, which may take
  references, change values and resurrect what is being finalized, if they keep the invariant of
  ownership. The next call it is allowed to make returns, and the program goes on, owning what it
  owned and what finalizers have taken, or it panics because a 14-bit or a 15-bit counter has its
  largest value, or the percentage that the program sets is not one, and changes nothing, or because
  the closure that it gives to \<open>new_cyclic\<close> does, and goes on from there. No call frees what is in use, reads or writes freed memory,
  fails a debug assertion, overflows, or loops: more fuel than there are boxes is enough for
  destructors that run destructors.
\<close>

theorem api_memory_safe:
  assumes "reachable F fl uc al H w" and "fresh_allocator al" and "keeps_sound F uc" and "permitted F c H w"
    and "card (dom (w_boxes w)) < n"
  shows "(\<exists>H' H'' w'. api fl uc n al c H w = Done H' w' \<and> more_handles F H' H'' \<and> reachable F fl uc al H'' w') \<or>
    api fl uc n al c H w = Panicked too_many_ccs w \<and> ccs_full w \<or>
    api fl uc n al c H w = Panicked too_many_weaks w \<and> weaks_full w \<or>
    api fl uc n al c H w = Panicked bad_percent w \<and> (\<exists>x. c = ConfigCall (SetPercent x)) \<or>
    (\<exists>H' w'. api fl uc n al c H w = Panicked closure_panic w' \<and> (\<exists>layout j g. c = NewCyclicCall layout j g) \<and>
       more_handles F H H' \<and> reachable F fl uc al H' w')"
  by (rule reachable_next [OF assms])

theorem api_memory_safe_witness:
  "\<exists>H H' w. api ex_f64 keep_code 1 ex_alloc (NewCall 64 rx_value) \<lparr>h_ccs = {#}, h_weaks = {#}\<rparr> thread_world = Done H w \<and>
     more_handles {0} H H' \<and> reachable {0} ex_f64 keep_code ex_alloc H' w"
proof -
  have "\<not> ccs_full thread_world" "\<not> weaks_full thread_world"
    by (simp_all add: ccs_full_def weaks_full_def thread_world_def)
  with api_memory_safe [OF started [OF thread_fresh] ex_alloc_fresh keep_code_keeps thread_permits [OF rx_value_plain(1,3)], of 1 ex_f64]
  show ?thesis by (simp add: thread_world_def)
qed

text \<open>
  C2: The counters and the buffer are exact in every state a program reaches, whatever its finalizers
  have done. The reference counter of every box is the number of \<open>Cc\<close>s to it that exist, those that the
  program owns and those in values, and \<open>strong_count\<close> returns it; \<open>deref\<close> of a \<open>Cc\<close> that the program
  owns gives the value, and the other readers of its \<open>Cc\<close>s and \<open>Weak\<close>s return as well, and change nothing;
  every box holds a value, and every box that the program can reach is there; every box that it cannot reach can be reached from a box in
  \<open>POSSIBLE_CYCLES\<close>, so no cycle is lost; and the allocated bytes are the sizes of the boxes.
\<close>

theorem reachable_exact:
  assumes "reachable F fl uc al H w" and "fresh_allocator al" and "keeps_sound F uc"
  shows "(\<forall>p. rc_of (w_boxes w) p = count (h_ccs H) p + refs_from (w_boxes w) (dom (w_boxes w)) p) \<and>
    (\<forall>p \<in># h_ccs H. strong_count p w = Done (of_nat (count (h_ccs H) p + refs_from (w_boxes w) (dom (w_boxes w)) p)) w) \<and>
    (\<forall>p \<in># h_ccs H. (\<exists>v. vals_of w p = Some v \<and> cc_deref p w = Done v w) \<and> (\<exists>b. already_finalized p w = Done b w) \<and>
      (\<exists>n. cc_weak_count p w = Done n w)) \<and>
    (\<forall>k \<in># h_weaks H. (\<exists>n. weak_strong_count k w = Done n w) \<and> (\<exists>n. weak_weak_count k w = Done n w)) \<and>
    (\<forall>p b. w_boxes w p = Some b \<longrightarrow> (\<exists>v. b_elem b = Some v)) \<and>
    reach (w_boxes w) (set_mset (h_ccs H)) \<subseteq> dom (w_boxes w) \<and>
    (\<exists>ps. pc_repr (w_pc w) (w_boxes w) ps \<and> dom (w_boxes w) = reach (w_boxes w) (set_mset (h_ccs H) \<union> set ps)) \<and>
    (\<Sum>p \<in> dom (w_boxes w). size_of w p) = unat (st_allocated_bytes (w_state w))"
  using safe_exact [OF reachable_safe [OF assms]] strong_count_exact [OF reachable_safe [OF assms]]
    safe_values [OF reachable_safe [OF assms]] readers_return [OF reachable_safe [OF assms]]
  unfolding sizes_def by blast

theorem reachable_exact_witness:
  "\<exists>p H w v. reachable {0} ex_f64 keep_code ex_alloc H w \<and> p \<in># h_ccs H \<and> 0 < rc_of (w_boxes w) p \<and> cc_deref p w = Done v w"
proof -
  from thread_step obtain p H w where w: "reachable {0} ex_f64 keep_code ex_alloc H w" "p \<in># h_ccs H" by blast
  note r = reachable_exact [OF w(1) ex_alloc_fresh keep_code_keeps]
  from r w(2) obtain v where "cc_deref p w = Done v w" by blast
  moreover from r have "rc_of (w_boxes w) p = count (h_ccs H) p + refs_from (w_boxes w) (dom (w_boxes w)) p" by blast
  then have "0 < rc_of (w_boxes w) p" using w(2) by simp
  ultimately show ?thesis using w by blast
qed

text \<open>
  C3: What a client sees is a heap of values: reference counts, marks, lists and collections are
  invisible. Every call that returns is a step of the abstract heap \<open>spec\<close>: a value changes only where
  the client replaces it, a box that the client can reach stays with its value, and the references
  that the client owns change as the types of the operations say. Calls that may run finalizers do so
  if there are none.
\<close>

theorem api_refines_heap:
  assumes "safe F H w" and "fresh_allocator al" and "keeps_sound F uc" and "permitted F c H w" and "card (dom (w_boxes w)) < n"
    and "api fl uc n al c H w = Done H' w'" and "F = {} \<or> \<not> may_finalize c"
  shows "safe F H' w' \<and> spec c (H, vals_of w) (H', vals_of w')"
  using call_ok [OF assms(3,1,4,2,5), of fl] assms(6,7) by (auto simp: ends_well_def)

theorem api_refines_heap_witness:
  "\<exists>H w. api ex_f64 ex_code 5 ex_alloc (DropCall 30) ex_handles ex_world = Done H w \<and> h_ccs H = {#} \<and>
     vals_of w \<subseteq>\<^sub>m vals_of ex_world"
proof -
  have p: "permitted {} (DropCall 30) ex_handles ex_world" "card (dom (w_boxes ex_world)) < 5"
    by (simp_all add: ex_handles_def ex_dom)
  from ex_sound have "sound {} {} {} (add_mset 30 {#}) {#} [10] {#} ex_world" by simp
  from cc_drop_sound [OF no_finalizers this p(2)] obtain w where "cc_drop ex_code 5 30 ex_world = Done () w" by blast
  then have run: "api ex_f64 ex_code 5 ex_alloc (DropCall 30) ex_handles ex_world = Done (lose_cc 30 ex_handles) w"
    by (simp del: cc_drop.simps)
  from api_refines_heap [OF ex_safe ex_alloc_fresh no_finalizers p run] have "vanish (lose_cc 30 ex_handles) (vals_of ex_world) (vals_of w)" by simp
  with run show ?thesis by (auto simp: vanish_def lose_cc_def ex_handles_def)
qed

text \<open>
  C4: No leaks, and nothing too much: without finalizers, after \<open>collect_cycles\<close> the memory holds exactly the boxes that
  the program can reach through the \<open>Cc\<close>s it owns, each with the value it had. Every cycle that it
  cannot reach is gone, wherever in it the buffered boxes were.
\<close>

theorem collect_leaves_reachable:
  assumes "safe {} H w" and "counts_left w" and "card (dom (w_boxes w)) < n"
  shows "\<exists>w'. collect_cycles fl uc n w = Done () w' \<and> safe {} H w' \<and> dom (w_boxes w') = reach (w_boxes w) (set_mset (h_ccs H)) \<and>
    vals_of w' = vals_of w |` reach (w_boxes w) (set_mset (h_ccs H))"
  using collect_call [OF assms, of fl uc undefined] by (auto simp: thenM_eq_Done)

theorem collect_leaves_reachable_witness:
  "\<exists>w. collect_cycles ex_f64 ex_code 5 ex_world = Done () w \<and> dom (w_boxes w) = {30, 40} \<and> dom (w_boxes ex_world) = {10, 20, 30, 40}"
proof -
  have "counts_left ex_world" "card (dom (w_boxes ex_world)) < 5" by (simp_all add: counts_left_def ex_dom)
  from collect_leaves_reachable [OF ex_safe this, of ex_f64 ex_code] show ?thesis
    by (auto simp: ex_handles_def ex_held ex_dom)
qed

text \<open>
  C5: Collections are safe whatever the finalizers do that keep the invariant. \<open>collect_cycles\<close> returns,
  and no box is freed that the program can reach through the references that it had or that a finalizer
  has taken: all of these are there with their values, a resurrected box and all that it leads to among
  them. The counters are exact again, no box appears, and what is garbage but still there, because it
  was finalized in the last round, can be reached from the buffer, so that the next collection finds it.
\<close>

theorem collect_with_finalizers:
  assumes "keeps_sound F uc" and "safe F H w" and "counts_left w" and "card (dom (w_boxes w)) < n"
  shows "\<exists>H' w'. collect_cycles fl uc n w = Done () w' \<and> more_handles F H H' \<and> safe F H' w' \<and> exact H' w' \<and>
    reach (w_boxes w') (set_mset (h_ccs H')) \<subseteq> dom (w_boxes w') \<and> dom (w_boxes w') \<subseteq> dom (w_boxes w) \<and>
    (\<forall>p b. w_boxes w' p = Some b \<longrightarrow> (\<exists>v. b_elem b = Some v)) \<and>
    (\<exists>ps. pc_repr (w_pc w') (w_boxes w') ps \<and> dom (w_boxes w') = reach (w_boxes w') (set_mset (h_ccs H') \<union> set ps))"
proof -
  from collect_safe [OF assms, of fl] obtain H' w' where
    1: "collect_cycles fl uc n w = Done () w'" "more_handles F H H'" "safe F H' w'" "dom (w_boxes w') \<subseteq> dom (w_boxes w)" by blast
  then show ?thesis using safe_is_exact [OF 1(3)] safe_exact(2,4) [OF 1(3)] safe_values [OF 1(3)] by blast
qed

theorem collect_with_finalizers_witness:
  "\<exists>H w. collect_cycles ex_f64 keep_code 2 cx_world = Done () w \<and> more_handles {0} \<lparr>h_ccs = {#}, h_weaks = {#}\<rparr> H \<and>
     exact H w \<and> dom (w_boxes w) \<subseteq> {50}"
proof -
  have "counts_left cx_world" "card (dom (w_boxes cx_world)) < 2" by (simp_all add: counts_left_def cx_world_def cx_dom state_new_def)
  from collect_with_finalizers [OF keep_code_keeps cx_safe this, of ex_f64] show ?thesis by (auto simp: cx_world_def cx_dom)
qed

section \<open>A whole collection\<close>

text \<open>
  C6: A collection frees the garbage and nothing else. From a world in which the collector is idle,
  the accounts are settled and no user code interferes, \<open>collect\<close> returns: every box of the garbage
  that the buffer reaches is gone, every other box is still there with the same value, and its
  reference counter has gone down by the number of references the garbage held. The buffer is empty,
  the allocated bytes are the sizes of the boxes that are left, the weak pointers and the metadata
  agree, and the collection has been counted.
\<close>

theorem collect_frees_garbage:
  assumes "gc_inv ps W w" "accounted W w" "quiet (w_boxes w) (set ps)"
    and "card (reach (w_boxes w) (set ps)) < Suc n" "unat (st_executions_counter (w_state w)) + 1 < 2 ^ 64"
  shows "\<exists>w' V. collect uc (Suc n) w = Done () w' \<and> collected_world (garbage (w_boxes w) (set ps)) w w'
    \<and> gc_inv [] V w' \<and> accounted V w'"
  using collect_ok [OF assms] by blast

theorem collect_frees_garbage_witness:
  "\<exists>w' V. collect ex_code (Suc 4) ex_world = Done () w' \<and> collected_world {10, 20} ex_world w' \<and> gc_inv [] V w' \<and> accounted V w'"
  using collect_frees_garbage [OF ex_gc_inv ex_accounted ex_quiet ex_world_card ex_executions, of ex_code]
  unfolding ex_world_garbage .

text \<open>
  C7: \<open>collect_cycles\<close> does the same when no collection runs, and adjusts the trigger: afterwards the
  threshold of an accessible configuration is above the allocated bytes and at least the default.
\<close>

theorem collect_cycles_collects:
  assumes "gc_inv ps W w" "accounted W w" "quiet (w_boxes w) (set ps)"
    and "card (reach (w_boxes w) (set ps)) < Suc n" "unat (st_executions_counter (w_state w)) + 1 < 2 ^ 64"
    and "trigger_ready w" "\<not> st_collecting (w_state w)"
  shows "\<exists>w' cf V. collect_cycles fl uc (Suc n) w = Done () (w'\<lparr>w_config := cf\<rparr>)
    \<and> collected_world (garbage (w_boxes w) (set ps)) w w' \<and> config_adjusted w' cf \<and> gc_inv [] V w' \<and> accounted V w'"
  using collect_cycles_ok [OF assms] by blast

theorem collect_cycles_collects_witness:
  "\<exists>w' cf V. collect_cycles ex_f64 ex_code (Suc 4) ex_world = Done () (w'\<lparr>w_config := cf\<rparr>)
    \<and> collected_world {10, 20} ex_world w' \<and> config_adjusted w' cf \<and> gc_inv [] V w' \<and> accounted V w'"
  using collect_cycles_collects [OF ex_gc_inv ex_accounted ex_quiet ex_world_card ex_executions ex_trigger_ready, of ex_f64 ex_code]
  unfolding ex_world_garbage by simp

text \<open>
  C8: When a collection returns, and when it panics in user code, the collecting flag is down
  afterwards, so that a later collection is not mistaken for a nested one; this holds for any user code
  and any world whose 64-bit counter of collections has room for one more. That it does end is stated for settled worlds whose garbage runs no user code besides
  its \<open>trace\<close>s: the collection panics, with the message of a \<open>trace\<close>, exactly when the \<open>trace\<close> of some
  box that it reaches panics, and returns otherwise.
\<close>

theorem collecting_flag_reset:
  assumes "unat (st_executions_counter (w_state w)) + 1 < 2 ^ 64"
  shows "(\<forall>w'. collect uc fuel w = Done () w' \<longrightarrow> \<not> st_collecting (w_state w')) \<and>
    (\<forall>e w'. collect uc fuel w = Panicked e w' \<longrightarrow> \<not> st_collecting (w_state w')) \<and>
    (\<forall>ps W n. gc_inv ps W w \<longrightarrow> accounted W w \<longrightarrow> quiet_garbage (w_boxes w) (set ps) \<longrightarrow>
      card (reach (w_boxes w) (set ps)) < Suc n \<longrightarrow>
      (if \<exists>x \<in> reach (w_boxes w) (set ps). panics (calls_of (w_boxes w) x)
       then \<exists>msg w'. collect uc (Suc n) w = Panicked (PanicMsg msg) w'
       else \<exists>w'. collect uc (Suc n) w = Done () w'))"
proof (intro conjI)
  show "\<forall>ps W n. gc_inv ps W w \<longrightarrow> accounted W w \<longrightarrow> quiet_garbage (w_boxes w) (set ps) \<longrightarrow>
      card (reach (w_boxes w) (set ps)) < Suc n \<longrightarrow>
      (if \<exists>x \<in> reach (w_boxes w) (set ps). panics (calls_of (w_boxes w) x)
       then \<exists>msg w'. collect uc (Suc n) w = Panicked (PanicMsg msg) w'
       else \<exists>w'. collect uc (Suc n) w = Done () w')"
    using collect_total [OF _ _ _ _ assms] by blast
qed (use collect_flag_down [OF assms, of uc fuel] in \<open>auto simp: wp_def\<close>)

theorem collecting_flag_reset_witness:
  "(\<exists>w'. collect ex_code (Suc 4) ex_world = Done () w' \<and> \<not> st_collecting (w_state w')) \<and>
    (\<exists>w'. collect ex_code (Suc 7) px_world = Panicked (PanicMsg ''no'') w' \<and> \<not> st_collecting (w_state w'))"
proof
  note r = collecting_flag_reset [OF ex_executions, of ex_code "Suc 4"]
  have "quiet_garbage (w_boxes ex_world) (set [10])" "\<forall>x \<in> reach (w_boxes ex_world) (set [10]). \<not> panics (calls_of (w_boxes ex_world) x)"
    using ex_quiet unfolding quiet_split by blast+
  with r ex_gc_inv ex_accounted ex_world_card obtain w' where "collect ex_code (Suc 4) ex_world = Done () w'" by metis
  with r show "\<exists>w'. collect ex_code (Suc 4) ex_world = Done () w' \<and> \<not> st_collecting (w_state w')" by blast
next
  have "unat (st_executions_counter (w_state px_world)) + 1 < 2 ^ 64" by (simp add: px_world_def)
  from collecting_flag_reset [OF this, of ex_code "Suc 7"] px_collect
  show "\<exists>w'. collect ex_code (Suc 7) px_world = Panicked (PanicMsg ''no'') w' \<and> \<not> st_collecting (w_state w')" by blast
qed

text \<open>
  C9: The guards of \<open>replace_state_field!\<close>: dropping a \<open>Cc\<close>, creating one, a collection, an automatic
  collection and running a cleaning action leave the flags \<open>finalizing\<close> and \<open>dropping\<close> as they were, on every return
  and on every panic, for arbitrary finalizers, destructors and actions that do so.
\<close>

theorem phase_restored:
  assumes "guarded uc"
  shows "keeps (cc_drop uc n p) \<and> keeps (cc_new fl uc n al layout t) \<and> keeps (collect_cycles fl uc n)
    \<and> keeps (trigger_collection fl uc n) \<and> keeps (deallocate_list uc n l) \<and> keeps (clean uc n this)"
  by (intro conjI keeps_rules keeps_clean assms)

theorem phase_restored_witness:
  "keeps (cc_drop ex_code 3 10) \<and> keeps (cc_new ex_f64 ex_code 3 ex_alloc 64 None) \<and> keeps (collect_cycles ex_f64 ex_code 3)
    \<and> keeps (trigger_collection ex_f64 ex_code 3) \<and> keeps (deallocate_list ex_code 3 ll_new)
    \<and> keeps (clean ex_code 3 mx_cleanable)"
  by (rule phase_restored [OF ex_guarded])



section \<open>The tracing phases of a collection\<close>

text \<open>
  C11: From a memory that is ready for a collection, the tracing half of \<open>__collect\<close> runs to its
  end. It reads no freed memory, no debug assertion fires, no counter overflows and none of its
  loops runs for ever: it either returns with the garbage in the non-root list, or a panic of a
  user's \<open>trace\<close> reaches the caller and all three lists have been emptied.
\<close>

theorem collect_trace_total:
  assumes "ready ps s" "card (reach (t_heap s) (set ps)) < fuel"
  shows "(\<exists>s'. collect_trace fuel s = Done () s' \<and> collected (t_heap s) ps s') \<or>
    (\<exists>e s'. collect_trace fuel s = Panicked e s' \<and> aborted (t_heap s) ps e s')"
  using collect_trace_ok [OF assms] by (cases "collect_trace fuel s") (auto simp: wp_def)

theorem collect_trace_total_witness:
  "(\<exists>s'. collect_trace 5 ex_state = Done () s' \<and> collected (t_heap ex_state) [10] s') \<or>
    (\<exists>e s'. collect_trace 5 ex_state = Panicked e s' \<and> aborted (t_heap ex_state) [10] e s')"
  by (rule collect_trace_total [OF ex_ready ex_card])

text \<open>
  C12: If no reached \<open>trace\<close> panics, the tracing half returns, and the non-root list holds exactly
  the garbage, whose members are marked \<open>InList\<close>; all other reached boxes are unmarked and out of
  every list, and each tracing counter is the number of references reported to its box.
\<close>

theorem collect_trace_returns:
  assumes "ready ps s" "card (reach (t_heap s) (set ps)) < fuel"
    and "\<forall>x \<in> reach (t_heap s) (set ps). \<not> panics (calls_of (t_heap s) x)"
  shows "\<exists>s'. collect_trace fuel s = Done () s' \<and> collected (t_heap s) ps s'"
  using collect_trace_ok [OF assms(1,2)] assms(3)
  by (cases "collect_trace fuel s") (auto simp: wp_def dest: aborted_panics)

theorem collect_trace_returns_witness:
  "\<exists>s'. collect_trace 5 ex_state = Done () s' \<and> collected (t_heap ex_state) [10] s'"
  by (rule collect_trace_returns [OF ex_ready ex_card ex_no_panic])

text \<open>
  C13: What the collection is about to destroy is not referenced from anywhere else: every reference
  that the reference counter of a box in the non-root list counts is reported by a box in that list.
\<close>

theorem non_root_list_unreferenced:
  assumes "ready ps s" "card (reach (t_heap s) (set ps)) < fuel" "collect_trace fuel s = Done () s'"
    and "ll_repr (t_nonroot s') (t_heap s') ns" "y \<in> set ns"
  shows "refs_from (t_heap s) (set ns) y = rc_of (t_heap s) y"
proof -
  from collect_trace_ok [OF assms(1,2)] assms(3) have c: "collected (t_heap s) ps s'" by (simp add: wp_def)
  then have "set ns = garbage (t_heap s) (set ps)"
    using repr_unique(1) [OF assms(4)] by (auto simp: collected_def)
  moreover have "traceable (t_heap s) (set ps)" using assms(1) by (simp add: ready_def Let_def)
  ultimately show ?thesis using garbage_refs assms(5) by simp
qed

lemma ex_collected: "\<exists>s' ns. collect_trace 5 ex_state = Done () s' \<and> ll_repr (t_nonroot s') (t_heap s') ns \<and> set ns = {10, 20}"
proof -
  have "wp (collect_trace 5) (\<lambda>_. collected (t_heap ex_state) [10]) (aborted (t_heap ex_state) [10]) ex_state"
    by (rule collect_trace_ok [OF ex_ready ex_card])
  then show ?thesis
    using ex_no_panic
    by (cases "collect_trace 5 ex_state") (auto simp: wp_def collected_def ex_garbage [simplified] dest!: aborted_panics)
qed

theorem non_root_list_unreferenced_witness:
  "\<exists>s' ns. collect_trace 5 ex_state = Done () s' \<and> ll_repr (t_nonroot s') (t_heap s') ns
    \<and> 20 \<in> set ns \<and> refs_from (t_heap ex_state) (set ns) 20 = rc_of (t_heap ex_state) 20"
  using ex_collected non_root_list_unreferenced [OF ex_ready ex_card, where y = 20] by fastforce

text \<open>
  C14: The collection misses nothing: every set of reached boxes whose members are referenced from
  inside the set only is contained in the non-root list.
\<close>

theorem non_root_list_complete:
  assumes "ready ps s" "card (reach (t_heap s) (set ps)) < fuel" "collect_trace fuel s = Done () s'"
    and "ll_repr (t_nonroot s') (t_heap s') ns"
    and "G \<subseteq> reach (t_heap s) (set ps)" "\<And>y. y \<in> G \<Longrightarrow> refs_from (t_heap s) G y = rc_of (t_heap s) y"
  shows "G \<subseteq> set ns"
proof -
  from collect_trace_ok [OF assms(1,2)] assms(3) have c: "collected (t_heap s) ps s'" by (simp add: wp_def)
  then have "set ns = garbage (t_heap s) (set ps)"
    using repr_unique(1) [OF assms(4)] by (auto simp: collected_def)
  moreover have "traceable (t_heap s) (set ps)" using assms(1) by (simp add: ready_def Let_def)
  ultimately show ?thesis using garbage_greatest [OF _ assms(5,6)] by simp
qed

theorem non_root_list_complete_witness:
  "\<exists>s' ns. collect_trace 5 ex_state = Done () s' \<and> ll_repr (t_nonroot s') (t_heap s') ns \<and> {10, 20} \<subseteq> set ns"
proof -
  have G: "{10, 20} \<subseteq> reach (t_heap ex_state) (set [10])" by (simp add: ex_state_def ex_reach [simplified])
  have R: "y \<in> {10, 20} \<Longrightarrow> refs_from (t_heap ex_state) {10, 20} y = rc_of (t_heap ex_state) y" for y
    by (auto simp: ex_state_def refs_from_def ex_targets ex_rc)
  from ex_collected obtain s' ns where "collect_trace 5 ex_state = Done () s'" "ll_repr (t_nonroot s') (t_heap s') ns" by blast
  with non_root_list_complete [OF ex_ready ex_card _ _ G R] show ?thesis by blast
qed

text \<open>
  C15: What a panicking \<open>trace\<close> leaves in the buffer. Let \<open>x\<close> be the first of the buffered boxes whose
  \<open>trace\<close> panics, after it made the calls \<open>pre\<close>. The collection panics, the boxes behind \<open>x\<close> stay in
  \<open>POSSIBLE_CYCLES\<close>, and the tracing counter of each of them is the number of references that \<open>pre\<close> and
  the boxes before \<open>x\<close> have reported to it, where a collection relies on 0. The next one starts from it: if one box
  that traces nothing stayed buffered, and all references to it had been reported, then the next
  collection puts it into the non-root list, although it is not garbage: the boxes that reported it are
  not buffered any more, and may be in use.
\<close>

theorem stale_counter_after_panic:
  assumes "ready (zs @ x # qs) s" "card (reach (t_heap s) (set (zs @ x # qs))) < fuel"
    and "\<forall>z \<in> set zs. \<not> panics (calls_of (t_heap s) z)"
    and "calls_of (t_heap s) x = pre @ CallPanic msg # cs" "\<not> panics pre"
  shows "\<exists>s'. collect_trace fuel s = Panicked (PanicMsg msg) s' \<and> pc_repr (t_pc s') (t_heap s') qs \<and>
    (\<forall>y \<in> set qs. mark_of (t_heap s') y = PossibleCycles \<and>
       tc_of (t_heap s') y = refs_from (t_heap s) (set zs) y + count_list (called pre) y) \<and>
    (\<forall>y n. qs = [y] \<and> calls_of (t_heap s) y = [] \<and> 0 < rc_of (t_heap s) y \<and>
       rc_of (t_heap s) y = refs_from (t_heap s) (set zs) y + count_list (called pre) y \<longrightarrow>
       y \<notin> garbage (t_heap s') {y} \<and>
       (\<exists>s''. collect_trace (Suc (Suc n)) s' = Done () s'' \<and> ll_repr (t_nonroot s'') (t_heap s'') [y]))"
proof -
  from stale_counter [OF assms] obtain s' where
    s': "collect_trace fuel s = Panicked (PanicMsg msg) s'" "pc_repr (t_pc s') (t_heap s') qs"
    "\<forall>y \<in> set qs. mark_of (t_heap s') y = PossibleCycles \<and>
       tc_of (t_heap s') y = refs_from (t_heap s) (set zs) y + count_list (called pre) y" by blast
  note used = stale_counter_used [OF _ _ assms(3-5) _ _ _ s'(1)]
  show ?thesis using s' used assms(1,2) by (intro exI [of _ s']) auto
qed

theorem stale_counter_after_panic_witness:
  "\<exists>s' s''. collect_trace (Suc 7) px_state = Panicked (PanicMsg ''no'') s' \<and> pc_repr (t_pc s') (t_heap s') [20] \<and>
    mark_of (t_heap s') 20 = PossibleCycles \<and> tc_of (t_heap s') 20 = 1 \<and> 20 \<notin> garbage (t_heap s') {20} \<and>
    collect_trace (Suc (Suc 0)) s' = Done () s'' \<and> ll_repr (t_nonroot s'') (t_heap s'') [20]"
proof -
  from stale_counter_after_panic [OF px_parts] obtain s' where
    s': "collect_trace (Suc 7) px_state = Panicked (PanicMsg ''no'') s'" "pc_repr (t_pc s') (t_heap s') [20]"
    "mark_of (t_heap s') 20 = PossibleCycles \<and> tc_of (t_heap s') 20 = 1"
    "20 \<notin> garbage (t_heap s') {20} \<and> (\<exists>s''. collect_trace (Suc (Suc 0)) s' = Done () s'' \<and> ll_repr (t_nonroot s'') (t_heap s'') [20])"
    using px_rc px_calls_20 by (auto simp del: while_let.simps)
  then show ?thesis by blast
qed

text \<open>
  C16: A buffered box that only the program references, but whose stale tracing counter equals its
  reference counter, is put into the non-root list by the next collection, although it is not garbage.
\<close>

theorem stale_counter_condemns:
  assumes "pc_repr (t_pc s) (t_heap s) [y]" "\<forall>p \<in> dom (t_heap s) - {y}. isolated (t_heap s) p"
    and "vtables_ok (t_meta s) (t_heap s)"
    and "mark_of (t_heap s) y = PossibleCycles" "\<exists>b v. t_heap s y = Some b \<and> b_elem b = Some v"
    and "calls_of (t_heap s) y = []" "0 < rc_of (t_heap s) y" "rc_of (t_heap s) y < 16383"
    and "tc_of (t_heap s) y = rc_of (t_heap s) y"
  shows "y \<notin> garbage (t_heap s) {y} \<and>
    (\<exists>s'. collect_trace (Suc (Suc n)) s = Done () s' \<and> ll_repr (t_nonroot s') (t_heap s') [y])"
  using stale_box_condemned [OF assms] by blast

theorem stale_counter_condemns_witness:
  "50 \<notin> garbage (t_heap sx_state) {50} \<and>
    (\<exists>s'. collect_trace (Suc (Suc 0)) sx_state = Done () s' \<and> ll_repr (t_nonroot s') (t_heap s') [50])"
  by (rule stale_counter_condemns) (simp_all add: sx_facts sx_isolated sx_vtables)

section \<open>Operations on Cc\<close>

text \<open>
  C17: Dropping the last \<open>Cc\<close> to a box, when its finalizer has no code and its value holds no other
  last reference: the box is freed and its bytes are given back, every \<open>Cc\<close> in the value takes one
  from the counter of its box, which becomes a possible cycle, nothing else changes, the invariants
  hold, and no weak pointer to the box can be upgraded any more.
\<close>

theorem last_drop_frees:
  assumes "drop_inv {} ps W w" "w_boxes w p = Some b" "v_rc (view (b_cm b)) = 1" "b_elem b = Some v"
    and "finalize_val v = []" "covered {} W (drop_glue v) w" "p \<notin> set (dropped_ccs (drop_glue v))"
    and "size_of w p \<le> unat (st_allocated_bytes (w_state w))"
  shows "\<exists>w' qs. cc_drop uc (Suc (Suc n)) p w = Done () w' \<and> drop_inv {} qs (W - mset (dropped_weaks (drop_glue v))) w' \<and>
    destroyed_box p (drop_glue v) w w' \<and> set qs = set ps - {p} \<union> set (dropped_ccs (drop_glue v)) \<and>
    (\<forall>k \<in># W - mset (dropped_weaks (drop_glue v)). wk_cc k = p \<longrightarrow> \<not> upgradable k w')"
  by (rule cc_drop_last [OF assms])

theorem last_drop_frees_witness:
  "\<exists>w' qs. cc_drop ex_code (Suc (Suc 0)) 10 (wx_world 32769) = Done () w' \<and> drop_inv {} qs {#wx_weak#} w' \<and>
    destroyed_box 10 [] (wx_world 32769) w' \<and> qs = [] \<and> \<not> upgradable wx_weak w'"
proof -
  have "w_boxes (wx_world 32769) 10 = Some wx_box" by (simp add: wx_world_def)
  moreover have "size_of (wx_world 32769) 10 \<le> unat (st_allocated_bytes (w_state (wx_world 32769)))"
    by (simp add: size_of_def wx_world_def)
  ultimately show ?thesis
    using last_drop_frees [OF wx_drop_inv, of 10 wx_box PlainT ex_code 0]
    by (auto simp: finalize_default_def covered_def wx_weak_def)
qed

text \<open>
  C18: Dropping a \<open>Cc\<close> that is not the last one takes one from the counter of its box and puts the box
  into the buffer, unless it is in a list of the collector (\<open>N\<close>); then only the counter changes.
\<close>

theorem shared_drop_buffers:
  assumes "drop_inv N ps W w" "w_boxes w q = Some b" "v_rc (view (b_cm b)) < 16383"
    and "if q \<in> N then 0 < v_rc (view (b_cm b)) else 1 < v_rc (view (b_cm b)) \<and> v_tc (view (b_cm b)) < 16383"
  shows "\<exists>w' qs. cc_drop uc (Suc n) q w = Done () w' \<and> drop_inv N qs W w' \<and>
    lowered N ((\<lambda>_. 0)(q := 1)) w w' \<and> set qs = set ps \<union> ({q} - N)"
  by (rule cc_drop_shared [OF assms])

theorem shared_drop_buffers_witness:
  "\<exists>w' qs. cc_drop ex_code (Suc 0) 30 ex_world = Done () w' \<and> drop_inv {} qs {#} w' \<and>
    lowered {} ((\<lambda>_. 0)(30 := 1)) ex_world w' \<and> set qs = {10, 30}"
proof -
  have "w_boxes ex_world 30 = Some (ex_box None None 1 2 (RefCellT Unborrowed (CcT 40)))" by (simp add: ex_heap_def)
  from shared_drop_buffers [OF ex_drop_inv this, of ex_code 0] show ?thesis
    by (simp add: ex_box_def ex_view insert_commute)
qed

text \<open>
  C19: \<open>Cc::new\<close>, with the automatic collection it may run, for a value that may hold \<open>Cc\<close>s and weak
  pointers, these being among the ones that are counted,
  while nothing is traced and the bytes and boxes stay within 64 bits. The automatic collection is one that runs no user code: no \<open>trace\<close> it
  reaches panics and the garbage has neither finalizers to run nor destructors of its own. The new box holds the value, is in no
  list, is referenced once, is born finalized if a finalizer creates it, and takes a free address; the
  invariants of the collector and the accounts hold again.
\<close>

theorem new_adds_box:
  assumes "gc_inv ps W w" "accounted W w" "quiet (w_boxes w) (set ps)"
    and "card (reach (w_boxes w) (set ps)) < Suc n" "unat (st_executions_counter (w_state w)) + 1 < 2 ^ 64"
    and "trigger_ready w" "\<not> is_tracing (w_state w)" "fresh_allocator al"
    and "card (dom (w_boxes w)) + 1 < 2 ^ 64" "unat (st_allocated_bytes (w_state w)) + unat layout < 2 ^ 64"
    and "mset (dropped_weaks (drop_glue v)) + weaks_in (w_boxes w) \<subseteq># W"
  shows "\<exists>w1 p qs V. cc_new fl uc (Suc n) al layout (Some v) w = Done p (with_box p layout (Some v) w1) \<and> triggered ps w w1 \<and>
    w_boxes w1 p = None \<and> gc_inv qs V w1 \<and> gc_inv qs V (with_box p layout (Some v) w1) \<and> accounted V (with_box p layout (Some v) w1)"
  by (rule cc_new_ok [OF assms(1-10)]) (use assms(11) in simp)

theorem new_adds_box_witness:
  "(\<exists>w1 p qs V. cc_new ex_f64 ex_code (Suc 4) ex_alloc 64 (Some PlainT) ex_world = Done p (with_box p 64 (Some PlainT) w1) \<and>
    triggered [10] ex_world w1 \<and> w_boxes w1 p = None \<and> gc_inv qs V w1 \<and> gc_inv qs V (with_box p 64 (Some PlainT) w1) \<and>
    accounted V (with_box p 64 (Some PlainT) w1)) \<and>
   (\<exists>w1 p qs V. cc_new ex_f64 ex_code (Suc 0) ex_alloc 64 (Some (WeakT (Some 1) 10)) (wx_world 32769)
      = Done p (with_box p 64 (Some (WeakT (Some 1) 10)) w1) \<and> accounted V (with_box p 64 (Some (WeakT (Some 1) 10)) w1))"
proof
  show "\<exists>w1 p qs V. cc_new ex_f64 ex_code (Suc 4) ex_alloc 64 (Some PlainT) ex_world = Done p (with_box p 64 (Some PlainT) w1) \<and>
    triggered [10] ex_world w1 \<and> w_boxes w1 p = None \<and> gc_inv qs V w1 \<and> gc_inv qs V (with_box p 64 (Some PlainT) w1) \<and>
    accounted V (with_box p 64 (Some PlainT) w1)"
    by (rule new_adds_box [OF ex_gc_inv ex_accounted ex_quiet ex_world_card ex_executions ex_trigger_ready _ ex_alloc_fresh])
      (simp_all add: ex_dom weaks_in_def ex_glue)
next
  have n: "card (reach (w_boxes (wx_world 32769)) (set [])) < Suc 0" by (simp add: reach_none)
  have "trigger_ready (wx_world 32769)" "\<not> is_tracing (w_state (wx_world 32769))"
    by (simp_all add: wx_world_def trigger_ready_def config_new_def state_new_def is_tracing_def)
  moreover have "unat (st_executions_counter (w_state (wx_world 32769))) + 1 < 2 ^ 64" "card (dom (w_boxes (wx_world 32769))) + 1 < 2 ^ 64"
    "unat (st_allocated_bytes (w_state (wx_world 32769))) + unat (64 :: usize) < 2 ^ 64"
    by (simp_all add: wx_world_def state_new_def)
  moreover have "mset (dropped_weaks (drop_glue (WeakT (Some 1) 10))) + weaks_in (w_boxes (wx_world 32769)) \<subseteq># {#wx_weak#}"
    by (simp only: wx_weaks) simp
  ultimately have "\<exists>w1 p qs V. cc_new ex_f64 ex_code (Suc 0) ex_alloc 64 (Some (WeakT (Some 1) 10)) (wx_world 32769)
      = Done p (with_box p 64 (Some (WeakT (Some 1) 10)) w1) \<and> triggered [] (wx_world 32769) w1 \<and> w_boxes w1 p = None \<and>
      gc_inv qs V w1 \<and> gc_inv qs V (with_box p 64 (Some (WeakT (Some 1) 10)) w1) \<and> accounted V (with_box p 64 (Some (WeakT (Some 1) 10)) w1)"
    by (intro new_adds_box [OF wx_gc_inv wx_accounted wx_quiet n _ _ _ ex_alloc_fresh])
  then  show "\<exists>w1 p qs V. cc_new ex_f64 ex_code (Suc 0) ex_alloc 64 (Some (WeakT (Some 1) 10)) (wx_world 32769)
      = Done p (with_box p 64 (Some (WeakT (Some 1) 10)) w1) \<and> accounted V (with_box p 64 (Some (WeakT (Some 1) 10)) w1)"
    by blast
qed

text \<open>
  C20: Resurrection by the destructor. The finalizer of the value behind the last \<open>Cc\<close> runs before the
  value is dropped; if afterwards the box has more references than the one that is being dropped, that
  one is given up and the box lives on: with the value the finalizer left, in the buffer, and with the
  flag \<open>finalizing\<close> as it was.
\<close>

theorem last_drop_resurrected:
  assumes "drop_inv {} ps W w" and "w_boxes w p = Some b" "v_rc (view (b_cm b)) = 1" "b_elem b = Some v" "\<not> v_fin (view (b_cm b))"
    and "forM (finalize_val v) (uc_finalize uc) (finalizing_world p w) = Done () u" and "drop_inv {} qs V u"
    and "w_boxes u p = Some c" "1 < v_rc (view (b_cm c))" "v_rc (view (b_cm c)) < 16383" "v_tc (view (b_cm c)) < 16383"
  shows "\<exists>w' d. cc_drop uc (Suc n) p w = Done () w' \<and> w_boxes w' p = Some d \<and> b_elem d = b_elem c \<and>
    v_rc (view (b_cm d)) + 1 = v_rc (view (b_cm c)) \<and> v_mark (view (b_cm d)) = PossibleCycles \<and>
    dom (w_boxes w') = dom (w_boxes u) \<and> st_finalizing (w_state w') = st_finalizing (w_state w)"
proof -
  from handle_shared [OF assms(7,8,10) _ assms(9,11)] obtain v' rs where
    1: "handle_possible_cycle p u = Done () v'" "drop_inv {} rs V v'" "lowered {} ((\<lambda>_. 0)(p := 1)) u v'" "p \<in> set rs" by auto
  let ?w = "finalized_world w v'"
  have "\<not> in_collector b" using drop_invD(6) [OF assms(1,2)] by simp
  from cc_drop_halves [OF assms(2,3) this drop_invD(3) [OF assms(1)], of uc n]
    finalize_last_run(2) [OF assms(2,4,5,6,8,10) _ 1(1)] assms(9)
  have run: "cc_drop uc (Suc n) p w = Done () ?w" by (simp add: bindM_def del: cc_drop.simps)
  from loweredD [OF 1(3) assms(8)] obtain d where d: "w_boxes v' p = Some d" "box_lowered 1 c d" by auto
  have "v_mark (view (b_cm d)) = PossibleCycles" using buffered_mark [OF drop_invD(1) [OF 1(2)] d(1)] 1(4) by simp
  moreover have "dom (w_boxes v') = dom (w_boxes u)" by (rule lowered_dom [OF 1(3)])
  moreover have "w_boxes ?w = w_boxes v'" "st_finalizing (w_state ?w) = st_finalizing (w_state w)"
    by (simp_all add: finalized_world_def set_finalizing_def)
  ultimately show ?thesis using run d by (intro exI [of _ ?w] exI [of _ d]) (simp add: box_lowered_def del: cc_drop.simps)
qed

theorem last_drop_resurrected_witness:
  "\<exists>w d. cc_drop keep_code (Suc 0) 50 rx_world = Done () w \<and> w_boxes w 50 = Some d \<and> b_elem d = Some rx_value \<and>
    v_mark (view (b_cm d)) = PossibleCycles"
proof -
  from rx_finalized obtain u qs c where
    u: "forM (finalize_val rx_value) (uc_finalize keep_code) (finalizing_world 50 rx_world) = Done () u" "drop_inv {} qs {#} u"
    "w_boxes u 50 = Some c" "1 < v_rc (view (b_cm c))" "v_rc (view (b_cm c)) < 16383" "v_tc (view (b_cm c)) < 16383"
    "b_elem c = Some rx_value" by blast
  from last_drop_resurrected [OF rx_drop_inv rx_facts u(1-6), of 0] u(7) show ?thesis by (auto simp del: cc_drop.simps)
qed

text \<open>
  C21: \<open>try_unwrap\<close> of the only reference outside of the collector's phases moves the value out and
  frees the box; the other boxes keep their values and counters, the weak pointers to it are dead.
\<close>

theorem try_unwrap_moves_out:
  assumes "drop_inv {} ps W w" "w_boxes w p = Some b" "v_rc (view (b_cm b)) = 1" "b_elem b = Some v"
    and "\<not> st_collecting (w_state w)" "\<not> st_dropping (w_state w)" "\<not> st_finalizing (w_state w)"
    and "size_of w p \<le> unat (st_allocated_bytes (w_state w))"
  shows "\<exists>w'. try_unwrap p w = Done (Inr v) w' \<and> weak_inv W w' \<and> w_boxes w' p = None \<and>
    (\<forall>q. q \<noteq> p \<longrightarrow> rel_option (box_lowered 0) (w_boxes w q) (w_boxes w' q)) \<and> buffered (remove1 p ps) w' \<and>
    unat (st_allocated_bytes (w_state w')) + size_of w p = unat (st_allocated_bytes (w_state w)) \<and>
    (\<forall>k \<in># W. wk_cc k = p \<longrightarrow> \<not> upgradable k w')"
  by (rule try_unwrap_ok [OF assms])

theorem try_unwrap_moves_out_witness:
  "\<exists>w'. try_unwrap 10 (wx_world 32769) = Done (Inr PlainT) w' \<and> weak_inv {#wx_weak#} w' \<and> w_boxes w' 10 = None \<and>
    buffered [] w' \<and> \<not> upgradable wx_weak w'"
proof -
  have b: "w_boxes (wx_world 32769) 10 = Some wx_box" by (simp add: wx_world_def)
  have "\<exists>w'. try_unwrap 10 (wx_world 32769) = Done (Inr PlainT) w' \<and> weak_inv {#wx_weak#} w' \<and> w_boxes w' 10 = None \<and>
    (\<forall>q. q \<noteq> 10 \<longrightarrow> rel_option (box_lowered 0) (w_boxes (wx_world 32769) q) (w_boxes w' q)) \<and> buffered (remove1 10 []) w' \<and>
    unat (st_allocated_bytes (w_state w')) + size_of (wx_world 32769) 10 = unat (st_allocated_bytes (w_state (wx_world 32769))) \<and>
    (\<forall>k \<in># {#wx_weak#}. wk_cc k = 10 \<longrightarrow> \<not> upgradable k w')"
    by (rule try_unwrap_moves_out [OF wx_drop_inv b]) (simp_all add: wx_world_def state_new_def size_of_def)
  then show ?thesis by (auto simp: wx_weak_def)
qed

section \<open>Weak pointers\<close>

text \<open>
  C22: Freeing a box that weak pointers point to: the bytes are given back, the metadata is released
  with the box or left to the weak pointers, which stay valid, and none of them can be upgraded.
\<close>

theorem weak_survives_box:
  assumes "weak_inv W w" "w_boxes w p = Some b" "unat layout \<le> unat (st_allocated_bytes (w_state w))"
  shows "\<exists>M w'. thenM (drop_metadata p) (cc_dealloc p layout) w = Done () w' \<and> weak_inv W w' \<and>
    w' = w\<lparr>w_meta := M, w_state := (w_state w)\<lparr>st_allocated_bytes := st_allocated_bytes (w_state w) - layout\<rparr>,
           w_boxes := (w_boxes w)(p := None)\<rparr> \<and> metas_kept (w_meta w) M \<and> (\<forall>k \<in># W. wk_cc k = p \<longrightarrow> \<not> upgradable k w')"
  by (rule free_box_ok [OF assms])

theorem weak_survives_box_witness:
  "\<exists>w'. thenM (drop_metadata 10) (cc_dealloc 10 64) (wx_world 32769) = Done () w' \<and> weak_inv {#wx_weak#} w' \<and>
    w_boxes w' = Map.empty \<and> \<not> upgradable wx_weak w'"
proof -
  have "weak_inv {#wx_weak#} (wx_world 32769)" using wx_weak_inv [OF wx_wview(1)] by simp
  from weak_survives_box [OF this, of 10 wx_box 64] show ?thesis by (auto simp: wx_world_def state_new_def wx_weak_def)
qed

text \<open>
  C23: \<open>Weak::upgrade\<close> gives a \<open>Cc\<close> exactly if the box is there, alive and not about to be destroyed;
  then the box counts one more reference and leaves the buffer, otherwise nothing changes.
\<close>

theorem upgrade_correct:
  assumes "weak_inv W w" "k \<in># W" "rc_bounded k w" "calm w" "buffered ps w"
    and "\<forall>b. w_boxes w (wk_cc k) = Some b \<longrightarrow> v_rc (view (b_cm b)) < 16382"
  shows "if upgradable k w then \<exists>w' b b'. weak_upgrade k w = Done (Some (wk_cc k)) w' \<and> weak_inv W w' \<and>
      buffered (remove1 (wk_cc k) ps) w' \<and> w_boxes w (wk_cc k) = Some b \<and> w_boxes w' (wk_cc k) = Some b' \<and>
      v_rc (view (b_cm b')) = v_rc (view (b_cm b)) + 1
    else weak_upgrade k w = Done None w"
proof (cases "upgradable k w")
  case True
  then obtain b where b: "w_boxes w (wk_cc k) = Some b" by (auto simp: upgradable_def split: option.splits)
  from weak_upgrade_some [OF assms(1-4) True assms(5) b] assms(6) b True show ?thesis by auto
next
  case False
  with weak_upgrade_none [OF assms(1-4)] show ?thesis by simp
qed

theorem upgrade_correct_witness:
  "\<exists>w' b'. weak_upgrade wx_weak (wx_world 32769) = Done (Some 10) w' \<and> w_boxes w' 10 = Some b' \<and> v_rc (view (b_cm b')) = 2"
proof -
  have inv: "weak_inv {#wx_weak#} (wx_world 32769)" using wx_weak_inv [OF wx_wview(1)] by simp
  have "upgradable wx_weak (wx_world 32769)"
    by (simp add: upgradable_def wx_world_def wx_weak_def wx_wview)
  moreover have "rc_bounded wx_weak (wx_world 32769)" by (simp add: rc_bounded_def wx_world_def wx_weak_def)
  ultimately show ?thesis
    using upgrade_correct [OF inv _ _ wx_calm wx_buffered] by (auto simp: wx_world_def wx_weak_def)
qed

text \<open>
  C24: Cloning a \<open>Weak\<close> and dropping the clone gives back a world with the same weak pointers, in
  which the weak counters are the numbers of weak pointers.
\<close>

theorem weak_clone_drop:
  assumes "weak_inv W w" "k \<in># W" "wk_metadata k = Some m" "calm w" "size (to_meta m W) < 32767"
  shows "\<exists>w1 w2. weak_clone k w = Done k w1 \<and> weak_inv (add_mset k W) w1 \<and> weak_drop k w1 = Done () w2 \<and> weak_inv W w2"
proof -
  from weak_clone_ok [OF assms] obtain w1 where 1: "weak_clone k w = Done k w1" "weak_inv (add_mset k W) w1" by blast
  from weak_drop_ok [OF 1(2), of k] 1 show ?thesis by auto
qed

theorem weak_clone_drop_witness:
  "\<exists>w1 w2. weak_clone wx_weak (wx_world 32769) = Done wx_weak w1 \<and> weak_drop wx_weak w1 = Done () w2 \<and> weak_inv {#wx_weak#} w2"
proof -
  have "weak_inv {#wx_weak#} (wx_world 32769)" using wx_weak_inv [OF wx_wview(1)] by simp
  from weak_clone_drop [OF this _ _ wx_calm, of wx_weak 1] show ?thesis by (auto simp: wx_weak_def)
qed

section \<open>Self-referential boxes\<close>

text \<open>
  C25: \<open>Cc::new_cyclic\<close> does what other calls do. In every safe state, with a closure that clones its weak
  pointer any number of times below the limit of the counter and makes a value of the clones and of
  references of the program, \<open>new_cyclic\<close> returns a \<open>Cc\<close> to a box with that value, and it ends in the
  world in which a program ends that creates a box with an empty value, downgrades it, clones the weak
  pointer, puts the value into the box and drops the weak pointer. So the box without a value and with
  a counter of zero, which exists while the closure runs, cannot be seen afterwards. If the closure
  panics after it has made its clones, the panic goes on and nothing but the automatic collection that
  \<open>Cc::new\<close> may have run has changed the world: the box, its metadata and its bytes are given back.
\<close>

theorem new_cyclic_like_calls:
  assumes "safe F H w" and "fresh_allocator al" and "keeps_sound F uc" and "permitted F (NewCyclicCall layout j g) H w"
    and "card (dom (w_boxes w)) < n"
  shows "(\<forall>h. (\<forall>k. g k = Some (h k)) \<longrightarrow> new_cyclic fl uc n al layout (cloning_closure j g) w = new_cyclic_calls fl uc n al layout j h w \<and>
      (\<exists>p w'. new_cyclic fl uc n al layout (cloning_closure j g) w = Done p w' \<and> vals_of w' p = Some (h (weak_of w' p)))) \<and>
    ((\<forall>k. g k = None) \<longrightarrow>
      new_cyclic fl uc n al layout (cloning_closure j g) w = thenM (trigger_collection fl uc n) (panicM closure_panic) w)"
proof -
  from assms(1) obtain ps W where so: "sound F {} {} (h_ccs H) (h_weaks H) ps W w" and i: "idle w" unfolding safe_def by blast
  from new_cyclic_call(2-4) [OF assms(3) so i assms(4,2,5)] show ?thesis by blast
qed

theorem new_cyclic_like_calls_witness:
  "(\<exists>p w. new_cyclic ex_f64 keep_code 1 ex_alloc 64 (cloning_closure 1 (\<lambda>k. Some (self_weak k))) thread_world = Done p w \<and>
     new_cyclic_calls ex_f64 keep_code 1 ex_alloc 64 1 self_weak thread_world = Done p w \<and> vals_of w p = Some (self_weak (weak_of w p))) \<and>
   new_cyclic ex_f64 keep_code 1 ex_alloc 64 (cloning_closure 1 (\<lambda>k. None)) thread_world
     = thenM (trigger_collection ex_f64 keep_code 1) (panicM closure_panic) thread_world"
proof -
  have "card (dom (w_boxes thread_world)) < 1" by (simp add: thread_world_def)
  note c = new_cyclic_like_calls [OF thread_safe ex_alloc_fresh keep_code_keeps _ this, of _ _ _ ex_f64]
  from c [OF thread_permits_cyclic] have "new_cyclic ex_f64 keep_code 1 ex_alloc 64 (cloning_closure 1 (\<lambda>k. Some (self_weak k))) thread_world =
      new_cyclic_calls ex_f64 keep_code 1 ex_alloc 64 1 self_weak thread_world"
    "\<exists>p w. new_cyclic ex_f64 keep_code 1 ex_alloc 64 (cloning_closure 1 (\<lambda>k. Some (self_weak k))) thread_world = Done p w \<and>
      vals_of w p = Some (self_weak (weak_of w p))" by blast+
  moreover from c [OF thread_permits_panic] have "new_cyclic ex_f64 keep_code 1 ex_alloc 64 (cloning_closure 1 (\<lambda>k. None)) thread_world
     = thenM (trigger_collection ex_f64 keep_code 1) (panicM closure_panic) thread_world" by blast
  ultimately show ?thesis by metis
qed

text \<open>
  C26: While the closure of \<open>new_cyclic\<close> runs, the box exists without a value, its counter is zero, and
  the weak pointer the closure was given cannot be upgraded.
\<close>

theorem closure_cannot_upgrade:
  assumes "gc_inv ps W w" "accounted W w" "quiet (w_boxes w) (set ps)"
    and "card (reach (w_boxes w) (set ps)) < Suc n" "unat (st_executions_counter (w_state w)) + 1 < 2 ^ 64"
    and "trigger_ready w" "\<not> is_tracing (w_state w)" "fresh_allocator al"
    and "card (dom (w_boxes w)) + 1 < 2 ^ 64" "unat (st_allocated_bytes (w_state w)) + unat layout < 2 ^ 64"
    and "finite (dom (w_meta w))"
  shows "\<exists>p k w2 b. new_cyclic_begin fl uc (Suc n) al layout w = Done (p, k) w2 \<and> wk_cc k = p \<and> w_boxes w2 p = Some b \<and>
    b_elem b = None \<and> v_rc (view (b_cm b)) = 0 \<and> weak_upgrade k w2 = Done None w2"
proof -
  from new_cyclic_begin_ok [OF assms, of fl uc] obtain p k V w2 b where
    1: "new_cyclic_begin fl uc (Suc n) al layout w = Done (p, k) w2" "wk_cc k = p" "weak_inv (add_mset k V) w2"
    "w_boxes w2 p = Some b" "b_elem b = None" "v_rc (view (b_cm b)) = 0" "calm w2" by blast
  have "weak_upgrade k w2 = Done None w2"
    by (rule counter_zero_no_upgrade [OF 1(3) _ _ 1(6,7)]) (use 1(2,4) in simp_all)
  with 1 show ?thesis by blast
qed

theorem closure_cannot_upgrade_witness:
  "\<exists>p k w2 b. new_cyclic_begin ex_f64 ex_code (Suc 4) ex_alloc 64 ex_world = Done (p, k) w2 \<and> wk_cc k = p \<and> w_boxes w2 p = Some b \<and>
    b_elem b = None \<and> v_rc (view (b_cm b)) = 0 \<and> weak_upgrade k w2 = Done None w2"
  by (rule closure_cannot_upgrade [OF ex_gc_inv ex_accounted ex_quiet ex_world_card ex_executions ex_trigger_ready _ ex_alloc_fresh])
    (simp_all add: ex_dom)

text \<open>
  C27: When the closure returns, the box gets the value and a counter of one, and the weak pointer is
  dropped; the closure may have done anything that keeps the counter of the box at zero.
\<close>

theorem new_cyclic_completes:
  assumes "new_cyclic_begin fl uc n al layout w = Done (p, k) w2" "f k w2 = Done v w3"
    and "weak_inv (add_mset k V) w3" "w_boxes w3 p = Some b" "v_rc (view (b_cm b)) = 0"
  shows "\<exists>w' M c. new_cyclic fl uc n al layout f w = Done p w' \<and> weak_inv V w' \<and>
    w' = w3\<lparr>w_boxes := (w_boxes w3)(p \<mapsto> c), w_meta := M\<rparr> \<and>
    b_elem c = Some v \<and> v_rc (view (b_cm c)) = 1 \<and> box_meta c = box_meta b"
  by (rule new_cyclic_returns [where f = f and ?w2.0 = w2 and ?w3.0 = w3 and k = k]) (rule assms)+

text \<open>The part before the closure, on the example.\<close>

lemma ex_cyclic_begin:
  "\<exists>p k V w2 b. new_cyclic_begin ex_f64 ex_code (Suc 4) ex_alloc 64 ex_world = Done (p, k) w2 \<and> weak_inv (add_mset k V) w2 \<and>
    w_boxes w2 p = Some b \<and> v_rc (view (b_cm b)) = 0 \<and> calm w2 \<and> size_of w2 p \<le> unat (st_allocated_bytes (w_state w2))"
proof -
  have "\<not> is_tracing (w_state ex_world)" "card (dom (w_boxes ex_world)) + 1 < 2 ^ 64"
    "unat (st_allocated_bytes (w_state ex_world)) + unat (64 :: usize) < 2 ^ 64" "finite (dom (w_meta ex_world))"
    by (simp_all add: ex_dom)
  from new_cyclic_begin_ok [OF ex_gc_inv ex_accounted ex_quiet ex_world_card ex_executions ex_trigger_ready this(1) ex_alloc_fresh
      this(2-4), of ex_f64 ex_code] show ?thesis by blast
qed

theorem new_cyclic_completes_witness:
  "\<exists>p w' c. new_cyclic ex_f64 ex_code (Suc 4) ex_alloc 64 (\<lambda>k. ret (WeakT (wk_metadata k) (wk_cc k))) ex_world = Done p w' \<and>
    w_boxes w' p = Some c \<and> v_rc (view (b_cm c)) = 1"
proof -
  from ex_cyclic_begin obtain p k V w2 b where
    1: "new_cyclic_begin ex_f64 ex_code (Suc 4) ex_alloc 64 ex_world = Done (p, k) w2" "weak_inv (add_mset k V) w2"
    "w_boxes w2 p = Some b" "v_rc (view (b_cm b)) = 0" by blast
  from new_cyclic_completes [where f = "\<lambda>k. ret (WeakT (wk_metadata k) (wk_cc k))" and ?w2.0 = w2 and ?w3.0 = w2 and k = k, OF 1(1) _ 1(2-4)]
  show ?thesis by fastforce
qed

text \<open>
  C28: When the closure panics, the box and its metadata are released and the panic goes on; the value
  was never written and is not dropped.
\<close>

theorem new_cyclic_panic_frees:
  assumes "new_cyclic_begin fl uc n al layout w = Done (p, k) w2" "f k w2 = Panicked e w3"
    and "weak_inv (add_mset k V) w3" "w_boxes w3 p = Some b" "w_state_alive w3"
    and "size_of w3 p \<le> unat (st_allocated_bytes (w_state w3))"
  shows "\<exists>w'. new_cyclic fl uc n al layout f w = Panicked e w' \<and> weak_inv V w' \<and> w_boxes w' = (w_boxes w3)(p := None) \<and>
    unat (st_allocated_bytes (w_state w')) + size_of w3 p = unat (st_allocated_bytes (w_state w3))"
  by (rule new_cyclic_panics [where f = f and ?w2.0 = w2 and ?w3.0 = w3 and k = k]) (rule assms)+

theorem new_cyclic_panic_frees_witness:
  "\<exists>p w'. new_cyclic ex_f64 ex_code (Suc 4) ex_alloc 64 (\<lambda>k. panicM (PanicMsg ''no'')) ex_world = Panicked (PanicMsg ''no'') w' \<and>
    w_boxes w' p = None"
proof -
  from ex_cyclic_begin obtain p k V w2 b where
    1: "new_cyclic_begin ex_f64 ex_code (Suc 4) ex_alloc 64 ex_world = Done (p, k) w2" "weak_inv (add_mset k V) w2"
    "w_boxes w2 p = Some b" "calm w2" "size_of w2 p \<le> unat (st_allocated_bytes (w_state w2))" by blast
  from 1(4) have "w_state_alive w2" by (simp add: calm_def)
  from new_cyclic_panic_frees [where f = "\<lambda>k. panicM (PanicMsg ''no'')" and ?w2.0 = w2 and ?w3.0 = w2 and k = k, OF 1(1) _ 1(2,3) this 1(5)]
  show ?thesis by auto
qed

text \<open>
  C29: When the collection that \<open>Cc::new\<close> starts inside \<open>new_cyclic\<close> panics, the behaviour is
  undefined: the wrapper is dropped before its value has been written.
\<close>

theorem new_cyclic_collection_panic_undefined:
  assumes "w_state_alive w" "\<not> is_tracing (w_state w)" "trigger_collection fl uc n w = Panicked e w'"
  shows "new_cyclic fl uc n al layout f w = UB"
  by (rule new_cyclic_collection_panics [OF assms])

theorem new_cyclic_collection_panic_undefined_witness:
  "new_cyclic ex_f64 ex_code (Suc 7) ex_alloc 64 (\<lambda>k. ret PlainT) px_world = UB"
  using px_trigger new_cyclic_collection_panic_undefined [of px_world] by (auto simp: px_world_def)

section \<open>Destructors and cleaners\<close>

text \<open>
  C30: Dropping the last \<open>Cc\<close> to a box whose value has destructors of its own, or is the map of a
  \<open>Cleaner\<close>: they run once, in the order of the drop glue, with \<open>dropping\<close> set and the box dead but
  still allocated, and then the box is freed, its bytes are given back and its weak pointers are dead,
  if they leave the box, the accounts and the weak pointers right.
\<close>

theorem last_drop_runs_destructors:
  assumes "drop_inv {} ps W w" "w_boxes w p = Some b" "v_rc (view (b_cm b)) = 1" "b_elem b = Some e"
    and "finalize_val e = []"
    and "\<And>v. destroying p ps W w v \<Longrightarrow> \<exists>v' V. drop_seq (drop_one uc n) (drop_glue e) v = Done () v' \<and> box_left p (size_of w p) V v'"
  shows "\<exists>v v' w' V. destroying p ps W w v \<and> drop_seq (drop_one uc n) (drop_glue e) v = Done () v' \<and>
    cc_drop uc (Suc n) p w = Done () w' \<and> w_boxes w' = (w_boxes v')(p := None) \<and> weak_inv V w' \<and>
    unat (st_allocated_bytes (w_state w')) + size_of w p = unat (st_allocated_bytes (w_state v')) \<and>
    (\<forall>k \<in># V. wk_cc k = p \<longrightarrow> \<not> upgradable k w')"
  by (rule cc_drop_last_user [OF assms])

theorem last_drop_runs_destructors_witness:
  "\<exists>v v' w'. st_dropping (w_state v) \<and> drop_seq (uc_action ex_code) [7] v = Done () v' \<and>
    cc_drop ex_code (Suc 1) 10 (mx_world Unborrowed) = Done () w' \<and> w_boxes w' = (w_boxes v')(10 := None)"
proof -
  let ?e = "CleanerMapT Unborrowed [8]"
  have vals: "drop_seq (drop_one ex_code 1) (drop_glue ?e) = drop_seq (uc_action ex_code) [7]"
    unfolding drop_map_glue by (simp add: ex_code_def ex_slotmap_def)
  have run: "drop_seq (drop_one ex_code 1) (drop_glue ?e) v = Done () v" for v
    unfolding vals by (simp add: ex_code_def)
  have left: "\<exists>v' V. drop_seq (drop_one ex_code 1) (drop_glue ?e) v = Done () v' \<and> box_left 10 (size_of (mx_world Unborrowed) 10) V v'"
    if d: "destroying 10 [] {#wx_weak#} (mx_world Unborrowed) v" for v
  proof -
    from d have "weak_inv {#wx_weak#} v" "w_boxes v 10 \<noteq> None"
      "st_allocated_bytes (w_state v) = st_allocated_bytes (w_state (mx_world Unborrowed))"
      by (auto simp: destroying_def set_dropping_def dest: drop_invD(2))
    then have "box_left 10 (size_of (mx_world Unborrowed) 10) {#wx_weak#} v"
      by (simp add: box_left_def size_of_def mx_box) (simp add: mx_world_def wx_world_def)
    with run show ?thesis by blast
  qed
  have b: "v_rc (view (b_cm (wx_box\<lparr>b_elem := Some ?e\<rparr>))) = 1" "b_elem (wx_box\<lparr>b_elem := Some ?e\<rparr>) = Some ?e"
    "finalize_val ?e = []" by (simp_all add: finalize_default_def)
  from last_drop_runs_destructors [OF mx_drop_inv mx_box b left] obtain v v' w' where
    "destroying 10 [] {#wx_weak#} (mx_world Unborrowed) v" "drop_seq (drop_one ex_code 1) (drop_glue ?e) v = Done () v'"
    "cc_drop ex_code (Suc 1) 10 (mx_world Unborrowed) = Done () w'" "w_boxes w' = (w_boxes v')(10 := None)" by blast
  moreover from this(1) have "st_dropping (w_state v)" by (auto simp: destroying_def set_dropping_def)
  ultimately show ?thesis unfolding vals by blast
qed

text \<open>
  C31: \<open>Cleaner::register\<close> on a new cleaner, with the collection that creating its map may run: the
  cleaner owns a map that holds just this action, the weak pointer of the \<open>Cleanable\<close> can be upgraded
  to the map's box, and the invariants hold with one weak pointer more.
\<close>

theorem first_register:
  assumes "gc_inv ps W w" "accounted W w" "quiet (w_boxes w) (set ps)"
    and "card (reach (w_boxes w) (set ps)) < Suc f" "unat (st_executions_counter (w_state w)) + 1 < 2 ^ 64"
    and "trigger_ready w" "\<not> is_tracing (w_state w)" "fresh_allocator al" "finite (dom (w_meta w))"
    and "card (dom (w_boxes w)) + 1 < 2 ^ 64" "unat (st_allocated_bytes (w_state w)) + unat layout < 2 ^ 64"
    and "sm_insert (uc_slotmap uc) a (sm_new (uc_slotmap uc)) = Some (key, m')"
  shows "\<exists>p k w' qs V. cleaner_register fl uc (Suc f) al layout a (cleaner_new, w)
      = Done \<lparr>cl_cleaner_map = k, cl_key = key\<rparr> (\<lparr>cleaner_map = Some p\<rparr>, w') \<and>
    wk_cc k = p \<and> drop_inv {} qs (add_mset k V) w' \<and> map_in w' p 1 Unborrowed m' \<and> upgradable k w'"
  by (rule register_fresh [OF assms])

theorem first_register_witness:
  "\<exists>p k w' qs V. cleaner_register ex_f64 ex_code (Suc 4) ex_alloc 64 7 (cleaner_new, ex_world)
      = Done \<lparr>cl_cleaner_map = k, cl_key = 0\<rparr> (\<lparr>cleaner_map = Some p\<rparr>, w') \<and>
    wk_cc k = p \<and> drop_inv {} qs (add_mset k V) w' \<and> map_in w' p 1 Unborrowed [8] \<and> upgradable k w'"
  by (rule first_register [OF ex_gc_inv ex_accounted ex_quiet ex_world_card ex_executions ex_trigger_ready _ ex_alloc_fresh])
    (simp_all add: ex_dom, simp add: ex_code_def ex_slotmap_def)

text \<open>
  C32: A cleaning action runs at most once. \<open>clean\<close> runs it exactly once, after it has taken it out of
  the map, and returns or panics as the action does; the map is free again and the temporary \<open>Cc\<close> is
  dropped. A second \<open>clean\<close> returns whatever the actions are, even if running one is undefined
  behaviour: it runs none.
\<close>

theorem clean_runs_once:
  assumes "slotmap_laws (uc_slotmap uc)" "drop_inv {} ps W w" "cl_cleaner_map this \<in># W" "upgradable (cl_cleaner_map this) w"
    and "wk_cc (cl_cleaner_map this) = p" "map_in w p n Unborrowed m" "n < 16382"
    and "sm_remove (uc_slotmap uc) (cl_key this) m = (Some a, m')"
    and "\<And>v. action_world uc this n m' ps W w v \<Longrightarrow> leaves_map uc a p m' v"
  shows "\<exists>v v' w' r qs V. action_world uc this n m' ps W w v \<and> uc_action uc a v = r v' \<and>
    clean uc (Suc f) this w = r w' \<and> (r = Done () \<or> (\<exists>e. r = Panicked e)) \<and>
    lowered {} ((\<lambda>_. 0)(p := 1)) (celled p Unborrowed m' v') w' \<and> drop_inv {} qs V w' \<and>
    (cl_cleaner_map this \<in># V \<longrightarrow> (\<forall>act. \<exists>w''. clean (uc\<lparr>uc_action := act\<rparr>) (Suc f) this w' = Done () w''))"
proof -
  from clean_runs [OF assms(2-9), of f] obtain v v' w' r qs V n' where
    1: "action_world uc this n m' ps W w v" "uc_action uc a v = r v'" "clean uc (Suc f) this w = r w'"
    "r = Done () \<or> (\<exists>e. r = Panicked e)" "lowered {} ((\<lambda>_. 0)(p := 1)) (celled p Unborrowed m' v') w'"
    "drop_inv {} qs V w'" "map_in w' p n' Unborrowed m'" "0 < n'" "n' < 16382" by blast
  have "\<exists>w''. clean (uc\<lparr>uc_action := act\<rparr>) (Suc f) this w' = Done () w''" if "cl_cleaner_map this \<in># V" for act
    by (rule clean_again [OF assms(1,8) 1(6) that assms(5) 1(7-9)])
  with 1(1-6) show ?thesis by blast
qed

theorem clean_runs_once_witness:
  "\<exists>v w'. map_in v 10 2 MutBorrow [0] \<and> uc_action ex_code 7 v = Done () v \<and> clean ex_code (Suc 0) mx_cleanable (mx_world Unborrowed) = Done () w'"
proof -
  have "slotmap_laws (uc_slotmap ex_code)" using ex_slotmap_laws by (simp add: ex_code_def)
  moreover have "cl_cleaner_map mx_cleanable \<in># {#wx_weak#}" "wk_cc (cl_cleaner_map mx_cleanable) = 10"
    by (simp_all add: mx_cleanable_def wx_weak_def)
  ultimately have "\<exists>v v' w' r qs V. action_world ex_code mx_cleanable 1 [0] [] {#wx_weak#} (mx_world Unborrowed) v \<and>
    uc_action ex_code 7 v = r v' \<and> clean ex_code (Suc 0) mx_cleanable (mx_world Unborrowed) = r w' \<and> (r = Done () \<or> (\<exists>e. r = Panicked e)) \<and>
    lowered {} ((\<lambda>_. 0)(10 := 1)) (celled 10 Unborrowed [0] v') w' \<and> drop_inv {} qs V w' \<and>
    (cl_cleaner_map mx_cleanable \<in># V \<longrightarrow> (\<forall>act. \<exists>w''. clean (ex_code\<lparr>uc_action := act\<rparr>) (Suc 0) mx_cleanable w' = Done () w''))"
    by (intro clean_runs_once [OF _ mx_drop_inv _ mx_upgradable _ mx_map _ mx_remove mx_leaves]) simp_all
  then obtain v v' w' r where
    1: "action_world ex_code mx_cleanable 1 [0] [] {#wx_weak#} (mx_world Unborrowed) v" "uc_action ex_code 7 v = r v'"
    "clean ex_code (Suc 0) mx_cleanable (mx_world Unborrowed) = r w'" "r = Done () \<or> (\<exists>e. r = Panicked e)" by blast
  have run: "uc_action ex_code 7 v = Done () v" by (simp add: ex_code_def)
  with 1(2,4) have "r = Done ()" by auto
  moreover have "map_in v 10 2 MutBorrow [0]"
    using 1(1) by (simp add: action_world_def Let_def mx_cleanable_def wx_weak_def numeral_2_eq_2)
  ultimately show ?thesis using 1(3) run by auto
qed

text \<open>
  C33: While the map is borrowed, which it is when one of its actions runs, \<open>clean\<close> on any \<open>Cleanable\<close>
  of the same cleaner returns and runs nothing: the counter of the map's box goes up and down again,
  and the box is buffered. \<open>register\<close> on the cleaner panics and changes nothing.
\<close>

theorem nested_clean_does_nothing:
  assumes "drop_inv {} ps W w" "cl_cleaner_map this \<in># W" "upgradable (cl_cleaner_map this) w"
    and "wk_cc (cl_cleaner_map this) = p" "map_in w p n flag m" "0 < n" "n < 16382" "flag \<noteq> Unborrowed"
    and "cleaner_map c = Some p"
  shows "(\<exists>w1 w' qs. clean uc (Suc f) this w = Done () w' \<and> drop_inv {} qs W w' \<and> set qs = insert p (set ps) \<and>
      map_in w' p n flag m \<and> lowered {} (\<lambda>_. 0) (raised p w) w1 \<and> lowered {} ((\<lambda>_. 0)(p := 1)) w1 w') \<and>
    cleaner_register fl uc f al layout a (c, w) = Panicked (PanicMsg ''already borrowed'') (c, w)"
  using clean_borrowed [OF assms(1-8), of uc f] register_borrowed [OF assms(9,5) drop_invD(3) [OF assms(1)] assms(8)] by blast

theorem nested_clean_does_nothing_witness:
  "(\<exists>w'. clean ex_code (Suc 0) mx_cleanable (mx_world MutBorrow) = Done () w' \<and> map_in w' 10 1 MutBorrow [8]) \<and>
    cleaner_register ex_f64 ex_code 0 ex_alloc 64 9 (\<lparr>cleaner_map = Some 10\<rparr>, mx_world MutBorrow)
      = Panicked (PanicMsg ''already borrowed'') (\<lparr>cleaner_map = Some 10\<rparr>, mx_world MutBorrow)"
proof -
  have k: "cl_cleaner_map mx_cleanable \<in># {#wx_weak#}" "wk_cc (cl_cleaner_map mx_cleanable) = 10"
    by (simp_all add: mx_cleanable_def wx_weak_def)
  have "0 < (1::nat)" "(1::nat) < 16382" "MutBorrow \<noteq> Unborrowed" "cleaner_map \<lparr>cleaner_map = Some 10\<rparr> = Some 10" by simp_all
  from nested_clean_does_nothing [where uc = ex_code and f = 0 and fl = ex_f64 and al = ex_alloc and layout = 64 and a = 9,
      OF mx_drop_inv k(1) mx_upgradable k(2) mx_map this]
  show ?thesis by blast
qed

section \<open>The trigger of automatic collections\<close>

text \<open>
  C34: \<open>adjust\<close> keeps the threshold at or above the default and puts it above the allocated bytes; it
  never grows it beyond twice that number and changes no other setting; without a threshold for the
  buffer no collection is due right afterwards. The comparison of floats and their arithmetic may be
  any functions.
\<close>

theorem adjust_bounds:
  assumes "DEFAULT_BYTES_THRESHOLD \<le> cf_bytes_threshold cf" "unat (st_allocated_bytes st) < 2 ^ 63"
  shows "\<exists>cf'. adjust fl st cf = Some cf' \<and> DEFAULT_BYTES_THRESHOLD \<le> cf_bytes_threshold cf'
    \<and> st_allocated_bytes st < cf_bytes_threshold cf' \<and> cf' = cf\<lparr>cf_bytes_threshold := cf_bytes_threshold cf'\<rparr>
    \<and> unat (cf_bytes_threshold cf') \<le> max (unat (cf_bytes_threshold cf)) (2 * unat (st_allocated_bytes st))
    \<and> (cf_buffered_threshold cf = None \<longrightarrow> \<not> should_collect cf' st n)"
  using adjust_ok [OF assms, of fl] should_collect_after_adjust [OF assms] by blast

theorem adjust_bounds_witness:
  "\<exists>cf'. adjust ex_f64 ex_gc_state (config_new ex_f64) = Some cf' \<and> 100 \<le> cf_bytes_threshold cf'
    \<and> 256 < cf_bytes_threshold cf' \<and> unat (cf_bytes_threshold cf') \<le> 512"
  using adjust_bounds [of "config_new ex_f64" ex_gc_state ex_f64]
  by (auto simp: config_new_def DEFAULT_BYTES_THRESHOLD_def)

text \<open>
  C35: The loop that doubles the threshold ends only if some doubling, as it wraps around, exceeds the
  allocated bytes: from the default threshold it runs for ever exactly from \<open>25 * 2 ^ 59\<close> bytes on.
\<close>

theorem threshold_loop_diverges:
  "(increase_loop a t = None \<longleftrightarrow> (\<forall>i. push_bit (Suc i) t \<le> a)) \<and>
   (increase_loop a DEFAULT_BYTES_THRESHOLD = None \<longleftrightarrow> 25 * 2 ^ 59 \<le> a)"
  by (intro conjI increase_loop_None_iff increase_loop_default)

section \<open>Lists and counters\<close>

text \<open>
  C36: \<open>LinkedQueue\<close> is a first-in first-out queue: adding puts a box at the end of the represented
  list and writes links only, so that all marks, counters, metadata and values stay; polling takes the first box,
  unlinks it and resets its mark to \<open>NonMarked\<close>, and nothing else of it; it changes the mark of no other box, and boxes that are not in the queue are
  not touched at all. Polling an empty queue finds nothing and changes nothing.
\<close>

theorem queue_fifo:
  assumes "lq_repr l h xs" "p \<notin> set xs" "isolated h p"
  shows "\<exists>l1 h1 l2 h2. lq_add p (l, h) = Done () (l1, h1) \<and> lq_repr l1 h1 (xs @ [p]) \<and>
    (\<forall>q. map_option payload (h1 q) = map_option payload (h q)) \<and>
    lq_poll (l1, h1) = Done (Some (hd (xs @ [p]))) (l2, h2) \<and> lq_repr l2 h2 (tl (xs @ [p])) \<and>
    isolated h2 (hd (xs @ [p])) \<and> mark_of h2 (hd (xs @ [p])) = NonMarked \<and>
    (\<forall>q. q \<noteq> hd (xs @ [p]) \<longrightarrow> map_option payload (h2 q) = map_option payload (h q)) \<and>
    map_option payload (h2 (hd (xs @ [p]))) =
      map_option (\<lambda>b. payload (b\<lparr>b_cm := mark NonMarked (b_cm b)\<rparr>)) (h (hd (xs @ [p]))) \<and>
    (\<forall>q. q \<notin> insert p (set xs) \<longrightarrow> h1 q = h q \<and> h2 q = h q) \<and>
    (xs = [] \<longrightarrow> lq_poll (l, h) = Done None (l, h))"
proof -
  from lq.add_ok [OF assms TrueI] obtain l1 h1 where
    1: "lq_add p (l, h) = Done () (l1, h1)" "lq_repr l1 h1 (xs @ [p])" "frame (insert p (set xs)) h h1"
    by (auto simp: snoc_def)
  obtain y ys where xs: "xs @ [p] = y # ys" by (cases xs) auto
  have S: "set (y # ys) = insert p (set xs)" using arg_cong [OF xs, of set] by auto
  from lq.take_cons [OF 1(2) [unfolded xs]] obtain l2 h2 where
    2: "lq_poll (l1, h1) = Done (Some y) (l2, h2)" "lq_repr l2 h2 ys" "isolated h2 y"
    "frame (insert p (set xs)) (set_marks {y} NonMarked h1) h2" unfolding S by blast
  have out: "h1 q = h q \<and> h2 q = h q" if "q \<notin> insert p (set xs)" for q
    using frame_out [OF 2(4) that] frame_out [OF 1(3) that] that S by (auto simp: set_marks_def)
  have f: "frame (insert p (set xs)) (set_marks {y} NonMarked h) h2"
    by (rule frame_trans_same [OF frame_set_marks [OF 1(3)] 2(4)])
  have y: "\<exists>b. h2 y = Some b" using 2(3) by (auto simp: isolated_def links_def)
  have m: "map_option payload (h2 y) = map_option (\<lambda>b. payload (b\<lparr>b_cm := mark NonMarked (b_cm b)\<rparr>)) (h y)"
    using frame_payload [OF f, of y] by (simp add: set_marks_def option.map_comp comp_def)
  have "mark_of h2 y = NonMarked"
    using y frame_cm [OF f, of y] by (cases "h y") (auto simp: set_marks_def mark_of_def view_mark)
  moreover have "map_option payload (h2 q) = map_option payload (h q)" if "q \<noteq> y" for q
    using frame_payload [OF f, of q] that by (simp add: set_marks_def)
  moreover have "xs = [] \<longrightarrow> lq_poll (l, h) = Done None (l, h)" using lq.take_nil assms(1) by blast
  ultimately show ?thesis using 1(1,2) 2(1-3) frame_payload [OF 1(3)] out m xs
    by (intro exI [of _ l1] exI [of _ h1] exI [of _ l2] exI [of _ h2]) simp
qed

theorem queue_fifo_witness:
  "mark_of ex_heap 10 = PossibleCycles \<and> (\<exists>l1 h1 l2 h2. lq_add 10 (lq_new, ex_heap) = Done () (l1, h1) \<and>
     mark_of h1 10 = PossibleCycles \<and> lq_poll (l1, h1) = Done (Some 10) (l2, h2) \<and> lq_repr l2 h2 [] \<and> mark_of h2 10 = NonMarked)"
proof -
  have "lq_repr lq_new ex_heap []" "isolated ex_heap 10"
    by (simp_all add: lq_repr_def lq_new_def isolated_def links_def ex_heap_def ex_box_def)
  from queue_fifo [OF this(1) _ this(2)] obtain l1 h1 l2 h2 where
    q: "lq_add 10 (lq_new, ex_heap) = Done () (l1, h1)" "map_option payload (h1 10) = map_option payload (ex_heap 10)"
    "lq_poll (l1, h1) = Done (Some 10) (l2, h2)" "lq_repr l2 h2 []" "mark_of h2 10 = NonMarked" by auto
  moreover have "mark_of ex_heap 10 = PossibleCycles" by (simp add: mark_of_def ex_heap_def ex_box_def ex_view)
  moreover from q(2) this have "mark_of h1 10 = PossibleCycles"
    by (cases "h1 10"; cases "ex_heap 10") (simp_all add: mark_of_def payload_def)
  ultimately show ?thesis by blast
qed

text \<open>
  C37: The two 16-bit words of a counter marker are the packed fields of a record: two markers with
  the same fields are the same words, and each write changes its own field only.
\<close>

theorem marker_words_are_fields:
  "(view a = view b \<longleftrightarrow> a = b) \<and> view (mark m cm) = (view cm)\<lparr>v_mark := m\<rparr> \<and>
   view (set_finalized x cm) = (view cm)\<lparr>v_fin := x\<rparr> \<and>
   view (set_allocated_for_metadata x cm) = (view cm)\<lparr>v_meta := x\<rparr> \<and>
   view (set_dropped x cm) = (view cm)\<lparr>v_tc := (if x then 16383 else 0)\<rparr> \<and>
   view (new_with_counter_to_one x) = \<lparr>v_mark = NonMarked, v_tc = 1, v_meta = False, v_fin = x, v_rc = 1\<rparr>"
  by (simp add: view_inject cm_upd)

text \<open>
  C38: Both counters of a marker saturate: any number of increments ends at most at 16382, with all
  other fields as they were, and no word wraps around.
\<close>

theorem counters_saturate:
  assumes "v_rc (view cm) < 16383" "v_tc (view cm) < 16383"
  shows "(\<exists>t. repeatM n increment_counter cm = Done () t \<and> view t = (view cm)\<lparr>v_rc := min 16382 (v_rc (view cm) + n)\<rparr>) \<and>
    (\<exists>t. repeatM n increment_tracing_counter cm = Done () t \<and> view t = (view cm)\<lparr>v_tc := min 16382 (v_tc (view cm) + n)\<rparr>)"
proof -
  from rc.repeat_inc [OF assms(1), of n] tc.repeat_inc [OF assms(2), of n] show ?thesis
    by (cases "view cm") (fastforce intro: cm_view.equality)
qed

theorem counters_saturate_witness:
  "\<exists>t. repeatM 20000 increment_counter (new_with_counter_to_one False) = Done () t \<and> v_rc (view t) = 16382"
  using counters_saturate [of "new_with_counter_to_one False" 20000] by (auto simp: cm_upd)

text \<open>
  C39: What a value reports when it is traced, it owns: the derived implementation and those for the
  standard types report every \<open>Cc\<close> at most as often as the value holds it, if the hand-written ones
  in it keep the contract of the trait.
\<close>

theorem traced_is_held:
  assumes "trace_contract v"
  shows "mset (called (trace_val v)) \<subseteq># mset (held v)"
  by (rule traced_subset_held [OF assms])

theorem traced_is_held_witness:
  "mset (called (trace_val (DeriveT False [(False, CcT 1), (True, CcT 2)] None))) \<subseteq>#
   mset (held (DeriveT False [(False, CcT 1), (True, CcT 2)] None))"
  by (rule traced_is_held) simp

text \<open>
  C40: The attributes of \<open>derive(Trace)\<close>. The macro accepts a type exactly when no attribute it looks at
  has anything in front of the name it looks for; then a derived \<open>trace\<close> visits, in their order, the
  fields without \<open>ignore\<close>, and nothing in an ignored variant of an enum. Otherwise it emits errors and
  aborts.
\<close>

theorem derive_attributes_decide:
  assumes "i < length (ta_variants t)"
  shows "if accepted parse t
    then \<exists>no_drop vs. derive_attributes parse t [] = Done (no_drop, vs) [] \<and> (no_drop \<longleftrightarrow> says_any parse UNSAFE_NO_DROP (ta_attrs t)) \<and>
      (case vs ! i of (ign, fs) \<Rightarrow> derive_trace_trait tr ign fs) =
      (if ta_is_enum t \<and> says_any parse IGNORE (va_attrs (ta_variants t ! i)) then []
       else concat [tr a. (attrs, a) \<leftarrow> va_fields (ta_variants t ! i), \<not> says_any parse IGNORE attrs])
    else \<exists>errs. errs \<noteq> [] \<and> derive_attributes parse t [] = Panicked (PanicMsg ''abort'') errs"
  using derived_trace_visits [OF _ assms, of parse tr] derive_accepts(2) [of parse t] derive_attributes_eval [of parse t] by auto

theorem derive_attributes_decide_witness:
  "\<exists>vs. derive_attributes (\<lambda>_. Inr [MetaPath [''ignore''], MetaPath [''typo'']])
     \<lparr>ta_attrs = [], ta_is_enum = False, ta_variants = [\<lparr>va_attrs = [], va_fields = [([], 5 :: nat), ([MetaList [''rust_cc''] ''''], 7)]\<rparr>]\<rparr> [] =
     Done (False, vs) [] \<and> (case vs ! 0 of (ign, fs) \<Rightarrow> derive_trace_trait (\<lambda>n. [CallCc n]) ign fs) = [CallCc 5]"
proof -
  let ?p = "\<lambda>_. Inr [MetaPath [''ignore''], MetaPath [''typo'']]"
  let ?t = "\<lparr>ta_attrs = [], ta_is_enum = False, ta_variants = [\<lparr>va_attrs = [], va_fields = [([], 5 :: nat), ([MetaList [''rust_cc''] ''''], 7)]\<rparr>]\<rparr>"
  have "accepted ?p ?t" by (simp add: accepted_def all_placed_def well_placed_def says_def IGNORE_def)
  with derive_attributes_decide [of 0 ?t ?p "\<lambda>n. [CallCc n]"] show ?thesis
    by (auto simp: says_any_def says_def IGNORE_def UNSAFE_NO_DROP_def)
qed

end
